(* ===== verification/Protocol_Types.thy ===== *)
theory Protocol_Types
  imports Rust_Prelude
begin

text \<open>
  The shared data of \<open>crates/protocol/src/lib.rs\<close>: the string-keyed enumerations with the
  \<open>as_str\<close> and \<open>parse\<close> functions the \<open>str_enum!\<close> macro generates for them, and the two
  rows the whole program exchanges, \<open>Symbol\<close> and \<open>Reference\<close>. Every enumeration is
  interpreted as a \<open>codec\<close>: the database key of a value parses back to it. A constructor whose
  name two enumerations share carries its enumeration's initials.
\<close>

section \<open>String-keyed enumerations\<close>

datatype language =
    Lang_Php | Lang_Python | Lang_C | Lang_Cpp | Lang_Java | Lang_Rust | Lang_JavaScript
  | Lang_TypeScript | Lang_Go

fun language_as_str :: "language \<Rightarrow> string" where
  "language_as_str Lang_Php = ''php''"
| "language_as_str Lang_Python = ''python''"
| "language_as_str Lang_C = ''c''"
| "language_as_str Lang_Cpp = ''cpp''"
| "language_as_str Lang_Java = ''java''"
| "language_as_str Lang_Rust = ''rust''"
| "language_as_str Lang_JavaScript = ''javascript''"
| "language_as_str Lang_TypeScript = ''typescript''"
| "language_as_str Lang_Go = ''go''"

definition language_parse :: "string \<Rightarrow> language option" where
  "language_parse s =
     (if s = ''php'' then Some Lang_Php
      else if s = ''python'' then Some Lang_Python
      else if s = ''c'' then Some Lang_C
      else if s = ''cpp'' \<or> s = ''c++'' \<or> s = ''cxx'' then Some Lang_Cpp
      else if s = ''java'' then Some Lang_Java
      else if s = ''rust'' then Some Lang_Rust
      else if s = ''javascript'' \<or> s = ''js'' then Some Lang_JavaScript
      else if s = ''typescript'' \<or> s = ''ts'' then Some Lang_TypeScript
      else if s = ''go'' then Some Lang_Go
      else None)"

datatype symbol_kind =
    SK_Function | SK_Method | SK_Class | SK_Trait | SK_Interface | SK_Struct | SK_Enum
  | SK_Constant | SK_Macro | SK_Module | SK_Namespace

fun symbol_kind_as_str :: "symbol_kind \<Rightarrow> string" where
  "symbol_kind_as_str SK_Function = ''function''"
| "symbol_kind_as_str SK_Method = ''method''"
| "symbol_kind_as_str SK_Class = ''class''"
| "symbol_kind_as_str SK_Trait = ''trait''"
| "symbol_kind_as_str SK_Interface = ''interface''"
| "symbol_kind_as_str SK_Struct = ''struct''"
| "symbol_kind_as_str SK_Enum = ''enum''"
| "symbol_kind_as_str SK_Constant = ''constant''"
| "symbol_kind_as_str SK_Macro = ''macro''"
| "symbol_kind_as_str SK_Module = ''module''"
| "symbol_kind_as_str SK_Namespace = ''namespace''"

definition symbol_kind_parse :: "string \<Rightarrow> symbol_kind option" where
  "symbol_kind_parse s =
     (if s = ''function'' then Some SK_Function
      else if s = ''method'' then Some SK_Method
      else if s = ''class'' then Some SK_Class
      else if s = ''trait'' then Some SK_Trait
      else if s = ''interface'' then Some SK_Interface
      else if s = ''struct'' then Some SK_Struct
      else if s = ''enum'' then Some SK_Enum
      else if s = ''constant'' then Some SK_Constant
      else if s = ''macro'' then Some SK_Macro
      else if s = ''module'' then Some SK_Module
      else if s = ''namespace'' then Some SK_Namespace
      else None)"

datatype visibility =
    Vis_Public | Vis_Private | Vis_Protected | Vis_Crate | Vis_Module | Vis_File

fun visibility_as_str :: "visibility \<Rightarrow> string" where
  "visibility_as_str Vis_Public = ''public''"
| "visibility_as_str Vis_Private = ''private''"
| "visibility_as_str Vis_Protected = ''protected''"
| "visibility_as_str Vis_Crate = ''crate''"
| "visibility_as_str Vis_Module = ''module''"
| "visibility_as_str Vis_File = ''file''"

definition visibility_parse :: "string \<Rightarrow> visibility option" where
  "visibility_parse s =
     (if s = ''public'' then Some Vis_Public
      else if s = ''private'' then Some Vis_Private
      else if s = ''protected'' then Some Vis_Protected
      else if s = ''crate'' then Some Vis_Crate
      else if s = ''module'' then Some Vis_Module
      else if s = ''file'' then Some Vis_File
      else None)"

datatype trust_boundary =
    TB_Network | TB_Filesystem | TB_ProcessExec | TB_Secrets | TB_Database | TB_UserInput
  | TB_ExternalApi | TB_Serialization | TB_Auth | TB_Concurrency

fun trust_boundary_as_str :: "trust_boundary \<Rightarrow> string" where
  "trust_boundary_as_str TB_Network = ''network''"
| "trust_boundary_as_str TB_Filesystem = ''filesystem''"
| "trust_boundary_as_str TB_ProcessExec = ''process-exec''"
| "trust_boundary_as_str TB_Secrets = ''secrets''"
| "trust_boundary_as_str TB_Database = ''database''"
| "trust_boundary_as_str TB_UserInput = ''user-input''"
| "trust_boundary_as_str TB_ExternalApi = ''external-api''"
| "trust_boundary_as_str TB_Serialization = ''serialization''"
| "trust_boundary_as_str TB_Auth = ''auth''"
| "trust_boundary_as_str TB_Concurrency = ''concurrency''"

definition trust_boundary_parse :: "string \<Rightarrow> trust_boundary option" where
  "trust_boundary_parse s =
     (if s = ''network'' then Some TB_Network
      else if s = ''filesystem'' then Some TB_Filesystem
      else if s = ''process-exec'' then Some TB_ProcessExec
      else if s = ''secrets'' then Some TB_Secrets
      else if s = ''database'' then Some TB_Database
      else if s = ''user-input'' then Some TB_UserInput
      else if s = ''external-api'' then Some TB_ExternalApi
      else if s = ''serialization'' then Some TB_Serialization
      else if s = ''auth'' then Some TB_Auth
      else if s = ''concurrency'' then Some TB_Concurrency
      else None)"

datatype reference_kind =
    RK_Import | RK_Include | RK_Call | RK_Instantiation | RK_Inheritance | RK_TraitUse
  | RK_TypeHint | RK_RouteHandler | RK_ImportBinding

fun reference_kind_as_str :: "reference_kind \<Rightarrow> string" where
  "reference_kind_as_str RK_Import = ''import''"
| "reference_kind_as_str RK_Include = ''include''"
| "reference_kind_as_str RK_Call = ''call''"
| "reference_kind_as_str RK_Instantiation = ''instantiation''"
| "reference_kind_as_str RK_Inheritance = ''inheritance''"
| "reference_kind_as_str RK_TraitUse = ''trait_use''"
| "reference_kind_as_str RK_TypeHint = ''type_hint''"
| "reference_kind_as_str RK_RouteHandler = ''route_handler''"
| "reference_kind_as_str RK_ImportBinding = ''import_binding''"

definition reference_kind_parse :: "string \<Rightarrow> reference_kind option" where
  "reference_kind_parse s =
     (if s = ''import'' then Some RK_Import
      else if s = ''include'' then Some RK_Include
      else if s = ''call'' then Some RK_Call
      else if s = ''instantiation'' then Some RK_Instantiation
      else if s = ''inheritance'' then Some RK_Inheritance
      else if s = ''trait_use'' then Some RK_TraitUse
      else if s = ''type_hint'' then Some RK_TypeHint
      else if s = ''route_handler'' then Some RK_RouteHandler
      else if s = ''import_binding'' then Some RK_ImportBinding
      else None)"

datatype rationale_kind = Rat_Why | Rat_Note | Rat_Important | Rat_Fixme | Rat_Hack | Rat_Xxx | Rat_Todo

fun rationale_kind_as_str :: "rationale_kind \<Rightarrow> string" where
  "rationale_kind_as_str Rat_Why = ''why''"
| "rationale_kind_as_str Rat_Note = ''note''"
| "rationale_kind_as_str Rat_Important = ''important''"
| "rationale_kind_as_str Rat_Fixme = ''fixme''"
| "rationale_kind_as_str Rat_Hack = ''hack''"
| "rationale_kind_as_str Rat_Xxx = ''xxx''"
| "rationale_kind_as_str Rat_Todo = ''todo''"

text \<open>\<open>str::to_ascii_uppercase\<close>: bytes outside \<open>a..z\<close> are kept.\<close>

definition ascii_upper :: "char \<Rightarrow> char" where
  "ascii_upper c =
     (if 97 \<le> (of_char c :: nat) \<and> (of_char c :: nat) \<le> 122
      then char_of ((of_char c :: nat) - 32) else c)"

definition from_marker :: "string \<Rightarrow> rationale_kind option" where
  "from_marker marker =
     (let m = map ascii_upper marker
      in
      if m = ''WHY'' then Some Rat_Why
      else if m = ''NOTE'' then Some Rat_Note
      else if m = ''IMPORTANT'' then Some Rat_Important
      else if m = ''FIXME'' then Some Rat_Fixme
      else if m = ''HACK'' then Some Rat_Hack
      else if m = ''XXX'' then Some Rat_Xxx
      else if m = ''TODO'' then Some Rat_Todo
      else None)"

section \<open>Symbols and references\<close>

record rationale_entry =
  re_kind :: rationale_kind
  re_text :: string
  re_line_start :: u32
  re_line_end :: u32

record arity =
  ar_minimum :: nat
  ar_maximum :: "nat option"

record parameter =
  p_declaration :: string
  p_name :: "string option"
  p_type_name :: "string option"
  p_default_value :: "string option"
  p_optional :: bool
  p_variadic :: bool

record callable_signature =
  cs_declaration :: string
  cs_arity :: "arity option"
  cs_parameters :: "parameter list"
  cs_returns :: "string option"

text \<open>A field carries its struct's initials, since HOL record selectors are global names.\<close>

record symbol =
  sym_name :: string
  sym_qualified_name :: string
  sym_kind :: symbol_kind
  sym_file_path :: string
  sym_line_start :: u32
  sym_line_end :: u32
  sym_col_start :: u32
  sym_col_end :: u32
  sym_rationale :: "rationale_entry list"
  sym_visibility :: "visibility option"
  sym_signature :: "callable_signature option"
  sym_is_test :: bool
  sym_overloaded :: bool

record reference =
  ref_from_file :: string
  ref_from_symbol :: "string option"
  ref_to_name :: string
  ref_kind :: reference_kind
  ref_line :: u32
  ref_col :: u32
  ref_lazy :: bool
  ref_is_test :: bool
  ref_to :: "string option"
  ref_from_line :: "u32 option"

section \<open>Every key parses back\<close>

lemma language_parse_as_str [simp]: "language_parse (language_as_str x) = Some x"
  by (cases x) (simp_all add: language_parse_def)

lemma symbol_kind_parse_as_str [simp]: "symbol_kind_parse (symbol_kind_as_str x) = Some x"
  by (cases x) (simp_all add: symbol_kind_parse_def)

lemma visibility_parse_as_str [simp]: "visibility_parse (visibility_as_str x) = Some x"
  by (cases x) (simp_all add: visibility_parse_def)

lemma trust_boundary_parse_as_str [simp]: "trust_boundary_parse (trust_boundary_as_str x) = Some x"
  by (cases x) (simp_all add: trust_boundary_parse_def)

lemma reference_kind_parse_as_str [simp]: "reference_kind_parse (reference_kind_as_str x) = Some x"
  by (cases x) (simp_all add: reference_kind_parse_def)

interpretation language_key: codec language_as_str language_parse "\<lambda>_. True"
  by unfold_locales simp

interpretation symbol_kind_key: codec symbol_kind_as_str symbol_kind_parse "\<lambda>_. True"
  by unfold_locales simp

interpretation visibility_key: codec visibility_as_str visibility_parse "\<lambda>_. True"
  by unfold_locales simp

interpretation trust_boundary_key: codec trust_boundary_as_str trust_boundary_parse "\<lambda>_. True"
  by unfold_locales simp

interpretation reference_kind_key: codec reference_kind_as_str reference_kind_parse "\<lambda>_. True"
  by unfold_locales simp

text \<open>
  A rationale marker is recognised whatever its letter case, and only the upper-case spelling of
  a database key is a marker.
\<close>

lemma from_marker_as_str [simp]: "from_marker (rationale_kind_as_str k) = Some k"
  by (induction k) code_simp+

interpretation rationale_key: codec rationale_kind_as_str from_marker "\<lambda>_. True"
  by unfold_locales simp

lemma ascii_upper_idem [simp]: "ascii_upper (ascii_upper c) = ascii_upper c"
  by (auto simp: ascii_upper_def)

lemma from_marker_case_insensitive: "from_marker (map ascii_upper m) = from_marker m"
  by (simp add: from_marker_def comp_def)

end
