(* ===== verification/Handle.thy ===== *)
theory Handle
  imports Protocol_Types
begin

text \<open>
  Entity handles, \<open>crates/protocol/src/handle.rs\<close>: the text form every emitted row carries
  (\<open>sym:\<close>, \<open>file:\<close>, \<open>dir:\<close>, \<open>chunk:\<close> and feature ids), its escaping rule, its parser and
  printer, and the overload marking that decides when a symbol handle carries its line. The
  printer and the parser form a \<open>strict_codec\<close> over the well-formed handles.
\<close>

section \<open>Handles\<close>

datatype handle =
    Symbol (h_path: string) (h_qualified: string) (h_line: "u32 option")
  | File string
  | Dir string
  | Chunk string u32 u32
  | Feature string

definition FEATURE_PREFIX :: string where
  "FEATURE_PREFIX = ''feat_''"

definition FEATURE_HEX_LEN :: nat where
  "FEATURE_HEX_LEN = 16"

fun escape_char :: "char \<Rightarrow> string" where
  "escape_char c =
     (if c = CHR ''%'' then ''%25''
      else if c = CHR ''#'' then ''%23''
      else if c = CHR ''@'' then ''%40''
      else [c])"

definition escape :: "string \<Rightarrow> string" where
  "escape component = concat (map escape_char component)"

text \<open>
  \<open>unescape\<close> copies up to the next \<open>%\<close>, decodes the three-byte sequence there if it is one of
  the three escapes and otherwise keeps the \<open>%\<close>.
\<close>

function unescape :: "string \<Rightarrow> string" where
  "unescape rest =
     (case split_once CHR ''%'' rest of
        None \<Rightarrow> rest
      | Some (before, after) \<Rightarrow>
          before @
          (if starts_with ''25'' after then CHR ''%'' # unescape (drop 2 after)
           else if starts_with ''23'' after then CHR ''#'' # unescape (drop 2 after)
           else if starts_with ''40'' after then CHR ''@'' # unescape (drop 2 after)
           else CHR ''%'' # unescape after))"
  by pat_completeness auto
termination
  by (relation "measure length") (auto simp: split_once_Some_iff)

declare unescape.simps [simp del]

text \<open>
  \<open>char::is_control\<close> holds for U+0000..U+001F and U+007F..U+009F. In UTF-8 the last 32 of these
  are the two-byte sequences \<open>C2 80\<close> to \<open>C2 9F\<close>.
\<close>

fun has_control :: "string \<Rightarrow> bool" where
  "has_control [] = False"
| "has_control (c # s) =
     ((of_char c :: nat) < 32 \<or> (of_char c :: nat) = 127
      \<or> ((of_char c :: nat) = 194 \<and> s \<noteq> [] \<and> 128 \<le> (of_char (hd s) :: nat) \<and> (of_char (hd s) :: nat) \<le> 159)
      \<or> has_control s)"

definition valid_path :: "string \<Rightarrow> bool" where
  "valid_path path \<longleftrightarrow>
     path \<noteq> [] \<and> \<not> starts_with ''/'' path \<and> CHR 0x5C \<notin> set path \<and> \<not> has_control path
     \<and> ''..'' \<notin> set (split_on CHR ''/'' path)"

text \<open>\<open>str::parse\<close> into a \<open>u32\<close> fails where the number does not fit.\<close>

definition parse_line :: "string \<Rightarrow> u32 option" where
  "parse_line digits =
     (if digits \<noteq> [] \<and> list_all is_ascii_digit digits
      then (if digits_val digits < 2 ^ 32 then Some (of_nat (digits_val digits)) else None)
      else None)"

section \<open>Constructors\<close>

definition handle_file :: "string \<Rightarrow> handle option" where
  "handle_file path = (if valid_path path then Some (File path) else None)"

definition handle_dir :: "string \<Rightarrow> handle option" where
  "handle_dir path = (if valid_path path then Some (Dir path) else None)"

fun handle_path :: "handle \<Rightarrow> string option" where
  "handle_path (Symbol path _ _) = Some path"
| "handle_path (File path) = Some path"
| "handle_path (Dir path) = Some path"
| "handle_path (Chunk path _ _) = Some path"
| "handle_path (Feature _) = None"

section \<open>Parsing\<close>

definition is_feature_hex :: "string \<Rightarrow> bool" where
  "is_feature_hex hex \<longleftrightarrow>
     length hex = FEATURE_HEX_LEN \<and>
     list_all (\<lambda>b. is_ascii_digit b \<or> 97 \<le> (of_char b :: nat) \<and> (of_char b :: nat) \<le> 102) hex"

definition parse_sym :: "string \<Rightarrow> handle option" where
  "parse_sym rest =
     (case split_once CHR ''#'' rest of
        None \<Rightarrow> None
      | Some (path, tail) \<Rightarrow>
          (case (case rsplit_once CHR ''@'' tail of
                   Some (qualified, digits) \<Rightarrow>
                     map_option (\<lambda>line. (qualified, Some line)) (parse_line digits)
                 | None \<Rightarrow> Some (tail, None)) of
             None \<Rightarrow> None
           | Some (qualified, line) \<Rightarrow>
               if CHR ''@'' \<in> set qualified then None
               else let path = unescape path; qualified = unescape qualified
                    in if valid_path path \<and> qualified \<noteq> [] then Some (Symbol path qualified line)
                       else None))"

definition parse_file :: "string \<Rightarrow> handle option" where
  "parse_file rest = (let path = unescape rest in if valid_path path then Some (File path) else None)"

definition parse_dir :: "string \<Rightarrow> handle option" where
  "parse_dir rest =
     (let trimmed = (case strip_suffix ''/'' rest of Some t \<Rightarrow> t | None \<Rightarrow> rest);
          path = unescape trimmed
      in if valid_path path then Some (Dir path) else None)"

definition parse_chunk :: "string \<Rightarrow> handle option" where
  "parse_chunk rest =
     (case rsplit_once CHR '':'' rest of
        None \<Rightarrow> None
      | Some (path, span) \<Rightarrow>
          (case split_once CHR ''-'' span of
             None \<Rightarrow> None
           | Some (s, e) \<Rightarrow>
               (case (parse_line s, parse_line e) of
                  (Some start, Some end') \<Rightarrow>
                    let path = unescape path
                    in if valid_path path \<and> start \<le> end' then Some (Chunk path start end') else None
                | _ \<Rightarrow> None)))"

definition handle_parse :: "string \<Rightarrow> handle option" where
  "handle_parse input =
     (case strip_prefix FEATURE_PREFIX input of
        Some hex \<Rightarrow> if is_feature_hex hex then Some (Feature input) else None
      | None \<Rightarrow>
          (case strip_prefix ''sym:'' input of
             Some rest \<Rightarrow> parse_sym rest
           | None \<Rightarrow>
               (case strip_prefix ''file:'' input of
                  Some rest \<Rightarrow> parse_file rest
                | None \<Rightarrow>
                    (case strip_prefix ''dir:'' input of
                       Some rest \<Rightarrow> parse_dir rest
                     | None \<Rightarrow>
                         (case strip_prefix ''chunk:'' input of
                            Some rest \<Rightarrow> parse_chunk rest
                          | None \<Rightarrow> None)))))"

section \<open>Printing\<close>

fun handle_to_string :: "handle \<Rightarrow> string" where
  "handle_to_string (Symbol path qualified line) =
     ''sym:'' @ escape path @ ''#'' @ escape qualified @
     (case line of Some l \<Rightarrow> ''@'' @ show_nat (unat l) | None \<Rightarrow> [])"
| "handle_to_string (File path) = ''file:'' @ escape path"
| "handle_to_string (Dir path) = ''dir:'' @ escape path"
| "handle_to_string (Chunk path start end') =
     ''chunk:'' @ escape path @ '':'' @ show_nat (unat start) @ ''-'' @ show_nat (unat end')"
| "handle_to_string (Feature i) = i"

section \<open>Overload marking\<close>

definition symbol_handle :: "symbol \<Rightarrow> handle" where
  "symbol_handle s =
     Symbol (sym_file_path s)
       (if sym_qualified_name s = [] then sym_name s else sym_qualified_name s)
       (if sym_overloaded s then Some (sym_line_start s) else None)"

definition from_handle :: "reference \<Rightarrow> handle option" where
  "from_handle r = map_option (\<lambda>q. Symbol (ref_from_file r) q (ref_from_line r)) (ref_from_symbol r)"

definition overload_key :: "symbol \<Rightarrow> string \<times> string" where
  "overload_key s = (sym_file_path s, sym_qualified_name s)"

text \<open>The counting pass over a map from key to occurrences.\<close>

fun count_keys :: "symbol list \<Rightarrow> (string \<times> string \<Rightarrow> nat) \<Rightarrow> (string \<times> string \<Rightarrow> nat)" where
  "count_keys [] counts = counts"
| "count_keys (s # ss) counts = count_keys ss (counts(overload_key s := counts (overload_key s) + 1))"

definition mark_overloads :: "symbol list \<Rightarrow> symbol list" where
  "mark_overloads symbols =
     (let counts = count_keys symbols (\<lambda>_. 0)
      in map (\<lambda>s. s\<lparr>sym_overloaded := counts (overload_key s) > 1\<rparr>) symbols)"

section \<open>Well-formed handles\<close>

text \<open>
  \<open>handle_ok\<close> is what the parser accepts and the checked constructors build. A directory handle
  whose path ends in a slash is accepted, but prints to a text that names the directory without
  it: \<open>handle_canonical\<close> is the handle a printed text reads back to.
\<close>

fun handle_ok :: "handle \<Rightarrow> bool" where
  "handle_ok (Symbol path qualified _) \<longleftrightarrow> valid_path path \<and> qualified \<noteq> []"
| "handle_ok (File path) \<longleftrightarrow> valid_path path"
| "handle_ok (Dir path) \<longleftrightarrow> valid_path path"
| "handle_ok (Chunk path start end') \<longleftrightarrow> valid_path path \<and> start \<le> end'"
| "handle_ok (Feature i) \<longleftrightarrow>
     (case strip_prefix FEATURE_PREFIX i of Some hex \<Rightarrow> is_feature_hex hex | None \<Rightarrow> False)"

fun handle_canonical :: "handle \<Rightarrow> handle" where
  "handle_canonical (Dir path) =
     Dir (case strip_suffix ''/'' path of Some t \<Rightarrow> t | None \<Rightarrow> path)"
| "handle_canonical h = h"

section \<open>Escaping\<close>

lemma unescape_Nil [simp]: "unescape [] = []"
  by (subst unescape.simps) simp

lemma unescape_Cons [simp]: "c \<noteq> CHR ''%'' \<Longrightarrow> unescape (c # s) = c # unescape s"
  by (subst (1 2) unescape.simps) (auto split: option.splits)

lemma unescape_escapes [simp]:
  "unescape (CHR ''%'' # CHR ''2'' # CHR ''5'' # s) = CHR ''%'' # unescape s"
  "unescape (CHR ''%'' # CHR ''2'' # CHR ''3'' # s) = CHR ''#'' # unescape s"
  "unescape (CHR ''%'' # CHR ''4'' # CHR ''0'' # s) = CHR ''@'' # unescape s"
  by (subst unescape.simps, simp)+

lemma escape_Nil [simp]: "escape [] = []"
  by (simp add: escape_def)

lemma escape_Cons [simp]: "escape (c # s) = escape_char c @ escape s"
  by (simp add: escape_def)

lemma unescape_escape [simp]: "unescape (escape s) = s"
  by (induction s) auto

interpretation escaped: codec escape "\<lambda>s. Some (unescape s)" "\<lambda>_. True"
  by unfold_locales simp

lemma escape_no_delimiter: "c = CHR ''#'' \<or> c = CHR ''@'' \<Longrightarrow> c \<notin> set (escape s)"
  by (induction s) auto

lemma escape_no_hash [simp]: "CHR ''#'' \<notin> set (escape s)"
  and escape_no_at [simp]: "CHR ''@'' \<notin> set (escape s)"
  by (simp_all add: escape_no_delimiter)

lemma escape_append: "escape (s @ t) = escape s @ escape t"
  by (simp add: escape_def)

lemma escape_last_slash: "ends_with ''/'' (escape s) \<longleftrightarrow> ends_with ''/'' s"
proof (cases s rule: rev_cases)
  case Nil
  then show ?thesis by simp
next
  case (snoc t c)
  then show ?thesis by (auto simp: escape_append ends_with_iff)
qed

lemma strip_suffix_slash_escape:
  "strip_suffix ''/'' (escape s) = map_option escape (strip_suffix ''/'' s)"
proof (cases "ends_with ''/'' s")
  case True
  then obtain t where "s = t @ ''/''" by (auto simp: ends_with_iff)
  then have "strip_suffix ''/'' s = Some t" "strip_suffix ''/'' (escape s) = Some (escape t)"
    by (simp_all add: strip_suffix_Some_iff escape_append)
  then show ?thesis by simp
next
  case False
  then show ?thesis by (simp add: strip_suffix_def escape_last_slash)
qed

section \<open>Lines\<close>

lemma parse_line_show [simp]: "parse_line (show_nat (unat (l :: u32))) = Some l"
proof -
  have "unat l < 2 ^ 32" using unsigned_less [of l] by simp
  then show ?thesis
    by (simp add: parse_line_def list_all_iff show_nat_digits)
qed

interpretation line_number: codec "\<lambda>l :: u32. show_nat (unat l)" parse_line "\<lambda>_. True"
  by unfold_locales simp

lemma parse_line_None: "\<not> list_all is_ascii_digit s \<Longrightarrow> parse_line s = None"
  by (simp add: parse_line_def)

lemma delimiters_not_in_show_nat [simp]:
  "CHR ''@'' \<notin> set (show_nat n)" "CHR '':'' \<notin> set (show_nat n)" "CHR ''-'' \<notin> set (show_nat n)"
  by (rule show_nat_no_char, simp add: is_ascii_digit_def)+

section \<open>Paths\<close>

lemma split_on_snoc_sep: "split_on c (s @ [c]) = split_on c s @ [[]]"
proof (induction s)
  case (Cons x xs)
  then show ?case by (cases "split_on c xs") auto
qed simp

lemma has_control_append: "has_control s \<Longrightarrow> has_control (s @ t)"
  by (induction s) (auto simp: hd_append)

lemma valid_path_strip_slash:
  assumes "valid_path (t @ ''/'')"
  shows "valid_path t"
proof -
  from assms have t: "t \<noteq> []" by (auto simp: valid_path_def)
  have "starts_with ''/'' (t @ ''/'') \<longleftrightarrow> starts_with ''/'' t"
    using t by (cases t) auto
  moreover have "has_control t \<Longrightarrow> has_control (t @ ''/'')"
    by (rule has_control_append)
  ultimately show ?thesis
    using assms t by (auto simp: valid_path_def split_on_snoc_sep)
qed

lemma handle_canonical_ok: "handle_ok h \<Longrightarrow> handle_ok (handle_canonical h)"
  by (cases h) (auto simp: strip_suffix_Some_iff valid_path_strip_slash split: option.splits)

lemma handle_canonical_id_iff:
  "handle_canonical h = h \<longleftrightarrow> (\<forall>path. h \<noteq> Dir (path @ ''/''))"
proof (cases h)
  case (Dir path)
  show ?thesis
  proof (cases "ends_with ''/'' path")
    case True
    with Dir show ?thesis by (auto simp: ends_with_iff)
  next
    case False
    with Dir have "handle_canonical h = h" by (simp add: strip_suffix_def)
    with Dir False show ?thesis by (auto simp: ends_with_iff)
  qed
qed auto

section \<open>Printing and parsing\<close>

lemma parse_sym_print:
  assumes "valid_path path" and "qualified \<noteq> []"
  shows "parse_sym (escape path @ CHR ''#'' # escape qualified @
           (case line of Some l \<Rightarrow> CHR ''@'' # show_nat (unat l) | None \<Rightarrow> [])) =
         Some (Symbol path qualified line)"
proof (cases line)
  case None
  have "rsplit_once CHR ''@'' (escape qualified) = None"
    by (simp add: rsplit_once_None_iff)
  with None assms show ?thesis by (simp add: parse_sym_def)
next
  case (Some l)
  with assms show ?thesis by (simp add: parse_sym_def)
qed

lemma parse_chunk_print:
  assumes "valid_path path" and "s \<le> e"
  shows "parse_chunk (escape path @ CHR '':'' # show_nat (unat s) @ CHR ''-'' # show_nat (unat e)) =
         Some (Chunk path s e)"
  using assms by (simp add: parse_chunk_def)

lemma parse_dir_print:
  assumes "valid_path path"
  shows "parse_dir (escape path) = Some (handle_canonical (Dir path))"
proof -
  have "valid_path (case strip_suffix ''/'' path of Some t \<Rightarrow> t | None \<Rightarrow> path)"
    using assms handle_canonical_ok [of "Dir path"] by simp
  then show ?thesis
    by (cases "strip_suffix ''/'' path") (simp_all add: parse_dir_def strip_suffix_slash_escape)
qed

lemma parse_feature_print:
  assumes "handle_ok (Feature i)"
  shows "handle_parse i = Some (Feature i)"
  using assms by (auto simp: handle_parse_def split: option.splits)

lemmas handle_print_simps =
  handle_parse_def FEATURE_PREFIX_def strip_prefix_Cons strip_prefix_Nil

lemma handle_parse_print:
  assumes "handle_ok h"
  shows "handle_parse (handle_to_string h) = Some (handle_canonical h)"
  using assms
proof (cases h)
  case (Symbol path qual ln)
  then show ?thesis using assms parse_sym_print [of path qual ln]
    by (cases ln) (simp_all add: handle_print_simps)
next
  case (Chunk path first last)
  then show ?thesis using assms by (simp add: handle_print_simps parse_chunk_print)
next
  case (Dir path)
  then show ?thesis using assms parse_dir_print [of path] by (simp add: handle_print_simps)
next
  case (Feature i)
  then show ?thesis using assms by (simp add: parse_feature_print)
qed (simp_all add: handle_print_simps parse_file_def)

lemma handle_parse_ok:
  assumes "handle_parse s = Some h"
  shows "handle_ok h"
  using assms
  by (auto simp: handle_parse_def parse_sym_def parse_file_def parse_dir_def parse_chunk_def Let_def
      split: option.splits if_splits prod.splits)

interpretation handle_text: codec handle_to_string handle_parse
  "\<lambda>h. handle_ok h \<and> handle_canonical h = h"
  by unfold_locales (simp add: handle_parse_print)

lemma valid_path_relative:
  assumes "valid_path p"
  shows "p \<noteq> [] \<and> hd p \<noteq> CHR ''/'' \<and> ''..'' \<notin> set (split_on CHR ''/'' p)"
  using assms by (cases p) (auto simp: valid_path_def)

section \<open>Overloads\<close>

lemma count_keys_eq:
  "count_keys ss counts k = counts k + length (filter (\<lambda>s. overload_key s = k) ss)"
  by (induction ss arbitrary: counts) auto

lemma length_mark_overloads [simp]: "length (mark_overloads ss) = length ss"
  by (simp add: mark_overloads_def Let_def)

lemma mark_overloads_nth:
  assumes "i < length ss"
  shows "mark_overloads ss ! i =
    (ss ! i)\<lparr>sym_overloaded := (\<exists>j < length ss. j \<noteq> i \<and> overload_key (ss ! j) = overload_key (ss ! i))\<rparr>"
proof -
  let ?k = "overload_key (ss ! i)"
  let ?I = "{j. j < length ss \<and> overload_key (ss ! j) = ?k}"
  have "length (filter (\<lambda>s. overload_key s = ?k) ss) = card ?I"
    by (simp add: length_filter_conv_card)
  moreover have "card ?I > 1 \<longleftrightarrow> (\<exists>j < length ss. j \<noteq> i \<and> overload_key (ss ! j) = ?k)"
  proof
    assume "card ?I > 1"
    then have "?I \<noteq> {i}" by (metis is_singletonI is_singleton_altdef less_irrefl)
    with assms show "\<exists>j < length ss. j \<noteq> i \<and> overload_key (ss ! j) = ?k" by blast
  next
    assume "\<exists>j < length ss. j \<noteq> i \<and> overload_key (ss ! j) = ?k"
    then obtain j where "{i, j} \<subseteq> ?I" "j \<noteq> i" using assms by auto
    moreover have "finite ?I" by simp
    ultimately have "card {i, j} \<le> card ?I" by (intro card_mono)
    with \<open>j \<noteq> i\<close> show "card ?I > 1" by simp
  qed
  ultimately have "count_keys ss (\<lambda>_. 0) ?k > 1 \<longleftrightarrow>
      (\<exists>j < length ss. j \<noteq> i \<and> overload_key (ss ! j) = ?k)"
    by (simp only: count_keys_eq add_0)
  then show ?thesis
    using assms by (simp only: mark_overloads_def Let_def nth_map)
qed

definition indexable :: "symbol \<Rightarrow> bool" where
  "indexable s \<longleftrightarrow> valid_path (sym_file_path s) \<and> sym_qualified_name s \<noteq> []"

lemma symbol_handle_text_eq_iff:
  assumes "indexable s" and "indexable t"
  shows "handle_to_string (symbol_handle s) = handle_to_string (symbol_handle t)
         \<longleftrightarrow> symbol_handle s = symbol_handle t"
  by (rule handle_text.enc_eq_iff) (use assms in \<open>simp_all add: symbol_handle_def indexable_def\<close>)

section \<open>Properties\<close>

text \<open>
  C9. Every handle the parser accepts or a checked constructor builds survives printing and
  parsing: the text reads back as the handle itself, except that a directory path loses one
  trailing slash; that is the only case in which the handle read back differs.
\<close>

theorem handle_text_round_trip:
  assumes "handle_ok h"
  shows "handle_parse (handle_to_string h) = Some (handle_canonical h)
    \<and> handle_ok (handle_canonical h)
    \<and> (handle_canonical h = h \<longleftrightarrow> (\<forall>path. h \<noteq> Dir (path @ ''/'')))"
  using assms by (simp add: handle_parse_print handle_canonical_ok handle_canonical_id_iff)

theorem handle_text_round_trip_witness:
  "handle_ok (Symbol ''src/a@b.rs'' ''A::b'' (Some 12))
   \<and> handle_parse (handle_to_string (Symbol ''src/a@b.rs'' ''A::b'' (Some 12))) =
     Some (Symbol ''src/a@b.rs'' ''A::b'' (Some 12))"
proof -
  have ok: "handle_ok (Symbol ''src/a@b.rs'' ''A::b'' (Some 12))" by code_simp
  from handle_text_round_trip [OF ok] ok show ?thesis by simp
qed

text \<open>
  C14. A handle that was read from untrusted text names something inside the repository: its path
  is relative, non-empty, free of backslashes and has no parent segment; a symbol handle has a
  name, a chunk handle an ordered range.
\<close>

theorem parsed_handle_inside_repository:
  assumes "handle_parse s = Some h"
  shows "handle_ok h \<and> (\<forall>p. handle_path h = Some p \<longrightarrow>
    p \<noteq> [] \<and> hd p \<noteq> CHR ''/'' \<and> CHR 0x5C \<notin> set p \<and> ''..'' \<notin> set (split_on CHR ''/'' p))"
proof -
  from assms have ok: "handle_ok h" by (rule handle_parse_ok)
  moreover have "valid_path p" if "handle_path h = Some p" for p
    using ok that by (cases h) auto
  moreover have "valid_path p \<Longrightarrow> CHR 0x5C \<notin> set p" for p
    by (simp add: valid_path_def)
  ultimately show ?thesis using valid_path_relative by blast
qed

theorem parsed_handle_inside_repository_witness:
  "handle_parse ''sym:src/a%40b.rs#A::b'' = Some (Symbol ''src/a@b.rs'' ''A::b'' None)
   \<and> ''..'' \<notin> set (split_on CHR ''/'' ''src/a@b.rs'')"
proof -
  have p: "handle_parse ''sym:src/a%40b.rs#A::b'' = Some (Symbol ''src/a@b.rs'' ''A::b'' None)"
    by code_simp
  from parsed_handle_inside_repository [OF p] p show ?thesis by (simp del: split_on.simps)
qed

text \<open>
  C15. Once a file's symbols are marked, the emitted handles tell its definitions apart: two
  definitions that differ in path, qualified name or start line never print the same handle.
\<close>

theorem marked_symbol_handles_distinct:
  assumes "\<forall>s \<in> set ss. indexable s"
    and "distinct (map (\<lambda>s. (sym_file_path s, sym_qualified_name s, sym_line_start s)) ss)"
  shows "distinct (map (\<lambda>s. handle_to_string (symbol_handle s)) (mark_overloads ss))"
proof (subst distinct_conv_nth, clarsimp)
  fix i j
  assume i: "i < length ss" and j: "j < length ss" and ij: "i \<noteq> j"
    and eq: "handle_to_string (symbol_handle (mark_overloads ss ! i)) =
             handle_to_string (symbol_handle (mark_overloads ss ! j))"
  have ix: "indexable (mark_overloads ss ! k)" if "k < length ss" for k
    using assms(1) that by (simp add: mark_overloads_nth indexable_def)
  from eq have h: "symbol_handle (mark_overloads ss ! i) = symbol_handle (mark_overloads ss ! j)"
    using symbol_handle_text_eq_iff ix i j by blast
  have q: "sym_qualified_name (ss ! k) \<noteq> []" if "k < length ss" for k
    using assms(1) that by (simp add: indexable_def)
  from h q [OF i] q [OF j] have k: "overload_key (ss ! i) = overload_key (ss ! j)"
    by (simp add: mark_overloads_nth i j symbol_handle_def overload_key_def)
  then have "sym_overloaded (mark_overloads ss ! i)" "sym_overloaded (mark_overloads ss ! j)"
    using i j ij by (auto simp: mark_overloads_nth)
  with h have "sym_line_start (ss ! i) = sym_line_start (ss ! j)"
    by (simp add: mark_overloads_nth i j symbol_handle_def)
  with k assms(2) i j ij show False
    by (auto simp: distinct_conv_nth overload_key_def)
qed

definition sample_symbol :: "string \<Rightarrow> u32 \<Rightarrow> symbol" where
  "sample_symbol q l =
     \<lparr>sym_name = q, sym_qualified_name = q, sym_kind = SK_Function, sym_file_path = ''a.cpp'',
      sym_line_start = l, sym_line_end = l, sym_col_start = 0, sym_col_end = 0,
      sym_rationale = [], sym_visibility = None, sym_signature = None,
      sym_is_test = False, sym_overloaded = False\<rparr>"

theorem marked_symbol_handles_distinct_witness:
  "map (\<lambda>s. handle_to_string (symbol_handle s))
     (mark_overloads [sample_symbol ''f'' 1, sample_symbol ''f'' 9, sample_symbol ''g'' 4]) =
   [''sym:a.cpp#f@1'', ''sym:a.cpp#f@9'', ''sym:a.cpp#g'']
   \<and> distinct (map (\<lambda>s. handle_to_string (symbol_handle s))
     (mark_overloads [sample_symbol ''f'' 1, sample_symbol ''f'' 9, sample_symbol ''g'' 4]))"
proof -
  have a: "\<forall>s \<in> set [sample_symbol ''f'' 1, sample_symbol ''f'' 9, sample_symbol ''g'' 4]. indexable s"
    by code_simp
  have b: "distinct (map (\<lambda>s. (sym_file_path s, sym_qualified_name s, sym_line_start s))
      [sample_symbol ''f'' 1, sample_symbol ''f'' 9, sample_symbol ''g'' 4])"
    by code_simp
  have c: "map (\<lambda>s. handle_to_string (symbol_handle s))
     (mark_overloads [sample_symbol ''f'' 1, sample_symbol ''f'' 9, sample_symbol ''g'' 4]) =
   [''sym:a.cpp#f@1'', ''sym:a.cpp#f@9'', ''sym:a.cpp#g'']"
    by code_simp
  show ?thesis using c marked_symbol_handles_distinct [OF a b] by simp
qed

end
