(* ===== verification/Symbol_Wire.thy ===== *)
theory Symbol_Wire
  imports Handle
begin

text \<open>
  The wire form of symbols and references (\<open>Serialize\<close> and \<open>Deserialize\<close> of \<open>Symbol\<close>,
  \<open>Serialize\<close> of \<open>Reference\<close>, \<open>crates/protocol/src/lib.rs\<close>). A wire record lists the fields
  of the JSON object; a field the serialiser may leave out is an option. The encoding of the
  object itself is serde's and is not modelled.
\<close>

section \<open>Symbols\<close>

record symbol_wire =
  sw_handle :: "string option"
  sw_name :: string
  sw_qualified_name :: "string option"
  sw_kind :: symbol_kind
  sw_file_path :: string
  sw_line_start :: u32
  sw_line_end :: u32
  sw_col_start :: "u32 option"
  sw_col_end :: "u32 option"
  sw_rationale :: "rationale_entry list option"
  sw_visibility :: "visibility option"
  sw_signature :: "callable_signature option"
  sw_is_test :: "bool option"

definition serialize_symbol :: "symbol \<Rightarrow> symbol_wire" where
  "serialize_symbol s =
     \<lparr>sw_handle = Some (handle_to_string (symbol_handle s)),
      sw_name = sym_name s,
      sw_qualified_name =
        (if sym_qualified_name s \<noteq> sym_name s then Some (sym_qualified_name s) else None),
      sw_kind = sym_kind s,
      sw_file_path = sym_file_path s,
      sw_line_start = sym_line_start s,
      sw_line_end = sym_line_end s,
      sw_col_start = None,
      sw_col_end = None,
      sw_rationale = (if sym_rationale s \<noteq> [] then Some (sym_rationale s) else None),
      sw_visibility = sym_visibility s,
      sw_signature = sym_signature s,
      sw_is_test = (if sym_is_test s then Some True else None)\<rparr>"

text \<open>The length the serialiser announces: six fixed fields and one per optional field emitted.\<close>

definition symbol_struct_len :: "symbol \<Rightarrow> nat" where
  "symbol_struct_len s =
     6 + of_bool (sym_qualified_name s \<noteq> sym_name s) + of_bool (sym_rationale s \<noteq> [])
       + of_bool (sym_visibility s \<noteq> None) + of_bool (sym_signature s \<noteq> None)
       + of_bool (sym_is_test s)"

definition emitted_fields :: "symbol_wire \<Rightarrow> nat" where
  "emitted_fields w =
     5 + of_bool (sw_handle w \<noteq> None) + of_bool (sw_qualified_name w \<noteq> None)
       + of_bool (sw_col_start w \<noteq> None) + of_bool (sw_col_end w \<noteq> None)
       + of_bool (sw_rationale w \<noteq> None) + of_bool (sw_visibility w \<noteq> None)
       + of_bool (sw_signature w \<noteq> None) + of_bool (sw_is_test w \<noteq> None)"

definition deserialize_symbol :: "symbol_wire \<Rightarrow> symbol" where
  "deserialize_symbol w =
     \<lparr>sym_name = sw_name w,
      sym_qualified_name = (case sw_qualified_name w of Some q \<Rightarrow> q | None \<Rightarrow> sw_name w),
      sym_kind = sw_kind w,
      sym_file_path = sw_file_path w,
      sym_line_start = sw_line_start w,
      sym_line_end = sw_line_end w,
      sym_col_start = (case sw_col_start w of Some c \<Rightarrow> c | None \<Rightarrow> 0),
      sym_col_end = (case sw_col_end w of Some c \<Rightarrow> c | None \<Rightarrow> 0),
      sym_rationale = (case sw_rationale w of Some r \<Rightarrow> r | None \<Rightarrow> []),
      sym_visibility = sw_visibility w,
      sym_signature = sw_signature w,
      sym_is_test = (case sw_is_test w of Some b \<Rightarrow> b | None \<Rightarrow> False),
      sym_overloaded =
        (case sw_handle w of
           None \<Rightarrow> False
         | Some h \<Rightarrow> (case handle_parse h of Some (Symbol _ _ (Some _)) \<Rightarrow> True | _ \<Rightarrow> False))\<rparr>"

section \<open>References\<close>

record reference_wire =
  rw_from_file :: string
  rw_from_symbol :: "string option"
  rw_from :: "string option"
  rw_to_name :: string
  rw_to :: "string option"
  rw_kind :: reference_kind
  rw_line :: u32
  rw_lazy :: "bool option"
  rw_is_test :: "bool option"

definition serialize_reference :: "reference \<Rightarrow> reference_wire" where
  "serialize_reference r =
     \<lparr>rw_from_file = ref_from_file r,
      rw_from_symbol = ref_from_symbol r,
      rw_from = map_option handle_to_string (from_handle r),
      rw_to_name = ref_to_name r,
      rw_to = ref_to r,
      rw_kind = ref_kind r,
      rw_line = ref_line r,
      rw_lazy = (if ref_lazy r then Some True else None),
      rw_is_test = (if ref_is_test r then Some True else None)\<rparr>"

text \<open>The derived \<open>Deserialize\<close>: \<open>from\<close> is ignored and skipped fields take their default.\<close>

definition deserialize_reference :: "reference_wire \<Rightarrow> reference" where
  "deserialize_reference w =
     \<lparr>ref_from_file = rw_from_file w,
      ref_from_symbol = rw_from_symbol w,
      ref_to_name = rw_to_name w,
      ref_kind = rw_kind w,
      ref_line = rw_line w,
      ref_col = 0,
      ref_lazy = (case rw_lazy w of Some b \<Rightarrow> b | None \<Rightarrow> False),
      ref_is_test = (case rw_is_test w of Some b \<Rightarrow> b | None \<Rightarrow> False),
      ref_to = rw_to w,
      ref_from_line = None\<rparr>"

section \<open>Lemmas\<close>

lemma handle_of_symbol_parses:
  assumes "valid_path (sym_file_path s)" and "sym_qualified_name s \<noteq> [] \<or> sym_name s \<noteq> []"
  shows "handle_parse (handle_to_string (symbol_handle s)) = Some (symbol_handle s)"
proof -
  from assms have "handle_ok (symbol_handle s)" by (auto simp: symbol_handle_def)
  then show ?thesis using handle_parse_print [of "symbol_handle s"] by (simp add: symbol_handle_def)
qed

lemma overloaded_from_handle:
  assumes "valid_path (sym_file_path s)" and "sym_qualified_name s \<noteq> [] \<or> sym_name s \<noteq> []"
  shows "(case handle_parse (handle_to_string (symbol_handle s)) of
            Some (Symbol _ _ (Some _)) \<Rightarrow> True | _ \<Rightarrow> False) = sym_overloaded s"
  by (subst handle_of_symbol_parses [OF assms]) (simp add: symbol_handle_def)

lemma symbol_round_trip:
  assumes "valid_path (sym_file_path s)" and "sym_qualified_name s \<noteq> [] \<or> sym_name s \<noteq> []"
  shows "deserialize_symbol (serialize_symbol s) = s\<lparr>sym_col_start := 0, sym_col_end := 0\<rparr>"
  using assms overloaded_from_handle [OF assms]
  by (simp add: deserialize_symbol_def serialize_symbol_def)

lemma emitted_fields_serialize [simp]: "emitted_fields (serialize_symbol s) = symbol_struct_len s"
  by (auto simp: emitted_fields_def serialize_symbol_def symbol_struct_len_def)

lemma reference_round_trip:
  "deserialize_reference (serialize_reference r) = r\<lparr>ref_col := 0, ref_from_line := None\<rparr>"
  by (simp add: deserialize_reference_def serialize_reference_def)

interpretation symbol_json: codec serialize_symbol "\<lambda>w. Some (deserialize_symbol w)"
  "\<lambda>s. indexable s \<and> sym_col_start s = 0 \<and> sym_col_end s = 0"
  by unfold_locales (simp add: symbol_round_trip indexable_def)

interpretation reference_json: codec serialize_reference "\<lambda>w. Some (deserialize_reference w)"
  "\<lambda>r. ref_col r = 0 \<and> ref_from_line r = None"
  by unfold_locales (simp add: reference_round_trip)

section \<open>Properties\<close>

text \<open>
  C21. Sending a symbol and reading it back gives the same symbol up to the two columns that are
  never sent: the omitted qualified name, rationale and test flag come back, and the overload
  flag is recovered from the handle alone. The serialiser emits exactly as many fields as it
  announced, and two symbols with the same wire form are the same symbol.
\<close>

theorem symbol_wire_round_trip:
  assumes "indexable s"
  shows "deserialize_symbol (serialize_symbol s) = s\<lparr>sym_col_start := 0, sym_col_end := 0\<rparr>
    \<and> emitted_fields (serialize_symbol s) = symbol_struct_len s
    \<and> (\<forall>t. indexable t \<and> serialize_symbol s = serialize_symbol t \<longrightarrow>
          s\<lparr>sym_col_start := 0, sym_col_end := 0\<rparr> = t\<lparr>sym_col_start := 0, sym_col_end := 0\<rparr>)"
proof -
  have rt: "deserialize_symbol (serialize_symbol t) = t\<lparr>sym_col_start := 0, sym_col_end := 0\<rparr>"
    if "indexable t" for t
    using that by (simp add: symbol_round_trip indexable_def)
  show ?thesis using rt [OF assms] rt by (metis emitted_fields_serialize)
qed

theorem symbol_wire_round_trip_witness:
  "deserialize_symbol (serialize_symbol (sample_symbol ''f'' 7\<lparr>sym_overloaded := True\<rparr>)) =
     sample_symbol ''f'' 7\<lparr>sym_overloaded := True\<rparr>"
proof -
  have i: "indexable (sample_symbol ''f'' 7\<lparr>sym_overloaded := True\<rparr>)" by code_simp
  from symbol_wire_round_trip [OF i] show ?thesis by (simp add: sample_symbol_def)
qed

end
