(* ===== verification/Work.thy ===== *)
theory Work
  imports Rust_Prelude
begin

text \<open>
  Cooperative cancellation, \<open>crates/protocol/src/work.rs\<close>, and its use around a native run,
  \<open>crates/embed/src/run_control.rs\<close>. The first part is the sequential meaning of each
  operation of a \<open>WorkControl\<close>: an operation returns the new control and the callbacks it ran.
  An \<open>Instant\<close> is a natural number and the clock reading is an argument. The second part is
  the interleaving of \<open>cancel\<close>, \<open>on_cancel\<close> and the drop of a registration: one rule per
  atomic access (a compare-exchange, a load, a critical section of the callback mutex).
\<close>

section \<open>Stop reasons\<close>

datatype stop_reason =
    ClientCancelled | ConnectionClosed | DeadlineExceeded | NoConsumers | Shutdown | Incomplete

fun reason_code :: "stop_reason \<Rightarrow> u8" where
  "reason_code ClientCancelled = 1"
| "reason_code ConnectionClosed = 2"
| "reason_code DeadlineExceeded = 3"
| "reason_code NoConsumers = 4"
| "reason_code Shutdown = 5"
| "reason_code Incomplete = 6"

definition decode_reason :: "u8 \<Rightarrow> stop_reason option" where
  "decode_reason n =
     (if n = 1 then Some ClientCancelled
      else if n = 2 then Some ConnectionClosed
      else if n = 3 then Some DeadlineExceeded
      else if n = 4 then Some NoConsumers
      else if n = 5 then Some Shutdown
      else if n = 6 then Some Incomplete
      else None)"

fun reason_as_str :: "stop_reason \<Rightarrow> string" where
  "reason_as_str ClientCancelled = ''cancelled''"
| "reason_as_str ConnectionClosed = ''cancelled''"
| "reason_as_str NoConsumers = ''cancelled''"
| "reason_as_str DeadlineExceeded = ''timeout''"
| "reason_as_str Shutdown = ''shutdown''"
| "reason_as_str Incomplete = ''incomplete''"

lemma decode_reason_code [simp]: "decode_reason (reason_code r) = Some r"
  by (cases r) (simp_all add: decode_reason_def)

lemma reason_code_neq_0 [simp]: "reason_code r \<noteq> 0"
  by (cases r) simp_all

declare reason_code.simps [simp del]

lemma decode_reason_0 [simp]: "decode_reason 0 = None"
  by (simp add: decode_reason_def)

lemma decode_reason_Some: "decode_reason n = Some r \<Longrightarrow> n = reason_code r"
  by (auto simp: decode_reason_def reason_code.simps split: if_splits)

interpretation reason_byte: strict_codec reason_code decode_reason "\<lambda>_. True"
  by unfold_locales simp_all

section \<open>The control\<close>

text \<open>\<open>callbacks\<close> is the \<open>BTreeMap\<close>, an association list in ascending key order.\<close>

record 'cb work_control =
  wc_reason :: u8
  wc_deadline :: "nat option"
  wc_next_callback :: u64
  wc_callbacks :: "(u64 \<times> 'cb) list"

definition work_new :: "nat option \<Rightarrow> 'cb work_control" where
  "work_new deadline =
     \<lparr>wc_reason = 0, wc_deadline = deadline, wc_next_callback = 1, wc_callbacks = []\<rparr>"

text \<open>Only the call that wins the compare-exchange runs the callbacks, in key order.\<close>

definition work_cancel :: "stop_reason \<Rightarrow> 'cb work_control \<Rightarrow> 'cb work_control \<times> 'cb list" where
  "work_cancel r c =
     (if wc_reason c = 0 then (c\<lparr>wc_reason := reason_code r\<rparr>, map snd (wc_callbacks c)) else (c, []))"

definition work_reason ::
  "nat \<Rightarrow> 'cb work_control \<Rightarrow> stop_reason option \<times> 'cb work_control \<times> 'cb list" where
  "work_reason now c =
     (let (c', fired) =
        (case wc_deadline c of
           Some deadline \<Rightarrow> if now \<ge> deadline then work_cancel DeadlineExceeded c else (c, [])
         | None \<Rightarrow> (c, []))
      in (decode_reason (wc_reason c'), c', fired))"

definition work_check ::
  "nat \<Rightarrow> 'cb work_control \<Rightarrow> (unit, stop_reason) result \<times> 'cb work_control \<times> 'cb list" where
  "work_check now c =
     (case work_reason now c of
        (Some r, c', fired) \<Rightarrow> (Inl r, c', fired)
      | (None, c', fired) \<Rightarrow> (Inr (), c', fired))"

definition work_on_cancel :: "'cb \<Rightarrow> 'cb work_control \<Rightarrow> u64 \<times> 'cb work_control \<times> 'cb list" where
  "work_on_cancel cb c =
     (let i = wc_next_callback c; c' = c\<lparr>wc_next_callback := i + 1\<rparr>
      in if wc_reason c' = 0
         then (i, c'\<lparr>wc_callbacks := btree_insert i cb (wc_callbacks c')\<rparr>, [])
         else (i, c', [cb]))"

definition drop_registration :: "u64 \<Rightarrow> 'cb work_control \<Rightarrow> 'cb work_control" where
  "drop_registration i c =
     c\<lparr>wc_callbacks := btree_remove i (wc_callbacks c)\<rparr>"

section \<open>Scopes and checkpoints\<close>

text \<open>
  The thread-local \<open>CURRENT\<close>: \<open>enter\<close> installs a control and remembers the previous one in the
  scope, whose drop puts it back. \<open>checkpoint\<close> checks the installed control, if there is one.
\<close>

definition work_enter :: "'c \<Rightarrow> 'c option \<Rightarrow> 'c option \<times> 'c option" where
  "work_enter control slot = (Some control, slot)"

definition drop_scope :: "'c option \<Rightarrow> 'c option \<Rightarrow> 'c option" where
  "drop_scope previous slot = previous"

definition checkpoint ::
  "nat \<Rightarrow> 'cb work_control option \<Rightarrow> (unit, stop_reason) result \<times> 'cb work_control option \<times> 'cb list" where
  "checkpoint now slot =
     (case slot of
        None \<Rightarrow> (Inr (), None, [])
      | Some c \<Rightarrow> (case work_check now c of (r, c', fired) \<Rightarrow> (r, Some c', fired)))"

section \<open>Guarded native runs\<close>

text \<open>
  \<open>run_guarded\<close>: check, register the terminator, check again, run. \<open>run\<close> is the native call, a
  parameter: it gets the control with the terminator registered and returns the control as other
  threads left it with the outcome. The registration is dropped on every path.
\<close>

datatype 'e run_error = RunFailed 'e | RunStopped stop_reason 'e | NotStarted stop_reason

definition run_guarded ::
  "nat \<Rightarrow> nat \<Rightarrow> nat \<Rightarrow> 'cb \<Rightarrow>
   ('cb work_control \<Rightarrow> 'cb work_control \<times> ('a, 'e) result) \<Rightarrow>
   'cb work_control \<Rightarrow> ('a, 'e run_error) result \<times> 'cb work_control \<times> 'cb list" where
  "run_guarded now1 now2 now3 terminator run c =
     (case work_check now1 c of
        (Inl r, c1, fired1) \<Rightarrow> (Inl (NotStarted r), c1, fired1)
      | (Inr _, c1, fired1) \<Rightarrow>
          (case work_on_cancel terminator c1 of (i, c2, fired2) \<Rightarrow>
             (case work_check now2 c2 of
                (Inl r, c3, fired3) \<Rightarrow>
                  (Inl (NotStarted r), drop_registration i c3, fired1 @ fired2 @ fired3)
              | (Inr _, c3, fired3) \<Rightarrow>
                  (case run c3 of
                     (c4, Inr v) \<Rightarrow> (Inr v, drop_registration i c4, fired1 @ fired2 @ fired3)
                   | (c4, Inl e) \<Rightarrow>
                       (case work_check now3 c4 of
                          (Inl r, c5, fired5) \<Rightarrow>
                            (Inl (RunStopped r e), drop_registration i c5, fired1 @ fired2 @ fired3 @ fired5)
                        | (Inr _, c5, fired5) \<Rightarrow>
                            (Inl (RunFailed e), drop_registration i c5, fired1 @ fired2 @ fired3 @ fired5))))))"

section \<open>Loops that check for a stop\<close>

text \<open>
  A loop that checks its work control every so often sees one answer per check: \<open>chk n\<close> is what the \<open>n\<close>-th
  check reports, a reason to stop or nothing. \<open>first_stop chk n m\<close> is the reason of the first of the \<open>m\<close> checks from the \<open>n\<close>-th on that reports one.
\<close>

type_synonym checks = "nat \<Rightarrow> stop_reason option"

definition first_stop :: "checks \<Rightarrow> nat \<Rightarrow> nat \<Rightarrow> stop_reason option" where
  "first_stop chk n m = map_option (the \<circ> chk) (find (\<lambda>i. chk i \<noteq> None) [n..<n + m])"

lemma first_stop_0 [simp]: "first_stop chk n 0 = None"
  by (simp add: first_stop_def)

lemma first_stop_Suc [simp]:
  "first_stop chk n (Suc m) = (case chk n of Some r \<Rightarrow> Some r | None \<Rightarrow> first_stop chk (Suc n) m)"
  by (simp add: first_stop_def upt_conv_Cons split: option.splits del: upt_Suc)

definition ended_as :: "stop_reason option \<Rightarrow> stop_reason + 'a \<Rightarrow> bool" where
  "ended_as stop res \<longleftrightarrow> (case stop of Some r \<Rightarrow> res = Inl r | None \<Rightarrow> \<exists>x. res = Inr x)"
lemma first_stop_add:
  "first_stop chk n (k + m) = (case first_stop chk n k of Some r \<Rightarrow> Some r | None \<Rightarrow> first_stop chk (n + k) m)"
  by (induction k arbitrary: n) (auto split: option.splits)

lemma first_stop_none: "first_stop (\<lambda>_. None) n m = None"
  by (induction m arbitrary: n) simp_all

definition stops :: "checks \<Rightarrow> nat \<Rightarrow> stop_reason \<Rightarrow> bool" where
  "stops chk n r \<longleftrightarrow> (\<exists>m. first_stop chk n m = Some r)"

definition clear :: "checks \<Rightarrow> nat \<Rightarrow> nat \<Rightarrow> bool" where
  "clear chk n m \<longleftrightarrow> n \<le> m \<and> first_stop chk n (m - n) = None"

lemma stops_now: "chk n = Some r \<Longrightarrow> stops chk n r"
  unfolding stops_def by (rule exI [of _ "Suc 0"]) simp

lemma stopsI: "first_stop chk n m = Some r \<Longrightarrow> stops chk n r"
  unfolding stops_def by blast

lemma clearI: "first_stop chk n m = None \<Longrightarrow> clear chk n (n + m)"
  by (simp add: clear_def)

lemma clear_refl [simp]: "clear chk n n"
  by (simp add: clear_def)

lemma stops_later: "clear chk n m \<Longrightarrow> stops chk m r \<Longrightarrow> stops chk n r"
proof -
  assume c: "clear chk n m" and "stops chk m r"
  then obtain k where k: "first_stop chk m k = Some r" by (auto simp: stops_def)
  have "first_stop chk n (m - n + k) = Some r"
    using c k first_stop_add [of chk n "m - n" k] by (simp add: clear_def)
  then show ?thesis by (rule stopsI)
qed

lemma clear_trans: "clear chk n m \<Longrightarrow> clear chk m k \<Longrightarrow> clear chk n k"
  using first_stop_add [of chk n "m - n" "k - m"] by (simp add: clear_def)

lemma stops_report: "stops chk n r \<Longrightarrow> \<exists>m \<ge> n. chk m = Some r"
proof -
  have "first_stop chk n k = Some r \<Longrightarrow> \<exists>m \<ge> n. chk m = Some r" for k
  proof (induction k arbitrary: n)
    case (Suc k)
    then show ?case by (cases "chk n") (auto dest: Suc_leD)
  qed simp
  then show "stops chk n r \<Longrightarrow> \<exists>m \<ge> n. chk m = Some r" by (auto simp: stops_def)
qed

section \<open>Histories of one control\<close>

datatype 'cb work_op = Op_Cancel stop_reason | Op_Check nat | Op_OnCancel 'cb | Op_Drop u64

fun work_apply :: "'cb work_op \<Rightarrow> 'cb work_control \<Rightarrow> 'cb work_control \<times> 'cb list" where
  "work_apply (Op_Cancel r) c = work_cancel r c"
| "work_apply (Op_Check now) c = snd (work_check now c)"
| "work_apply (Op_OnCancel cb) c = snd (work_on_cancel cb c)"
| "work_apply (Op_Drop i) c = (drop_registration i c, [])"

fun work_run :: "'cb work_op list \<Rightarrow> 'cb work_control \<Rightarrow> 'cb work_control" where
  "work_run [] c = c"
| "work_run (x # xs) c = work_run xs (fst (work_apply x c))"

lemmas work_defs = work_cancel_def work_reason_def work_check_def work_on_cancel_def
  drop_registration_def Let_def

lemma work_check_snd: "snd (work_check now c) = snd (work_reason now c)"
  by (auto simp: work_check_def split: prod.splits option.splits)

lemma work_apply_deadline [simp]: "wc_deadline (fst (work_apply x c)) = wc_deadline c"
  by (cases x) (auto simp: work_check_snd work_defs split: option.splits)

lemma work_apply_sticky:
  "wc_reason c \<noteq> 0 \<Longrightarrow> wc_reason (fst (work_apply x c)) = wc_reason c"
  by (cases x) (auto simp: work_check_snd work_defs split: option.splits)

lemma work_run_sticky: "wc_reason c \<noteq> 0 \<Longrightarrow> wc_reason (work_run xs c) = wc_reason c"
proof (induction xs arbitrary: c)
  case (Cons x xs)
  then show ?case using work_apply_sticky [of c x] by simp
qed simp

lemma work_run_deadline [simp]: "wc_deadline (work_run xs c) = wc_deadline c"
  by (induction xs arbitrary: c) auto

text \<open>A reason a control can hold: none, or the code of a stop reason.\<close>

definition work_ok :: "'cb work_control \<Rightarrow> bool" where
  "work_ok c \<longleftrightarrow> wc_reason c = 0 \<or> decode_reason (wc_reason c) \<noteq> None"

lemma work_apply_ok: "work_ok c \<Longrightarrow> work_ok (fst (work_apply x c))"
  by (cases x) (auto simp: work_ok_def work_check_snd work_defs split: option.splits)

lemma work_run_ok: "work_ok c \<Longrightarrow> work_ok (work_run xs c)"
  by (induction xs arbitrary: c) (auto intro: work_apply_ok)

lemma work_new_ok [simp]: "work_ok (work_new d)"
  by (simp add: work_ok_def work_new_def)

lemma work_check_stopped:
  assumes "wc_reason c = reason_code r"
  shows "fst (work_check now c) = Inl r"
  using assms by (auto simp: work_check_def work_reason_def work_cancel_def split: option.splits)

lemma work_check_expired:
  assumes "work_ok c" and "wc_deadline c = Some d" and "d \<le> now"
  shows "\<exists>r. fst (work_check now c) = Inl r"
  using assms by (auto simp: work_defs work_ok_def)

lemma work_check_Inr:
  assumes "work_ok c" and "work_check now c = (Inr u, c', fired)"
  shows "c' = c \<and> wc_reason c = 0 \<and> fired = []"
  using assms
  by (auto simp: work_ok_def work_check_def work_reason_def work_cancel_def
      split: option.splits if_splits prod.splits)

lemma work_check_Inl:
  assumes "work_check now c = (Inl r, c', fired)"
  shows "wc_reason c' = reason_code r"
  using assms decode_reason_Some
  by (auto simp: work_check_def work_reason_def split: option.splits prod.splits)

lemma work_check_live:
  assumes "wc_reason c = 0" and "\<forall>d. wc_deadline c = Some d \<longrightarrow> now < d"
  shows "work_check now c = (Inr (), c, [])"
  using assms by (cases "wc_deadline c") (auto simp: work_defs)

section \<open>Interleaving of cancellation and registration\<close>

text \<open>
  Registrations and calls of \<open>cancel\<close> are numbered. A registration takes the callback mutex,
  loads the reason, and inserts its callback under the mutex if the reason is still zero; if not
  it leaves the mutex and calls the callback itself. A call of \<open>cancel\<close> first wins or loses the
  compare-exchange; the winner clones the callbacks under the mutex and calls them outside it.
\<close>

datatype reg_pc = Reg_Start | Reg_Locked | Reg_SawZero | Reg_SawStop | Reg_Done | Reg_Dropped

datatype cancel_pc = Can_Start | Can_Lost | Can_Won | Can_Firing "nat list" | Can_Done

record cancel_sys =
  cs_reason :: u8
  cs_lock :: "nat option"
  cs_callbacks :: "nat list"
  cs_fired :: "nat \<Rightarrow> nat"
  cs_reg :: "nat \<Rightarrow> reg_pc"
  cs_can :: "nat \<Rightarrow> cancel_pc"

definition cancel_start :: "cancel_sys \<Rightarrow> bool" where
  "cancel_start s \<longleftrightarrow>
     s = \<lparr>cs_reason = 0, cs_lock = None, cs_callbacks = [], cs_fired = (\<lambda>_. 0),
          cs_reg = (\<lambda>_. Reg_Start), cs_can = (\<lambda>_. Can_Start)\<rparr>"

inductive cancel_step :: "cancel_sys \<Rightarrow> cancel_sys \<Rightarrow> bool" where
  reg_lock: "cs_reg s i = Reg_Start \<Longrightarrow> cs_lock s = None \<Longrightarrow>
     cancel_step s (s\<lparr>cs_lock := Some i, cs_reg := (cs_reg s)(i := Reg_Locked)\<rparr>)"
| reg_load_zero: "cs_reg s i = Reg_Locked \<Longrightarrow> cs_reason s = 0 \<Longrightarrow>
     cancel_step s (s\<lparr>cs_reg := (cs_reg s)(i := Reg_SawZero)\<rparr>)"
| reg_load_stop: "cs_reg s i = Reg_Locked \<Longrightarrow> cs_reason s \<noteq> 0 \<Longrightarrow>
     cancel_step s (s\<lparr>cs_lock := None, cs_reg := (cs_reg s)(i := Reg_SawStop)\<rparr>)"
| reg_insert: "cs_reg s i = Reg_SawZero \<Longrightarrow>
     cancel_step s (s\<lparr>cs_lock := None, cs_callbacks := insort i (cs_callbacks s),
                      cs_reg := (cs_reg s)(i := Reg_Done)\<rparr>)"
| reg_call: "cs_reg s i = Reg_SawStop \<Longrightarrow>
     cancel_step s (s\<lparr>cs_fired := (cs_fired s)(i := cs_fired s i + 1),
                      cs_reg := (cs_reg s)(i := Reg_Done)\<rparr>)"
| reg_drop: "cs_reg s i = Reg_Done \<Longrightarrow> cs_lock s = None \<Longrightarrow>
     cancel_step s (s\<lparr>cs_callbacks := removeAll i (cs_callbacks s),
                      cs_reg := (cs_reg s)(i := Reg_Dropped)\<rparr>)"
| can_win: "cs_can s a = Can_Start \<Longrightarrow> cs_reason s = 0 \<Longrightarrow>
     cancel_step s (s\<lparr>cs_reason := reason_code r, cs_can := (cs_can s)(a := Can_Won)\<rparr>)"
| can_lose: "cs_can s a = Can_Start \<Longrightarrow> cs_reason s \<noteq> 0 \<Longrightarrow>
     cancel_step s (s\<lparr>cs_can := (cs_can s)(a := Can_Lost)\<rparr>)"
| can_collect: "cs_can s a = Can_Won \<Longrightarrow> cs_lock s = None \<Longrightarrow>
     cancel_step s (s\<lparr>cs_can := (cs_can s)(a := Can_Firing (cs_callbacks s))\<rparr>)"
| can_fire: "cs_can s a = Can_Firing (i # is) \<Longrightarrow>
     cancel_step s (s\<lparr>cs_fired := (cs_fired s)(i := cs_fired s i + 1),
                      cs_can := (cs_can s)(a := Can_Firing is)\<rparr>)"
| can_finish: "cs_can s a = Can_Firing [] \<Longrightarrow>
     cancel_step s (s\<lparr>cs_can := (cs_can s)(a := Can_Done)\<rparr>)"

fun can_won :: "cancel_pc \<Rightarrow> bool" where
  "can_won Can_Start = False"
| "can_won Can_Lost = False"
| "can_won _ = True"

fun can_pending :: "cancel_pc \<Rightarrow> nat set" where
  "can_pending (Can_Firing xs) = set xs"
| "can_pending _ = {}"

fun can_collected :: "cancel_pc \<Rightarrow> bool" where
  "can_collected (Can_Firing _) = True"
| "can_collected Can_Done = True"
| "can_collected _ = False"

text \<open>
  The invariant. The winner of the compare-exchange is unique and exists when the reason is set.
  A callback is in the map, called once, or due to be called by the winner, never two of these;
  and nobody who read a zero reason is still inside the mutex once the winner has collected.
\<close>

definition lock_inv :: "cancel_sys \<Rightarrow> bool" where
  "lock_inv s \<longleftrightarrow> (\<forall>i. cs_lock s = Some i \<longleftrightarrow> cs_reg s i = Reg_Locked \<or> cs_reg s i = Reg_SawZero)"

definition winner_inv :: "cancel_sys \<Rightarrow> bool" where
  "winner_inv s \<longleftrightarrow>
     (\<forall>a b. can_won (cs_can s a) \<longrightarrow> can_won (cs_can s b) \<longrightarrow> a = b)
     \<and> ((\<exists>a. can_won (cs_can s a)) \<longleftrightarrow> cs_reason s \<noteq> 0)
     \<and> (\<forall>a xs. cs_can s a = Can_Firing xs \<longrightarrow> distinct xs)"

definition due :: "cancel_sys \<Rightarrow> nat \<Rightarrow> nat" where
  "due s i = cs_fired s i + of_bool (\<exists>a. i \<in> can_pending (cs_can s a))"

definition collected :: "cancel_sys \<Rightarrow> bool" where
  "collected s \<longleftrightarrow> (\<exists>a. can_collected (cs_can s a))"

definition reg_ok :: "cancel_sys \<Rightarrow> nat \<Rightarrow> bool" where
  "reg_ok s i \<longleftrightarrow>
     (case cs_reg s i of
        Reg_Done \<Rightarrow>
          if collected s then due s i = 1 else due s i = of_bool (i \<notin> set (cs_callbacks s))
      | Reg_Dropped \<Rightarrow> due s i \<le> 1 \<and> i \<notin> set (cs_callbacks s)
      | pc \<Rightarrow> due s i = 0 \<and> i \<notin> set (cs_callbacks s)
          \<and> (pc = Reg_SawZero \<longrightarrow> \<not> collected s) \<and> (pc = Reg_SawStop \<longrightarrow> cs_reason s \<noteq> 0))"

definition callback_inv :: "cancel_sys \<Rightarrow> bool" where
  "callback_inv s \<longleftrightarrow> distinct (cs_callbacks s) \<and> (\<forall>i. reg_ok s i)"

definition cancel_inv :: "cancel_sys \<Rightarrow> bool" where
  "cancel_inv s \<longleftrightarrow> lock_inv s \<and> winner_inv s \<and> callback_inv s"

lemma cancel_start_inv: "cancel_start s \<Longrightarrow> cancel_inv s"
  by (simp add: cancel_start_def cancel_inv_def lock_inv_def winner_inv_def callback_inv_def
      reg_ok_def due_def collected_def)

lemma lock_inv_step: "cancel_step s t \<Longrightarrow> lock_inv s \<Longrightarrow> lock_inv t"
proof (induction rule: cancel_step.induct)
  case (reg_load_stop s i)
  then have "cs_lock s = Some i" by (simp add: lock_inv_def)
  with reg_load_stop show ?case by (auto simp: lock_inv_def)
next
  case (reg_insert s i)
  then have "cs_lock s = Some i" by (simp add: lock_inv_def)
  with reg_insert show ?case by (auto simp: lock_inv_def)
next
  case (reg_load_zero s i)
  then have "cs_lock s = Some i" by (simp add: lock_inv_def)
  with reg_load_zero show ?case by (auto simp: lock_inv_def)
qed (auto simp: lock_inv_def)

text \<open>The calls of \<open>cancel\<close> matter through the winner only.\<close>

lemma winner_unique:
  assumes "winner_inv s" and "can_won (cs_can s a)" and "b \<noteq> a"
  shows "\<not> can_won (cs_can s b)"
  using assms by (auto simp: winner_inv_def)

lemma winner_reason:
  assumes "winner_inv s" and "can_won (cs_can s a)"
  shows "cs_reason s \<noteq> 0"
  using assms by (auto simp: winner_inv_def)

lemma not_won_pending: "\<not> can_won p \<Longrightarrow> can_pending p = {} \<and> \<not> can_collected p"
  by (cases p) auto

lemma winner_inv_step: "cancel_step s t \<Longrightarrow> distinct (cs_callbacks s) \<Longrightarrow> winner_inv s \<Longrightarrow> winner_inv t"
proof (induction rule: cancel_step.induct)
  case (can_collect s a)
  then have "can_won (cs_can s a)" by simp
  moreover from this can_collect have "cs_reason s \<noteq> 0" by (metis winner_reason)
  ultimately show ?case using can_collect by (auto simp: winner_inv_def)
next
  case (can_fire s a i xs)
  then have "distinct (i # xs)" unfolding winner_inv_def by blast
  moreover from can_fire have "can_won (cs_can s a)" by simp
  moreover from this can_fire have "cs_reason s \<noteq> 0" by (metis winner_reason)
  ultimately show ?case using can_fire by (auto simp: winner_inv_def)
next
  case (can_finish s a)
  then have "can_won (cs_can s a)" by simp
  moreover from this can_finish have "cs_reason s \<noteq> 0" by (metis winner_reason)
  ultimately show ?case using can_finish by (auto simp: winner_inv_def)
next
  case (can_lose s a)
  then obtain b where "can_won (cs_can s b)" by (auto simp: winner_inv_def)
  moreover from this can_lose have "b \<noteq> a" by auto
  ultimately show ?case using can_lose by (auto simp: winner_inv_def)
qed (auto simp: winner_inv_def)

lemma due_winner:
  assumes "winner_inv s" and "can_won (cs_can s a)"
  shows "due s i = cs_fired s i + of_bool (i \<in> can_pending (cs_can s a))"
    and "collected s \<longleftrightarrow> can_collected (cs_can s a)"
proof -
  have o: "can_pending (cs_can s b) = {} \<and> \<not> can_collected (cs_can s b)" if "b \<noteq> a" for b
    using winner_unique [OF assms that] by (rule not_won_pending)
  then have "(\<exists>b. i \<in> can_pending (cs_can s b)) \<longleftrightarrow> i \<in> can_pending (cs_can s a)"
    by (metis empty_iff)
  then show "due s i = cs_fired s i + of_bool (i \<in> can_pending (cs_can s a))"
    by (simp add: due_def)
  show "collected s \<longleftrightarrow> can_collected (cs_can s a)"
    using o by (metis collected_def)
qed

lemma due_no_winner:
  assumes "winner_inv s" and "cs_reason s = 0"
  shows "due s i = cs_fired s i" and "\<not> collected s"
proof -
  have "can_pending (cs_can s b) = {} \<and> \<not> can_collected (cs_can s b)" for b
    using assms by (intro not_won_pending) (auto simp: winner_inv_def)
  then show "due s i = cs_fired s i" "\<not> collected s" by (simp_all add: due_def collected_def)
qed

text \<open>A step that leaves the winner's list and the counts alone leaves what is due alone.\<close>

lemma due_frame [simp]:
  "due (s\<lparr>cs_lock := l\<rparr>) i = due s i"
  "due (s\<lparr>cs_reg := r\<rparr>) i = due s i"
  "due (s\<lparr>cs_callbacks := c\<rparr>) i = due s i"
  "due (s\<lparr>cs_reason := n\<rparr>) i = due s i"
  by (simp_all add: due_def)

lemma collected_frame [simp]:
  "collected (s\<lparr>cs_lock := l\<rparr>) = collected s"
  "collected (s\<lparr>cs_reg := r\<rparr>) = collected s"
  "collected (s\<lparr>cs_callbacks := c\<rparr>) = collected s"
  "collected (s\<lparr>cs_reason := n\<rparr>) = collected s"
  "collected (s\<lparr>cs_fired := f\<rparr>) = collected s"
  by (simp_all add: collected_def)

lemma due_idle_call:
  assumes "\<not> can_won (cs_can s a)" and "can_pending p = {}" and "\<not> can_collected p"
  shows "due (s\<lparr>cs_can := (cs_can s)(a := p)\<rparr>) i = due s i"
    and "collected (s\<lparr>cs_can := (cs_can s)(a := p)\<rparr>) = collected s"
proof -
  have a: "can_pending (cs_can s a) = {}" "\<not> can_collected (cs_can s a)"
    using not_won_pending [OF assms(1)] by simp_all
  have "(\<exists>b. i \<in> can_pending (((cs_can s)(a := p)) b)) \<longleftrightarrow> (\<exists>b. i \<in> can_pending (cs_can s b))"
    using a(1) assms(2) by (metis empty_iff fun_upd_apply)
  then show "due (s\<lparr>cs_can := (cs_can s)(a := p)\<rparr>) i = due s i"
    unfolding due_def by simp
  have "(\<exists>b. can_collected (((cs_can s)(a := p)) b)) \<longleftrightarrow> (\<exists>b. can_collected (cs_can s b))"
    using a(2) assms(3) by (metis fun_upd_apply)
  then show "collected (s\<lparr>cs_can := (cs_can s)(a := p)\<rparr>) = collected s"
    unfolding collected_def by simp
qed

lemma cancel_invD:
  assumes "cancel_inv s"
  shows "lock_inv s" "winner_inv s" "distinct (cs_callbacks s)" "reg_ok s j"
  using assms by (simp_all add: cancel_inv_def callback_inv_def)

lemma reg_ok_step:
  assumes "cancel_step s t" and "cancel_inv s"
  shows "reg_ok t j"
  using assms
proof (induction rule: cancel_step.induct)
  case (reg_lock s i)
  from cancel_invD(4) [OF this(3), of j] cancel_invD(4) [OF this(3), of i] reg_lock(1,2)
  show ?case by (cases "j = i") (auto simp: reg_ok_def split: reg_pc.splits if_splits)
next
  case (reg_load_zero s i)
  then have "\<not> collected s" by (simp add: cancel_invD due_no_winner)
  with cancel_invD(4) [OF reg_load_zero(3), of j] reg_load_zero(1,2)
  show ?case by (cases "j = i") (auto simp: reg_ok_def split: reg_pc.splits if_splits)
next
  case (reg_load_stop s i)
  from cancel_invD(4) [OF this(3), of j] reg_load_stop(1,2)
  show ?case by (cases "j = i") (auto simp: reg_ok_def split: reg_pc.splits if_splits)
next
  case (reg_insert s i)
  from cancel_invD(4) [OF this(2), of j] reg_insert(1)
  show ?case by (cases "j = i") (auto simp: reg_ok_def set_insort_key split: reg_pc.splits if_splits)
next
  case (reg_drop s i)
  from cancel_invD(4) [OF this(3), of j] reg_drop(1,2)
  show ?case by (cases "j = i") (auto simp: reg_ok_def split: reg_pc.splits if_splits)
next
  case (reg_call s i)
  from cancel_invD(4) [OF this(2), of i] reg_call(1)
  have i: "due s i = 0" "i \<notin> set (cs_callbacks s)" by (auto simp: reg_ok_def)
  then have d: "due (s\<lparr>cs_fired := (cs_fired s)(i := Suc (cs_fired s i))\<rparr>) k = (if k = i then 1 else due s k)" for k
    by (simp add: due_def)
  from cancel_invD(4) [OF reg_call(2), of j] i show ?case
    by (cases "j = i") (auto simp: reg_ok_def d split: reg_pc.splits if_splits)
next
  case (can_win s a r)
  let ?t = "s\<lparr>cs_reason := reason_code r, cs_can := (cs_can s)(a := Can_Won)\<rparr>"
  have "due ?t j = due s j" "collected ?t = collected s"
    using due_idle_call [of "s\<lparr>cs_reason := reason_code r\<rparr>" a] can_win(1) by simp_all
  with cancel_invD(4) [OF can_win(3), of j] show ?case
    by (auto simp: reg_ok_def split: reg_pc.splits if_splits)
next
  case (can_lose s a)
  let ?t = "s\<lparr>cs_can := (cs_can s)(a := Can_Lost)\<rparr>"
  have "due ?t j = due s j" "collected ?t = collected s"
    using due_idle_call [of s a] can_lose(1) by simp_all
  with cancel_invD(4) [OF can_lose(3), of j] show ?case
    by (auto simp: reg_ok_def split: reg_pc.splits if_splits)
next
  case (can_collect s a)
  let ?t = "s\<lparr>cs_can := (cs_can s)(a := Can_Firing (cs_callbacks s))\<rparr>"
  from can_collect(1) have won: "can_won (cs_can s a)" by simp
  have w: "winner_inv ?t"
    using can_collect cancel_invD by (blast intro: winner_inv_step cancel_step.can_collect)
  have "due s j = cs_fired s j" "\<not> collected s"
    using due_winner [OF cancel_invD(2) [OF can_collect(3)] won] can_collect(1) by simp_all
  moreover have "due ?t j = cs_fired s j + of_bool (j \<in> set (cs_callbacks s))" "collected ?t"
    using due_winner [OF w, of a] by simp_all
  moreover have "cs_reg s j \<noteq> Reg_SawZero"
    using cancel_invD(1) [OF can_collect(3)] can_collect(2) by (auto simp: lock_inv_def)
  ultimately show ?case
    using cancel_invD(4) [OF can_collect(3), of j] by (auto simp: reg_ok_def split: reg_pc.splits if_splits)
next
  case (can_fire s a i xs)
  let ?t = "s\<lparr>cs_fired := (cs_fired s)(i := cs_fired s i + 1), cs_can := (cs_can s)(a := Can_Firing xs)\<rparr>"
  from can_fire(1) have won: "can_won (cs_can s a)" by simp
  have w: "winner_inv ?t"
    using can_fire cancel_invD by (blast intro: winner_inv_step cancel_step.can_fire)
  have d: "distinct (i # xs)" using cancel_invD(2) [OF can_fire(2)] can_fire(1)
    unfolding winner_inv_def by blast
  have "due ?t j = due s j" "collected ?t" "collected s"
    using due_winner [OF cancel_invD(2) [OF can_fire(2)] won] due_winner [OF w, of a] can_fire(1) d
    by auto
  with cancel_invD(4) [OF can_fire(2), of j] show ?case
    by (auto simp: reg_ok_def split: reg_pc.splits if_splits)
next
  case (can_finish s a)
  let ?t = "s\<lparr>cs_can := (cs_can s)(a := Can_Done)\<rparr>"
  from can_finish(1) have won: "can_won (cs_can s a)" by simp
  have w: "winner_inv ?t"
    using can_finish cancel_invD by (blast intro: winner_inv_step cancel_step.can_finish)
  have "due ?t j = due s j" "collected ?t" "collected s"
    using due_winner [OF cancel_invD(2) [OF can_finish(2)] won] due_winner [OF w, of a] can_finish(1)
    by auto
  with cancel_invD(4) [OF can_finish(2), of j] show ?case
    by (auto simp: reg_ok_def split: reg_pc.splits if_splits)
qed

lemma callbacks_distinct_step:
  assumes "cancel_step s t" and "cancel_inv s"
  shows "distinct (cs_callbacks t)"
  using assms
proof (induction rule: cancel_step.induct)
  case (reg_insert s i)
  from cancel_invD(4) [OF reg_insert(2), of i] reg_insert(1)
  have "i \<notin> set (cs_callbacks s)" by (auto simp: reg_ok_def)
  with reg_insert show ?case by (simp add: cancel_invD distinct_insort)
qed (auto simp: cancel_invD distinct_removeAll)

interpretation cancellation: transition_system cancel_start cancel_step cancel_inv
proof
  show "cancel_inv s" if "cancel_start s" for s
    using that by (rule cancel_start_inv)
  show "cancel_inv t" if st: "cancel_step s t" and inv: "cancel_inv s" for s t
    using lock_inv_step [OF st] winner_inv_step [OF st] callbacks_distinct_step [OF st inv]
      reg_ok_step [OF st inv] cancel_invD [OF inv]
    by (simp add: cancel_inv_def callback_inv_def)
qed

section \<open>Properties\<close>


definition race_state :: "cancel_sys" where
  "race_state = \<lparr>cs_reason = 0, cs_lock = None, cs_callbacks = [], cs_fired = (\<lambda>_. 0),
     cs_reg = (\<lambda>_. Reg_Start), cs_can = (\<lambda>_. Can_Start)\<rparr>"




text \<open>The answer of a run on the control it leaves, and the reason that stands on the control after the check.\<close>

definition guarded_result ::
  "nat \<Rightarrow> 'cb work_control \<Rightarrow> ('a, 'e) result \<Rightarrow> ('a, 'e run_error) result \<times> u8" where
  "guarded_result now c res =
     (case res of
        Inr v \<Rightarrow> (Inr v, wc_reason c)
      | Inl e \<Rightarrow>
          (case work_check now c of
             (Inl r, c', _) \<Rightarrow> (Inl (RunStopped r e), wc_reason c')
           | (Inr _, c', _) \<Rightarrow> (Inl (RunFailed e), wc_reason c')))"

lemma guarded_result_reason:
  assumes "work_ok c" and "guarded_result now c res = (out, reason)"
  shows "(\<forall>r. out \<noteq> Inl (NotStarted r)) \<and> (\<forall>e. out = Inl (RunFailed e) \<longrightarrow> reason = 0)
    \<and> (\<forall>r e. out = Inl (RunStopped r e) \<longrightarrow> reason = reason_code r) \<and> (\<forall>v. out = Inr v \<longrightarrow> res = Inr v)"
  using assms(2) work_check_Inl [of now c] work_check_Inr [OF assms(1), of now]
  by (auto simp: guarded_result_def split: sum.splits prod.splits)

lemma run_guarded_cases:
  assumes "work_ok c" and "run_guarded now1 now2 now3 terminator run c = (out, c', fired)"
  shows "(\<exists>r. out = Inl (NotStarted r) \<and> (\<forall>q. fst (work_check now1 c) = Inl q \<longrightarrow> q = r))
    \<or> (\<exists>c3 c4 res. (\<forall>q. fst (work_check now1 c) \<noteq> Inl q) \<and> work_ok c3 \<and> wc_reason c3 = 0
          \<and> (wc_next_callback c, terminator) \<in> set (wc_callbacks c3) \<and> run c3 = (c4, res)
          \<and> guarded_result now3 c4 res = (out, wc_reason c'))"
proof (cases "\<exists>r. out = Inl (NotStarted r)")
  case True
  then show ?thesis
    using assms(2) by (auto simp: run_guarded_def split: sum.splits prod.splits)
next
  case False
  let ?c2 = "c\<lparr>wc_next_callback := wc_next_callback c + 1,
               wc_callbacks := btree_insert (wc_next_callback c) terminator (wc_callbacks c)\<rparr>"
  obtain u c1 f1 where chk1: "work_check now1 c = (Inr u, c1, f1)"
    using False assms(2) by (auto simp: run_guarded_def split: sum.splits prod.splits)
  note c1 = work_check_Inr [OF assms(1) chk1]
  then have oc: "work_on_cancel terminator c1 = (wc_next_callback c, ?c2, [])" and ok2: "work_ok ?c2"
    by (simp_all add: work_on_cancel_def work_ok_def Let_def)
  obtain u2 c3 f3 where chk2: "work_check now2 ?c2 = (Inr u2, c3, f3)"
    using False assms(2) chk1 oc by (auto simp: run_guarded_def split: sum.splits prod.splits)
  note c3 = work_check_Inr [OF ok2 chk2]
  obtain c4 res where run: "run ?c2 = (c4, res)" by fastforce
  have "guarded_result now3 c4 res = (out, wc_reason c')"
    using assms(2) chk1 oc chk2 c3 run
    by (auto simp: run_guarded_def guarded_result_def drop_registration_def split: sum.splits prod.splits)
  moreover have "wc_reason ?c2 = 0" "(wc_next_callback c, terminator) \<in> set (wc_callbacks ?c2)" using c1 by simp_all
  moreover have "\<forall>q. fst (work_check now1 c) \<noteq> Inl q" using chk1 by simp
  ultimately show ?thesis using ok2 run by blast
qed

text \<open>
  A guarded native run never reports a model fault for a run that was stopped: if the control
  is stopped when a failed run returns, the failure is reported as the stop; a run is not started
  on a stopped control; a run that succeeded keeps its value and ran with the terminator
  registered on a control that was not stopped.
\<close>

theorem run_guarded_outcomes:
  assumes "work_ok c" and "\<forall>d. work_ok d \<longrightarrow> work_ok (fst (run d))"
    and "run_guarded now1 now2 now3 terminator run c = (out, c', fired)"
  shows "(\<forall>r. fst (work_check now1 c) = Inl r \<longrightarrow> out = Inl (NotStarted r))
    \<and> (\<forall>e. out = Inl (RunFailed e) \<longrightarrow> wc_reason c' = 0)
    \<and> (\<forall>r e. out = Inl (RunStopped r e) \<longrightarrow> wc_reason c' = reason_code r)
    \<and> (\<forall>v. out = Inr v \<longrightarrow> (\<exists>c3 c4. run c3 = (c4, Inr v) \<and> wc_reason c3 = 0
          \<and> (wc_next_callback c, terminator) \<in> set (wc_callbacks c3)))"
proof -
  consider (stopped) r where "out = Inl (NotStarted r)" "\<And>q. fst (work_check now1 c) = Inl q \<Longrightarrow> q = r"
    | (ran) c3 c4 res where "\<And>q. fst (work_check now1 c) \<noteq> Inl q" "work_ok c3" "wc_reason c3 = 0"
        "(wc_next_callback c, terminator) \<in> set (wc_callbacks c3)" "run c3 = (c4, res)"
        "guarded_result now3 c4 res = (out, wc_reason c')"
    using run_guarded_cases [OF assms(1,3)] by metis
  then show ?thesis
  proof cases
    case ran
    then have "work_ok c4" using assms(2) by (metis fst_conv)
    note result = guarded_result_reason [OF this ran(6)]
    then have "\<forall>v. out = Inr v \<longrightarrow> (\<exists>c3 c4. run c3 = (c4, Inr v) \<and> wc_reason c3 = 0
        \<and> (wc_next_callback c, terminator) \<in> set (wc_callbacks c3))" using ran(3-5) by blast
    then show ?thesis using ran(1) result by simp
  qed auto
qed

theorem run_guarded_outcomes_witness:
  "fst (run_guarded 1 2 3 ''stop'' (\<lambda>d. (fst (work_cancel ClientCancelled d), Inl ''fault''))
          (work_new None) :: (unit, string run_error) result \<times> string work_control \<times> string list)
   = Inl (RunStopped ClientCancelled ''fault'')"
proof -
  let ?run = "\<lambda>d :: string work_control. (fst (work_cancel ClientCancelled d), Inl ''fault'' :: (unit, string) result)"
  let ?g = "run_guarded 1 2 3 ''stop'' ?run (work_new None)"
  have keep: "\<forall>d. work_ok d \<longrightarrow> work_ok (fst (?run d))" by (simp add: work_ok_def work_cancel_def)
  obtain res c' fired where g: "?g = (res, c', fired)" by (cases ?g)
  have "res = Inl (RunStopped ClientCancelled ''fault'')"
    using g by (simp add: run_guarded_def work_defs work_new_def)
  with run_guarded_outcomes [OF work_new_ok keep g] g show ?thesis by simp
qed

end
