(* ===== verification/Coordinator.thy ===== *)
theory Coordinator
  imports Work
begin

text \<open>
  Admission of daemon work, \<open>crates/cli/src/mcp/work.rs\<close>: request leases, the execution queue
  with its three lanes, and the fair choice of the next execution. Each definition is one
  critical section of the coordinator's mutex. \<open>acquire_execution\<close> waits between two of them and
  is therefore split into \<open>enqueue_execution\<close> (up to the pending lease), \<open>try_admit\<close> (one turn of
  its loop) and \<open>drop_pending\<close> (the drop of the pending lease on every way out). A critical
  section that would panic (an \<open>expect\<close> on a missing entry, a counter below zero) is \<open>None\<close>;
  that no reachable state does so is part of what is proved. The result of the control's check
  is an argument, and so is which weak controls can still be upgraded.
\<close>

section \<open>Limits\<close>

datatype work_class = Interactive | Analysis | Native

record lane_limits =
  ll_running :: nat
  ll_running_per_project :: nat
  ll_queued :: nat
  ll_queued_per_project :: nat

record work_limits =
  wl_requests :: nat
  wl_requests_per_project :: nat
  wl_interactive :: lane_limits
  wl_analysis :: lane_limits
  wl_native :: lane_limits

datatype admission_error =
    Saturated | Shut_down | Stopped stop_reason | InvalidLimits | ProjectAlreadyAttached

definition default_limits :: work_limits where
  "default_limits =
     \<lparr>wl_requests = 64, wl_requests_per_project = 32,
      wl_interactive = \<lparr>ll_running = 2, ll_running_per_project = 1, ll_queued = 64, ll_queued_per_project = 64\<rparr>,
      wl_analysis = \<lparr>ll_running = 2, ll_running_per_project = 1, ll_queued = 32, ll_queued_per_project = 32\<rparr>,
      wl_native = \<lparr>ll_running = 1, ll_running_per_project = 1, ll_queued = 16, ll_queued_per_project = 16\<rparr>\<rparr>"

fun lane :: "work_limits \<Rightarrow> work_class \<Rightarrow> lane_limits" where
  "lane l Interactive = wl_interactive l"
| "lane l Analysis = wl_analysis l"
| "lane l Native = wl_native l"

definition lane_invalid :: "lane_limits \<Rightarrow> bool" where
  "lane_invalid l \<longleftrightarrow>
     ll_running l = 0 \<or> ll_running_per_project l = 0 \<or> ll_running_per_project l > ll_running l
     \<or> ll_queued l = 0 \<or> ll_queued_per_project l = 0 \<or> ll_queued_per_project l > ll_queued l"

definition validate :: "work_limits \<Rightarrow> (unit, admission_error) result" where
  "validate l =
     (if wl_requests l = 0 \<or> wl_requests_per_project l = 0 \<or> wl_requests_per_project l > wl_requests l
      then Inl InvalidLimits
      else if list_ex lane_invalid [wl_interactive l, wl_analysis l, wl_native l] then Inl InvalidLimits
      else Inr ())"

section \<open>State\<close>

text \<open>The fixed arrays of three counters are functions of the class.\<close>

record project_counts =
  pc_requests :: nat
  pc_queued :: "work_class \<Rightarrow> nat"
  pc_running :: "work_class \<Rightarrow> nat"

datatype phase = PENDING | ADMITTED | STOPPED

record 'c pending =
  pd_id :: u64
  pd_project :: string
  pd_class :: work_class
  pd_control :: 'c
  pd_phase :: phase

record 'c running =
  rn_project :: string
  rn_class :: work_class
  rn_control :: 'c

record 'c coord =
  co_closed :: bool
  co_next_id :: u64
  co_requests :: "(u64 \<times> 'c) list"
  co_projects :: "(string \<times> project_counts) list"
  co_queued :: "'c pending list"
  co_running :: "(u64 \<times> 'c running) list"
  co_last_project :: "work_class \<Rightarrow> string option"

definition zero_counts :: project_counts where
  "zero_counts = \<lparr>pc_requests = 0, pc_queued = (\<lambda>_. 0), pc_running = (\<lambda>_. 0)\<rparr>"

definition coord_default :: "'c coord" where
  "coord_default = \<lparr>co_closed = False, co_next_id = 0, co_requests = [], co_projects = [],
     co_queued = [], co_running = [], co_last_project = (\<lambda>_. None)\<rparr>"

definition coord_new :: "work_limits \<Rightarrow> ('c coord, admission_error) result" where
  "coord_new l = (case validate l of Inl e \<Rightarrow> Inl e | Inr _ \<Rightarrow> Inr coord_default)"

definition check_control :: "(unit, stop_reason) result \<Rightarrow> (unit, admission_error) result" where
  "check_control chk = (case chk of Inl r \<Rightarrow> Inl (Stopped r) | Inr u \<Rightarrow> Inr u)"

text \<open>\<open>projects.entry(project).or_default()\<close> followed by an update.\<close>

definition with_project ::
  "string \<Rightarrow> (project_counts \<Rightarrow> project_counts) \<Rightarrow> (string \<times> project_counts) list \<Rightarrow> (string \<times> project_counts) list" where
  "with_project p f m = hm_insert p (f (case hm_get m p of Some c \<Rightarrow> c | None \<Rightarrow> zero_counts)) m"

definition counts_empty :: "project_counts \<Rightarrow> bool" where
  "counts_empty c \<longleftrightarrow> pc_requests c = 0 \<and>
     list_all (\<lambda>k. pc_queued c k = 0) [Interactive, Analysis, Native] \<and>
     list_all (\<lambda>k. pc_running c k = 0) [Interactive, Analysis, Native]"

definition prune_project :: "string \<Rightarrow> 'c coord \<Rightarrow> 'c coord" where
  "prune_project p s =
     (case hm_get (co_projects s) p of
        Some c \<Rightarrow> if counts_empty c then s\<lparr>co_projects := hm_remove p (co_projects s)\<rparr> else s
      | None \<Rightarrow> s)"

section \<open>Requests\<close>

definition try_request ::
  "work_limits \<Rightarrow> (unit, stop_reason) result \<Rightarrow> 'c \<Rightarrow> 'c coord \<Rightarrow> (u64, admission_error) result \<times> 'c coord" where
  "try_request l chk control s =
     (case check_control chk of
        Inl e \<Rightarrow> (Inl e, s)
      | Inr _ \<Rightarrow>
          if co_closed s then (Inl Shut_down, s)
          else if length (co_requests s) = wl_requests l then (Inl Saturated, s)
          else (case checked_add (co_next_id s) 1 of
                  None \<Rightarrow> (Inl Saturated, s)
                | Some i \<Rightarrow> (Inr i, s\<lparr>co_next_id := i, co_requests := hm_insert i control (co_requests s)\<rparr>)))"

text \<open>\<open>attach_project\<close> updates the lease's project as well; the lease is its argument and result.\<close>

definition attach_project ::
  "work_limits \<Rightarrow> string \<Rightarrow> string option \<Rightarrow> 'c coord \<Rightarrow>
   (unit, admission_error) result \<times> string option \<times> 'c coord" where
  "attach_project l p lease s =
     (case lease of
        Some attached \<Rightarrow>
          if attached = p then (Inr (), lease, s) else (Inl ProjectAlreadyAttached, lease, s)
      | None \<Rightarrow>
          if co_closed s then (Inl Shut_down, lease, s)
          else if (case hm_get (co_projects s) p of
                     Some c \<Rightarrow> pc_requests c \<ge> wl_requests_per_project l | None \<Rightarrow> False)
          then (Inl Saturated, lease, s)
          else (Inr (), Some p,
                s\<lparr>co_projects := with_project p (\<lambda>c. c\<lparr>pc_requests := pc_requests c + 1\<rparr>) (co_projects s)\<rparr>))"

definition drop_request :: "u64 \<Rightarrow> string option \<Rightarrow> 'c coord \<Rightarrow> 'c coord option" where
  "drop_request i lease s =
     (let s1 = s\<lparr>co_requests := hm_remove i (co_requests s)\<rparr>
      in case lease of
           None \<Rightarrow> Some s1
         | Some p \<Rightarrow>
             (case hm_get (co_projects s1) p of
                None \<Rightarrow> Some (prune_project p s1)
              | Some c \<Rightarrow>
                  if pc_requests c = 0 then None
                  else Some (prune_project p (s1\<lparr>co_projects :=
                         hm_insert p (c\<lparr>pc_requests := pc_requests c - 1\<rparr>) (co_projects s1)\<rparr>))))"

section \<open>Executions\<close>

definition enqueue_execution ::
  "work_limits \<Rightarrow> (unit, stop_reason) result \<Rightarrow> string \<Rightarrow> work_class \<Rightarrow> 'c \<Rightarrow> 'c coord \<Rightarrow>
   (u64, admission_error) result \<times> 'c coord" where
  "enqueue_execution l chk p k control s =
     (case check_control chk of
        Inl e \<Rightarrow> (Inl e, s)
      | Inr _ \<Rightarrow>
          if co_closed s then (Inl Shut_down, s)
          else if count_if (\<lambda>e. pd_class e = k) (co_queued s) \<ge> ll_queued (lane l k)
               \<or> (case hm_get (co_projects s) p of Some c \<Rightarrow> pc_queued c k | None \<Rightarrow> 0)
                  \<ge> ll_queued_per_project (lane l k)
          then (Inl Saturated, s)
          else (case checked_add (co_next_id s) 1 of
                  None \<Rightarrow> (Inl Saturated, s)
                | Some i \<Rightarrow>
                    (Inr i, s\<lparr>co_next_id := i,
                       co_projects := with_project p
                         (\<lambda>c. c\<lparr>pc_queued := (pc_queued c)(k := pc_queued c k + 1)\<rparr>) (co_projects s),
                       co_queued := co_queued s @
                         [\<lparr>pd_id = i, pd_project = p, pd_class = k, pd_control = control, pd_phase = PENDING\<rparr>]\<rparr>)))"

definition is_eligible :: "('c \<Rightarrow> bool) \<Rightarrow> work_class \<Rightarrow> lane_limits \<Rightarrow> 'c coord \<Rightarrow> 'c pending \<Rightarrow> bool" where
  "is_eligible alive k l s e \<longleftrightarrow>
     pd_class e = k
     \<and> (case hm_get (co_projects s) (pd_project e) of
          Some c \<Rightarrow> pc_running c k < ll_running_per_project l | None \<Rightarrow> False)
     \<and> pd_phase e = PENDING
     \<and> alive (pd_control e)"

definition eligible :: "('c \<Rightarrow> bool) \<Rightarrow> work_class \<Rightarrow> lane_limits \<Rightarrow> 'c coord \<Rightarrow> u64 option" where
  "eligible alive k l s =
     (if count_if (\<lambda>(_, r). rn_class r = k) (co_running s) \<ge> ll_running l then None
      else map_option pd_id
        (case find (\<lambda>e. co_last_project s k \<noteq> Some (pd_project e))
                (filter (is_eligible alive k l s) (co_queued s)) of
           Some e \<Rightarrow> Some e
         | None \<Rightarrow> find (is_eligible alive k l s) (co_queued s)))"

datatype admit_outcome = Admit_Granted | Admit_Again | Admit_Wait | Admit_Err admission_error

definition admit_entry :: "work_class \<Rightarrow> 'c pending \<Rightarrow> 'c coord \<Rightarrow> 'c coord option" where
  "admit_entry k e s =
     (case hm_get (co_projects s) (pd_project e) of
        None \<Rightarrow> None
      | Some c \<Rightarrow>
          if pc_queued c k = 0 then None
          else Some (s\<lparr>co_queued := remove_first (\<lambda>x. pd_id x = pd_id e) (co_queued s),
                 co_projects := hm_insert (pd_project e)
                   (c\<lparr>pc_queued := (pc_queued c)(k := pc_queued c k - 1),
                      pc_running := (pc_running c)(k := pc_running c k + 1)\<rparr>) (co_projects s),
                 co_last_project := (co_last_project s)(k := Some (pd_project e)),
                 co_running := hm_insert (pd_id e)
                   \<lparr>rn_project = pd_project e, rn_class = k, rn_control = pd_control e\<rparr> (co_running s)\<rparr>))"

text \<open>The cancellation callback of a pending execution.\<close>

definition stop_pending :: "u64 \<Rightarrow> 'c coord \<Rightarrow> 'c coord" where
  "stop_pending i s =
     s\<lparr>co_queued := map (\<lambda>e. if pd_id e = i \<and> pd_phase e = PENDING then e\<lparr>pd_phase := STOPPED\<rparr> else e)
                        (co_queued s)\<rparr>"

text \<open>
  One turn of the loop of \<open>acquire_execution\<close>. The callback of a cancellation does not take the
  mutex, so it may run between the scan of the queue and the compare-exchange of the phase;
  \<open>raced\<close> says that it did. The turn then starts over and fails at the control's check.
\<close>

definition try_admit ::
  "work_limits \<Rightarrow> (unit, stop_reason) result \<Rightarrow> ('c \<Rightarrow> bool) \<Rightarrow> bool \<Rightarrow> work_class \<Rightarrow> u64 \<Rightarrow> 'c coord \<Rightarrow>
   (admit_outcome \<times> 'c coord) option" where
  "try_admit l chk alive raced k i s =
     (case check_control chk of
        Inl e \<Rightarrow> Some (Admit_Err e, s)
      | Inr _ \<Rightarrow>
          if co_closed s then Some (Admit_Err Shut_down, s)
          else if eligible alive k (lane l k) s = Some i
          then (let s = (if raced then stop_pending i s else s)
                in case find (\<lambda>e. pd_id e = i) (co_queued s) of
                     None \<Rightarrow> None
                   | Some e \<Rightarrow>
                       if pd_phase e \<noteq> PENDING then Some (Admit_Again, s)
                       else map_option (Pair Admit_Granted) (admit_entry k e s))
          else Some (Admit_Wait, s))"

definition drop_pending :: "u64 \<Rightarrow> 'c coord \<Rightarrow> 'c coord option" where
  "drop_pending i s =
     (case find (\<lambda>e. pd_id e = i) (co_queued s) of
        None \<Rightarrow> Some s
      | Some e \<Rightarrow>
          (let s1 = s\<lparr>co_queued := remove_first (\<lambda>x. pd_id x = i) (co_queued s)\<rparr>
           in case hm_get (co_projects s1) (pd_project e) of
                None \<Rightarrow> Some (prune_project (pd_project e) s1)
              | Some c \<Rightarrow>
                  if pc_queued c (pd_class e) = 0 then None
                  else Some (prune_project (pd_project e) (s1\<lparr>co_projects := hm_insert (pd_project e)
                         (c\<lparr>pc_queued := (pc_queued c)(pd_class e := pc_queued c (pd_class e) - 1)\<rparr>)
                         (co_projects s1)\<rparr>))))"

definition drop_execution :: "u64 \<Rightarrow> 'c coord \<Rightarrow> 'c coord option" where
  "drop_execution i s =
     (case hm_get (co_running s) i of
        None \<Rightarrow> Some s
      | Some r \<Rightarrow>
          (let s1 = s\<lparr>co_running := hm_remove i (co_running s)\<rparr>
           in case hm_get (co_projects s1) (rn_project r) of
                None \<Rightarrow> Some (prune_project (rn_project r) s1)
              | Some c \<Rightarrow>
                  if pc_running c (rn_class r) = 0 then None
                  else Some (prune_project (rn_project r) (s1\<lparr>co_projects := hm_insert (rn_project r)
                         (c\<lparr>pc_running := (pc_running c)(rn_class r := pc_running c (rn_class r) - 1)\<rparr>)
                         (co_projects s1)\<rparr>))))"

section \<open>Shutdown and snapshots\<close>

definition coord_shutdown :: "('c \<Rightarrow> bool) \<Rightarrow> 'c coord \<Rightarrow> 'c list \<times> 'c coord" where
  "coord_shutdown alive s =
     (filter alive (map snd (co_requests s)) @ filter alive (map pd_control (co_queued s))
        @ filter alive (map (rn_control \<circ> snd) (co_running s)),
      s\<lparr>co_closed := True\<rparr>)"

record work_snapshot =
  ws_closed :: bool
  ws_requests :: nat
  ws_projects :: nat
  ws_queued :: "work_class \<Rightarrow> nat"
  ws_running :: "work_class \<Rightarrow> nat"
  ws_limits :: work_limits

definition snapshot :: "work_limits \<Rightarrow> 'c coord \<Rightarrow> work_snapshot" where
  "snapshot l s =
     \<lparr>ws_closed = co_closed s, ws_requests = length (co_requests s), ws_projects = length (co_projects s),
      ws_queued = (\<lambda>k. count_if (\<lambda>e. pd_class e = k) (co_queued s)),
      ws_running = (\<lambda>k. count_if (\<lambda>(_, r). rn_class r = k) (co_running s)), ws_limits = l\<rparr>"

section \<open>The system\<close>

text \<open>
  The coordinator with the request leases its clients hold. A pending lease is live as long as
  its entry is queued, an execution lease as long as its entry is running.
\<close>

record 'c coord_sys =
  cy_state :: "'c coord"
  cy_leases :: "(u64 \<times> string option) list"

definition coord_start :: "work_limits \<Rightarrow> 'c coord_sys \<Rightarrow> bool" where
  "coord_start l y \<longleftrightarrow> coord_new l = Inr (cy_state y) \<and> cy_leases y = []"

inductive coord_step :: "work_limits \<Rightarrow> 'c coord_sys \<Rightarrow> 'c coord_sys \<Rightarrow> bool" for l where
  requested: "try_request l chk c (cy_state y) = (Inr i, s) \<Longrightarrow>
     coord_step l y \<lparr>cy_state = s, cy_leases = hm_insert i None (cy_leases y)\<rparr>"
| attached: "hm_get (cy_leases y) i = Some lease \<Longrightarrow>
     attach_project l p lease (cy_state y) = (r, lease', s) \<Longrightarrow>
     coord_step l y \<lparr>cy_state = s, cy_leases = hm_insert i lease' (cy_leases y)\<rparr>"
| request_dropped: "hm_get (cy_leases y) i = Some lease \<Longrightarrow>
     drop_request i lease (cy_state y) = Some s \<Longrightarrow>
     coord_step l y \<lparr>cy_state = s, cy_leases = hm_remove i (cy_leases y)\<rparr>"
| enqueued: "enqueue_execution l chk p k c (cy_state y) = (Inr i, s) \<Longrightarrow>
     coord_step l y (y\<lparr>cy_state := s\<rparr>)"
| turned: "try_admit l chk alive raced k i (cy_state y) = Some (out, s) \<Longrightarrow>
     coord_step l y (y\<lparr>cy_state := s\<rparr>)"
| pending_stopped: "coord_step l y (y\<lparr>cy_state := stop_pending i (cy_state y)\<rparr>)"
| pending_dropped: "drop_pending i (cy_state y) = Some s \<Longrightarrow> coord_step l y (y\<lparr>cy_state := s\<rparr>)"
| execution_dropped: "drop_execution i (cy_state y) = Some s \<Longrightarrow> coord_step l y (y\<lparr>cy_state := s\<rparr>)"
| shut_down: "coord_step l y (y\<lparr>cy_state := snd (coord_shutdown alive (cy_state y))\<rparr>)"

section \<open>What the counters mean\<close>

definition expected ::
  "(u64 \<times> string option) list \<Rightarrow> 'c pending list \<Rightarrow> (u64 \<times> 'c running) list \<Rightarrow> string \<Rightarrow> project_counts" where
  "expected ls q r p =
     \<lparr>pc_requests = count_if (\<lambda>(_, lease). lease = Some p) ls,
      pc_queued = (\<lambda>k. count_if (\<lambda>e. pd_project e = p \<and> pd_class e = k) q),
      pc_running = (\<lambda>k. count_if (\<lambda>(_, x). rn_project x = p \<and> rn_class x = k) r)\<rparr>"

text \<open>A project has a record exactly when something of it is counted, and the record is exact.\<close>

definition counts_ok :: "(string \<Rightarrow> project_counts) \<Rightarrow> (string \<times> project_counts) list \<Rightarrow> bool" where
  "counts_ok ex m \<longleftrightarrow> hm_ok m \<and> (\<forall>p. hm_get m p = (if counts_empty (ex p) then None else Some (ex p)))"

lemma counts_empty_iff: "counts_empty c \<longleftrightarrow> c = zero_counts"
proof
  assume e: "counts_empty c"
  then have "pc_queued c k = 0" "pc_running c k = 0" for k
    by (cases k; simp add: counts_empty_def)+
  with e show "c = zero_counts"
    by (cases c) (auto simp: counts_empty_def zero_counts_def)
qed (simp add: counts_empty_def zero_counts_def)

lemma counts_empty_all:
  "counts_empty c \<longleftrightarrow> pc_requests c = 0 \<and> (\<forall>k. pc_queued c k = 0 \<and> pc_running c k = 0)"
  unfolding counts_empty_def by (simp, metis work_class.exhaust)

lemma zero_counts_sel [simp]:
  "pc_requests zero_counts = 0" "pc_queued zero_counts k = 0" "pc_running zero_counts k = 0"
  by (simp_all add: zero_counts_def)

lemma counts_nonempty:
  "pc_requests c \<noteq> 0 \<Longrightarrow> \<not> counts_empty c" "pc_queued c k \<noteq> 0 \<Longrightarrow> \<not> counts_empty c"
  "pc_running c k \<noteq> 0 \<Longrightarrow> \<not> counts_empty c"
  by (auto simp: counts_empty_iff)

lemma counts_ok_get: "counts_ok ex m \<Longrightarrow> (case hm_get m p of Some c \<Rightarrow> c | None \<Rightarrow> zero_counts) = ex p"
  by (simp add: counts_ok_def counts_empty_iff)

lemma counts_ok_Some: "counts_ok ex m \<Longrightarrow> hm_get m p = Some c \<Longrightarrow> c = ex p"
  by (auto simp: counts_ok_def split: if_splits)

lemma counts_ok_None: "counts_ok ex m \<Longrightarrow> hm_get m p = None \<longleftrightarrow> counts_empty (ex p)"
  by (simp add: counts_ok_def)

lemma counts_ok_with_project:
  assumes "counts_ok ex m" and "\<not> counts_empty (f (ex p))"
  shows "counts_ok (ex(p := f (ex p))) (with_project p f m)"
  using assms by (simp add: with_project_def counts_ok_get) (simp add: counts_ok_def)

lemma counts_ok_insert:
  assumes "counts_ok ex m" and "\<not> counts_empty c"
  shows "counts_ok (ex(p := c)) (hm_insert p c m)"
  using assms by (simp add: counts_ok_def)

lemma counts_ok_prune:
  assumes "counts_ok ex m"
  shows "counts_ok (ex(p := c))
    (co_projects (prune_project p (s\<lparr>co_projects := hm_insert p c m\<rparr>)))"
  using assms by (auto simp: prune_project_def counts_ok_def)

text \<open>How the expected counters move with the leases, the queue and the running set.\<close>

lemma count_if_hm_insert:
  assumes "hm_ok m" and "hm_get m k = Some w"
  shows "count_if P (hm_insert k v m) + of_bool (P (k, w)) = of_bool (P (k, v)) + count_if P m"
  using count_if_remove [OF assms, of P] by (simp add: hm_insert_eq)

lemma expected_new_lease:
  assumes "hm_get ls i = None"
  shows "expected (hm_insert i None ls) q r = expected ls q r"
  by (rule ext) (simp add: expected_def count_if_insert_fresh [OF assms])

lemma expected_same_lease:
  assumes "hm_ok ls" and "hm_get ls i = Some lease"
  shows "expected (hm_insert i lease ls) q r = expected ls q r"
  using count_if_hm_insert [OF assms, of _ lease] by (intro ext) (simp add: expected_def)

lemma expected_attach:
  assumes "hm_ok ls" and "hm_get ls i = Some None"
  shows "expected (hm_insert i (Some p) ls) q r =
    (expected ls q r)(p := (expected ls q r p)\<lparr>pc_requests := pc_requests (expected ls q r p) + 1\<rparr>)"
  using count_if_hm_insert [OF assms, of "\<lambda>(_, lease). lease = Some x" "Some p" for x]
  by (intro ext) (auto simp: expected_def)

lemma expected_drop_lease:
  assumes "hm_ok ls" and "hm_get ls i = Some lease"
  shows "expected (hm_remove i ls) q r =
    (case lease of
       None \<Rightarrow> expected ls q r
     | Some p \<Rightarrow> (expected ls q r)(p := (expected ls q r p)\<lparr>pc_requests := pc_requests (expected ls q r p) - 1\<rparr>))"
proof -
  have *: "count_if (\<lambda>(_, lease). lease = Some x) (hm_remove i ls) + of_bool (lease = Some x) =
      count_if (\<lambda>(_, lease). lease = Some x) ls" for x
    using count_if_remove [OF assms, of "\<lambda>(_, lease). lease = Some x"] by simp
  have "count_if (\<lambda>(_, lease). lease = Some x) (hm_remove i ls) =
      count_if (\<lambda>(_, lease). lease = Some x) ls - of_bool (lease = Some x)" for x
    using * [of x] by linarith
  then show ?thesis by (cases lease) (auto simp: expected_def intro!: ext)
qed

lemma expected_enqueue:
  assumes "pd_project e = p" and "pd_class e = k"
  shows "expected ls (q @ [e]) r =
    (expected ls q r)(p := (expected ls q r p)\<lparr>pc_queued := (pc_queued (expected ls q r p))(k := pc_queued (expected ls q r p) k + 1)\<rparr>)"
  using assms by (intro ext) (auto simp: expected_def intro!: ext)

lemma expected_dequeue:
  assumes "find Q q = Some e" and "pd_project e = p" and "pd_class e = k"
  shows "expected ls (remove_first Q q) r =
    (expected ls q r)(p := (expected ls q r p)\<lparr>pc_queued := (pc_queued (expected ls q r p))(k := pc_queued (expected ls q r p) k - 1)\<rparr>)"
proof -
  have "count_if (\<lambda>x. pd_project x = a \<and> pd_class x = b) (remove_first Q q) =
      count_if (\<lambda>x. pd_project x = a \<and> pd_class x = b) q - of_bool (p = a \<and> k = b)" for a b
    using count_if_remove_first [OF assms(1), of "\<lambda>x. pd_project x = a \<and> pd_class x = b"] assms(2,3)
    by simp
  then show ?thesis by (intro ext) (auto simp: expected_def intro!: ext)
qed

lemma expected_run:
  assumes "hm_get r i = None" and "rn_project x = p" and "rn_class x = k"
  shows "expected ls q (hm_insert i x r) =
    (expected ls q r)(p := (expected ls q r p)\<lparr>pc_running := (pc_running (expected ls q r p))(k := pc_running (expected ls q r p) k + 1)\<rparr>)"
  using assms(2,3) by (intro ext) (auto simp: expected_def count_if_insert_fresh [OF assms(1)] intro!: ext)

lemma expected_stop:
  assumes "hm_ok r" and "hm_get r i = Some x" and "rn_project x = p" and "rn_class x = k"
  shows "expected ls q (hm_remove i r) =
    (expected ls q r)(p := (expected ls q r p)\<lparr>pc_running := (pc_running (expected ls q r p))(k := pc_running (expected ls q r p) k - 1)\<rparr>)"
proof -
  have "count_if (\<lambda>(_, x). rn_project x = a \<and> rn_class x = b) (hm_remove i r) =
      count_if (\<lambda>(_, x). rn_project x = a \<and> rn_class x = b) r - of_bool (p = a \<and> k = b)" for a b
    using count_if_remove [OF assms(1,2), of "\<lambda>(_, x). rn_project x = a \<and> rn_class x = b"] assms(3,4)
    by simp
  then show ?thesis by (intro ext) (auto simp: expected_def intro!: ext)
qed

lemma expected_phase:
  "expected ls (map (\<lambda>e. if P e then e\<lparr>pd_phase := ph\<rparr> else e) q) r = expected ls q r"
proof -
  have "count_if (\<lambda>e. pd_project e = p \<and> pd_class e = k) (map (\<lambda>e. if P e then e\<lparr>pd_phase := ph\<rparr> else e) q) =
      count_if (\<lambda>e. pd_project e = p \<and> pd_class e = k) q" for p k
    by (induction q) auto
  then show ?thesis by (intro ext) (simp add: expected_def)
qed

section \<open>The invariant\<close>

definition ids_below :: "u64 \<Rightarrow> u64 set \<Rightarrow> bool" where
  "ids_below n A \<longleftrightarrow> (\<forall>i \<in> A. unat i \<le> unat n)"

lemma ids_below_simps [simp]:
  "ids_below n {}" "ids_below n (insert i A) \<longleftrightarrow> unat i \<le> unat n \<and> ids_below n A"
  "ids_below n (A \<union> B) \<longleftrightarrow> ids_below n A \<and> ids_below n B"
  by (auto simp: ids_below_def)

lemma ids_below_mono: "ids_below n A \<Longrightarrow> unat n \<le> unat m \<Longrightarrow> ids_below m A"
  by (fastforce simp: ids_below_def)

lemma ids_below_subset: "ids_below n A \<Longrightarrow> B \<subseteq> A \<Longrightarrow> ids_below n B"
  by (auto simp: ids_below_def)

lemma ids_below_fresh: "ids_below n A \<Longrightarrow> unat i = unat n + 1 \<Longrightarrow> i \<notin> A"
  by (fastforce simp: ids_below_def)

definition ids_ok :: "'c coord \<Rightarrow> (u64 \<times> string option) list \<Rightarrow> bool" where
  "ids_ok s ls \<longleftrightarrow>
     hm_ok ls \<and> hm_ok (co_requests s) \<and> fst ` set ls = fst ` set (co_requests s)
     \<and> hm_ok (co_running s) \<and> distinct (map pd_id (co_queued s))
     \<and> pd_id ` set (co_queued s) \<inter> fst ` set (co_running s) = {}
     \<and> ids_below (co_next_id s) (fst ` set (co_requests s))
     \<and> ids_below (co_next_id s) (pd_id ` set (co_queued s))
     \<and> ids_below (co_next_id s) (fst ` set (co_running s))"

definition exact_counts :: "'c coord \<Rightarrow> (u64 \<times> string option) list \<Rightarrow> bool" where
  "exact_counts s ls \<longleftrightarrow> counts_ok (expected ls (co_queued s) (co_running s)) (co_projects s)"

definition within_limits :: "work_limits \<Rightarrow> 'c coord \<Rightarrow> (u64 \<times> string option) list \<Rightarrow> bool" where
  "within_limits l s ls \<longleftrightarrow>
     length (co_requests s) \<le> wl_requests l
     \<and> (\<forall>p. pc_requests (expected ls (co_queued s) (co_running s) p) \<le> wl_requests_per_project l)
     \<and> (\<forall>k. count_if (\<lambda>e. pd_class e = k) (co_queued s) \<le> ll_queued (lane l k))
     \<and> (\<forall>p k. pc_queued (expected ls (co_queued s) (co_running s) p) k \<le> ll_queued_per_project (lane l k))
     \<and> (\<forall>k. count_if (\<lambda>(_, r). rn_class r = k) (co_running s) \<le> ll_running (lane l k))
     \<and> (\<forall>p k. pc_running (expected ls (co_queued s) (co_running s) p) k \<le> ll_running_per_project (lane l k))"

definition coord_inv :: "work_limits \<Rightarrow> 'c coord \<Rightarrow> (u64 \<times> string option) list \<Rightarrow> bool" where
  "coord_inv l s ls \<longleftrightarrow> ids_ok s ls \<and> exact_counts s ls \<and> within_limits l s ls"

lemma coord_inv_default: "coord_inv l coord_default []"
  by (simp add: coord_inv_def ids_ok_def exact_counts_def within_limits_def coord_default_def
      counts_ok_def expected_def counts_empty_def)

text \<open>An identifier handed out by the counter is new.\<close>

lemma next_id_fresh:
  assumes "ids_ok s ls" and "checked_add (co_next_id s) 1 = Some i"
  shows "hm_get ls i = None" "hm_get (co_requests s) i = None" "hm_get (co_running s) i = None"
    "i \<notin> pd_id ` set (co_queued s)" "unat i = unat (co_next_id s) + 1"
proof -
  show i: "unat i = unat (co_next_id s) + 1" using checked_add_Some_unat [OF assms(2)] by simp
  show "hm_get ls i = None" "hm_get (co_requests s) i = None"
    "hm_get (co_running s) i = None" "i \<notin> pd_id ` set (co_queued s)"
    using assms(1) ids_below_fresh [OF _ i] by (simp_all add: ids_ok_def map_of_eq_None_iff)
qed

text \<open>Operations that only give something back stay within the limits.\<close>

lemma within_limits_mono:
  assumes "within_limits l s ls"
    and "length (co_requests s') \<le> length (co_requests s)"
    and "\<And>p. pc_requests (expected ls' (co_queued s') (co_running s') p) \<le> pc_requests (expected ls (co_queued s) (co_running s) p)"
    and "\<And>k. count_if (\<lambda>e. pd_class e = k) (co_queued s') \<le> count_if (\<lambda>e. pd_class e = k) (co_queued s)"
    and "\<And>p k. pc_queued (expected ls' (co_queued s') (co_running s') p) k \<le> pc_queued (expected ls (co_queued s) (co_running s) p) k"
    and "\<And>k. count_if (\<lambda>(_, r). rn_class r = k) (co_running s') \<le> count_if (\<lambda>(_, r). rn_class r = k) (co_running s)"
    and "\<And>p k. pc_running (expected ls' (co_queued s') (co_running s') p) k \<le> pc_running (expected ls (co_queued s) (co_running s) p) k"
  shows "within_limits l s' ls'"
  using assms unfolding within_limits_def by (meson order_trans)

lemma count_if_remove_le: "count_if P (hm_remove k m) \<le> count_if P m"
  by (induction m) (auto simp: hm_remove_def)

lemma length_hm_remove_le: "length (hm_remove k m) \<le> length m"
  by (simp add: hm_remove_def)

lemma count_if_remove_first_le: "count_if P (remove_first Q xs) \<le> count_if P xs"
  by (induction xs) auto

lemma prune_project_frame [simp]:
  "co_queued (prune_project p s) = co_queued s" "co_running (prune_project p s) = co_running s"
  "co_requests (prune_project p s) = co_requests s" "co_next_id (prune_project p s) = co_next_id s"
  "co_closed (prune_project p s) = co_closed s" "co_last_project (prune_project p s) = co_last_project s"
  by (simp_all add: prune_project_def split: option.split)

section \<open>Every operation keeps the invariant\<close>

lemma try_request_inv:
  assumes "coord_inv l s ls" and "try_request l chk c s = (Inr i, s')"
  shows "coord_inv l s' (hm_insert i None ls)"
proof -
  have ids: "ids_ok s ls" and cnt: "exact_counts s ls" and lim: "within_limits l s ls"
    using assms(1) by (simp_all add: coord_inv_def)
  from assms(2) have i: "checked_add (co_next_id s) 1 = Some i"
    and s': "s' = s\<lparr>co_next_id := i, co_requests := hm_insert i c (co_requests s)\<rparr>"
    and len: "length (co_requests s) \<noteq> wl_requests l"
    by (auto simp: try_request_def split: sum.splits if_splits option.splits)
  note fresh = next_id_fresh [OF ids i]
  have "ids_ok s' (hm_insert i None ls)"
    using ids fresh by (auto simp: ids_ok_def s' intro: ids_below_mono)
  moreover have "exact_counts s' (hm_insert i None ls)"
    using cnt by (simp add: exact_counts_def s' expected_new_lease [OF fresh(1)])
  moreover have "within_limits l s' (hm_insert i None ls)"
    using lim len by (simp add: within_limits_def s' expected_new_lease [OF fresh(1)]
        length_hm_insert_fresh [OF fresh(2)])
  ultimately show ?thesis by (simp add: coord_inv_def)
qed

lemma attach_project_inv:
  assumes valid: "validate l = Inr ()" and "coord_inv l s ls" and lease: "hm_get ls i = Some lease"
    and "attach_project l p lease s = (r, lease', s')"
  shows "coord_inv l s' (hm_insert i lease' ls)"
proof -
  have ids: "ids_ok s ls" and cnt: "exact_counts s ls" and lim: "within_limits l s ls"
    using assms(2) by (simp_all add: coord_inv_def)
  have ok: "hm_ok ls" using ids by (simp add: ids_ok_def)
  have keys: "insert i (fst ` set ls) = fst ` set ls"
    using hm_get_mem [OF lease] by force
  show ?thesis
  proof (cases "s' = s \<and> lease' = lease")
    case True
    then show ?thesis
      using assms(2) keys ok
      by (simp add: coord_inv_def ids_ok_def exact_counts_def within_limits_def expected_same_lease [OF ok lease])
  next
    case False
    with assms(4) have none: "lease = None" "lease' = Some p"
      and room: "pc_requests (case hm_get (co_projects s) p of Some c \<Rightarrow> c | None \<Rightarrow> zero_counts) < wl_requests_per_project l
          \<or> hm_get (co_projects s) p = None"
      and s': "s' = s\<lparr>co_projects := with_project p (\<lambda>c. c\<lparr>pc_requests := pc_requests c + 1\<rparr>) (co_projects s)\<rparr>"
      by (auto simp: attach_project_def split: option.splits if_splits)
    let ?ex = "expected ls (co_queued s) (co_running s)"
    have ex: "expected (hm_insert i (Some p) ls) (co_queued s) (co_running s) =
        ?ex(p := (?ex p)\<lparr>pc_requests := pc_requests (?ex p) + 1\<rparr>)"
      using expected_attach [OF ok] lease none by simp
    have "exact_counts s' (hm_insert i lease' ls)"
      using counts_ok_with_project [OF cnt [unfolded exact_counts_def],
          of "\<lambda>c. c\<lparr>pc_requests := pc_requests c + 1\<rparr>" p]
      by (simp add: exact_counts_def s' none ex counts_empty_def)
    moreover have "ids_ok s' (hm_insert i lease' ls)"
      using ids keys by (simp add: ids_ok_def s')
    moreover have "pc_requests (?ex p) < wl_requests_per_project l"
      using room valid
      by (cases "hm_get (co_projects s) p")
        (auto simp: validate_def zero_counts_sel simp flip: counts_ok_get [OF cnt [unfolded exact_counts_def], of p]
           split: if_splits)
    then have "within_limits l s' (hm_insert i lease' ls)"
      using lim by (simp add: within_limits_def s' none ex)
    ultimately show ?thesis by (simp add: coord_inv_def)
  qed
qed

lemma drop_request_inv:
  assumes "coord_inv l s ls" and lease: "hm_get ls i = Some lease"
  shows "\<exists>s'. drop_request i lease s = Some s' \<and> coord_inv l s' (hm_remove i ls)"
proof -
  have ids: "ids_ok s ls" and cnt: "exact_counts s ls" and lim: "within_limits l s ls"
    using assms(1) by (simp_all add: coord_inv_def)
  have ok: "hm_ok ls" using ids by (simp add: ids_ok_def)
  let ?ex = "expected ls (co_queued s) (co_running s)"
  let ?s1 = "s\<lparr>co_requests := hm_remove i (co_requests s)\<rparr>"
  note drop = expected_drop_lease [OF ok lease]
  have *: "coord_inv l s' (hm_remove i ls)"
    if "counts_ok (expected (hm_remove i ls) (co_queued s) (co_running s)) (co_projects s')"
      and s': "co_queued s' = co_queued s" "co_running s' = co_running s" "co_next_id s' = co_next_id s"
      "co_requests s' = hm_remove i (co_requests s)" for s'
  proof -
    have "ids_ok s' (hm_remove i ls)"
      using ids by (auto simp: ids_ok_def s' intro: ids_below_subset)
    moreover have "within_limits l s' (hm_remove i ls)"
      by (rule within_limits_mono [OF lim])
        (simp_all add: s' expected_def count_if_remove_le length_hm_remove_le)
    ultimately show ?thesis using that(1) by (simp add: coord_inv_def exact_counts_def s')
  qed
  show ?thesis
  proof (cases lease)
    case None
    then have "counts_ok (expected (hm_remove i ls) (co_queued s) (co_running s)) (co_projects ?s1)"
      using cnt by (simp add: drop exact_counts_def)
    from * [OF this] None show ?thesis by (simp add: drop_request_def)
  next
    case (Some p)
    have pos: "pc_requests (?ex p) \<noteq> 0"
      using count_if_pos [OF hm_get_mem [OF lease], of "\<lambda>(_, lease). lease = Some p"] Some
      by (simp add: expected_def)
    then have get: "hm_get (co_projects s) p = Some (?ex p)"
      using cnt by (simp add: exact_counts_def counts_ok_def counts_empty_def)
    have "counts_ok (expected (hm_remove i ls) (co_queued s) (co_running s))
        (co_projects (prune_project p (?s1\<lparr>co_projects :=
           hm_insert p ((?ex p)\<lparr>pc_requests := pc_requests (?ex p) - 1\<rparr>) (co_projects s)\<rparr>)))"
      using counts_ok_prune [OF cnt [unfolded exact_counts_def]] by (simp add: drop Some)
    from * [OF this] pos get show ?thesis by (simp add: drop_request_def Some)
  qed
qed

lemma enqueue_execution_inv:
  assumes "coord_inv l s ls" and "enqueue_execution l chk p k c s = (Inr i, s')"
  shows "coord_inv l s' ls"
proof -
  have ids: "ids_ok s ls" and cnt: "exact_counts s ls" and lim: "within_limits l s ls"
    using assms(1) by (simp_all add: coord_inv_def)
  let ?ex = "expected ls (co_queued s) (co_running s)"
  let ?e = "\<lparr>pd_id = i, pd_project = p, pd_class = k, pd_control = c, pd_phase = PENDING\<rparr>"
  from assms(2) have i: "checked_add (co_next_id s) 1 = Some i"
    and s': "s' = s\<lparr>co_next_id := i, co_projects := with_project p
        (\<lambda>c. c\<lparr>pc_queued := (pc_queued c)(k := pc_queued c k + 1)\<rparr>) (co_projects s), co_queued := co_queued s @ [?e]\<rparr>"
    and all: "count_if (\<lambda>e. pd_class e = k) (co_queued s) < ll_queued (lane l k)"
    and "(case hm_get (co_projects s) p of Some c \<Rightarrow> pc_queued c k | None \<Rightarrow> 0) < ll_queued_per_project (lane l k)"
    by (auto simp: enqueue_execution_def split: sum.splits if_splits option.splits)
  then have one: "pc_queued (?ex p) k < ll_queued_per_project (lane l k)"
    by (auto simp flip: counts_ok_get [OF cnt [unfolded exact_counts_def], of p] split: option.splits)
  note fresh = next_id_fresh [OF ids i]
  have ex: "expected ls (co_queued s @ [?e]) (co_running s) =
      ?ex(p := (?ex p)\<lparr>pc_queued := (pc_queued (?ex p))(k := pc_queued (?ex p) k + 1)\<rparr>)"
    by (rule expected_enqueue) simp_all
  have "ids_ok s' ls"
    using ids fresh by (auto simp: ids_ok_def s' map_of_eq_None_iff intro: ids_below_mono)
  moreover have "exact_counts s' ls"
    using counts_ok_with_project [OF cnt [unfolded exact_counts_def],
        of "\<lambda>c. c\<lparr>pc_queued := (pc_queued c)(k := pc_queued c k + 1)\<rparr>" p]
    by (simp add: exact_counts_def s' ex counts_nonempty(2) [of _ k])
  moreover have "within_limits l s' ls"
    using lim all one by (auto simp: within_limits_def s' ex Suc_le_eq)
  ultimately show ?thesis by (simp add: coord_inv_def)
qed

text \<open>What the coordinator admits is eligible, so it is queued and its lanes have room.\<close>

lemma eligible_entry:
  assumes "eligible alive k l s = Some i"
  obtains e where "e \<in> set (co_queued s)" and "pd_id e = i" and "is_eligible alive k l s e"
    and "count_if (\<lambda>(_, r). rn_class r = k) (co_running s) < ll_running l"
  using assms
  by (auto simp: eligible_def split: if_splits option.splits dest!: find_Some_mem)

lemma find_pending:
  assumes "ids_ok s ls" and "e \<in> set (co_queued s)"
  shows "find (\<lambda>x. pd_id x = pd_id e) (co_queued s) = Some e"
  using assms by (intro find_distinct) (simp_all add: ids_ok_def)

lemma ids_ok_dequeue:
  assumes "ids_ok s ls" and "co_queued s' = remove_first (\<lambda>x. pd_id x = i) (co_queued s)"
    and "co_running s' = co_running s" "co_next_id s' = co_next_id s" "co_requests s' = co_requests s"
  shows "ids_ok s' ls \<and> i \<notin> pd_id ` set (co_queued s')"
proof -
  have d: "distinct (map pd_id (co_queued s))" using assms(1) by (simp add: ids_ok_def)
  have q: "pd_id ` set (co_queued s') \<subseteq> pd_id ` set (co_queued s) - {i}"
    by (auto simp: assms(2) remove_first_distinct [OF d])
  then have "pd_id ` set (co_queued s') \<inter> fst ` set (co_running s') = {}"
    using assms(1) by (simp add: ids_ok_def assms(3)) blast
  with q show ?thesis
    using assms(1) distinct_map_remove_first [OF d]
    by (auto simp: ids_ok_def assms(2-) intro: ids_below_subset)
qed

lemma pending_counted:
  assumes "exact_counts s ls" and "e \<in> set (co_queued s)"
  shows "pc_queued (expected ls (co_queued s) (co_running s) (pd_project e)) (pd_class e) \<noteq> 0"
    and "hm_get (co_projects s) (pd_project e) = Some (expected ls (co_queued s) (co_running s) (pd_project e))"
proof -
  show pos: "pc_queued (expected ls (co_queued s) (co_running s) (pd_project e)) (pd_class e) \<noteq> 0"
    using count_if_pos [OF assms(2), of "\<lambda>x. pd_project x = pd_project e \<and> pd_class x = pd_class e"]
    by (simp add: expected_def)
  show "hm_get (co_projects s) (pd_project e) = Some (expected ls (co_queued s) (co_running s) (pd_project e))"
    using assms(1) counts_nonempty(2) [OF pos] by (simp add: exact_counts_def counts_ok_def)
qed

lemma drop_pending_inv:
  assumes "coord_inv l s ls"
  shows "\<exists>s'. drop_pending i s = Some s' \<and> coord_inv l s' ls \<and> i \<notin> pd_id ` set (co_queued s')"
proof (cases "find (\<lambda>e. pd_id e = i) (co_queued s)")
  case None
  moreover from None have "i \<notin> pd_id ` set (co_queued s)" by (auto simp: find_None_iff)
  ultimately show ?thesis using assms by (simp add: drop_pending_def)
next
  case (Some e)
  have ids: "ids_ok s ls" and cnt: "exact_counts s ls" and lim: "within_limits l s ls"
    using assms(1) by (simp_all add: coord_inv_def)
  from find_Some_mem [OF Some] have e: "e \<in> set (co_queued s)" "pd_id e = i" by simp_all
  note pos = pending_counted [OF cnt e(1)]
  let ?p = "pd_project e" and ?k = "pd_class e" and ?q = "remove_first (\<lambda>x. pd_id x = i) (co_queued s)"
  let ?ex = "expected ls (co_queued s) (co_running s)"
  define s' where "s' = prune_project ?p (s\<lparr>co_queued := ?q, co_projects := hm_insert ?p
    ((?ex ?p)\<lparr>pc_queued := (pc_queued (?ex ?p))(?k := pc_queued (?ex ?p) ?k - 1)\<rparr>) (co_projects s)\<rparr>)"
  have step: "drop_pending i s = Some s'"
    using pos by (simp add: drop_pending_def Some s'_def)
  have ex: "expected ls ?q (co_running s) =
      ?ex(?p := (?ex ?p)\<lparr>pc_queued := (pc_queued (?ex ?p))(?k := pc_queued (?ex ?p) ?k - 1)\<rparr>)"
    by (rule expected_dequeue [OF Some]) simp_all
  have "exact_counts s' ls"
    using counts_ok_prune [OF cnt [unfolded exact_counts_def]] by (simp add: exact_counts_def s'_def ex)
  moreover have "within_limits l s' ls"
    by (rule within_limits_mono [OF lim]) (simp_all add: s'_def expected_def count_if_remove_first_le)
  moreover have "ids_ok s' ls \<and> i \<notin> pd_id ` set (co_queued s')"
    by (rule ids_ok_dequeue [OF ids]) (simp_all add: s'_def)
  ultimately show ?thesis using step by (simp add: coord_inv_def)
qed

lemma running_counted:
  assumes "exact_counts s ls" and "hm_get (co_running s) i = Some x"
  shows "pc_running (expected ls (co_queued s) (co_running s) (rn_project x)) (rn_class x) \<noteq> 0"
    and "hm_get (co_projects s) (rn_project x) = Some (expected ls (co_queued s) (co_running s) (rn_project x))"
proof -
  show pos: "pc_running (expected ls (co_queued s) (co_running s) (rn_project x)) (rn_class x) \<noteq> 0"
    using count_if_pos [OF hm_get_mem [OF assms(2)], of "\<lambda>(_, y). rn_project y = rn_project x \<and> rn_class y = rn_class x"]
    by (simp add: expected_def)
  show "hm_get (co_projects s) (rn_project x) = Some (expected ls (co_queued s) (co_running s) (rn_project x))"
    using assms(1) counts_nonempty(3) [OF pos] by (simp add: exact_counts_def counts_ok_def)
qed

lemma drop_execution_inv:
  assumes "coord_inv l s ls"
  shows "\<exists>s'. drop_execution i s = Some s' \<and> coord_inv l s' ls \<and> hm_get (co_running s') i = None"
proof (cases "hm_get (co_running s) i")
  case None
  then show ?thesis using assms by (auto simp: drop_execution_def)
next
  case (Some x)
  have ids: "ids_ok s ls" and cnt: "exact_counts s ls" and lim: "within_limits l s ls"
    using assms(1) by (simp_all add: coord_inv_def)
  have ok: "hm_ok (co_running s)" using ids by (simp add: ids_ok_def)
  note pos = running_counted [OF cnt Some]
  let ?p = "rn_project x" and ?k = "rn_class x"
  let ?ex = "expected ls (co_queued s) (co_running s)"
  define s' where "s' = prune_project ?p (s\<lparr>co_running := hm_remove i (co_running s), co_projects := hm_insert ?p
    ((?ex ?p)\<lparr>pc_running := (pc_running (?ex ?p))(?k := pc_running (?ex ?p) ?k - 1)\<rparr>) (co_projects s)\<rparr>)"
  have step: "drop_execution i s = Some s'"
    using pos by (simp add: drop_execution_def Some s'_def)
  have ex: "expected ls (co_queued s) (hm_remove i (co_running s)) =
      ?ex(?p := (?ex ?p)\<lparr>pc_running := (pc_running (?ex ?p))(?k := pc_running (?ex ?p) ?k - 1)\<rparr>)"
    by (rule expected_stop [OF ok Some]) simp_all
  have "exact_counts s' ls"
    using counts_ok_prune [OF cnt [unfolded exact_counts_def]] by (simp add: exact_counts_def s'_def ex)
  moreover have "within_limits l s' ls"
    by (rule within_limits_mono [OF lim]) (simp_all add: s'_def expected_def count_if_remove_le)
  moreover have "ids_ok s' ls"
    using ids by (auto simp: ids_ok_def s'_def intro: ids_below_subset)
  ultimately show ?thesis using step by (simp add: coord_inv_def s'_def)
qed

lemma admit_entry_inv:
  assumes "coord_inv l s ls" and e: "e \<in> set (co_queued s)" "is_eligible alive k (lane l k) s e"
    and room: "count_if (\<lambda>(_, r). rn_class r = k) (co_running s) < ll_running (lane l k)"
  shows "\<exists>s'. admit_entry k e s = Some s' \<and> coord_inv l s' ls"
proof -
  have ids: "ids_ok s ls" and cnt: "exact_counts s ls" and lim: "within_limits l s ls"
    using assms(1) by (simp_all add: coord_inv_def)
  have k: "pd_class e = k" using e(2) by (simp add: is_eligible_def)
  note pos = pending_counted [OF cnt e(1), unfolded k]
  let ?p = "pd_project e" and ?q = "remove_first (\<lambda>x. pd_id x = pd_id e) (co_queued s)"
  let ?x = "\<lparr>rn_project = ?p, rn_class = k, rn_control = pd_control e\<rparr>"
  let ?ex = "expected ls (co_queued s) (co_running s)"
  let ?c = "(?ex ?p)\<lparr>pc_queued := (pc_queued (?ex ?p))(k := pc_queued (?ex ?p) k - 1),
    pc_running := (pc_running (?ex ?p))(k := pc_running (?ex ?p) k + 1)\<rparr>"
  define s1 where "s1 = s\<lparr>co_queued := ?q\<rparr>"
  define s' where "s' = s\<lparr>co_queued := ?q, co_projects := hm_insert ?p ?c (co_projects s),
    co_last_project := (co_last_project s)(k := Some ?p), co_running := hm_insert (pd_id e) ?x (co_running s)\<rparr>"
  have step: "admit_entry k e s = Some s'"
    using pos by (simp add: admit_entry_def s'_def)
  have fresh: "hm_get (co_running s) (pd_id e) = None"
    using ids e(1) by (auto simp: ids_ok_def map_of_eq_None_iff)
  have one: "pc_running (?ex ?p) k < ll_running_per_project (lane l k)"
    using e(2) pos(2) by (simp add: is_eligible_def)
  have ex: "expected ls ?q (hm_insert (pd_id e) ?x (co_running s)) = ?ex(?p := ?c)"
    using expected_dequeue [OF find_pending [OF ids e(1)] refl k, of ls "co_running s"]
    by (subst expected_run [OF fresh, of _ ?p k]) simp_all
  have "ids_ok s1 ls \<and> pd_id e \<notin> pd_id ` set (co_queued s1)"
    by (rule ids_ok_dequeue [OF ids]) (simp_all add: s1_def)
  moreover have "unat (pd_id e) \<le> unat (co_next_id s)"
    using ids e(1) by (simp add: ids_ok_def ids_below_def)
  ultimately have ids': "ids_ok s' ls"
    by (simp add: ids_ok_def s1_def s'_def)
  have cnt': "exact_counts s' ls"
    using counts_ok_insert [OF cnt [unfolded exact_counts_def], of ?c ?p] counts_nonempty(3) [of ?c k]
    by (simp add: exact_counts_def s'_def ex)
  have "count_if (\<lambda>x. pd_class x = j) ?q \<le> ll_queued (lane l j)" for j
    using lim by (intro order_trans [OF count_if_remove_first_le]) (simp add: within_limits_def)
  moreover have "pc_queued (?ex ?p) k - 1 \<le> ll_queued_per_project (lane l k)"
    using lim by (intro order_trans [OF diff_le_self]) (simp add: within_limits_def)
  ultimately have "within_limits l s' ls"
    using lim room one by (auto simp: within_limits_def s'_def ex Suc_le_eq count_if_insert_fresh [OF fresh])
  with ids' cnt' show ?thesis using step by (simp add: coord_inv_def)
qed

lemma stop_pending_frame [simp]:
  "co_running (stop_pending i s) = co_running s" "co_requests (stop_pending i s) = co_requests s"
  "co_next_id (stop_pending i s) = co_next_id s" "co_projects (stop_pending i s) = co_projects s"
  "map pd_id (co_queued (stop_pending i s)) = map pd_id (co_queued s)"
  "pd_id ` set (co_queued (stop_pending i s)) = pd_id ` set (co_queued s)"
  "expected ls (co_queued (stop_pending i s)) r = expected ls (co_queued s) r"
  "count_if (\<lambda>e. pd_class e = k) (co_queued (stop_pending i s)) = count_if (\<lambda>e. pd_class e = k) (co_queued s)"
proof -
  have "count_if (\<lambda>e. pd_class e = k) (map (\<lambda>e. if P e then e\<lparr>pd_phase := ph\<rparr> else e) q) =
      count_if (\<lambda>e. pd_class e = k) q" for P ph and q :: "'a pending list"
    by (induction q) auto
  then show "count_if (\<lambda>e. pd_class e = k) (co_queued (stop_pending i s)) = count_if (\<lambda>e. pd_class e = k) (co_queued s)"
    by (simp add: stop_pending_def)
  show ids: "map pd_id (co_queued (stop_pending i s)) = map pd_id (co_queued s)"
    by (auto simp: stop_pending_def)
  then show "pd_id ` set (co_queued (stop_pending i s)) = pd_id ` set (co_queued s)"
    by (metis set_map)
qed (simp_all add: stop_pending_def expected_phase)

lemma stop_pending_inv: "coord_inv l s ls \<Longrightarrow> coord_inv l (stop_pending i s) ls"
  by (simp add: coord_inv_def ids_ok_def exact_counts_def within_limits_def)

lemma try_admit_inv:
  assumes inv: "coord_inv l s ls"
  shows "\<exists>out s'. try_admit l chk alive raced k i s = Some (out, s') \<and> coord_inv l s' ls"
proof (cases "check_control chk = Inr () \<and> \<not> co_closed s \<and> eligible alive k (lane l k) s = Some i")
  case True
  then have el: "eligible alive k (lane l k) s = Some i" by simp
  have ids: "ids_ok s ls" using inv by (simp add: coord_inv_def)
  obtain e where e: "e \<in> set (co_queued s)" "pd_id e = i" "is_eligible alive k (lane l k) s e"
    and room: "count_if (\<lambda>(_, r). rn_class r = k) (co_running s) < ll_running (lane l k)"
    using eligible_entry [OF el] .
  show ?thesis
  proof (cases raced)
    case True
    have "e\<lparr>pd_phase := STOPPED\<rparr> \<in> set (co_queued (stop_pending i s))"
      using e by (force simp: stop_pending_def is_eligible_def)
    moreover have inv': "coord_inv l (stop_pending i s) ls" using inv by (rule stop_pending_inv)
    then have "ids_ok (stop_pending i s) ls" by (simp add: coord_inv_def)
    ultimately have "find (\<lambda>x. pd_id x = i) (co_queued (stop_pending i s)) = Some (e\<lparr>pd_phase := STOPPED\<rparr>)"
      using find_pending e(2) by fastforce
    with True inv' \<open>check_control chk = Inr () \<and> _\<close> show ?thesis by (simp add: try_admit_def)
  next
    case False
    have "find (\<lambda>x. pd_id x = i) (co_queued s) = Some e"
      using find_pending [OF ids e(1)] e(2) by simp
    moreover have "pd_phase e = PENDING" using e(3) by (simp add: is_eligible_def)
    ultimately show ?thesis
      using False \<open>check_control chk = Inr () \<and> _\<close> admit_entry_inv [OF inv e(1,3) room]
      by (auto simp: try_admit_def)
  qed
next
  case False
  then show ?thesis using inv by (auto simp: try_admit_def split: sum.split)
qed

lemma coord_shutdown_inv: "coord_inv l s ls \<Longrightarrow> coord_inv l (snd (coord_shutdown alive s)) ls"
  by (simp add: coord_shutdown_def coord_inv_def ids_ok_def exact_counts_def within_limits_def)

definition coord_ok :: "work_limits \<Rightarrow> 'c coord_sys \<Rightarrow> bool" where
  "coord_ok l y \<longleftrightarrow> validate l = Inr () \<and> coord_inv l (cy_state y) (cy_leases y)"

interpretation coordinator: transition_system "coord_start l" "coord_step l" "coord_ok l" for l
proof
  show "coord_ok l y" if "coord_start l y" for y :: "'a coord_sys"
    using that coord_inv_default by (auto simp: coord_ok_def coord_start_def coord_new_def split: sum.splits)
  show "coord_ok l z" if "coord_step l y z" and "coord_ok l y" for y z :: "'a coord_sys"
    using that
  proof cases
    case (requested chk c i s)
    then show ?thesis using that(2) by (auto simp: coord_ok_def intro: try_request_inv)
  next
    case (attached i lease p r lease' s)
    then show ?thesis using that(2) attach_project_inv by (fastforce simp: coord_ok_def)
  next
    case (request_dropped i lease s)
    then show ?thesis using that(2) drop_request_inv by (fastforce simp: coord_ok_def)
  next
    case (enqueued chk p k c i s)
    then show ?thesis using that(2) by (auto simp: coord_ok_def intro: enqueue_execution_inv)
  next
    case (turned chk alive raced k i out s)
    then show ?thesis using that(2) try_admit_inv [of l "cy_state y" "cy_leases y" chk alive raced k i]
      by (simp add: coord_ok_def)
  next
    case (pending_stopped i)
    then show ?thesis using that(2) by (simp add: coord_ok_def stop_pending_inv)
  next
    case (pending_dropped i s)
    then show ?thesis using that(2) drop_pending_inv [of l "cy_state y" "cy_leases y" i]
      by (auto simp: coord_ok_def)
  next
    case (execution_dropped i s)
    then show ?thesis using that(2) drop_execution_inv [of l "cy_state y" "cy_leases y" i]
      by (auto simp: coord_ok_def)
  next
    case (shut_down alive)
    then show ?thesis using that(2) by (simp add: coord_ok_def coord_shutdown_inv)
  qed
qed

section \<open>Properties\<close>

text \<open>
  A sample run: a request is admitted and attached to a project, and an execution of another
  client is queued for the same project. It is the input of the witnesses below.
\<close>

definition sample_state :: "nat coord" where
  "sample_state =
     snd (enqueue_execution default_limits (Inr ()) ''/a'' Analysis 7
       (snd (snd (attach_project default_limits ''/a'' None
          (snd (try_request default_limits (Inr ()) 5 coord_default))))))"

definition sample_sys :: "nat coord_sys" where
  "sample_sys = \<lparr>cy_state = sample_state, cy_leases = hm_insert 1 (Some ''/a'') (hm_insert 1 None [])\<rparr>"

lemma default_limits_valid: "validate default_limits = Inr ()"
  by (simp add: validate_def default_limits_def lane_invalid_def)

lemma sample_start: "coord_start default_limits \<lparr>cy_state = coord_default, cy_leases = []\<rparr>"
  by (simp add: coord_start_def coord_new_def default_limits_valid)

lemma sample_steps:
  "(coord_step default_limits)\<^sup>*\<^sup>* \<lparr>cy_state = coord_default, cy_leases = []\<rparr> sample_sys"
proof -
  let ?y0 = "\<lparr>cy_state = coord_default, cy_leases = []\<rparr> :: nat coord_sys"
  let ?s1 = "snd (try_request default_limits (Inr ()) 5 coord_default) :: nat coord"
  let ?y1 = "\<lparr>cy_state = ?s1, cy_leases = hm_insert 1 None []\<rparr>"
  let ?s2 = "snd (snd (attach_project default_limits ''/a'' None ?s1))"
  let ?y2 = "\<lparr>cy_state = ?s2, cy_leases = hm_insert 1 (Some ''/a'') (cy_leases ?y1)\<rparr>"
  have "coord_step default_limits ?y0 ?y1"
    using coord_step.requested [of default_limits "Inr ()" 5 ?y0 1 ?s1]
    by (simp add: try_request_def coord_default_def default_limits_def checked_add_def check_control_def)
  moreover have "coord_step default_limits ?y1 ?y2"
    using coord_step.attached [of ?y1 1 None default_limits "''/a''" "Inr ()" "Some ''/a''" ?s2]
    by (simp add: attach_project_def try_request_def coord_default_def default_limits_def checked_add_def check_control_def)
  moreover have "coord_step default_limits ?y2 sample_sys"
    using coord_step.enqueued [of default_limits "Inr ()" "''/a''" Analysis 7 ?y2 2 sample_state]
    by (simp add: sample_sys_def sample_state_def enqueue_execution_def attach_project_def try_request_def
        coord_default_def default_limits_def checked_add_def check_control_def with_project_def hm_insert_def
        zero_counts_def)
  ultimately show ?thesis by (meson converse_rtranclp_into_rtranclp rtranclp.rtrancl_refl)
qed

lemmas coord_eval = sample_sys_def sample_state_def enqueue_execution_def attach_project_def try_request_def
  coord_default_def default_limits_def checked_add_def check_control_def with_project_def hm_insert_def
  zero_counts_def snapshot_def

lemma sample_sys_eval:
  "cy_state sample_sys = sample_state" "cy_leases sample_sys = [(1, Some ''/a'')]"
  "co_queued sample_state = [\<lparr>pd_id = 2, pd_project = ''/a'', pd_class = Analysis, pd_control = 7, pd_phase = PENDING\<rparr>]"
  "co_running sample_state = []" "co_requests sample_state = [(1, 5)]" "\<not> co_closed sample_state"
  "co_projects sample_state = [(''/a'', \<lparr>pc_requests = 1, pc_queued = (\<lambda>_. 0)(Analysis := 1), pc_running = \<lambda>_. 0\<rparr>)]"
  "co_last_project sample_state = (\<lambda>_. None)"
  by (simp_all add: coord_eval)

text \<open>
  C1. However requests, executions, cancellations, drops and shutdowns interleave, no configured
  limit is ever exceeded: the leases, the leases of each project, the queue of each lane in
  all and per project, and the running executions of each lane in all and per project.
\<close>

theorem coordinator_limits_hold:
  assumes "coord_start l y" and "(coord_step l)\<^sup>*\<^sup>* y z"
  shows "ws_requests (snapshot l (cy_state z)) \<le> wl_requests l
    \<and> ws_queued (snapshot l (cy_state z)) k \<le> ll_queued (lane l k)
    \<and> ws_running (snapshot l (cy_state z)) k \<le> ll_running (lane l k)
    \<and> count_if (\<lambda>(_, lease). lease = Some p) (cy_leases z) \<le> wl_requests_per_project l
    \<and> count_if (\<lambda>e. pd_project e = p \<and> pd_class e = k) (co_queued (cy_state z))
        \<le> ll_queued_per_project (lane l k)
    \<and> count_if (\<lambda>(_, r). rn_project r = p \<and> rn_class r = k) (co_running (cy_state z))
        \<le> ll_running_per_project (lane l k)"
  using coordinator.reachable_inv [OF assms]
  by (simp add: coord_ok_def coord_inv_def within_limits_def snapshot_def expected_def)

theorem coordinator_limits_hold_witness:
  "ws_queued (snapshot default_limits sample_state) Analysis = 1 \<and> ws_queued (snapshot default_limits sample_state) Analysis \<le> 32"
  using coordinator_limits_hold [OF sample_start sample_steps, of Analysis]
  by (simp add: sample_sys_eval snapshot_def default_limits_def)

text \<open>
  C23. The coordinator never panics: in every reachable state a turn of the admission loop, the
  drop of a pending or execution lease and the drop of a held request lease all complete, whatever
  the check of the control says and whether or not a cancellation races with the turn.
\<close>

theorem coordinator_never_panics:
  assumes "coord_start l y" and "(coord_step l)\<^sup>*\<^sup>* y z"
  shows "try_admit l chk alive raced k i (cy_state z) \<noteq> None
    \<and> drop_pending i (cy_state z) \<noteq> None
    \<and> drop_execution i (cy_state z) \<noteq> None
    \<and> (\<forall>lease. hm_get (cy_leases z) i = Some lease \<longrightarrow> drop_request i lease (cy_state z) \<noteq> None)"
proof -
  have inv: "coord_inv l (cy_state z) (cy_leases z)"
    using coordinator.reachable_inv [OF assms] by (simp add: coord_ok_def)
  show ?thesis
    using try_admit_inv [OF inv, of chk alive raced k i] drop_pending_inv [OF inv, of i]
      drop_execution_inv [OF inv, of i] drop_request_inv [OF inv, of i]
    by auto
qed

theorem coordinator_never_panics_witness:
  "drop_request 1 (Some ''/a'') sample_state \<noteq> None \<and> drop_pending 2 sample_state \<noteq> None"
  using coordinator_never_panics [OF sample_start sample_steps, of _ _ _ _ 1]
    coordinator_never_panics [OF sample_start sample_steps, of _ _ _ _ 2]
  by (simp add: sample_sys_eval)

text \<open>
  The project records are exact and do not leak: a project has a record exactly while it
  has an attached lease, a queued or a running execution, the record counts them, and when all of them
  are gone the table is empty.
\<close>

theorem project_records_exact:
  assumes "coord_start l y" and "(coord_step l)\<^sup>*\<^sup>* y z"
  shows "(\<forall>p c. hm_get (co_projects (cy_state z)) p = Some c \<longrightarrow>
        pc_requests c = count_if (\<lambda>(_, lease). lease = Some p) (cy_leases z)
        \<and> pc_queued c = (\<lambda>k. count_if (\<lambda>e. pd_project e = p \<and> pd_class e = k) (co_queued (cy_state z)))
        \<and> pc_running c = (\<lambda>k. count_if (\<lambda>(_, r). rn_project r = p \<and> rn_class r = k) (co_running (cy_state z))))
    \<and> (\<forall>p. hm_get (co_projects (cy_state z)) p \<noteq> None \<longleftrightarrow>
        (\<exists>i. (i, Some p) \<in> set (cy_leases z)) \<or> (\<exists>e \<in> set (co_queued (cy_state z)). pd_project e = p)
        \<or> (\<exists>(i, r) \<in> set (co_running (cy_state z)). rn_project r = p))
    \<and> (cy_leases z = [] \<and> co_queued (cy_state z) = [] \<and> co_running (cy_state z) = [] \<longrightarrow>
        ws_projects (snapshot l (cy_state z)) = 0)"
proof -
  let ?s = "cy_state z"
  let ?ex = "expected (cy_leases z) (co_queued ?s) (co_running ?s)"
  have cnt: "counts_ok ?ex (co_projects ?s)"
    using coordinator.reachable_inv [OF assms] by (simp add: coord_ok_def coord_inv_def exact_counts_def)
  have rec: "hm_get (co_projects ?s) p \<noteq> None \<longleftrightarrow>
      (\<exists>i. (i, Some p) \<in> set (cy_leases z)) \<or> (\<exists>e \<in> set (co_queued ?s). pd_project e = p)
      \<or> (\<exists>(i, r) \<in> set (co_running ?s). rn_project r = p)" for p
    by (simp add: counts_ok_None [OF cnt] counts_empty_all expected_def count_if_0_iff split_beta) force
  moreover have "ws_projects (snapshot l ?s) = 0"
    if "cy_leases z = []" "co_queued ?s = []" "co_running ?s = []"
  proof -
    have "hm_get (co_projects ?s) p = None" for p using rec [of p] that by simp
    then have "co_projects ?s = []" by (simp add: fun_eq_iff flip: map_of_eq_empty_iff)
    then show ?thesis by (simp add: snapshot_def)
  qed
  moreover have "pc_requests c = count_if (\<lambda>(_, lease). lease = Some p) (cy_leases z)
      \<and> pc_queued c = (\<lambda>k. count_if (\<lambda>e. pd_project e = p \<and> pd_class e = k) (co_queued ?s))
      \<and> pc_running c = (\<lambda>k. count_if (\<lambda>(_, r). rn_project r = p \<and> rn_class r = k) (co_running ?s))"
    if "hm_get (co_projects ?s) p = Some c" for p c
    by (simp add: counts_ok_Some [OF cnt that] expected_def)
  ultimately show ?thesis by blast
qed

theorem project_records_exact_witness:
  "hm_get (co_projects sample_state) ''/a'' \<noteq> None \<and> hm_get (co_projects sample_state) ''/b'' = None"
proof -
  have "hm_get (co_projects sample_state) p \<noteq> None \<longleftrightarrow> p = ''/a''" for p
    using project_records_exact [OF sample_start sample_steps] by (auto simp: sample_sys_eval)
  from this [of "''/a''"] this [of "''/b''"] show ?thesis by simp
qed

text \<open>The choice of the next execution.\<close>

lemma eligible_None_iff:
  "eligible alive k l s = None \<longleftrightarrow>
     ll_running l \<le> count_if (\<lambda>(_, r). rn_class r = k) (co_running s)
     \<or> (\<forall>e \<in> set (co_queued s). \<not> is_eligible alive k l s e)"
  by (auto simp: eligible_def find_None_iff split: option.split dest!: find_Some_mem)

lemma find_filter_split:
  assumes "find P (filter Q xs) = Some e"
  shows "\<exists>pre post. xs = pre @ e # post \<and> P e \<and> Q e \<and> (\<forall>x \<in> set pre. Q x \<longrightarrow> \<not> P x)"
  using assms
proof (induction xs)
  case (Cons x xs)
  show ?case
  proof (cases "Q x \<and> P x")
    case True
    with Cons.prems show ?thesis by fastforce
  next
    case False
    with Cons.prems have "find P (filter Q xs) = Some e" by (auto split: if_splits)
    from Cons.IH [OF this] obtain pre post where
      "xs = pre @ e # post \<and> P e \<and> Q e \<and> (\<forall>x \<in> set pre. Q x \<longrightarrow> \<not> P x)" by blast
    with False show ?thesis by (intro exI [of _ "x # pre"] exI [of _ post]) auto
  qed
qed simp

lemma eligible_choice:
  assumes "eligible alive k l s = Some i"
  shows "\<exists>pre e post. co_queued s = pre @ e # post \<and> pd_id e = i \<and> is_eligible alive k l s e
    \<and> (\<forall>x \<in> set pre. pd_project x = pd_project e \<longrightarrow> \<not> is_eligible alive k l s x)
    \<and> (co_last_project s k = Some (pd_project e) \<longrightarrow>
         (\<forall>x \<in> set (co_queued s). is_eligible alive k l s x \<longrightarrow> pd_project x = pd_project e))"
proof (cases "find (\<lambda>e. co_last_project s k \<noteq> Some (pd_project e)) (filter (is_eligible alive k l s) (co_queued s))")
  case (Some e)
  from find_filter_split [OF Some] obtain pre post where
    "co_queued s = pre @ e # post" "co_last_project s k \<noteq> Some (pd_project e)" "is_eligible alive k l s e"
    "\<forall>x \<in> set pre. is_eligible alive k l s x \<longrightarrow> co_last_project s k = Some (pd_project x)" by auto
  moreover have "pd_id e = i" using assms Some by (simp add: eligible_def split: if_splits)
  ultimately show ?thesis by (intro exI [of _ pre] exI [of _ e] exI [of _ post]) auto
next
  case None
  with assms obtain e where "find (is_eligible alive k l s) (filter (\<lambda>_. True) (co_queued s)) = Some e" and i: "pd_id e = i"
    by (auto simp: eligible_def split: if_splits)
  from find_filter_split [OF this(1)] obtain pre post where
    "co_queued s = pre @ e # post" "is_eligible alive k l s e" "\<forall>x \<in> set pre. \<not> is_eligible alive k l s x" by auto
  with None i show ?thesis
    by (intro exI [of _ pre] exI [of _ e] exI [of _ post]) (auto simp: find_None_iff)
qed

lemma stop_pending_stopped:
  assumes "find (\<lambda>e. pd_id e = i) (co_queued (stop_pending i s)) = Some e"
  shows "pd_phase e \<noteq> PENDING"
proof -
  from find_Some_mem [OF assms]
  have "e \<in> pd_phase_update (\<lambda>_. STOPPED) ` {x. True} \<or> pd_phase e \<noteq> PENDING"
    by (simp add: stop_pending_def) blast
  then show ?thesis by (elim disjE imageE) simp_all
qed

lemma try_admit_Granted:
  assumes "try_admit l chk alive raced k i s = Some (Admit_Granted, s')"
  obtains e where "eligible alive k (lane l k) s = Some i" and "\<not> co_closed s" and "chk = Inr ()"
    and "find (\<lambda>e. pd_id e = i) (co_queued s) = Some e" and "admit_entry k e s = Some s'"
proof -
  have "\<not> raced" using assms
    by (auto simp: try_admit_def Let_def split: sum.splits if_splits option.splits dest: stop_pending_stopped)
  with assms that show thesis
    by (auto simp: try_admit_def check_control_def Let_def split: sum.splits if_splits option.splits)
qed



lemma co_closed_frame:
  "try_request l chk c s = (r1, s') \<Longrightarrow> co_closed s' = co_closed s"
  "attach_project l p lease s = (r2, lease', s') \<Longrightarrow> co_closed s' = co_closed s"
  "enqueue_execution l chk p k c s = (r1, s') \<Longrightarrow> co_closed s' = co_closed s"
  "drop_request i lease s = Some s' \<Longrightarrow> co_closed s' = co_closed s"
  "drop_pending i s = Some s' \<Longrightarrow> co_closed s' = co_closed s"
  "drop_execution i s = Some s' \<Longrightarrow> co_closed s' = co_closed s"
  "co_closed (stop_pending i s) = co_closed s"
  "admit_entry k e s = Some s' \<Longrightarrow> co_closed s' = co_closed s"
  by (auto simp: try_request_def attach_project_def enqueue_execution_def drop_request_def drop_pending_def
      drop_execution_def stop_pending_def admit_entry_def Let_def split: sum.splits option.splits if_splits)

lemma co_closed_try_admit:
  assumes "try_admit l chk alive raced k i s = Some (out, s')"
  shows "co_closed s' = co_closed s"
  using assms
  by (auto simp: try_admit_def Let_def co_closed_frame(7) dest!: co_closed_frame(8)
      split: sum.splits if_splits option.splits)

lemma co_closed_step:
  assumes "coord_step l y z" and "co_closed (cy_state y)"
  shows "co_closed (cy_state z)"
  using assms
proof cases
  case (shut_down alive)
  then show ?thesis by (simp add: coord_shutdown_def)
qed (auto simp: co_closed_frame(7) dest: co_closed_frame(1-6) co_closed_try_admit)

lemma co_closed_steps: "(coord_step l)\<^sup>*\<^sup>* y z \<Longrightarrow> co_closed (cy_state y) \<Longrightarrow> co_closed (cy_state z)"
  by (induction rule: rtranclp_induct) (auto intro: co_closed_step)

text \<open>
  A shutdown is final: it hands every live control of a lease, a queued and a running
  execution to be cancelled, and in every later state each kind of admission is refused and
  leaves the state alone.
\<close>

theorem shutdown_is_final:
  assumes "(coord_step l)\<^sup>*\<^sup>* (y\<lparr>cy_state := snd (coord_shutdown alive (cy_state y))\<rparr>) z"
  shows "{c. alive c \<and> (c \<in> snd ` set (co_requests (cy_state y)) \<or> c \<in> pd_control ` set (co_queued (cy_state y))
         \<or> c \<in> (rn_control \<circ> snd) ` set (co_running (cy_state y)))} = set (fst (coord_shutdown alive (cy_state y)))
    \<and> try_request l chk c (cy_state z) = (Inl (case chk of Inl r \<Rightarrow> Stopped r | Inr _ \<Rightarrow> Shut_down), cy_state z)
    \<and> attach_project l p None (cy_state z) = (Inl Shut_down, None, cy_state z)
    \<and> enqueue_execution l chk p k c (cy_state z) =
        (Inl (case chk of Inl r \<Rightarrow> Stopped r | Inr _ \<Rightarrow> Shut_down), cy_state z)
    \<and> try_admit l chk alive raced k i (cy_state z) =
        Some (Admit_Err (case chk of Inl r \<Rightarrow> Stopped r | Inr _ \<Rightarrow> Shut_down), cy_state z)"
proof -
  have "co_closed (cy_state z)"
    using co_closed_steps [OF assms] by (simp add: coord_shutdown_def)
  then have "try_request l chk c (cy_state z) = (Inl (case chk of Inl r \<Rightarrow> Stopped r | Inr _ \<Rightarrow> Shut_down), cy_state z)"
    "attach_project l p None (cy_state z) = (Inl Shut_down, None, cy_state z)"
    "enqueue_execution l chk p k c (cy_state z) =
       (Inl (case chk of Inl r \<Rightarrow> Stopped r | Inr _ \<Rightarrow> Shut_down), cy_state z)"
    "try_admit l chk alive raced k i (cy_state z) =
       Some (Admit_Err (case chk of Inl r \<Rightarrow> Stopped r | Inr _ \<Rightarrow> Shut_down), cy_state z)"
    by (simp_all add: try_request_def attach_project_def enqueue_execution_def try_admit_def
        check_control_def split: sum.split)
  then show ?thesis by (auto simp: coord_shutdown_def)
qed

theorem shutdown_is_final_witness:
  "fst (coord_shutdown (\<lambda>_. True) sample_state) = [5, 7]
   \<and> fst (try_request default_limits (Inr ()) 9 (snd (coord_shutdown (\<lambda>_. True) sample_state))) = Inl Shut_down"
  using shutdown_is_final [where l = default_limits and y = sample_sys and alive = "\<lambda>_. True" and chk = "Inr ()" and c = 9,
      OF rtranclp.rtrancl_refl]
  by (simp add: coord_shutdown_def sample_sys_eval)

end
