(* ===== verification/Framing.thy ===== *)
theory Framing
  imports Rust_Prelude
begin

text \<open>
  The frame reader in front of the daemon's JSON lines, \<open>crates/cli/src/mcp/framing.rs\<close>. It withholds a
  frame until its size is checked. The buffered reader below it is a list of events, the answers its
  \<open>poll_fill_buf\<close> gives in turn: bytes that stay available until they are consumed, a
  wait, or an error; no bytes, or the end of the list, is the end of the input. The theorem is that for every way the
  input is cut into chunks, every pattern of waits and every sequence of output buffers, the
  reader delivers exactly what a byte-by-byte acceptor of the same limit delivers.
\<close>

section \<open>The reader below\<close>

datatype 'e source_event = Avail "u8 list" | Wait | Fail 'e

datatype 'e frame_error = Oversized_Frame | Source_Error 'e

datatype 'e poll = Pending | Ready_Ok "u8 list" | Ready_Err "'e frame_error"

abbreviation LF :: u8 where "LF \<equiv> 10"

definition MAX_FRAME_BYTES :: nat where
  "MAX_FRAME_BYTES = 16 * 1024 * 1024"

text \<open>\<open>consume n\<close> after a fill that made \<open>bs\<close> available.\<close>

definition consume :: "nat \<Rightarrow> u8 list \<Rightarrow> 'e source_event list \<Rightarrow> 'e source_event list" where
  "consume n bs evs = (if n < length bs then Avail (drop n bs) # evs else evs)"

section \<open>The frame reader\<close>

record 'e frame_reader =
  fr_inner :: "'e source_event list"
  fr_frame :: "u8 list"
  fr_capacity :: nat
  fr_offset :: nat
  fr_ready :: bool
  fr_ended :: bool
  fr_limit :: nat

definition with_limit :: "'e source_event list \<Rightarrow> nat \<Rightarrow> 'e frame_reader" where
  "with_limit inner limit =
     \<lparr>fr_inner = inner, fr_frame = [], fr_capacity = 0, fr_offset = 0, fr_ready = False,
      fr_ended = False, fr_limit = limit\<rparr>"

definition frame_reader_new :: "'e source_event list \<Rightarrow> 'e frame_reader" where
  "frame_reader_new inner = with_limit inner MAX_FRAME_BYTES"

fun position :: "('a \<Rightarrow> bool) \<Rightarrow> 'a list \<Rightarrow> nat option" where
  "position P [] = None"
| "position P (x # xs) = (if P x then Some 0 else map_option Suc (position P xs))"

text \<open>The room asked for so that \<open>needed\<close> bytes fit.\<close>

definition grow :: "nat \<Rightarrow> nat \<Rightarrow> nat \<Rightarrow> nat" where
  "grow needed capacity limit =
     (if needed > capacity then min (max needed (capacity * 2)) (limit + 1) else capacity)"

text \<open>
  The body of the loop that completes a frame: \<open>None\<close> goes round again, \<open>Some (Inr ())\<close> leaves the loop and
  \<open>Some (Inl p)\<close> returns from \<open>poll_read\<close>. The subtraction \<open>limit - frame.len()\<close> is on \<open>usize\<close>;
  \<open>frame_reader_ok\<close> shows that it does not underflow.
\<close>

definition fill_turn :: "'e frame_reader \<Rightarrow> 'e frame_reader \<times> ('e poll + unit) option" where
  "fill_turn r =
     (case fr_inner r of
        [] \<Rightarrow> (r\<lparr>fr_ended := True, fr_ready := fr_frame r \<noteq> []\<rparr>, Some (Inr ()))
      | Wait # evs \<Rightarrow> (r\<lparr>fr_inner := evs\<rparr>, Some (Inl Pending))
      | Fail e # evs \<Rightarrow>
          (r\<lparr>fr_inner := evs, fr_ended := True, fr_frame := []\<rparr>, Some (Inl (Ready_Err (Source_Error e))))
      | Avail available # evs \<Rightarrow>
          if available = [] then (r\<lparr>fr_ended := True, fr_ready := fr_frame r \<noteq> []\<rparr>, Some (Inr ()))
          else let newline = position (\<lambda>x. x = LF) available;
                   payload = (case newline of Some n \<Rightarrow> n | None \<Rightarrow> length available)
               in if payload > fr_limit r - length (fr_frame r)
                  then (r\<lparr>fr_ended := True, fr_frame := []\<rparr>, Some (Inl (Ready_Err Oversized_Frame)))
                  else let consumed = payload + (if newline \<noteq> None then 1 else 0);
                           needed = length (fr_frame r) + consumed
                       in (r\<lparr>fr_capacity := grow needed (fr_capacity r) (fr_limit r),
                             fr_frame := fr_frame r @ take consumed available,
                             fr_inner := consume consumed available evs,
                             fr_ready := newline \<noteq> None\<rparr>, None))"

fun event_size :: "'e source_event \<Rightarrow> nat" where
  "event_size (Avail bs) = length bs + 1"
| "event_size _ = 1"

abbreviation inner_size :: "'e source_event list \<Rightarrow> nat" where
  "inner_size evs \<equiv> sum_list (map event_size evs)"

lemma inner_size_consume: "0 < n \<Longrightarrow> bs \<noteq> [] \<Longrightarrow> inner_size (consume n bs evs) < length bs + 1 + inner_size evs"
  by (auto simp: consume_def)

lemma fill_turn_consumes:
  assumes "fill_turn r = (r', None)"
  shows "inner_size (fr_inner r') < inner_size (fr_inner r)"
proof -
  from assms obtain bs evs where inner: "fr_inner r = Avail bs # evs" and bs: "bs \<noteq> []"
    by (auto simp: fill_turn_def split: list.splits source_event.splits if_splits)
  let ?nl = "position (\<lambda>x. x = LF) bs"
  have "0 < (case ?nl of Some n \<Rightarrow> n | None \<Rightarrow> length bs) + (if ?nl \<noteq> None then 1 else 0)"
    using bs by (simp split: option.split)
  from inner_size_consume [OF this bs, of evs] assms show ?thesis
    by (auto simp: fill_turn_def Let_def inner bs split: if_splits)
qed

function fill_frame :: "'e frame_reader \<Rightarrow> 'e frame_reader \<times> ('e poll + unit)" where
  "fill_frame r =
     (if fr_ready r \<or> fr_ended r then (r, Inr ())
      else case fill_turn r of
        (r', Some res) \<Rightarrow> (r', res)
      | (r', None) \<Rightarrow> fill_frame r')"
  by pat_completeness auto
termination fill_frame
  by (relation "measure (\<lambda>r. inner_size (fr_inner r))") (auto simp: fill_turn_consumes)

declare fill_frame.simps [simp del]

definition poll_read :: "nat \<Rightarrow> 'e frame_reader \<Rightarrow> 'e frame_reader \<times> 'e poll" where
  "poll_read remaining r =
     (if remaining = 0 then (r, Ready_Ok [])
      else case fill_frame r of
        (r, Inl early) \<Rightarrow> (r, early)
      | (r, Inr _) \<Rightarrow>
          if fr_ready r
          then let count = min remaining (length (fr_frame r) - fr_offset r);
                   r' = r\<lparr>fr_offset := fr_offset r + count\<rparr>
               in (if fr_offset r' = length (fr_frame r')
                   then r'\<lparr>fr_frame := [], fr_offset := 0, fr_ready := False\<rparr> else r',
                   Ready_Ok (take count (drop (fr_offset r) (fr_frame r))))
          else (r, Ready_Ok []))"

section \<open>What it should deliver\<close>

text \<open>The bytes the reader below has before it ends, and how it ends.\<close>

datatype 'e stream_end = Clean_End | Error_End "'e frame_error"

fun stream_of :: "'e source_event list \<Rightarrow> u8 list \<times> 'e stream_end" where
  "stream_of [] = ([], Clean_End)"
| "stream_of (Wait # evs) = stream_of evs"
| "stream_of (Fail e # evs) = ([], Error_End (Source_Error e))"
| "stream_of (Avail [] # evs) = ([], Clean_End)"
| "stream_of (Avail (b # bs) # evs) = (case stream_of evs of (rest, e) \<Rightarrow> (b # bs @ rest, e))"

text \<open>
  The acceptor reads byte by byte. \<open>frame\<close> is the part of the current frame already seen; it
  is only passed on when its line feed or a clean end of the input arrives.
\<close>

fun accept :: "nat \<Rightarrow> u8 list \<Rightarrow> u8 list \<Rightarrow> 'e stream_end \<Rightarrow> u8 list \<times> 'e stream_end" where
  "accept limit frame [] Clean_End = (frame, Clean_End)"
| "accept limit frame [] (Error_End e) = ([], Error_End e)"
| "accept limit frame (b # bs) e =
     (if b = LF then (case accept limit [] bs e of (out, e') \<Rightarrow> (frame @ b # out, e'))
      else if length frame \<ge> limit then ([], Error_End Oversized_Frame)
      else accept limit (frame @ [b]) bs e)"

text \<open>
  A client that polls until the input ends or an error comes, with output buffers of any size; the
  number of polls is bounded by fuel.
\<close>

fun drain :: "nat \<Rightarrow> (nat \<Rightarrow> nat) \<Rightarrow> 'e frame_reader \<Rightarrow> (u8 list \<times> 'e stream_end) option" where
  "drain 0 capacity r = None"
| "drain (Suc n) capacity r =
     (case poll_read (capacity n) r of
        (r', Pending) \<Rightarrow> drain n capacity r'
      | (r', Ready_Err e) \<Rightarrow> Some ([], Error_End e)
      | (r', Ready_Ok out) \<Rightarrow>
          if out = [] then Some ([], Clean_End)
          else map_option (\<lambda>(more, e). (out @ more, e)) (drain n capacity r'))"

section \<open>The invariant\<close>

definition frame_reader_ok :: "'e frame_reader \<Rightarrow> bool" where
  "frame_reader_ok r \<longleftrightarrow>
     length (fr_frame r) \<le> fr_capacity r \<and> fr_capacity r \<le> fr_limit r + 1
     \<and> (if fr_ready r then fr_offset r < length (fr_frame r)
        else fr_offset r = 0 \<and> LF \<notin> set (fr_frame r) \<and> length (fr_frame r) \<le> fr_limit r
          \<and> (fr_ended r \<longrightarrow> fr_frame r = []))"

text \<open>What a reader still has to deliver.\<close>

definition todo :: "'e frame_reader \<Rightarrow> u8 list \<times> 'e stream_end" where
  "todo r =
     (let rest = (\<lambda>frame. if fr_ended r then (frame, Clean_End)
                   else case stream_of (fr_inner r) of (bs, e) \<Rightarrow> accept (fr_limit r) frame bs e)
      in if fr_ready r then (case rest [] of (out, e) \<Rightarrow> (drop (fr_offset r) (fr_frame r) @ out, e))
         else rest (fr_frame r))"

definition work_left :: "'e frame_reader \<Rightarrow> nat" where
  "work_left r = inner_size (fr_inner r) + (length (fr_frame r) - fr_offset r)"

lemma position_Some:
  "position P xs = Some n \<Longrightarrow> n < length xs \<and> P (xs ! n) \<and> (\<forall>x \<in> set (take n xs). \<not> P x)"
  by (induction xs arbitrary: n) (auto split: if_splits)

lemma position_None: "position P xs = None \<longleftrightarrow> (\<forall>x \<in> set xs. \<not> P x)"
  by (induction xs) auto

lemma position_eq_None: "position (\<lambda>x. x = a) xs = None \<longleftrightarrow> a \<notin> set xs"
  by (auto simp: position_None)

lemma position_split:
  assumes "position (\<lambda>x. x = a) xs = Some n"
  shows "xs = take n xs @ a # drop (Suc n) xs" and "a \<notin> set (take n xs)" and "length (take n xs) = n"
proof -
  note * = position_Some [OF assms]
  then show "xs = take n xs @ a # drop (Suc n) xs" using id_take_nth_drop by blast
  show "a \<notin> set (take n xs)" "length (take n xs) = n" using * by auto
qed

lemma accept_payload:
  assumes "LF \<notin> set xs" and "length frame \<le> limit"
  shows "accept limit frame (xs @ rest) e =
    (if length frame + length xs > limit then ([], Error_End Oversized_Frame)
     else accept limit (frame @ xs) rest e)"
  using assms by (induction xs arbitrary: frame) auto

lemma stream_of_consume:
  assumes "stream_of evs = (rest, e)"
  shows "stream_of (consume n bs evs) = (drop n bs @ rest, e)"
proof (cases "n < length bs")
  case True
  then have "drop n bs \<noteq> []" by simp
  then obtain b bs' where "drop n bs = b # bs'" by (cases "drop n bs") auto
  with True assms show ?thesis by (simp add: consume_def)
qed (use assms in \<open>simp add: consume_def\<close>)

lemma inner_size_consume_le: "n \<le> length bs \<Longrightarrow> inner_size (consume n bs evs) + n \<le> length bs + 1 + inner_size evs"
  by (auto simp: consume_def)

lemma grow_bounds:
  "needed \<le> limit + 1 \<Longrightarrow> capacity \<le> limit + 1 \<Longrightarrow> needed \<le> grow needed capacity limit \<and> grow needed capacity limit \<le> limit + 1"
  by (auto simp: grow_def)

text \<open>One turn of the loop on available bytes that fit.\<close>

lemma take_payload:
  assumes ok: "frame_reader_ok r" "\<not> fr_ready r" "\<not> fr_ended r"
    and inner: "fr_inner r = Avail available # evs" and nonempty: "available \<noteq> []"
    and newline: "newline = position (\<lambda>x. x = LF) available"
    and payload: "payload = (case newline of Some n \<Rightarrow> n | None \<Rightarrow> length available)"
  shows "payload > fr_limit r - length (fr_frame r) \<Longrightarrow> todo r = ([], Error_End Oversized_Frame)"
    and "\<not> payload > fr_limit r - length (fr_frame r) \<Longrightarrow>
      consumed = payload + (if newline \<noteq> None then 1 else 0) \<Longrightarrow>
      r' = r\<lparr>fr_capacity := grow (length (fr_frame r) + consumed) (fr_capacity r) (fr_limit r),
             fr_frame := fr_frame r @ take consumed available,
             fr_inner := consume consumed available evs, fr_ready := newline \<noteq> None\<rparr> \<Longrightarrow>
      frame_reader_ok r' \<and> todo r' = todo r \<and> work_left r' \<le> work_left r"
proof -
  let ?f = "fr_frame r" and ?l = "fr_limit r"
  obtain rest e where st: "stream_of evs = (rest, e)" by (cases "stream_of evs")
  have fl: "LF \<notin> set ?f" "length ?f \<le> ?l" "fr_offset r = 0" using ok by (simp_all add: frame_reader_ok_def)
  have td: "todo r = accept ?l ?f (available @ rest) e"
    using ok inner st nonempty by (cases available) (simp_all add: todo_def)
  show "todo r = ([], Error_End Oversized_Frame)" if over: "payload > ?l - length ?f"
  proof (cases newline)
    case None
    then have "LF \<notin> set available" using newline by (simp add: position_eq_None)
    moreover have "?l < length ?f + length available" using over None fl by (simp add: payload)
    ultimately show ?thesis using fl by (simp add: td accept_payload)
  next
    case (Some n)
    note sp = position_split [OF newline [symmetric, unfolded Some]]
    have "todo r = accept ?l ?f (take n available @ LF # drop (Suc n) available @ rest) e"
      by (subst td, subst sp(1)) simp
    moreover have "?l < length ?f + n" using over Some fl by (simp add: payload)
    ultimately show ?thesis using fl sp by (simp add: accept_payload)
  qed
  show "frame_reader_ok r' \<and> todo r' = todo r \<and> work_left r' \<le> work_left r"
    if fits: "\<not> payload > ?l - length ?f" and consumed: "consumed = payload + (if newline \<noteq> None then 1 else 0)"
      and r': "r' = r\<lparr>fr_capacity := grow (length ?f + consumed) (fr_capacity r) ?l,
        fr_frame := ?f @ take consumed available, fr_inner := consume consumed available evs, fr_ready := newline \<noteq> None\<rparr>"
  proof (cases newline)
    case None
    have c: "consumed = length available" by (simp add: consumed payload None)
    have no: "LF \<notin> set available" using None newline by (simp add: position_eq_None)
    have fit: "length ?f + length available \<le> ?l" using fits fl by (simp add: payload None)
    have "todo r' = todo r"
      using ok fl no fit st by (simp add: td accept_payload) (simp add: r' c None todo_def consume_def)
    moreover have "frame_reader_ok r'"
      using grow_bounds [of "length ?f + length available" ?l "fr_capacity r"] fit fl ok no
      by (simp add: r' frame_reader_ok_def None c)
    moreover have "work_left r' \<le> work_left r"
      using fl by (simp add: r' work_left_def None c inner consume_def)
    ultimately show ?thesis by simp
  next
    case (Some n)
    note sp = position_split [OF newline [symmetric, unfolded Some]]
    have pos: "n < length available" "available ! n = LF"
      using position_Some [OF newline [symmetric, unfolded Some]] by simp_all
    note n = pos(1)
    have c: "consumed = Suc n" by (simp add: consumed payload Some)
    have tk: "take (Suc n) available = take n available @ [LF]"
      using take_Suc_conv_app_nth [OF n] pos(2) by simp
    have fit: "length ?f + n \<le> ?l" using fits fl by (simp add: payload Some)
    have "todo r = accept ?l ?f (take n available @ LF # drop (Suc n) available @ rest) e"
      by (subst td, subst sp(1)) simp
    then have "todo r = (case accept ?l [] (drop (Suc n) available @ rest) e of
        (out, e') \<Rightarrow> (?f @ take n available @ LF # out, e'))"
      using fl sp fit by (simp add: accept_payload split: prod.split)
    moreover have "todo r' = (case accept ?l [] (drop (Suc n) available @ rest) e of
        (out, e') \<Rightarrow> (?f @ take n available @ LF # out, e'))"
      using ok fl by (simp add: r' todo_def Some c stream_of_consume [OF st] tk split: prod.split)
    moreover have "frame_reader_ok r'"
      using grow_bounds [of "length ?f + Suc n" ?l "fr_capacity r"] fit fl ok n
      by (simp add: r' frame_reader_ok_def Some c)
    moreover have "work_left r' \<le> work_left r"
      using inner_size_consume_le [of "Suc n" available evs] n fl
      by (simp add: r' work_left_def Some c inner)
    ultimately show ?thesis by simp
  qed
qed

lemma fill_turn_spec:
  assumes ok: "frame_reader_ok r" "\<not> fr_ready r" "\<not> fr_ended r" and turn: "fill_turn r = (r', res)"
  shows "frame_reader_ok r' \<and> fr_limit r' = fr_limit r \<and>
    (case res of
       None \<Rightarrow> todo r' = todo r \<and> work_left r' \<le> work_left r
     | Some (Inr _) \<Rightarrow> todo r' = todo r \<and> (fr_ready r' \<or> fr_ended r') \<and> work_left r' \<le> work_left r
     | Some (Inl Pending) \<Rightarrow> todo r' = todo r \<and> work_left r' < work_left r
     | Some (Inl (Ready_Err e)) \<Rightarrow> todo r = ([], Error_End e) \<and> todo r' = ([], Clean_End)
     | Some (Inl (Ready_Ok _)) \<Rightarrow> False)"
proof (cases "\<exists>bs evs. fr_inner r = Avail bs # evs \<and> bs \<noteq> []")
  case True
  then obtain bs evs where inner: "fr_inner r = Avail bs # evs" and bs: "bs \<noteq> []" by blast
  note payload = take_payload [OF ok inner bs refl refl]
  show ?thesis
  proof (cases res)
    case None
    with turn payload(2) [OF _ refl refl] show ?thesis
      by (auto simp: fill_turn_def inner bs Let_def split: if_splits)
  next
    case (Some res')
    with turn payload(1) ok show ?thesis
      by (auto simp: fill_turn_def inner bs Let_def frame_reader_ok_def split: if_splits) (auto simp: todo_def)
  qed
next
  case False
  then consider "fr_inner r = []" | evs where "fr_inner r = Avail [] # evs"
    | evs where "fr_inner r = Wait # evs" | e evs where "fr_inner r = Fail e # evs"
    by (metis list.exhaust source_event.exhaust)
  then show ?thesis
    using turn ok by cases (auto simp: fill_turn_def frame_reader_ok_def todo_def work_left_def split: if_splits)
qed

lemma fill_frame_spec:
  assumes "frame_reader_ok r" and "fill_frame r = (r', res)"
  shows "frame_reader_ok r' \<and> fr_limit r' = fr_limit r \<and>
    (case res of
       Inr _ \<Rightarrow> todo r' = todo r \<and> (fr_ready r' \<or> fr_ended r') \<and> work_left r' \<le> work_left r
     | Inl Pending \<Rightarrow> todo r' = todo r \<and> work_left r' < work_left r
     | Inl (Ready_Err e) \<Rightarrow> todo r = ([], Error_End e) \<and> todo r' = ([], Clean_End)
     | Inl (Ready_Ok _) \<Rightarrow> False)"
  using assms
proof (induction r rule: fill_frame.induct)
  case (1 r)
  show ?case
  proof (cases "fr_ready r \<or> fr_ended r")
    case True
    then show ?thesis using 1(2,3) by (auto simp: fill_frame.simps [of r])
  next
    case False
    obtain r1 res1 where turn: "fill_turn r = (r1, res1)" by (cases "fill_turn r")
    note spec = fill_turn_spec [OF 1(2) _ _ turn]
    show ?thesis
    proof (cases res1)
      case None
      then have "fill_frame r1 = (r', res)" using 1(3) False turn by (simp add: fill_frame.simps [of r])
      moreover have t: "frame_reader_ok r1 \<and> fr_limit r1 = fr_limit r \<and> todo r1 = todo r \<and> work_left r1 \<le> work_left r"
        using spec False None by simp
      ultimately show ?thesis using 1(1) [OF False turn [symmetric] None] by (auto split: sum.splits poll.splits)
    next
      case (Some x)
      then have "r' = r1" "res = x" using 1(3) False turn by (simp_all add: fill_frame.simps [of r])
      then show ?thesis using spec False unfolding Some by auto
    qed
  qed
qed

lemma todo_ready:
  "fr_ready r \<Longrightarrow> todo r =
     (drop (fr_offset r) (fr_frame r) @ fst (todo (r\<lparr>fr_frame := [], fr_offset := 0, fr_ready := False\<rparr>)),
      snd (todo (r\<lparr>fr_frame := [], fr_offset := 0, fr_ready := False\<rparr>)))"
  by (simp add: todo_def split_beta)

text \<open>One poll delivers the next part of what is left to do, or reports the end that is due.\<close>

lemma poll_read_spec:
  assumes ok: "frame_reader_ok r" and "0 < n" and poll: "poll_read n r = (r', p)"
  shows "frame_reader_ok r' \<and> fr_limit r' = fr_limit r \<and>
    (case p of
       Pending \<Rightarrow> todo r' = todo r \<and> work_left r' < work_left r
     | Ready_Err e \<Rightarrow> todo r = ([], Error_End e) \<and> todo r' = ([], Clean_End)
     | Ready_Ok out \<Rightarrow> length out \<le> n \<and>
         (if out = [] then todo r = ([], Clean_End)
          else todo r = (out @ fst (todo r'), snd (todo r')) \<and> work_left r' < work_left r))"
proof -
  obtain r1 res where fill: "fill_frame r = (r1, res)" by (cases "fill_frame r")
  note spec = fill_frame_spec [OF ok fill]
  show ?thesis
  proof (cases "res = Inr () \<and> fr_ready r1")
    case False
    show ?thesis
    proof (cases res)
      case (Inl p')
      then have "p = p'" "r' = r1" using poll fill assms(2) by (auto simp: poll_read_def)
      then show ?thesis using spec unfolding Inl by (auto split: poll.splits)
    next
      case (Inr u)
      then have "p = Ready_Ok []" "r' = r1" "fr_ended r1" "\<not> fr_ready r1"
        using poll fill assms(2) False spec by (auto simp: poll_read_def)
      moreover from this spec have "todo r1 = ([], Clean_End)"
        by (simp add: todo_def [of r1] frame_reader_ok_def [of r1])
      with spec Inr have "todo r = ([], Clean_End)" by simp
      ultimately show ?thesis using spec by simp
    qed
  next
    case True
    let ?rest = "drop (fr_offset r1) (fr_frame r1)" and ?c = "min n (length (fr_frame r1) - fr_offset r1)"
    have ok1: "frame_reader_ok r1" and td: "todo r1 = todo r" and left: "work_left r1 \<le> work_left r"
      and lim: "fr_limit r1 = fr_limit r"
      using spec True by auto
    have off: "fr_offset r1 < length (fr_frame r1)" using ok1 True by (simp add: frame_reader_ok_def)
    have p: "p = Ready_Ok (take ?c ?rest)"
      and r': "r' = (if fr_offset r1 + ?c = length (fr_frame r1)
        then r1\<lparr>fr_frame := [], fr_offset := 0, fr_ready := False\<rparr> else r1\<lparr>fr_offset := fr_offset r1 + ?c\<rparr>)"
      using poll fill True assms(2) by (auto simp: poll_read_def Let_def)
    have "frame_reader_ok r'"
      using ok1 off True by (auto simp: r' frame_reader_ok_def)
    moreover have "work_left r' < work_left r"
      using off assms(2) left by (auto simp: r' work_left_def)
    moreover have "take ?c ?rest \<noteq> []" using off assms(2) by auto
    moreover have "?rest = take ?c ?rest @ drop (fr_offset r1 + ?c) (fr_frame r1)"
      by (metis append_take_drop_id drop_drop add.commute)
    then have "todo r1 = (take ?c ?rest @ fst (todo r'), snd (todo r'))"
      using todo_ready [of r1] True unfolding r' by (auto simp: todo_ready)
    moreover have "fr_limit r' = fr_limit r" using lim by (simp add: r')
    moreover have "length (take ?c ?rest) \<le> n" by simp
    ultimately show ?thesis using td unfolding p by (simp only: poll.case if_False simp_thms)
  qed
qed

lemma with_limit_ok: "frame_reader_ok (with_limit inner limit)"
  by (simp add: frame_reader_ok_def with_limit_def)

lemma drain_todo:
  assumes "frame_reader_ok r" and "\<forall>i. 0 < capacity i" and "work_left r < n"
  shows "drain n capacity r = Some (todo r)"
  using assms
proof (induction n arbitrary: r)
  case (Suc n)
  obtain r' p where poll: "poll_read (capacity n) r = (r', p)" by (cases "poll_read (capacity n) r")
  note spec = poll_read_spec [OF Suc.prems(1) _ poll]
  show ?case
  proof (cases p)
    case Pending
    then have "drain n capacity r' = Some (todo r')" using spec Suc by auto
    then show ?thesis using spec Suc.prems(2) poll Pending by simp
  next
    case (Ready_Ok out)
    show ?thesis
    proof (cases "out = []")
      case False
      then have "drain n capacity r' = Some (todo r')" using spec Suc Ready_Ok by auto
      then show ?thesis using spec Suc.prems(2) poll Ready_Ok False by (simp add: split_beta)
    qed (use spec Suc.prems(2) poll Ready_Ok in simp)
  qed (use spec Suc.prems(2) poll in simp)
qed simp

definition frame_step :: "'e frame_reader \<Rightarrow> 'e frame_reader \<Rightarrow> bool" where
  "frame_step r r' \<longleftrightarrow> (\<exists>n p. poll_read n r = (r', p))"

interpretation framing: transition_system
  "\<lambda>r. r = with_limit inner limit" frame_step "\<lambda>r. frame_reader_ok r \<and> fr_limit r = limit" for inner limit
proof
  show "frame_reader_ok r \<and> fr_limit r = limit" if "r = with_limit inner limit" for r :: "'a frame_reader"
    using that with_limit_ok by (simp add: with_limit_def)
  show "frame_reader_ok r' \<and> fr_limit r' = limit"
    if st: "frame_step r r'" and inv: "frame_reader_ok r \<and> fr_limit r = limit" for r r' :: "'a frame_reader"
  proof -
    from st obtain n p where "poll_read n r = (r', p)" by (auto simp: frame_step_def)
    then show ?thesis using poll_read_spec [of r n r' p] inv by (cases "n = 0") (auto simp: poll_read_def)
  qed
qed

lemma hd_split_on: "hd (split_on c xs) = takeWhile (\<lambda>x. x \<noteq> c) xs"
  by (induction xs) (auto split: list.splits)

lemma accept_frames:
  assumes "accept limit frame bs e = (out, e')" and "length frame \<le> limit" and "LF \<notin> set frame"
  shows "\<exists>rest. frame @ bs = out @ rest
    \<and> (\<forall>line \<in> set (split_on LF out). length line \<le> limit)
    \<and> (if e' = Clean_End then rest = [] \<and> e = Clean_End
       else (out = [] \<or> last out = LF)
         \<and> (e' = e \<or> e' = Error_End Oversized_Frame \<and> limit < length (hd (split_on LF rest))))"
  using assms
proof (induction limit frame bs e arbitrary: out e' rule: accept.induct)
  case (3 limit frame b bs e)
  show ?case
  proof (cases "b = LF")
    case True
    obtain out1 where a: "accept limit [] bs e = (out1, e')" and out: "out = frame @ LF # out1"
      using 3(3) True by (auto split: prod.splits)
    from 3(1) [OF True a] obtain rest where rest: "bs = out1 @ rest"
      "\<forall>line \<in> set (split_on LF out1). length line \<le> limit"
      "if e' = Clean_End then rest = [] \<and> e = Clean_End
       else (out1 = [] \<or> last out1 = LF)
         \<and> (e' = e \<or> e' = Error_End Oversized_Frame \<and> limit < length (hd (split_on LF rest)))"
      by auto
    have lines: "split_on LF out = frame # split_on LF out1"
      using 3(5) by (simp add: out split_on_append_sep)
    show ?thesis
      using rest 3(4) by (intro exI [of _ rest]) (simp only: lines, auto simp: out True)
  next
    case False
    show ?thesis
    proof (cases "limit \<le> length frame")
      case True
      have "length frame < length (hd (split_on LF (frame @ b # bs)))"
        using False 3(5) by (simp add: hd_split_on takeWhile_append)
      with True False 3(3,4) show ?thesis by (intro exI [of _ "frame @ b # bs"]) auto
    next
      case short: False
      with False 3(2) [OF False] 3(3-5) show ?thesis by simp
    qed
  qed
qed (auto simp: split_on_id)

section \<open>Properties\<close>

text \<open>
  C6. However the input is cut into chunks, however often the reader below waits and whatever the sizes
  of the output buffers, polling the reader to its end takes a bounded number of polls and delivers exactly the
  bytes, and ends exactly the way, the byte-by-byte acceptor of the same limit does.
\<close>

theorem frame_reader_refines_acceptor:
  assumes "\<forall>i. 0 < capacity i" and "inner_size inner < n"
  shows "drain n capacity (with_limit inner limit) =
    Some (accept limit [] (fst (stream_of inner)) (snd (stream_of inner)))"
  using drain_todo [OF with_limit_ok assms(1), of inner limit n] assms(2)
  by (simp add: work_left_def todo_def with_limit_def split_beta)

theorem frame_reader_refines_acceptor_witness:
  "drain 12 (\<lambda>_. 1) (with_limit [Avail [97, 98], Wait, Avail [10, 99]] 2 :: unit frame_reader)
   = Some ([97, 98, 10, 99], Clean_End)"
  using frame_reader_refines_acceptor [of "\<lambda>_. 1" "[Avail [97, 98], Wait, Avail [10, 99]] :: unit source_event list" 12 2]
  by simp

text \<open>
  Only whole, checked frames leave the reader: its output is a prefix of the input in which no
  line is longer than the limit; it is the whole input when the input ends cleanly within the limit; otherwise it stops
  at a line feed, and the reader reports either the error of the input or that the next line exceeds the limit.
\<close>

theorem frames_whole_and_bounded:
  assumes "\<forall>i. 0 < capacity i" and "inner_size inner < n"
    and "drain n capacity (with_limit inner limit) = Some (out, e')"
  shows "\<exists>rest. fst (stream_of inner) = out @ rest
    \<and> (\<forall>line \<in> set (split_on LF out). length line \<le> limit)
    \<and> (if e' = Clean_End then rest = [] \<and> snd (stream_of inner) = Clean_End
       else (out = [] \<or> last out = LF)
         \<and> (e' = snd (stream_of inner)
            \<or> e' = Error_End Oversized_Frame \<and> limit < length (hd (split_on LF rest))))"
proof -
  have "drain n capacity (with_limit inner limit) =
      Some (accept limit [] (fst (stream_of inner)) (snd (stream_of inner)))"
    using drain_todo [OF with_limit_ok assms(1), of inner limit n] assms(2)
    by (simp add: work_left_def todo_def with_limit_def split_beta)
  with assms(3) accept_frames [of limit "[]" "fst (stream_of inner)" "snd (stream_of inner)" out e']
  show ?thesis by simp
qed

theorem frames_whole_and_bounded_witness:
  "drain 12 (\<lambda>_. 3) (with_limit [Avail [97, 10, 98, 99], Avail [100, 10]] 2 :: unit frame_reader)
     = Some ([97, 10], Error_End Oversized_Frame)
   \<and> (\<exists>rest. [97, 10, 98, 99, 100, 10] = [97, 10 :: u8] @ rest \<and> 2 < length (hd (split_on LF rest)))"
proof -
  let ?inner = "[Avail [97, 10, 98, 99], Avail [100, 10]] :: unit source_event list"
  have d: "drain 12 (\<lambda>_. 3) (with_limit ?inner 2) = Some ([97, 10], Error_End Oversized_Frame)"
    using drain_todo [OF with_limit_ok, of "\<lambda>_. 3" ?inner 2 12]
    by (simp add: work_left_def todo_def with_limit_def)
  from frames_whole_and_bounded [OF _ _ d] d show ?thesis by auto
qed

text \<open>
  The reader never holds, nor asks for room for, more than one byte above the limit: the longest
  accepted frame with its line feed.
\<close>

theorem frame_buffer_bounded:
  assumes "frame_step\<^sup>*\<^sup>* (with_limit inner limit) r"
  shows "length (fr_frame r) \<le> limit + 1 \<and> fr_capacity r \<le> limit + 1
    \<and> (\<not> fr_ready r \<longrightarrow> length (fr_frame r) \<le> limit)"
  using framing.reachable_inv [OF refl assms] by (auto simp: frame_reader_ok_def)

theorem frame_buffer_bounded_witness:
  "length (fr_frame (fst (poll_read 1 (with_limit [Avail [97, 98, 10]] 2 :: unit frame_reader)))) = 3
   \<and> length (fr_frame (fst (poll_read 1 (with_limit [Avail [97, 98, 10]] 2 :: unit frame_reader)))) \<le> 2 + 1"
proof -
  let ?r = "with_limit [Avail [97, 98, 10]] 2 :: unit frame_reader"
  have "frame_step ?r (fst (poll_read 1 ?r))" by (metis frame_step_def prod.collapse)
  then have "frame_step\<^sup>*\<^sup>* ?r (fst (poll_read 1 ?r))" by blast
  from frame_buffer_bounded [OF this] show ?thesis
    by (simp add: poll_read_def fill_frame.simps fill_turn_def with_limit_def consume_def)
qed

end
