(* ===== verification/Chunk.thy ===== *)
theory Chunk
  imports Rust_Prelude "HOL-Library.Monad_Syntax"
begin

unbundle bit_operations_syntax

text \<open>
  Splitting a file into the chunks that are embedded, \<open>crates/embed/src/chunk.rs\<close>. A text is the
  list of its UTF-8 bytes and every offset is a byte offset, as in the source; a slice that is out of
  range or not on character boundaries panics in Rust and is \<open>None\<close> here.
\<close>

section \<open>Strings as UTF-8 bytes\<close>

definition is_cont :: "u8 \<Rightarrow> bool" where
  "is_cont b \<longleftrightarrow> b AND 0xC0 = 0x80"

text \<open>Every \<open>str\<close> satisfies this: each lead byte has the continuation bytes it announces.\<close>

function utf8 :: "u8 list \<Rightarrow> bool" where
  "utf8 [] = True"
| "utf8 (b # bs) =
     (let n = (if b < 0x80 then 0 else if b < 0xE0 then 1 else if b < 0xF0 then 2 else 3)
      in \<not> is_cont b \<and> n \<le> length bs \<and> list_all is_cont (take n bs) \<and> utf8 (drop n bs))"
  by pat_completeness auto
termination by (relation "measure length") auto

definition is_char_boundary :: "u8 list \<Rightarrow> nat \<Rightarrow> bool" where
  "is_char_boundary text p \<longleftrightarrow>
     p = 0 \<or> (if p \<ge> length text then p = length text else \<not> is_cont (text ! p))"

definition chars_count :: "u8 list \<Rightarrow> nat" where
  "chars_count text = count_if (\<lambda>b. \<not> is_cont b) text"

abbreviation sub :: "u8 list \<Rightarrow> nat \<Rightarrow> nat \<Rightarrow> u8 list" where
  "sub text a b \<equiv> take (b - a) (drop a text)"

definition slice :: "u8 list \<Rightarrow> nat \<Rightarrow> nat \<Rightarrow> u8 list option" where
  "slice text a b =
     (if a \<le> b \<and> b \<le> length text \<and> is_char_boundary text a \<and> is_char_boundary text b
      then Some (sub text a b) else None)"

text \<open>\<open>char_indices().nth(n)\<close>, without the character itself.\<close>

fun nth_char :: "nat \<Rightarrow> nat \<Rightarrow> u8 list \<Rightarrow> nat option" where
  "nth_char n i [] = None"
| "nth_char n i (b # bs) =
     (if is_cont b then nth_char n (i + 1) bs
      else if n = 0 then Some i else nth_char (n - 1) (i + 1) bs)"

text \<open>\<open>match_indices\<close> of a non-empty pattern, with the offset of the text.\<close>

function match_indices :: "u8 list \<Rightarrow> nat \<Rightarrow> u8 list \<Rightarrow> nat list" where
  "match_indices sep i text =
     (if text = [] \<or> sep = [] then []
      else if starts_with sep text then i # match_indices sep (i + length sep) (drop (length sep) text)
      else match_indices sep (i + 1) (drop 1 text))"
  by pat_completeness auto
termination by (relation "measure (\<lambda>(sep, i, text). length text)") (auto simp: starts_with_def)

declare match_indices.simps [simp del]

fun find_byte :: "u8 \<Rightarrow> u8 list \<Rightarrow> nat option" where
  "find_byte c [] = None"
| "find_byte c (x # xs) = (if x = c then Some 0 else map_option Suc (find_byte c xs))"

section \<open>Segments\<close>

record chunk_config =
  cc_chunk_size :: nat
  cc_min_chunk_size :: nat
  cc_overlap :: nat

definition default_config :: chunk_config where
  "default_config = \<lparr>cc_chunk_size = 1500, cc_min_chunk_size = 350, cc_overlap = 200\<rparr>"

record segment =
  seg_start :: nat
  seg_end :: nat

text \<open>The separators: two line feeds, a line feed, a full stop with a blank, a blank.\<close>

definition SEPARATORS :: "u8 list list" where
  "SEPARATORS = [[10, 10], [10], [46, 32], [32]]"

definition advance_by_chars :: "u8 list \<Rightarrow> nat \<Rightarrow> nat \<Rightarrow> nat option" where
  "advance_by_chars text pos n = do {
     rest \<leftarrow> slice text pos (length text);
     Some (case nth_char n 0 rest of None \<Rightarrow> length text | Some off \<Rightarrow> pos + off) }"

fun retreat_loop :: "u8 list \<Rightarrow> nat \<Rightarrow> nat \<Rightarrow> nat" where
  "retreat_loop bytes 0 remaining = 0"
| "retreat_loop bytes (Suc p) remaining =
     (if remaining = 0 then Suc p
      else if \<not> is_cont (bytes ! p) then retreat_loop bytes p (remaining - 1)
      else retreat_loop bytes p remaining)"

definition retreat_by_chars :: "u8 list \<Rightarrow> nat \<Rightarrow> nat \<Rightarrow> nat" where
  "retreat_by_chars text pos n = retreat_loop text (min pos (length text)) n"

fun snap_loop :: "u8 list \<Rightarrow> nat \<Rightarrow> nat" where
  "snap_loop text 0 = 0"
| "snap_loop text (Suc p) = (if is_char_boundary text (Suc p) then Suc p else snap_loop text p)"

definition snap_to_char_boundary :: "u8 list \<Rightarrow> nat \<Rightarrow> nat" where
  "snap_to_char_boundary text pos = (if pos \<ge> length text then length text else snap_loop text pos)"

function find_char_boundary :: "u8 list \<Rightarrow> nat \<Rightarrow> nat" where
  "find_char_boundary text p =
     (if p \<ge> length text then length text
      else if is_char_boundary text p then p else find_char_boundary text (p + 1))"
  by pat_completeness auto
termination by (relation "measure (\<lambda>(text, p). length text - p)") auto

declare find_char_boundary.simps [simp del]

definition find_line_boundary_after :: "u8 list \<Rightarrow> nat \<Rightarrow> nat option" where
  "find_line_boundary_after text pos =
     (if pos = 0 then Some 0
      else let pos = snap_to_char_boundary text pos
           in do {
             rest \<leftarrow> slice text pos (length text);
             Some (case find_byte 10 rest of
                     Some offset \<Rightarrow> let nl = pos + offset + 1 in if nl < length text then nl else pos
                   | None \<Rightarrow> pos) })"

fun offset_parts :: "nat \<Rightarrow> nat \<Rightarrow> nat \<Rightarrow> nat list \<Rightarrow> (nat \<times> nat) list" where
  "offset_parts sep_len len start [] = (if start < len then [(start, len)] else [])"
| "offset_parts sep_len len start (idx # idxs) =
     (let e = idx + sep_len
      in (if start < e then [(start, e)] else []) @ offset_parts sep_len len e idxs)"

definition split_keeping_offsets :: "u8 list \<Rightarrow> u8 list \<Rightarrow> (nat \<times> nat) list" where
  "split_keeping_offsets text sep = offset_parts (length sep) (length text) 0 (match_indices sep 0 text)"

text \<open>The character fallback; it does not return when it does not advance.\<close>

partial_function (option) char_segments :: "u8 list \<Rightarrow> nat \<Rightarrow> nat \<Rightarrow> segment list option" where
  "char_segments text max_size pos =
     (if pos < length text
      then do {
        e \<leftarrow> advance_by_chars text pos max_size;
        rest \<leftarrow> char_segments text max_size e;
        Some (\<lparr>seg_start = pos, seg_end = e\<rparr> # rest) }
      else Some [])"

text \<open>
  The loop over the parts. \<open>sub_split\<close> is the recursive call for the next separator; the accumulated
  \<open>segments\<close> of the source are what the rest of the loop is appended to.
\<close>

fun pack_parts ::
  "(u8 list \<Rightarrow> segment list option) \<Rightarrow> nat \<Rightarrow> u8 list \<Rightarrow> (nat \<times> nat) list \<Rightarrow> nat \<Rightarrow> nat \<Rightarrow> nat \<Rightarrow>
   segment list option" where
  "pack_parts sub_split max_size text [] current_start current_end current_len =
     Some (if current_start < current_end
           then [\<lparr>seg_start = current_start, seg_end = current_end\<rparr>] else [])"
| "pack_parts sub_split max_size text ((part_start, part_end) # parts) current_start current_end current_len = do {
     part_text \<leftarrow> slice text part_start part_end;
     let part_len = chars_count part_text;
     let candidate_len = (if current_start = current_end then part_len else current_len + part_len);
     if candidate_len \<le> max_size
     then pack_parts sub_split max_size text parts current_start part_end candidate_len
     else do {
       let flushed = (if current_start < current_end
                      then [\<lparr>seg_start = current_start, seg_end = current_end\<rparr>] else []);
       if part_len > max_size
       then do {
         subs \<leftarrow> sub_split part_text;
         rest \<leftarrow> pack_parts sub_split max_size text parts part_end part_end 0;
         Some (flushed @
           map (\<lambda>s. \<lparr>seg_start = part_start + seg_start s, seg_end = part_start + seg_end s\<rparr>) subs @ rest) }
       else do {
         rest \<leftarrow> pack_parts sub_split max_size text parts part_start part_end part_len;
         Some (flushed @ rest) } } }"

text \<open>\<open>seps\<close> is \<open>SEPARATORS\<close> from \<open>sep_idx\<close> on.\<close>

fun split_recursive :: "u8 list list \<Rightarrow> nat \<Rightarrow> u8 list \<Rightarrow> segment list option" where
  "split_recursive [] max_size text =
     (if length text \<le> max_size \<or> chars_count text \<le> max_size
      then Some [\<lparr>seg_start = 0, seg_end = length text\<rparr>]
      else char_segments text max_size 0)"
| "split_recursive (sep # seps) max_size text =
     (if length text \<le> max_size \<or> chars_count text \<le> max_size
      then Some [\<lparr>seg_start = 0, seg_end = length text\<rparr>]
      else pack_parts (split_recursive seps max_size) max_size text (split_keeping_offsets text sep) 0 0 0)"

definition segment_chars :: "u8 list \<Rightarrow> segment \<Rightarrow> nat option" where
  "segment_chars text seg = map_option chars_count (slice text (seg_start seg) (seg_end seg))"

fun merge_loop :: "u8 list \<Rightarrow> nat \<Rightarrow> nat \<Rightarrow> segment list \<Rightarrow> segment list \<Rightarrow> segment list option" where
  "merge_loop text min_size max_size merged [] = Some merged"
| "merge_loop text min_size max_size merged (seg # segs) =
     (if merged = [] then merge_loop text min_size max_size [seg] segs
      else do {
        a \<leftarrow> segment_chars text (last merged);
        b \<leftarrow> segment_chars text seg;
        if (a < min_size \<or> b < min_size) \<and> a + b \<le> max_size
        then merge_loop text min_size max_size (butlast merged @ [(last merged)\<lparr>seg_end := seg_end seg\<rparr>]) segs
        else merge_loop text min_size max_size (merged @ [seg]) segs })"

definition merge_small_chunks :: "segment list \<Rightarrow> u8 list \<Rightarrow> nat \<Rightarrow> nat \<Rightarrow> segment list option" where
  "merge_small_chunks segments text min_size max_size =
     (if segments = [] then Some segments
      else do {
        merged \<leftarrow> merge_loop text min_size max_size [] segments;
        if length merged > 1
        then do {
          let tail = last merged;
          let prev = last (butlast merged);
          b \<leftarrow> segment_chars text tail;
          if b < min_size
          then do {
            a \<leftarrow> segment_chars text prev;
            if a + b \<le> max_size
            then Some (butlast (butlast merged) @ [prev\<lparr>seg_end := seg_end tail\<rparr>])
            else Some merged }
          else Some merged }
        else Some merged })"

text \<open>The loop \<open>for i in 1..len\<close>: only starts change, so \<open>segments[i - 1].end\<close> is the original end.\<close>

fun overlap_loop :: "u8 list \<Rightarrow> nat \<Rightarrow> nat \<Rightarrow> nat \<Rightarrow> segment list \<Rightarrow> segment list option" where
  "overlap_loop text overlap chunk_size prev_end [] = Some []"
| "overlap_loop text overlap chunk_size prev_end (seg # segs) = do {
     let target_start = retreat_by_chars text prev_end overlap;
     boundary \<leftarrow> find_line_boundary_after text target_start;
     let min_start = retreat_by_chars text (seg_end seg) chunk_size;
     let new_start = max boundary min_start;
     rest \<leftarrow> overlap_loop text overlap chunk_size (seg_end seg) segs;
     Some ((if new_start < seg_start seg then seg\<lparr>seg_start := new_start\<rparr> else seg) # rest) }"

definition apply_overlap :: "segment list \<Rightarrow> u8 list \<Rightarrow> nat \<Rightarrow> nat \<Rightarrow> segment list option" where
  "apply_overlap segments text overlap chunk_size =
     (if length segments < 2 \<or> overlap = 0 then Some segments
      else map_option (Cons (hd segments))
             (overlap_loop text overlap chunk_size (seg_end (hd segments)) (tl segments)))"

section \<open>Chunks\<close>

record chunk =
  ch_text :: "u8 list"
  ch_start_line :: u32
  ch_end_line :: u32
  ch_start_byte :: nat
  ch_end_byte :: nat

text \<open>
  \<open>literal as f64 > 0.35 * len as f64\<close>. The constant is the double \<open>6305039478318694 / 2^54\<close> and the
  product is rounded to 53 bits, ties to even; the comparison is scaled by \<open>2^54\<close>.
\<close>

fun bit_len :: "nat \<Rightarrow> nat" where
  "bit_len n = (if n = 0 then 0 else Suc (bit_len (n div 2)))"

declare bit_len.simps [simp del]

definition round53 :: "nat \<Rightarrow> nat" where
  "round53 x =
     (let k = bit_len x - 53; q = x div 2 ^ k; r = x mod 2 ^ k
      in if 2 * r > 2 ^ k \<or> (2 * r = 2 ^ k \<and> odd q) then (q + 1) * 2 ^ k else q * 2 ^ k)"

definition literal_bytes :: "u8 list \<Rightarrow> nat" where
  "literal_bytes text = count_if (\<lambda>b. (48 \<le> b \<and> b \<le> 57) \<or> b = 44) text"

definition is_literal_data :: "u8 list \<Rightarrow> bool" where
  "is_literal_data text \<longleftrightarrow> literal_bytes text * 2 ^ 54 > round53 (6305039478318694 * length text)"

definition newline_offsets :: "u8 list \<Rightarrow> nat list" where
  "newline_offsets content = filter (\<lambda>i. content ! i = 10) [0..<length content]"

text \<open>\<open>partition_point\<close> on the ascending offsets.\<close>

definition line_at :: "nat list \<Rightarrow> nat \<Rightarrow> u32" where
  "line_at newlines pos = 1 + of_nat (length (takeWhile (\<lambda>nl. nl < pos) newlines))"

definition chunk_of_segment :: "u8 list \<Rightarrow> segment \<Rightarrow> chunk option" where
  "chunk_of_segment content seg = do {
     let start = snap_to_char_boundary content (seg_start seg);
     let e = find_char_boundary content (seg_end seg);
     let count_end = (if e > start \<and> content ! (e - 1) = 10 then e - 1 else e);
     text \<leftarrow> slice content start e;
     Some \<lparr>ch_text = text, ch_start_line = line_at (newline_offsets content) start,
           ch_end_line = line_at (newline_offsets content) count_end,
           ch_start_byte = start, ch_end_byte = e\<rparr> }"

fun map_all :: "('a \<Rightarrow> 'b option) \<Rightarrow> 'a list \<Rightarrow> 'b list option" where
  "map_all f [] = Some []"
| "map_all f (x # xs) = do { y \<leftarrow> f x; ys \<leftarrow> map_all f xs; Some (y # ys) }"

definition chunk_segments :: "u8 list \<Rightarrow> chunk_config \<Rightarrow> segment list option" where
  "chunk_segments content config = do {
     let chunk_size = max (cc_chunk_size config) 1;
     raw \<leftarrow> split_recursive SEPARATORS chunk_size content;
     merged \<leftarrow> merge_small_chunks raw content (cc_min_chunk_size config) chunk_size;
     apply_overlap merged content (cc_overlap config) chunk_size }"

definition chunk_text :: "u8 list \<Rightarrow> chunk_config \<Rightarrow> chunk list option" where
  "chunk_text content config =
     (if content = [] then Some []
      else do {
        segments \<leftarrow> chunk_segments content config;
        chunks \<leftarrow> map_all (chunk_of_segment content) segments;
        Some (filter (\<lambda>c. \<not> is_literal_data (ch_text c)) chunks) })"

section \<open>Offsets on character boundaries\<close>

text \<open>What the splitter needs of UTF-8: a text does not start inside a character, and neither does what
  follows an ASCII byte.\<close>

definition str_ok :: "u8 list \<Rightarrow> bool" where
  "str_ok text \<longleftrightarrow> (text \<noteq> [] \<longrightarrow> \<not> is_cont (hd text))
     \<and> successively (\<lambda>a b. a < 0x80 \<longrightarrow> \<not> is_cont b) text"

lemma is_cont_high: "is_cont b \<Longrightarrow> \<not> b < 0x80"
  using word_and_le2 [of b "0xC0"] by (simp add: is_cont_def)

lemma successively_cont: "list_all is_cont xs \<Longrightarrow> successively (\<lambda>a b. a < 0x80 \<longrightarrow> \<not> is_cont b) xs"
  by (induction xs rule: induct_list012) (auto dest: is_cont_high)

lemma utf8_str_ok: "utf8 text \<Longrightarrow> str_ok text"
proof (induction "text" rule: utf8.induct)
  case (2 b bs)
  define n where "n = (if b < 0x80 then 0 else if b < 0xE0 then 1 else if b < 0xF0 then 2 else (3 :: nat))"
  have *: "\<not> is_cont b" "n \<le> length bs" "list_all is_cont (take n bs)" "utf8 (drop n bs)"
    using 2(2) by (simp_all add: n_def Let_def)
  let ?P = "\<lambda>a b. a < (0x80 :: u8) \<longrightarrow> \<not> is_cont b"
  have ok: "str_ok (drop n bs)" using 2(1) [OF n_def *(4)] .
  have "b < 0x80 \<Longrightarrow> n = 0" by (simp add: n_def)
  then have "successively ?P (b # take n bs)"
    using successively_cont [OF *(3)] by (auto simp: successively_Cons)
  moreover have "drop n bs = [] \<or> ?P (last (b # take n bs)) (hd (drop n bs))"
    using ok by (auto simp: str_ok_def)
  ultimately have "successively ?P ((b # take n bs) @ drop n bs)"
    using ok unfolding successively_append_iff str_ok_def by blast
  then show ?case using *(1) by (simp add: str_ok_def)
qed (simp add: str_ok_def)

lemma boundary_le: "is_char_boundary text p \<Longrightarrow> p \<le> length text"
  by (auto simp: is_char_boundary_def split: if_splits)

lemma boundary_0 [simp]: "is_char_boundary text 0"
  by (simp add: is_char_boundary_def)

lemma boundary_length [simp]: "is_char_boundary text (length text)"
  by (simp add: is_char_boundary_def)

lemma boundary_start: "p < length text \<Longrightarrow> \<not> is_cont (text ! p) \<Longrightarrow> is_char_boundary text p"
  by (simp add: is_char_boundary_def)

lemma boundary_not_cont: "str_ok text \<Longrightarrow> is_char_boundary text p \<Longrightarrow> p < length text \<Longrightarrow> \<not> is_cont (text ! p)"
  by (cases "p = 0") (auto simp: is_char_boundary_def str_ok_def hd_conv_nth split: if_splits)

lemma boundary_sub:
  assumes "is_char_boundary text a" and "is_char_boundary text b" and "a \<le> b" and "p \<le> b - a"
  shows "is_char_boundary (sub text a b) p \<longleftrightarrow> is_char_boundary text (a + p)"
  using assms boundary_le [OF assms(2)] by (auto simp: is_char_boundary_def)

lemma boundary_after_ascii:
  assumes "str_ok text" and "p < length text" and "text ! p < 0x80"
  shows "is_char_boundary text (Suc p)"
proof (cases "Suc p = length text")
  case False
  then have "Suc p < length text" using assms(2) by simp
  then have "\<not> is_cont (text ! Suc p)"
    using assms by (auto simp: str_ok_def successively_conv_nth)
  then show ?thesis using \<open>Suc p < length text\<close> by (intro boundary_start)
qed (metis boundary_length)

lemma str_ok_sub:
  assumes "str_ok text" and "is_char_boundary text a" and "a \<le> b" and "b \<le> length text"
  shows "str_ok (sub text a b)"
proof -
  have "\<not> is_cont (hd (sub text a b))" if "sub text a b \<noteq> []"
    using boundary_not_cont [OF assms(1,2)] that assms(3,4) by (auto simp: hd_drop_conv_nth)
  then show ?thesis
    using assms by (auto simp: str_ok_def successively_conv_nth)
qed

lemma sub_append: "a \<le> b \<Longrightarrow> b \<le> c \<Longrightarrow> sub text a c = sub text a b @ sub text b c"
  by (metis (no_types, lifting) Nat.add_diff_assoc2 add_diff_cancel_left' drop_drop le_add_diff_inverse
      le_add_diff_inverse2 take_add)

lemma chars_count_append [simp]: "chars_count (xs @ ys) = chars_count xs + chars_count ys"
  by (simp add: chars_count_def)

lemma chars_count_sub_add:
  "a \<le> b \<Longrightarrow> b \<le> c \<Longrightarrow> chars_count (sub text a c) = chars_count (sub text a b) + chars_count (sub text b c)"
  by (simp add: sub_append [of a b c])

lemma sub_sub: "a + d \<le> b \<Longrightarrow> sub (sub text a b) c d = sub text (a + c) (a + d)"
proof -
  assume "a + d \<le> b"
  then have "min (d - c) (b - a - c) = d - c" by (simp add: min_def)
  then show ?thesis by (simp add: drop_take add.commute)
qed

lemma chars_count_le: "chars_count xs \<le> length xs"
  by (simp add: chars_count_def count_if_def)

lemma slice_Some:
  "is_char_boundary text a \<Longrightarrow> is_char_boundary text b \<Longrightarrow> a \<le> b \<Longrightarrow> slice text a b = Some (sub text a b)"
  by (simp add: slice_def boundary_le)

section \<open>Moving by characters\<close>

lemma nth_char_Some:
  "nth_char n i bs = Some j \<Longrightarrow>
     i \<le> j \<and> j < i + length bs \<and> \<not> is_cont (bs ! (j - i)) \<and> chars_count (take (j - i) bs) = n"
proof (induction n i bs rule: nth_char.induct)
  case (2 n i b bs)
  have *: "i + 1 \<le> j \<and> j < i + 1 + length bs \<and> \<not> is_cont (bs ! (j - (i + 1))) \<and> chars_count (take (j - (i + 1)) bs) = m"
    if "nth_char m (i + 1) bs = Some j" and "is_cont b \<or> 0 < n" and "m = (if is_cont b then n else n - 1)" for m
    using 2(1,2) that by (cases "is_cont b") auto
  show ?case
  proof (cases "is_cont b \<or> 0 < n")
    case True
    then have "nth_char (if is_cont b then n else n - 1) (i + 1) bs = Some j" using 2(3) by auto
    note IH = * [OF this True refl]
    then obtain k where k: "j = Suc (i + k)" by (metis Suc_eq_plus1 add.assoc add.commute le_Suc_ex)
    from IH True show ?thesis by (auto simp: k chars_count_def)
  next
    case False
    with 2(3) show ?thesis by (auto simp: chars_count_def)
  qed
qed simp

lemma nth_char_None: "nth_char n i bs = None \<Longrightarrow> chars_count bs \<le> n"
proof (induction n i bs rule: nth_char.induct)
  case (2 n i b bs)
  then show ?case by (cases "is_cont b"; cases n) (auto simp: chars_count_def)
qed (simp add: chars_count_def)

lemma advance_by_chars_spec:
  assumes "str_ok text" and "is_char_boundary text pos" and "pos < length text" and "0 < n"
  obtains e where "advance_by_chars text pos n = Some e" and "pos < e" and "is_char_boundary text e"
    and "chars_count (sub text pos e) \<le> n"
proof -
  have le: "pos \<le> length text" using assms(3) by simp
  have slice: "slice text pos (length text) = Some (drop pos text)"
    using slice_Some [OF assms(2) boundary_length le] by simp
  show thesis
  proof (cases "nth_char n 0 (drop pos text)")
    case None
    then show thesis
      using that [of "length text"] nth_char_None [OF None] assms(3)
      by (simp add: advance_by_chars_def slice)
  next
    case (Some off)
    note * = nth_char_Some [OF Some]
    have "off \<noteq> 0" using * assms(4) by (intro notI) (simp add: chars_count_def)
    moreover have "is_char_boundary text (pos + off)"
      using * by (intro boundary_start) auto
    ultimately show thesis
      using that [of "pos + off"] * Some by (simp add: advance_by_chars_def slice)
  qed
qed

lemma retreat_loop_spec:
  assumes "p \<le> length text" and "n = 0 \<longrightarrow> is_char_boundary text p"
  shows "retreat_loop text p n \<le> p \<and> is_char_boundary text (retreat_loop text p n)
    \<and> chars_count (sub text (retreat_loop text p n) p) \<le> n"
  using assms
proof (induction p arbitrary: n)
  case (Suc p)
  show ?case
  proof (cases "n = 0")
    case True
    then show ?thesis using Suc.prems by (simp add: chars_count_def)
  next
    case False
    define m where "m = (if is_cont (text ! p) then n else n - 1)"
    have step: "retreat_loop text (Suc p) n = retreat_loop text p m" using False by (simp add: m_def)
    have "m = 0 \<longrightarrow> is_char_boundary text p"
      using Suc.prems(1) False by (auto simp: m_def intro: boundary_start split: if_splits)
    then have IH: "retreat_loop text p m \<le> p \<and> is_char_boundary text (retreat_loop text p m)
        \<and> chars_count (sub text (retreat_loop text p m) p) \<le> m"
      using Suc.IH [of m] Suc.prems(1) by simp
    have "sub text p (Suc p) = [text ! p]"
      using Suc.prems(1) by (simp add: take_Suc hd_drop_conv_nth)
    then have "chars_count (sub text p (Suc p)) = (if is_cont (text ! p) then 0 else 1)"
      by (simp add: chars_count_def)
    with IH False show ?thesis
      using chars_count_sub_add [of "retreat_loop text p m" p "Suc p" "text"]
      unfolding step by (auto simp: m_def split: if_splits) linarith
  qed
qed (simp add: chars_count_def)

lemma retreat_by_chars_spec:
  assumes "is_char_boundary text p"
  shows "retreat_by_chars text p n \<le> p \<and> is_char_boundary text (retreat_by_chars text p n)
    \<and> chars_count (sub text (retreat_by_chars text p n) p) \<le> n"
  using retreat_loop_spec [of p "text" n] assms boundary_le [OF assms]
  by (simp add: retreat_by_chars_def min_absorb1)

lemma snap_boundary: "is_char_boundary text p \<Longrightarrow> snap_to_char_boundary text p = p"
  using boundary_le [of "text" p] by (cases p) (auto simp: snap_to_char_boundary_def)

lemma find_boundary: "is_char_boundary text p \<Longrightarrow> find_char_boundary text p = p"
  using boundary_le [of "text" p] by (auto simp: find_char_boundary.simps)

lemma find_byte_Some: "find_byte c xs = Some n \<Longrightarrow> n < length xs \<and> xs ! n = c"
  by (induction xs arbitrary: n) (auto split: if_splits)

lemma find_line_boundary_after_spec:
  assumes "str_ok text" and p: "is_char_boundary text p"
  obtains q where "find_line_boundary_after text p = Some q" and "is_char_boundary text q" and "p \<le> q"
proof (cases "p = 0")
  case True
  then show thesis using that [of 0] by (simp add: find_line_boundary_after_def)
next
  case False
  have slice: "slice text p (length text) = Some (drop p text)"
    using slice_Some [OF p boundary_length boundary_le [OF p]] by simp
  show thesis
  proof (cases "find_byte 10 (drop p text)")
    case None
    then show thesis
      using that [OF _ p] False by (simp add: find_line_boundary_after_def snap_boundary [OF p] slice)
  next
    case (Some off)
    have "p + off < length text" "text ! (p + off) = 10"
      using find_byte_Some [OF Some] by auto
    then have "is_char_boundary text (Suc (p + off))"
      using boundary_after_ascii [OF assms(1)] by simp
    then show thesis
      using that [of "if Suc (p + off) < length text then Suc (p + off) else p"] False p Some
      by (simp add: find_line_boundary_after_def snap_boundary [OF p] slice Let_def)
  qed
qed

section \<open>Segments that tile the text\<close>

definition seg_ok :: "u8 list \<Rightarrow> nat \<Rightarrow> segment \<Rightarrow> bool" where
  "seg_ok text max_size s \<longleftrightarrow>
     is_char_boundary text (seg_start s) \<and> is_char_boundary text (seg_end s) \<and> seg_start s < seg_end s
     \<and> chars_count (sub text (seg_start s) (seg_end s)) \<le> max_size"

fun tiles :: "nat \<Rightarrow> nat \<Rightarrow> segment list \<Rightarrow> bool" where
  "tiles a b [] \<longleftrightarrow> a = b"
| "tiles a b (s # ss) \<longleftrightarrow> seg_start s = a \<and> tiles (seg_end s) b ss"

definition tiling :: "u8 list \<Rightarrow> nat \<Rightarrow> nat \<Rightarrow> nat \<Rightarrow> segment list \<Rightarrow> bool" where
  "tiling text max_size a b ss \<longleftrightarrow> tiles a b ss \<and> list_all (seg_ok text max_size) ss"

lemma tiles_append: "tiles a b (xs @ ys) \<longleftrightarrow> (\<exists>m. tiles a m xs \<and> tiles m b ys)"
  by (induction xs arbitrary: a) auto

lemma tiling_append:
  "tiling text n a b (xs @ ys) \<longleftrightarrow> (\<exists>m. tiling text n a m xs \<and> tiling text n m b ys)"
  by (auto simp: tiling_def tiles_append)

lemma tiling_Nil [simp]: "tiling text n a b [] \<longleftrightarrow> a = b"
  by (simp add: tiling_def)

lemma tiling_Cons [simp]:
  "tiling text n a b (s # ss) \<longleftrightarrow> seg_start s = a \<and> seg_ok text n s \<and> tiling text n (seg_end s) b ss"
  by (auto simp: tiling_def)

lemma tiles_shift: "tiles a b ss \<Longrightarrow>
  tiles (p + a) (p + b) (map (\<lambda>s. \<lparr>seg_start = p + seg_start s, seg_end = p + seg_end s\<rparr>) ss)"
  by (induction ss arbitrary: a) auto

lemma seg_ok_shift:
  assumes "is_char_boundary text a" and "is_char_boundary text b" and "a \<le> b" and "seg_ok (sub text a b) n s"
  shows "seg_ok text n \<lparr>seg_start = a + seg_start s, seg_end = a + seg_end s\<rparr>"
proof -
  have len: "length (sub text a b) = b - a" using boundary_le [OF assms(2)] by simp
  have "seg_end s \<le> b - a" "seg_start s \<le> b - a"
    using assms(4) boundary_le [of "sub text a b"] len by (fastforce simp: seg_ok_def)+
  then show ?thesis
    using assms boundary_sub [OF assms(1-3)] sub_sub [where a = a and b = b and c = "seg_start s" and d = "seg_end s"]
    by (simp add: seg_ok_def)
qed

lemma tiling_shift:
  assumes "is_char_boundary text a" and "is_char_boundary text b" and "a \<le> b"
    and "tiling (sub text a b) n 0 (length (sub text a b)) ss"
  shows "tiling text n a b (map (\<lambda>s. \<lparr>seg_start = a + seg_start s, seg_end = a + seg_end s\<rparr>) ss)"
proof -
  have len: "a + length (sub text a b) = b" using boundary_le [OF assms(2)] assms(3) by simp
  show ?thesis
    using assms(4) tiles_shift [of 0 "length (sub text a b)" ss a] seg_ok_shift [OF assms(1-3)] len
    by (auto simp: tiling_def list_all_iff)
qed

text \<open>The parts between separators tile the text as well.\<close>

fun part_tiles :: "u8 list \<Rightarrow> nat \<Rightarrow> nat \<Rightarrow> (nat \<times> nat) list \<Rightarrow> bool" where
  "part_tiles text a b [] \<longleftrightarrow> a = b"
| "part_tiles text a b ((s, e) # ps) \<longleftrightarrow>
     s = a \<and> s < e \<and> is_char_boundary text s \<and> is_char_boundary text e \<and> part_tiles text e b ps"

lemma match_end:
  assumes "str_ok text" and "sep \<noteq> []" and "\<forall>b \<in> set sep. b < 0x80"
    and "i \<le> length text" and "starts_with sep (drop i text)"
  shows "i + length sep \<le> length text" and "is_char_boundary text (i + length sep)"
proof -
  from assms(5) obtain ys where ys: "drop i text = sep @ ys" by (auto simp: starts_with_iff)
  then have len: "length text - i = length sep + length ys" by (metis length_append length_drop)
  then show "i + length sep \<le> length text" using assms(4) by simp
  define j where "j = i + length sep - 1"
  have j: "j < length text" "Suc j = i + length sep" using len assms(2,4) by (cases sep; simp add: j_def)+
  have "text ! j = drop i text ! (length sep - 1)" using assms(2,4) by (simp add: j_def Suc_leI)
  also have "\<dots> = last sep" using assms(2) by (simp add: ys nth_append last_conv_nth)
  finally have "text ! j < 0x80" using assms(2,3) by simp
  then show "is_char_boundary text (i + length sep)"
    using boundary_after_ascii [OF assms(1) j(1)] j(2) by simp
qed

lemma match_parts:
  assumes "str_ok text" and "sep \<noteq> []" and "\<forall>b \<in> set sep. b < 0x80"
    and "start \<le> i" and "i \<le> length text" and "is_char_boundary text start" and "rest = drop i text"
  shows "part_tiles text start (length text)
    (offset_parts (length sep) (length text) start (match_indices sep i rest))"
  using assms(2-)
proof (induction sep i rest arbitrary: start rule: match_indices.induct)
  case (1 sep i rest)
  show ?case
  proof (cases "rest = []")
    case True
    then show ?thesis using 1 by (auto simp: match_indices.simps [of sep])
  next
    case nonempty: False
    then have guard: "\<not> (rest = [] \<or> sep = [])" using 1(3) by simp
    show ?thesis
    proof (cases "starts_with sep rest")
      case True
      note e = match_end [OF assms(1) 1(3,4,6), unfolded 1(8) [symmetric], OF True]
      let ?e = "i + length sep"
      have "part_tiles text ?e (length text) (offset_parts (length sep) (length text) ?e
          (match_indices sep ?e (drop (length sep) rest)))"
        using 1(1) [OF guard True 1(3,4) _ e(1) e(2)] 1(8) by (simp add: add.commute)
      moreover have "start < ?e" using 1(3,5) by (cases sep) auto
      ultimately show ?thesis using True guard e 1(7) by (subst match_indices.simps) (simp add: Let_def)
    next
      case False
      have "i < length text" using nonempty 1(8) by simp
      with 1(2) [OF guard False 1(3,4), of start] 1(5,7,8) False guard show ?thesis
        by (subst match_indices.simps) (simp add: drop_Suc tl_drop)
    qed
  qed
qed

lemma split_keeping_offsets_tiles:
  "str_ok text \<Longrightarrow> sep \<noteq> [] \<Longrightarrow> \<forall>b \<in> set sep. b < 0x80 \<Longrightarrow>
     part_tiles text 0 (length text) (split_keeping_offsets text sep)"
  by (simp add: split_keeping_offsets_def match_parts)

section \<open>Splitting\<close>

lemma char_segments_tiling:
  assumes "str_ok text" and "0 < n" and "is_char_boundary text pos"
  shows "\<exists>ss. char_segments text n pos = Some ss \<and> tiling text n pos (length text) ss"
  using assms(3)
proof (induction "length text - pos" arbitrary: pos rule: less_induct)
  case less
  show ?case
  proof (cases "pos < length text")
    case True
    obtain e where e: "advance_by_chars text pos n = Some e" "pos < e" "is_char_boundary text e"
      "chars_count (sub text pos e) \<le> n"
      using advance_by_chars_spec [OF assms(1) less.prems True assms(2)] .
    obtain ss where ss: "char_segments text n e = Some ss" "tiling text n e (length text) ss"
      using less.hyps [of e] e True by (meson diff_less_mono2)
    then show ?thesis
      using e less.prems True by (simp add: char_segments.simps [of _ _ pos] seg_ok_def)
  next
    case False
    then show ?thesis using boundary_le [OF less.prems] by (simp add: char_segments.simps)
  qed
qed

definition splits :: "nat \<Rightarrow> (u8 list \<Rightarrow> segment list option) \<Rightarrow> bool" where
  "splits n f \<longleftrightarrow> (\<forall>text. str_ok text \<longrightarrow> text \<noteq> [] \<longrightarrow>
     (\<exists>ss. f text = Some ss \<and> tiling text n 0 (length text) ss))"

lemma flushed_tiling:
  assumes "cs \<le> ce" and "is_char_boundary text cs" and "is_char_boundary text ce"
    and "chars_count (sub text cs ce) \<le> n"
  shows "tiling text n cs ce (if cs < ce then [\<lparr>seg_start = cs, seg_end = ce\<rparr>] else [])"
  using assms by (simp add: seg_ok_def)

lemma pack_parts_tiling:
  assumes "str_ok text" and "splits n f"
    and "part_tiles text ce (length text) parts" and "cs \<le> ce"
    and "is_char_boundary text cs" and "is_char_boundary text ce"
    and "cl = chars_count (sub text cs ce)" and "cl \<le> n"
  shows "\<exists>ss. pack_parts f n text parts cs ce cl = Some ss \<and> tiling text n cs (length text) ss"
  using assms(3-)
proof (induction parts arbitrary: cs ce cl)
  case Nil
  then show ?case by (auto simp: seg_ok_def)
next
  case (Cons part parts)
  obtain pe where part: "part = (ce, pe)" and pe: "ce < pe" "is_char_boundary text pe"
    "part_tiles text pe (length text) parts"
    using Cons.prems(1) by (cases part) auto
  have slice: "slice text ce pe = Some (sub text ce pe)" using pe Cons.prems by (intro slice_Some) auto
  let ?pl = "chars_count (sub text ce pe)"
  have cand: "(if cs = ce then ?pl else cl + ?pl) = chars_count (sub text cs pe)"
    using chars_count_sub_add [of cs ce pe "text"] Cons.prems(2,5) pe(1) by auto
  let ?flushed = "if cs < ce then [\<lparr>seg_start = cs, seg_end = ce\<rparr>] else []"
  have flush: "tiling text n cs ce ?flushed"
    using flushed_tiling [OF Cons.prems(2-4), of n] Cons.prems(5,6) by simp
  have step: "pack_parts f n text (part # parts) cs ce cl =
      (if chars_count (sub text cs pe) \<le> n then pack_parts f n text parts cs pe (chars_count (sub text cs pe))
       else if ?pl > n then do {
         subs \<leftarrow> f (sub text ce pe);
         rest \<leftarrow> pack_parts f n text parts pe pe 0;
         Some (?flushed @ map (\<lambda>s. \<lparr>seg_start = ce + seg_start s, seg_end = ce + seg_end s\<rparr>) subs @ rest) }
       else do { rest \<leftarrow> pack_parts f n text parts ce pe ?pl; Some (?flushed @ rest) })"
    by (simp only: part pack_parts.simps slice Option.bind.bind_lunit Let_def cand)
  show ?case
  proof (cases "chars_count (sub text cs pe) \<le> n")
    case True
    with Cons.IH [OF pe(3), of cs] Cons.prems(2,3) pe(1,2) show ?thesis unfolding step by simp
  next
    case over: False
    show ?thesis
    proof (cases "?pl > n")
      case True
      have "str_ok (sub text ce pe)" "sub text ce pe \<noteq> []"
        using str_ok_sub [OF assms(1) Cons.prems(4), of pe] pe boundary_le [OF pe(2)] by auto
      then obtain subs where subs: "f (sub text ce pe) = Some subs"
        "tiling (sub text ce pe) n 0 (length (sub text ce pe)) subs"
        using assms(2) by (auto simp: splits_def)
      have shifted: "tiling text n ce pe (map (\<lambda>s. \<lparr>seg_start = ce + seg_start s, seg_end = ce + seg_end s\<rparr>) subs)"
        using tiling_shift [OF Cons.prems(4) pe(2) less_imp_le [OF pe(1)] subs(2)] .
      obtain rest where rest: "pack_parts f n text parts pe pe 0 = Some rest" "tiling text n pe (length text) rest"
        using Cons.IH [OF pe(3), of pe 0] pe(2) by (auto simp: chars_count_def)
      show ?thesis
        using over True flush shifted rest by (simp only: step subs) (auto simp: tiling_append)
    next
      case False
      obtain rest where rest: "pack_parts f n text parts ce pe ?pl = Some rest" "tiling text n ce (length text) rest"
        using Cons.IH [OF pe(3), of ce ?pl] pe Cons.prems False by auto
      show ?thesis
        using over False flush rest by (simp only: step) (auto simp: tiling_append)
    qed
  qed
qed

lemma split_recursive_tiling:
  assumes "0 < n" and "\<forall>sep \<in> set seps. sep \<noteq> [] \<and> (\<forall>b \<in> set sep. b < 0x80)"
  shows "splits n (split_recursive seps n)"
  using assms(2)
proof (induction seps)
  case Nil
  then show ?case
    using char_segments_tiling [OF _ assms(1) boundary_0] chars_count_le
    by (auto simp: splits_def seg_ok_def intro: le_trans)
next
  case (Cons sep seps)
  have "\<exists>ss. split_recursive (sep # seps) n text = Some ss \<and> tiling text n 0 (length text) ss"
    if "str_ok text" "text \<noteq> []" for "text"
  proof (cases "length text \<le> n \<or> chars_count text \<le> n")
    case True
    then show ?thesis using that chars_count_le [of "text"] by (auto simp: seg_ok_def)
  next
    case False
    have "splits n (split_recursive seps n)" using Cons by simp
    from pack_parts_tiling [OF that(1) this split_keeping_offsets_tiles [OF that(1)], of sep 0 0]
      False Cons.prems show ?thesis by (simp add: chars_count_def)
  qed
  then show ?case by (simp add: splits_def)
qed

section \<open>Merging and overlapping\<close>

lemma segment_chars_ok: "seg_ok text n s \<Longrightarrow> segment_chars text s = Some (chars_count (sub text (seg_start s) (seg_end s)))"
  by (simp add: segment_chars_def seg_ok_def slice_Some)

lemma join_tiling:
  assumes "tiling text n a b (xs @ [p, s])"
    and "chars_count (sub text (seg_start p) (seg_end p)) + chars_count (sub text (seg_start s) (seg_end s)) \<le> n"
  shows "tiling text n a b (xs @ [p\<lparr>seg_end := seg_end s\<rparr>])"
proof -
  have "seg_ok text n p" "seg_ok text n s" "seg_end p = seg_start s" and xs: "tiling text n a (seg_start p) xs"
    and b: "b = seg_end s"
    using assms(1) by (auto simp: tiling_append)
  then have "seg_ok text n (p\<lparr>seg_end := seg_end s\<rparr>)"
    using assms(2) chars_count_sub_add [of "seg_start p" "seg_end p" "seg_end s" "text"]
    by (auto simp: seg_ok_def)
  then show ?thesis using xs b by (auto simp: tiling_append)
qed

lemma merge_loop_tiling:
  assumes "tiling text n a b (merged @ segs)" and "merged @ segs \<noteq> []"
  shows "\<exists>ss. merge_loop text mn n merged segs = Some ss \<and> ss \<noteq> [] \<and> tiling text n a b ss"
  using assms
proof (induction segs arbitrary: merged)
  case (Cons seg segs)
  show ?case
  proof (cases "merged = []")
    case True
    then show ?thesis using Cons.IH [of "[seg]"] Cons.prems by simp
  next
    case False
    then obtain xs p where m: "merged = xs @ [p]" by (cases merged rule: rev_cases) auto
    have ok: "seg_ok text n p" "seg_ok text n seg" using Cons.prems(1) by (auto simp: m tiling_append)
    let ?a = "chars_count (sub text (seg_start p) (seg_end p))"
    let ?b = "chars_count (sub text (seg_start seg) (seg_end seg))"
    have "tiling text n a b ((xs @ [p\<lparr>seg_end := seg_end seg\<rparr>]) @ segs)" if fits: "?a + ?b \<le> n"
    proof -
      from Cons.prems(1) obtain c where "tiling text n a c (xs @ [p, seg])" "tiling text n c b segs"
        using tiling_append [of "text" n a b "xs @ [p, seg]" segs] by (auto simp: m)
      with join_tiling [OF _ fits] show ?thesis by (auto simp: tiling_append)
    qed
    with Cons.IH [of "xs @ [p\<lparr>seg_end := seg_end seg\<rparr>]"] Cons.IH [of "xs @ [p, seg]"] Cons.prems(1)
    show ?thesis by (simp add: m segment_chars_ok [OF ok(1)] segment_chars_ok [OF ok(2)])
  qed
qed simp

lemma merge_small_chunks_tiling:
  assumes "tiling text n a b segs" and "segs \<noteq> []"
  shows "\<exists>ss. merge_small_chunks segs text mn n = Some ss \<and> ss \<noteq> [] \<and> tiling text n a b ss"
proof -
  obtain ms where ms: "merge_loop text mn n [] segs = Some ms" "ms \<noteq> []" "tiling text n a b ms"
    using merge_loop_tiling [of "text" n a b "[]" segs mn] assms by auto
  show ?thesis
  proof (cases "length ms > 1")
    case True
    then obtain xs p s where split: "ms = xs @ [p, s]"
      by (metis (no_types, opaque_lifting) One_nat_def append.assoc append_Cons append_Nil length_Cons
          length_append_singleton less_irrefl list.size(3) ms(2) rev_exhaust)
    have ok: "seg_ok text n p" "seg_ok text n s" using ms(3) by (auto simp: split tiling_append)
    show ?thesis
      using ms join_tiling [OF ms(3) [unfolded split]] assms(2) ok
      by (simp add: merge_small_chunks_def split butlast_append segment_chars_ok)
  next
    case False
    then show ?thesis using ms assms(2) by (simp add: merge_small_chunks_def)
  qed
qed

text \<open>After overlapping, each segment starts at or before the end of the previous one and reaches
  beyond it.\<close>

fun chained :: "u8 list \<Rightarrow> nat \<Rightarrow> nat \<Rightarrow> nat \<Rightarrow> segment list \<Rightarrow> bool" where
  "chained text n a b [] \<longleftrightarrow> a = b"
| "chained text n a b (s # ss) \<longleftrightarrow>
     seg_start s \<le> a \<and> a < seg_end s \<and> seg_ok text n s \<and> chained text n (seg_end s) b ss"

lemma tiling_chained: "tiling text n a b ss \<Longrightarrow> chained text n a b ss"
  by (induction ss arbitrary: a) (auto simp: seg_ok_def)

lemma overlap_loop_chained:
  assumes "str_ok text" and "is_char_boundary text a" and "tiling text n a b ss"
  shows "\<exists>ss'. overlap_loop text ov n a ss = Some ss' \<and> chained text n a b ss'"
  using assms(2,3)
proof (induction ss arbitrary: a)
  case (Cons s ss)
  have ok: "seg_ok text n s" and s: "seg_start s = a" and ss: "tiling text n (seg_end s) b ss"
    using Cons.prems by simp_all
  have e: "is_char_boundary text (seg_end s)" using ok by (simp add: seg_ok_def)
  obtain rest where rest: "overlap_loop text ov n (seg_end s) ss = Some rest" "chained text n (seg_end s) b rest"
    using Cons.IH [OF e ss] by auto
  obtain q where q: "find_line_boundary_after text (retreat_by_chars text a ov) = Some q" "is_char_boundary text q"
    using find_line_boundary_after_spec [OF assms(1)] retreat_by_chars_spec [OF Cons.prems(1)] by metis
  let ?m = "retreat_by_chars text (seg_end s) n"
  have m: "?m \<le> seg_end s" "is_char_boundary text ?m" "chars_count (sub text ?m (seg_end s)) \<le> n"
    using retreat_by_chars_spec [OF e, of n] by simp_all
  have new: "seg_ok text n (s\<lparr>seg_start := max q ?m\<rparr>)" if "max q ?m < seg_start s"
  proof -
    have "is_char_boundary text (max q ?m)" using q(2) m(2) by (simp add: max_def)
    moreover have "max q ?m < seg_end s" using that ok by (simp add: seg_ok_def)
    moreover have "chars_count (sub text (max q ?m) (seg_end s)) \<le> n"
      using m(3) chars_count_sub_add [of ?m "max q ?m" "seg_end s" "text"] calculation(2) by simp
    ultimately show ?thesis using e by (simp add: seg_ok_def)
  qed
  define t where "t = (if max q ?m < seg_start s then s\<lparr>seg_start := max q ?m\<rparr> else s)"
  have "overlap_loop text ov n a (s # ss) = Some (t # rest)"
    by (simp only: overlap_loop.simps q(1) rest(1) Let_def Option.bind.bind_lunit t_def)
  moreover have "chained text n a b (t # rest)"
    using new ok s rest(2) by (auto simp: t_def seg_ok_def)
  ultimately show ?case by blast
qed simp

lemma apply_overlap_chained:
  assumes "str_ok text" and "tiling text n 0 (length text) ss" and "ss \<noteq> []"
  shows "\<exists>ss'. apply_overlap ss text ov n = Some ss' \<and> ss' \<noteq> [] \<and> chained text n 0 (length text) ss'"
proof (cases "length ss < 2 \<or> ov = 0")
  case True
  then show ?thesis using assms tiling_chained by (auto simp: apply_overlap_def)
next
  case False
  obtain s rest where ss: "ss = s # rest" using assms(3) by (cases ss) auto
  have "is_char_boundary text (seg_end s)" using assms(2) by (simp add: ss seg_ok_def)
  with overlap_loop_chained [OF assms(1) this, of n "length text" rest ov] False assms(2)
  show ?thesis by (auto simp: apply_overlap_def ss seg_ok_def)
qed

lemma chunk_segments_chained:
  assumes "str_ok content" and "content \<noteq> []"
  shows "\<exists>ss. chunk_segments content config = Some ss \<and> ss \<noteq> []
    \<and> chained content (max (cc_chunk_size config) 1) 0 (length content) ss"
proof -
  let ?n = "max (cc_chunk_size config) 1"
  have "splits ?n (split_recursive SEPARATORS ?n)"
    by (rule split_recursive_tiling) (auto simp: SEPARATORS_def)
  then obtain raw where raw: "split_recursive SEPARATORS ?n content = Some raw"
    "tiling content ?n 0 (length content) raw"
    using assms by (auto simp: splits_def)
  have "raw \<noteq> []" using raw(2) assms(2) by auto
  with merge_small_chunks_tiling [OF raw(2)] obtain ms where
    ms: "merge_small_chunks raw content (cc_min_chunk_size config) ?n = Some ms" "ms \<noteq> []"
    "tiling content ?n 0 (length content) ms" by blast
  with apply_overlap_chained [OF assms(1) ms(3,2), of "cc_overlap config"] raw(1)
  show ?thesis by (simp add: chunk_segments_def Let_def)
qed

section \<open>From segments to chunks\<close>

lemma line_at_count:
  assumes "p \<le> length content"
  shows "line_at (newline_offsets content) p = 1 + of_nat (count_if (\<lambda>b. b = 10) (take p content))"
proof -
  have "takeWhile (\<lambda>nl. nl < p) (filter (\<lambda>i. content ! i = 10) ([0..<p] @ [p..<length content])) =
      filter (\<lambda>i. content ! i = 10) [0..<p]"
  proof -
    have "takeWhile (\<lambda>nl. nl < p) (filter (\<lambda>i. content ! i = 10) [p..<length content]) = []"
      using hd_in_set [of "filter (\<lambda>i. content ! i = 10) [p..<length content]"]
      by (auto simp: takeWhile_eq_Nil_iff)
    then show ?thesis unfolding filter_append by (subst takeWhile_append2) auto
  qed
  moreover have "[0..<p] @ [p..<length content] = [0..<length content]"
    using upt_add_eq_append [of 0 p "length content - p"] assms by simp
  moreover have "length (filter (\<lambda>i. content ! i = 10) [0..<p]) = count_if (\<lambda>b. b = 10) (take p content)"
  proof -
    have "take p content = map ((!) content) [0..<p]" 
      using assms by (intro nth_equalityI) auto
    then show ?thesis by (simp add: count_if_def filter_map comp_def)
  qed
  ultimately show ?thesis by (simp add: line_at_def newline_offsets_def)
qed

definition segment_chunk :: "u8 list \<Rightarrow> segment \<Rightarrow> chunk" where
  "segment_chunk content s =
     \<lparr>ch_text = sub content (seg_start s) (seg_end s),
      ch_start_line = line_at (newline_offsets content) (seg_start s),
      ch_end_line = line_at (newline_offsets content)
        (if content ! (seg_end s - 1) = 10 then seg_end s - 1 else seg_end s),
      ch_start_byte = seg_start s, ch_end_byte = seg_end s\<rparr>"

lemma chunk_of_segment_ok:
  assumes "seg_ok content n s"
  shows "chunk_of_segment content s = Some (segment_chunk content s)"
proof -
  have b: "is_char_boundary content (seg_start s)" "is_char_boundary content (seg_end s)" "seg_start s < seg_end s"
    using assms by (auto simp: seg_ok_def)
  then show ?thesis
    by (simp add: chunk_of_segment_def snap_boundary find_boundary slice_Some segment_chunk_def Let_def)
qed

lemma map_all_chunks:
  "chained content n a b ss \<Longrightarrow> map_all (chunk_of_segment content) ss = Some (map (segment_chunk content) ss)"
  by (induction ss arbitrary: a) (auto simp: chunk_of_segment_ok)

lemma chained_seg_ok: "chained content n a b ss \<Longrightarrow> s \<in> set ss \<Longrightarrow> seg_ok content n s"
  by (induction ss arbitrary: a) auto

lemma chained_last: "chained content n a b ss \<Longrightarrow> ss \<noteq> [] \<Longrightarrow> seg_end (last ss) = b"
  by (induction ss arbitrary: a) auto

lemma chained_next:
  "chained content n a b ss \<Longrightarrow> Suc i < length ss \<Longrightarrow>
     seg_start (ss ! Suc i) \<le> seg_end (ss ! i) \<and> seg_end (ss ! i) < seg_end (ss ! Suc i)"
proof (induction ss arbitrary: a i)
  case (Cons s ss)
  then show ?case by (cases i; cases ss) auto
qed simp

lemma chunk_text_segments:
  assumes "utf8 content" and "content \<noteq> []"
  shows "\<exists>ss. ss \<noteq> [] \<and> chained content (max (cc_chunk_size config) 1) 0 (length content) ss
    \<and> chunk_text content config =
        Some (filter (\<lambda>c. \<not> is_literal_data (ch_text c)) (map (segment_chunk content) ss))"
proof -
  obtain ss where ss: "chunk_segments content config = Some ss" "ss \<noteq> []"
    "chained content (max (cc_chunk_size config) 1) 0 (length content) ss"
    using chunk_segments_chained [OF utf8_str_ok [OF assms(1)] assms(2)] by auto
  then show ?thesis using assms(2) map_all_chunks [OF ss(3)] by (auto simp: chunk_text_def)
qed

lemma chars_pos: "str_ok content \<Longrightarrow> seg_ok content n s \<Longrightarrow> 0 < chars_count (sub content (seg_start s) (seg_end s))"
proof -
  assume *: "str_ok content" "seg_ok content n s"
  then have "seg_start s < length content"
    using boundary_le [of content "seg_end s"] by (auto simp: seg_ok_def)
  then have "\<not> is_cont (content ! seg_start s)" using * boundary_not_cont by (auto simp: seg_ok_def)
  moreover have "content ! seg_start s \<in> set (sub content (seg_start s) (seg_end s))"
    using * \<open>seg_start s < length content\<close> by (simp add: in_set_conv_nth seg_ok_def) (auto intro!: exI [of _ 0] simp: seg_ok_def)
  ultimately show ?thesis unfolding chars_count_def by (rule count_if_pos [rotated])
qed

section \<open>Properties\<close>



text \<open>
  C27. Every chunk is an exact slice of the text on character boundaries, holds at least one and at
  most \<open>max chunk_size 1\<close> characters, and carries the line numbers of its first and of its last byte.
\<close>

theorem chunk_text_chunks:
  assumes "utf8 content" and "chunk_text content config = Some chunks" and "c \<in> set chunks"
  shows "ch_start_byte c < ch_end_byte c
    \<and> is_char_boundary content (ch_start_byte c) \<and> is_char_boundary content (ch_end_byte c)
    \<and> ch_text c = sub content (ch_start_byte c) (ch_end_byte c)
    \<and> 0 < chars_count (ch_text c) \<and> chars_count (ch_text c) \<le> max (cc_chunk_size config) 1
    \<and> ch_start_line c = 1 + of_nat (count_if (\<lambda>b. b = 10) (take (ch_start_byte c) content))
    \<and> ch_end_line c = 1 + of_nat (count_if (\<lambda>b. b = 10) (take (ch_end_byte c - 1) content))"
proof -
  have "content \<noteq> []" using assms(2,3) by (auto simp: chunk_text_def)
  then obtain s where s: "seg_ok content (max (cc_chunk_size config) 1) s" "c = segment_chunk content s"
    using chunk_text_segments [OF assms(1), of config] assms(2,3) chained_seg_ok by fastforce
  have le: "seg_start s < seg_end s" "seg_end s \<le> length content"
    using s(1) boundary_le by (auto simp: seg_ok_def)
  have "take (seg_end s) content = take (seg_end s - 1) content @ [content ! (seg_end s - 1)]"
    using le by (metis Suc_diff_1 Suc_le_lessD gr_zeroI not_less_zero take_Suc_conv_app_nth)
  then have "content ! (seg_end s - 1) \<noteq> 10 \<Longrightarrow>
      count_if (\<lambda>b. b = 10) (take (seg_end s) content) = count_if (\<lambda>b. b = 10) (take (seg_end s - 1) content)"
    by simp
  then show ?thesis
    using s chars_pos [OF utf8_str_ok [OF assms(1)] s(1)] le
    by (auto simp: segment_chunk_def seg_ok_def line_at_count)
qed

theorem chunk_text_chunks_witness:
  "\<exists>chunks c. chunk_text [97, 98] \<lparr>cc_chunk_size = 2, cc_min_chunk_size = 0, cc_overlap = 0\<rparr> = Some chunks
     \<and> c \<in> set chunks \<and> chars_count (ch_text c) \<le> 2"
proof -
  let ?cfg = "\<lparr>cc_chunk_size = 2, cc_min_chunk_size = 0, cc_overlap = 0\<rparr> :: chunk_config"
  let ?c = "segment_chunk [97, 98] \<lparr>seg_start = 0, seg_end = Suc (Suc 0)\<rparr>"
  have seg: "seg_ok [97, 98] 2 \<lparr>seg_start = 0, seg_end = Suc (Suc 0)\<rparr>"
    by (simp add: seg_ok_def is_char_boundary_def chars_count_def is_cont_def)
  have "\<not> is_literal_data (ch_text ?c)"
    by (simp add: segment_chunk_def is_literal_data_def literal_bytes_def)
  then have t: "chunk_text [97, 98] ?cfg = Some [?c]"
    by (simp add: chunk_text_def chunk_segments_def SEPARATORS_def merge_small_chunks_def apply_overlap_def
        chunk_of_segment_ok [OF seg])
  moreover have "utf8 [97, 98]" by (simp add: is_cont_def)
  ultimately show ?thesis using chunk_text_chunks [OF _ t, of ?c] by auto
qed

end
