(* ===== verification/C_Lexer.thy ===== *)
theory C_Lexer
  imports Rust_Prelude
begin

text \<open>
  The token stream over C and C++ source that both textual pre-passes share: \<open>Lexer\<close> and its skipping
  helpers in \<open>crates/parser/src/export_macro.rs\<close>. Source bytes are the 256 values of type \<open>char\<close>.
  A slice or index that is out of range would panic in Rust; \<open>lexer_tokens_ordered\<close> shows that
  every token, and so every slice of a token, lies inside the source.
\<close>

section \<open>Bytes\<close>

type_synonym bytes = "char list"

abbreviation NL :: char where "NL \<equiv> CHR 0x0A"
abbreviation CR :: char where "CR \<equiv> CHR 0x0D"
abbreviation TAB :: char where "TAB \<equiv> CHR 0x09"
abbreviation BACKSLASH :: char where "BACKSLASH \<equiv> CHR 0x5C"
abbreviation DQUOTE :: char where "DQUOTE \<equiv> CHR 0x22"
abbreviation SQUOTE :: char where "SQUOTE \<equiv> CHR 0x27"

definition byte_val :: "char \<Rightarrow> nat" where
  "byte_val b = of_char b"

definition is_digit :: "char \<Rightarrow> bool" where
  "is_digit b \<longleftrightarrow> 48 \<le> byte_val b \<and> byte_val b \<le> 57"

definition is_upper :: "char \<Rightarrow> bool" where
  "is_upper b \<longleftrightarrow> 65 \<le> byte_val b \<and> byte_val b \<le> 90"

definition is_alphabetic :: "char \<Rightarrow> bool" where
  "is_alphabetic b \<longleftrightarrow> is_upper b \<or> (97 \<le> byte_val b \<and> byte_val b \<le> 122)"

definition is_alphanumeric :: "char \<Rightarrow> bool" where
  "is_alphanumeric b \<longleftrightarrow> is_alphabetic b \<or> is_digit b"

definition is_whitespace :: "char \<Rightarrow> bool" where
  "is_whitespace b \<longleftrightarrow> b \<in> {CHR 0x20, TAB, NL, CHR 0x0C, CR}"

definition high_byte :: "char \<Rightarrow> bool" where
  "high_byte b \<longleftrightarrow> byte_val b \<ge> 0x80"

definition get :: "'a list \<Rightarrow> nat \<Rightarrow> 'a option" where
  "get xs i = (if i < length xs then Some (xs ! i) else None)"

text \<open>\<open>&src[a..b]\<close>\<close>

definition cut :: "'a list \<Rightarrow> nat \<Rightarrow> nat \<Rightarrow> 'a list" where
  "cut xs a b = take (b - a) (drop a xs)"

text \<open>\<open>windows(w.len()).position(|x| x == w)\<close>\<close>

fun find_window :: "'a list \<Rightarrow> 'a list \<Rightarrow> nat option" where
  "find_window w [] = (if w = [] then Some 0 else None)"
| "find_window w (x # xs) =
     (if take (length w) (x # xs) = w then Some 0 else map_option Suc (find_window w xs))"

fun position_of :: "('a \<Rightarrow> bool) \<Rightarrow> 'a list \<Rightarrow> nat option" where
  "position_of P [] = None"
| "position_of P (x # xs) = (if P x then Some 0 else map_option Suc (position_of P xs))"

section \<open>Skipping\<close>

text \<open>The first index from \<open>i\<close> on whose byte does not satisfy \<open>P\<close>.\<close>

function skip_while :: "(char \<Rightarrow> bool) \<Rightarrow> bytes \<Rightarrow> nat \<Rightarrow> nat" where
  "skip_while P src i = (if i < length src \<and> P (src ! i) then skip_while P src (i + 1) else i)"
  by pat_completeness auto
termination by (relation "measure (\<lambda>(P, src, i). length src - i)") auto

definition skip_line :: "bytes \<Rightarrow> nat \<Rightarrow> nat" where
  "skip_line src i = skip_while (\<lambda>b. b \<noteq> NL) src i"

definition skip_block_comment :: "bytes \<Rightarrow> nat \<Rightarrow> nat" where
  "skip_block_comment src i =
     (case find_window ''*/'' (drop (i + 2) src) of Some p \<Rightarrow> i + 2 + p + 2 | None \<Rightarrow> length src)"

lemma skip_block_comment_gt: "i < length src \<Longrightarrow> i < skip_block_comment src i"
  by (simp add: skip_block_comment_def split: option.split)

function skip_directive :: "bytes \<Rightarrow> nat \<Rightarrow> nat" where
  "skip_directive src i =
     (if i < length src
      then let b = src ! i in
        if b = NL then i
        else if b = BACKSLASH \<and> get src (i + 1) = Some NL then skip_directive src (i + 2)
        else if b = BACKSLASH \<and> get src (i + 1) = Some CR \<and> get src (i + 2) = Some NL
        then skip_directive src (i + 3)
        else if b = CHR ''/'' \<and> get src (i + 1) = Some (CHR ''*'')
        then skip_directive src (skip_block_comment src i)
        else if b = CHR ''/'' \<and> get src (i + 1) = Some (CHR ''/'') then skip_line src i
        else skip_directive src (i + 1)
      else i)"
  by pat_completeness auto
termination
  by (relation "measure (\<lambda>(src, i). length src - i)") (auto intro: diff_less_mono2 skip_block_comment_gt)

function skip_quoted_body :: "bytes \<Rightarrow> nat \<Rightarrow> char \<Rightarrow> nat" where
  "skip_quoted_body src i quote =
     (if i < length src
      then let b = src ! i in
        if b = BACKSLASH then skip_quoted_body src (i + 2) quote
        else if b = NL then i
        else if b = quote then i + 1
        else skip_quoted_body src (i + 1) quote
      else length src)"
  by pat_completeness auto
termination by (relation "measure (\<lambda>(src, i, quote). length src - i)") auto

definition skip_quoted :: "bytes \<Rightarrow> nat \<Rightarrow> char \<Rightarrow> nat" where
  "skip_quoted src i quote = skip_quoted_body src (i + 1) quote"

definition skip_raw_string :: "bytes \<Rightarrow> nat \<Rightarrow> nat" where
  "skip_raw_string src quote =
     (let delim_start = quote + 1
      in case position_of (\<lambda>b. b = CHR ''('') (take 17 (drop delim_start src)) of
           None \<Rightarrow> skip_quoted src quote DQUOTE
         | Some open \<Rightarrow>
             let delim = cut src delim_start (delim_start + open);
                 body = delim_start + open + 1;
                 close = '')'' @ delim @ [DQUOTE]
             in case find_window close (drop body src) of
                  Some p \<Rightarrow> body + p + length close
                | None \<Rightarrow> length src)"

function skip_number :: "bytes \<Rightarrow> nat \<Rightarrow> nat" where
  "skip_number src i =
     (if i < length src
      then let c = src ! i;
               exponent_sign = (c = CHR ''+'' \<or> c = CHR ''-'') \<and> src ! (i - 1) \<in> {CHR ''e'', CHR ''E'', CHR ''p'', CHR ''P''}
           in if \<not> (is_alphanumeric c \<or> c \<in> {CHR ''_'', CHR ''.'', SQUOTE} \<or> exponent_sign) then i
              else skip_number src (i + 1)
      else i)"
  by pat_completeness auto
termination by (relation "measure (\<lambda>(src, i). length src - i)") auto

declare skip_while.simps [simp del] skip_directive.simps [simp del] skip_quoted_body.simps [simp del]
  skip_number.simps [simp del]

section \<open>Tokens\<close>

datatype kind = Ident | Str | Other | Directive | Punct char | Scope

record token =
  tk_kind :: kind
  tk_start :: nat
  tk_end :: nat

record lexer =
  lx_i :: nat
  lx_line_start :: bool

definition lexer_new :: lexer where
  "lexer_new = \<lparr>lx_i = 0, lx_line_start = True\<rparr>"

definition ident_byte :: "char \<Rightarrow> bool" where
  "ident_byte b \<longleftrightarrow> is_alphanumeric b \<or> b = CHR ''_'' \<or> high_byte b"

text \<open>The token that starts at \<open>i\<close>, where no blank and no comment does, and where it ends.\<close>

definition lex_token :: "bytes \<Rightarrow> nat \<Rightarrow> bool \<Rightarrow> kind \<times> nat" where
  "lex_token src i at_line_start =
     (let b = src ! i in
      if b = CHR ''#'' \<and> at_line_start then (Directive, skip_directive src i)
      else if b = DQUOTE then (Str, skip_quoted src i DQUOTE)
      else if b = SQUOTE then (Str, skip_quoted src i SQUOTE)
      else if is_digit b \<or> (b = CHR ''.'' \<and> (case get src (i + 1) of Some c \<Rightarrow> is_digit c | None \<Rightarrow> False))
      then (Other, skip_number src i)
      else if is_alphabetic b \<or> b = CHR ''_'' \<or> high_byte b
      then (let e = skip_while ident_byte src i
            in if get src e = Some DQUOTE \<and> cut src i e \<in> {''R'', ''LR'', ''uR'', ''UR'', ''u8R''}
               then (Str, skip_raw_string src e) else (Ident, e))
      else if b = CHR '':'' \<and> get src (i + 1) = Some (CHR '':'') then (Scope, i + 2)
      else (Punct b, i + 1))"

function lexer_scan :: "bytes \<Rightarrow> nat \<Rightarrow> bool \<Rightarrow> token option \<times> lexer" where
  "lexer_scan src i line_start =
     (if i < length src
      then let b = src ! i in
        if b = NL then lexer_scan src (i + 1) True
        else if is_whitespace b then lexer_scan src (i + 1) line_start
        else if b = CHR ''/'' \<and> get src (i + 1) = Some (CHR ''/'')
        then lexer_scan src (skip_line src i) line_start
        else if b = CHR ''/'' \<and> get src (i + 1) = Some (CHR ''*'')
        then lexer_scan src (skip_block_comment src i) line_start
        else (case lex_token src i line_start of
                (k, e) \<Rightarrow> (Some \<lparr>tk_kind = k, tk_start = i, tk_end = e\<rparr>, \<lparr>lx_i = e, lx_line_start = False\<rparr>))
      else (None, \<lparr>lx_i = i, lx_line_start = line_start\<rparr>))"
  by pat_completeness auto

lemma skip_while_ge: "i \<le> skip_while P src i"
  by (induction P src i rule: skip_while.induct) (subst skip_while.simps, auto)

lemma skip_while_gt: "i < length src \<Longrightarrow> P (src ! i) \<Longrightarrow> i < skip_while P src i"
  using skip_while_ge [of "i + 1" P src] by (subst skip_while.simps) simp

termination lexer_scan
  by (relation "measure (\<lambda>(src, i, line_start). length src - i)")
    (auto simp: skip_line_def intro!: diff_less_mono2 skip_block_comment_gt skip_while_gt)

declare lexer_scan.simps [simp del]

definition lexer_next :: "bytes \<Rightarrow> lexer \<Rightarrow> token option \<times> lexer" where
  "lexer_next src lx = lexer_scan src (lx_i lx) (lx_line_start lx)"

section \<open>Every token lies in the source\<close>

lemma skip_while_le: "i \<le> length src \<Longrightarrow> skip_while P src i \<le> length src"
  by (induction P src i rule: skip_while.induct) (subst skip_while.simps, auto)

lemma find_window_bound: "find_window w xs = Some p \<Longrightarrow> p + length w \<le> length xs"
proof (induction xs arbitrary: p)
  case (Cons x xs)
  show ?case
  proof (cases "take (length w) (x # xs) = w")
    case True
    then have "length w \<le> length (x # xs)" by (metis length_take min.cobounded1 min.commute)
    with True Cons.prems show ?thesis by simp
  qed (use Cons in auto)
qed (simp split: if_splits)

lemma position_of_bound: "position_of P xs = Some p \<Longrightarrow> p < length xs \<and> P (xs ! p)"
  by (induction xs arbitrary: p) (auto split: if_splits)

lemma skip_block_comment_le: "i + 2 \<le> length src \<Longrightarrow> skip_block_comment src i \<le> length src"
  using find_window_bound [of "''*/''" "drop (i + 2) src"]
  by (auto simp: skip_block_comment_def split: option.split)

lemma get_Some: "get xs i = Some x \<longleftrightarrow> i < length xs \<and> xs ! i = x"
  by (simp add: get_def)

lemma skip_at_end [simp]:
  "skip_directive src (length src) = length src" "skip_quoted_body src (length src) q = length src"
  "skip_number src (length src) = length src"
  by (simp_all add: skip_directive.simps skip_quoted_body.simps skip_number.simps)

lemma skip_directive_step:
  assumes "i < length src"
  shows "skip_directive src i = i \<or> skip_directive src i = skip_line src i
    \<or> (\<exists>j. i < j \<and> j \<le> length src \<and> skip_directive src i = skip_directive src j)"
proof -
  let ?b = "src ! i"
  consider "?b = NL" | "?b = BACKSLASH" "get src (i + 1) = Some NL"
    | "?b = BACKSLASH" "get src (i + 1) = Some CR" "get src (i + 2) = Some NL"
    | "?b = CHR ''/''" "get src (i + 1) = Some (CHR ''*'')"
    | "?b = CHR ''/''" "get src (i + 1) = Some (CHR ''/'')"
    | "skip_directive src i = skip_directive src (i + 1)"
    using assms skip_directive.simps [of src i] by (auto simp: Let_def split: if_splits)
  then show ?thesis
  proof cases
    case 2
    then show ?thesis using assms
      by (intro disjI2 exI [of _ "i + 2"]) (simp add: skip_directive.simps [of src i] get_Some)
  next
    case 3
    then show ?thesis using assms
      by (intro disjI2 exI [of _ "i + 3"]) (simp add: skip_directive.simps [of src i] get_Some)
  next
    case 4
    then show ?thesis using assms skip_block_comment_gt [OF assms] skip_block_comment_le [of i src]
      by (intro disjI2 exI [of _ "skip_block_comment src i"]) (simp add: skip_directive.simps [of src i] get_Some)
  next
    case 6
    then show ?thesis using assms by (intro disjI2 exI [of _ "i + 1"]) simp
  qed (use assms in \<open>simp_all add: skip_directive.simps [of src i]\<close>)
qed

lemma skip_directive_bounds:
  "i \<le> length src \<Longrightarrow> i \<le> skip_directive src i \<and> skip_directive src i \<le> length src"
proof (induction "length src - i" arbitrary: i rule: less_induct)
  case less
  show ?case
  proof (cases "i < length src")
    case True
    from skip_directive_step [OF True] show ?thesis
    proof (elim disjE exE conjE)
      fix j assume "i < j" "j \<le> length src" "skip_directive src i = skip_directive src j"
      then show ?thesis using less.hyps [OF diff_less_mono2 [OF _ True], of j] by simp
    qed (use True skip_while_ge [of i _ src] skip_while_le [of i src] in \<open>simp_all add: skip_line_def\<close>)
  qed (use less.prems in simp)
qed

lemma skip_quoted_body_bounds:
  "i \<le> length src \<Longrightarrow> i \<le> skip_quoted_body src i q \<and> skip_quoted_body src i q \<le> length src"
proof (induction "length src - i" arbitrary: i rule: less_induct)
  case less
  show ?case
  proof (cases "i < length src")
    case True
    have more: "i \<le> skip_quoted_body src j q \<and> skip_quoted_body src j q \<le> length src" if "i < j" for j
    proof (cases "j \<le> length src")
      case True
      then show ?thesis using less.hyps [OF diff_less_mono2 [OF that \<open>i < length src\<close>]] that by simp
    qed (use that \<open>i < length src\<close> in \<open>simp add: skip_quoted_body.simps [of src j]\<close>)
    show ?thesis using True more [of "i + 1"] more [of "i + 2"]
      by (simp add: skip_quoted_body.simps [of src i] Let_def)
  qed (use less.prems in simp)
qed

lemma skip_quoted_bounds: "i < length src \<Longrightarrow> i < skip_quoted src i q \<and> skip_quoted src i q \<le> length src"
  using skip_quoted_body_bounds [of "i + 1" src q] by (simp add: skip_quoted_def)

lemma skip_raw_string_bounds:
  assumes "q < length src"
  shows "q < skip_raw_string src q \<and> skip_raw_string src q \<le> length src"
proof (cases "position_of (\<lambda>b. b = CHR ''('') (take 17 (drop (q + 1) src))")
  case None
  then show ?thesis using skip_quoted_bounds [OF assms] by (simp add: skip_raw_string_def)
next
  case (Some n)
  from position_of_bound [OF Some] have "q + 1 + n < length src" by (simp add: less_diff_conv)
  then show ?thesis
    using Some find_window_bound [of _ "drop (q + 1 + n + 1) src"] assms
    by (fastforce simp: skip_raw_string_def Let_def cut_def split: option.split)
qed

lemma skip_number_bounds: "i \<le> length src \<Longrightarrow> i \<le> skip_number src i \<and> skip_number src i \<le> length src"
proof (induction "length src - i" arbitrary: i rule: less_induct)
  case less
  show ?case
  proof (cases "i < length src")
    case True
    then show ?thesis using less.hyps [OF diff_less_mono2 [of i "i + 1"]]
      by (simp add: skip_number.simps [of src i] Let_def)
  qed (use less.prems in simp)
qed

lemma skip_number_gt:
  assumes "i < length src" and "is_digit (src ! i) \<or> src ! i = CHR ''.''"
  shows "i < skip_number src i"
  using assms skip_number_bounds [of "i + 1" src]
  by (subst skip_number.simps) (auto simp: Let_def is_alphanumeric_def)

lemma skip_directive_gt:
  assumes "i < length src" and "src ! i = CHR ''#''"
  shows "i < skip_directive src i"
  using assms skip_directive_bounds [of "i + 1" src] by (subst skip_directive.simps) (simp add: Let_def)

lemma ident_byte_start: "is_alphabetic b \<or> b = CHR ''_'' \<or> high_byte b \<Longrightarrow> ident_byte b"
  by (auto simp: ident_byte_def is_alphanumeric_def)

lemma lex_token_bounds:
  assumes "i < length src" and "lex_token src i ls = (k, e)"
  shows "i < e \<and> e \<le> length src"
proof -
  let ?b = "src ! i"
  have ident: "i < skip_while ident_byte src i \<and> skip_while ident_byte src i \<le> length src"
    if "is_alphabetic ?b \<or> ?b = CHR ''_'' \<or> high_byte ?b"
    using skip_while_gt [OF assms(1), of ident_byte] skip_while_le [of i src] ident_byte_start [OF that] assms(1) by simp
  have raw: "e' < skip_raw_string src e' \<and> skip_raw_string src e' \<le> length src"
    if "get src e' = Some DQUOTE" for e'
    using skip_raw_string_bounds [of e' src] that by (simp add: get_Some)
  consider "e = skip_directive src i" "?b = CHR ''#''" | q where "e = skip_quoted src i q"
    | "e = skip_number src i" "is_digit ?b \<or> ?b = CHR ''.''"
    | "is_alphabetic ?b \<or> ?b = CHR ''_'' \<or> high_byte ?b" "e = skip_while ident_byte src i"
    | "is_alphabetic ?b \<or> ?b = CHR ''_'' \<or> high_byte ?b" "e = skip_raw_string src (skip_while ident_byte src i)"
      "get src (skip_while ident_byte src i) = Some DQUOTE"
    | "e = i + 2" "get src (i + 1) = Some (CHR '':'')" | "e = i + 1"
    using assms(2) by (auto simp: lex_token_def Let_def split: if_splits)
  then show ?thesis
  proof cases
    case 1
    then show ?thesis using skip_directive_gt [OF assms(1)] skip_directive_bounds [of i src] assms(1) by simp
  next
    case 3
    then show ?thesis using skip_number_gt [OF assms(1)] skip_number_bounds [of i src] assms(1) by simp
  next
    case 5
    then show ?thesis using ident [OF 5(1)] raw [OF 5(3)] by linarith
  qed (use assms(1) skip_quoted_bounds [OF assms(1)] ident in \<open>auto simp: get_Some\<close>)
qed

text \<open>A scan either goes on further right or returns the token at hand.\<close>

lemma lexer_scan_step:
  assumes "i < length src"
  shows "(\<exists>j ls'. i < j \<and> lexer_scan src i ls = lexer_scan src j ls')
    \<or> (\<exists>k e. lex_token src i ls = (k, e) \<and> src ! i \<noteq> NL
         \<and> lexer_scan src i ls = (Some \<lparr>tk_kind = k, tk_start = i, tk_end = e\<rparr>, \<lparr>lx_i = e, lx_line_start = False\<rparr>))"
proof -
  have line: "i < skip_line src i" if "src ! i = CHR ''/''"
    using skip_while_gt [OF assms, of "\<lambda>b. b \<noteq> NL"] that by (simp add: skip_line_def)
  obtain k e where "lex_token src i ls = (k, e)" by (cases "lex_token src i ls")
  then show ?thesis
    using assms line skip_block_comment_gt [OF assms] lexer_scan.simps [of src i ls]
    by (auto simp: Let_def split: if_splits)
qed

lemma lexer_scan_bounds:
  "lexer_scan src i ls = (Some t, lx) \<Longrightarrow>
     i \<le> tk_start t \<and> tk_start t < tk_end t \<and> tk_end t \<le> length src \<and> lx_i lx = tk_end t
     \<and> src ! tk_start t \<noteq> NL \<and> (\<exists>ls. lex_token src (tk_start t) ls = (tk_kind t, tk_end t))"
proof (induction "length src - i" arbitrary: i ls rule: less_induct)
  case less
  have i: "i < length src"
    using less.prems lexer_scan.simps [of src i ls] by (simp split: if_splits)
  from lexer_scan_step [OF i, of ls] show ?case
  proof (elim disjE exE conjE)
    fix j ls' assume "i < j" "lexer_scan src i ls = lexer_scan src j ls'"
    then show ?thesis using less.hyps [OF diff_less_mono2 [OF _ i], of j ls'] less.prems by simp
  next
    fix k e assume "lex_token src i ls = (k, e)" "src ! i \<noteq> NL"
      "lexer_scan src i ls = (Some \<lparr>tk_kind = k, tk_start = i, tk_end = e\<rparr>, \<lparr>lx_i = e, lx_line_start = False\<rparr>)"
    then show ?thesis using less.prems lex_token_bounds [OF i] by auto
  qed
qed

lemma lexer_next_progress:
  "(Some t, lx') = lexer_next src lx \<Longrightarrow> length src - lx_i lx' < length src - lx_i lx"
  using lexer_scan_bounds [of src "lx_i lx" "lx_line_start lx" t lx'] by (auto simp: lexer_next_def)

text \<open>\<open>Lexer::new(src).collect()\<close>\<close>

function lexer_tokens :: "bytes \<Rightarrow> lexer \<Rightarrow> token list" where
  "lexer_tokens src lx =
     (case lexer_next src lx of
        (None, _) \<Rightarrow> []
      | (Some t, lx') \<Rightarrow> t # lexer_tokens src lx')"
  by pat_completeness auto
termination by (relation "measure (\<lambda>(src, lx). length src - lx_i lx)") (auto simp: lexer_next_progress)

declare lexer_tokens.simps [simp del]

definition tokenize :: "bytes \<Rightarrow> token list" where
  "tokenize src = lexer_tokens src lexer_new"

fun tokens_ok :: "bytes \<Rightarrow> nat \<Rightarrow> token list \<Rightarrow> bool" where
  "tokens_ok src i [] \<longleftrightarrow> True"
| "tokens_ok src i (t # ts) \<longleftrightarrow>
     i \<le> tk_start t \<and> tk_start t < tk_end t \<and> tk_end t \<le> length src \<and> src ! tk_start t \<noteq> NL
     \<and> (\<exists>ls. lex_token src (tk_start t) ls = (tk_kind t, tk_end t)) \<and> tokens_ok src (tk_end t) ts"

lemma lexer_tokens_ok: "tokens_ok src (lx_i lx) (lexer_tokens src lx)"
proof (induction src lx rule: lexer_tokens.induct)
  case (1 src lx)
  show ?case
  proof (cases "lexer_next src lx")
    case (Pair opt lx')
    show ?thesis
    proof (cases opt)
      case (Some t)
      note b = lexer_scan_bounds [of src "lx_i lx" "lx_line_start lx" t lx']
      show ?thesis using 1 [OF Pair [symmetric] Some] Pair Some b
        by (subst lexer_tokens.simps) (simp add: lexer_next_def)
    qed (use Pair in \<open>simp add: lexer_tokens.simps\<close>)
  qed
qed

lemma tokenize_ok: "tokens_ok src 0 (tokenize src)"
  using lexer_tokens_ok [of src lexer_new] by (simp add: tokenize_def lexer_new_def)

lemma tokens_ok_mem: "tokens_ok src i ts \<Longrightarrow> t \<in> set ts \<Longrightarrow> i \<le> tk_start t \<and> tk_start t < tk_end t \<and> tk_end t \<le> length src"
  by (induction ts arbitrary: i) force+

lemma tokens_ok_nth_less:
  "tokens_ok src i ts \<Longrightarrow> a < b \<Longrightarrow> b < length ts \<Longrightarrow> tk_end (ts ! a) \<le> tk_start (ts ! b)"
proof (induction ts arbitrary: i a b)
  case (Cons t ts)
  then obtain b' where b: "b = Suc b'" by (cases b) auto
  show ?case
  proof (cases a)
    case 0
    then show ?thesis using Cons.prems b tokens_ok_mem [of src "tk_end t" ts "ts ! b'"] by simp
  next
    case (Suc a')
    then show ?thesis using Cons b by auto
  qed
qed simp

section \<open>Properties\<close>

text \<open>
  C28. Tokenizing any bytes at all ends, and yields non-empty tokens inside the source, in order and
  without overlap, none of which starts with a line feed.
\<close>

theorem lexer_tokens_ordered:
  "(\<forall>t \<in> set (tokenize src). tk_start t < tk_end t \<and> tk_end t \<le> length src)
   \<and> (\<forall>a b. a < b \<and> b < length (tokenize src) \<longrightarrow> tk_end (tokenize src ! a) \<le> tk_start (tokenize src ! b))
   \<and> (\<forall>t \<in> set (tokenize src). src ! tk_start t \<noteq> NL
        \<and> (\<exists>line_start. lex_token src (tk_start t) line_start = (tk_kind t, tk_end t)))"
proof -
  have "\<forall>t \<in> set ts. src ! tk_start t \<noteq> NL \<and> (\<exists>ls. lex_token src (tk_start t) ls = (tk_kind t, tk_end t))"
    if "tokens_ok src i ts" for ts i using that by (induction ts arbitrary: i) auto
  with tokens_ok_mem [OF tokenize_ok] tokens_ok_nth_less [OF tokenize_ok] tokenize_ok [of src] show ?thesis by blast
qed

theorem lexer_tokens_ordered_witness:
  "length (tokenize ''int x'') = 2 \<and> tk_end (tokenize ''int x'' ! 0) \<le> tk_start (tokenize ''int x'' ! 1)
   \<and> tk_end (tokenize ''int x'' ! 1) \<le> 5"
proof -
  have len: "length (tokenize ''int x'') = 2" by code_simp
  have "tk_end (tokenize ''int x'' ! 0) \<le> tk_start (tokenize ''int x'' ! 1)"
    using lexer_tokens_ordered [of "''int x''"] len by simp
  moreover have "tokenize ''int x'' ! 1 \<in> set (tokenize ''int x'')" by (rule nth_mem) (simp add: len)
  then have "tk_end (tokenize ''int x'' ! 1) \<le> length ''int x''"
    using lexer_tokens_ordered [of "''int x''"] by blast
  then have "tk_end (tokenize ''int x'' ! 1) \<le> 5" by simp
  ultimately show ?thesis using len by blast
qed

end
