(* ===== verification/Export_Macro.thy ===== *)
theory Export_Macro
  imports C_Lexer "HOL-Library.Monad_Syntax"
begin

text \<open>
  Overwriting export and visibility macros before the parser sees the source:
  \<open>neutralize\<close> (C++), \<open>neutralize_c\<close> (C) and \<open>directives_only\<close> (header evidence) of
  \<open>crates/parser/src/export_macro.rs\<close>. Each returns a copy whose byte offsets and lines are those of
  the original; that is what is proved. A slice out of range panics and is \<open>None\<close> here, so
  the copies are wrapped in an option.
\<close>

section \<open>Words\<close>

definition SUFFIXES :: "bytes list" where
  "SUFFIXES = [''_API'', ''_EXPORT'', ''_IMPORT'', ''_DLLEXPORT'', ''_DEPRECATED'']"

definition MAX_ARGS_BYTES :: nat where "MAX_ARGS_BYTES = 512"

definition MAX_MACRO_RUN :: nat where "MAX_MACRO_RUN = 8"

definition MAX_HEAD_TOKENS :: nat where "MAX_HEAD_TOKENS = 64"

definition CLASS_KEYS :: "bytes list" where
  "CLASS_KEYS = [''class'', ''struct'', ''union'', ''enum'']"

definition SPECIFIER_KEYS :: "bytes list" where
  "SPECIFIER_KEYS = [''static'', ''inline'', ''virtual'', ''explicit'', ''friend'', ''constexpr'', ''extern'', ''template'']"

definition C_MACROS :: "bytes list" where
  "C_MACROS = [''PHPAPI'', ''ZEND_COLD'', ''ZEND_FASTCALL'', ''ZEND_NORETURN'']"

definition C_QUALIFIERS :: "bytes list" where
  "C_QUALIFIERS = [''const'', ''volatile'', ''restrict'', ''static'', ''inline'', ''extern'', ''register'', ''_Noreturn'',
     ''_Atomic'', ''_Thread_local'', ''thread_local'', ''constexpr'', ''struct'', ''union'', ''enum'']"

definition QUALIFIER_KEYS :: "bytes list" where
  "QUALIFIER_KEYS = [''const'', ''volatile'', ''static'', ''inline'', ''virtual'', ''explicit'', ''friend'', ''constexpr'',
     ''consteval'', ''constinit'', ''extern'', ''mutable'', ''typename'', ''thread_local'', ''register'', ''struct'', ''class'',
     ''enum'', ''union'']"

definition PRIMITIVE_KEYS :: "bytes list" where
  "PRIMITIVE_KEYS = [''void'', ''bool'', ''char'', ''wchar_t'', ''char8_t'', ''char16_t'', ''char32_t'', ''short'', ''int'',
     ''long'', ''float'', ''double'', ''signed'', ''unsigned'', ''auto'']"

datatype form = Spaces | Attribute | CSpecifier

type_synonym macro_span = "nat \<times> nat \<times> form"

section \<open>Candidates\<close>

definition is_candidate :: "bytes \<Rightarrow> bool" where
  "is_candidate txt \<longleftrightarrow>
     (txt \<noteq> [] \<and> is_upper (hd txt)) \<and> list_all (\<lambda>b. is_upper b \<or> is_digit b \<or> b = CHR ''_'') txt
     \<and> list_ex (\<lambda>s. length txt \<ge> length s + 2 \<and> ends_with s txt) SUFFIXES"

definition token_text :: "token \<Rightarrow> bytes \<Rightarrow> bytes" where
  "token_text t src = cut src (tk_start t) (tk_end t)"

definition ident_is :: "token option \<Rightarrow> bytes \<Rightarrow> bytes list \<Rightarrow> bool" where
  "ident_is t src words =
     (case t of Some t \<Rightarrow> tk_kind t = Ident \<and> token_text t src \<in> set words | None \<Rightarrow> False)"

abbreviation kind_at :: "token list \<Rightarrow> nat \<Rightarrow> kind option" where
  "kind_at tokens i \<equiv> map_option tk_kind (get tokens i)"

fun args_loop :: "nat \<Rightarrow> nat \<Rightarrow> nat \<Rightarrow> token list \<Rightarrow> nat option" where
  "args_loop limit depth j [] = None"
| "args_loop limit depth j (t # ts) =
     (if tk_start t > limit then None
      else if tk_kind t = Punct (CHR ''('') then args_loop limit (depth + 1) (j + 1) ts
      else if tk_kind t = Punct (CHR '')'')
      then (if depth - 1 = 0 then Some (j + 1) else args_loop limit (depth - 1) (j + 1) ts)
      else if tk_kind t \<in> {Punct (CHR '';''), Punct (CHR ''{''), Punct (CHR ''}''), Directive} then None
      else args_loop limit depth (j + 1) ts)"

definition after_args :: "token list \<Rightarrow> nat \<Rightarrow> nat option" where
  "after_args tokens i =
     (if kind_at tokens (i + 1) \<noteq> Some (Punct (CHR ''('')) then Some (i + 1)
      else args_loop (tk_start (tokens ! (i + 1)) + MAX_ARGS_BYTES) 0 (i + 1) (drop (i + 1) tokens))"

fun skip_candidates_run :: "nat \<Rightarrow> token list \<Rightarrow> bytes \<Rightarrow> nat \<Rightarrow> nat" where
  "skip_candidates_run 0 tokens src j = j"
| "skip_candidates_run (Suc n) tokens src j =
     (case get tokens j of
        None \<Rightarrow> j
      | Some t \<Rightarrow>
          if tk_kind t \<noteq> Ident \<or> \<not> is_candidate (token_text t src) then j
          else (case after_args tokens j of
                  Some next \<Rightarrow> skip_candidates_run n tokens src next
                | None \<Rightarrow> j))"

definition skip_candidates :: "token list \<Rightarrow> bytes \<Rightarrow> nat \<Rightarrow> nat" where
  "skip_candidates tokens src j = skip_candidates_run MAX_MACRO_RUN tokens src j"

section \<open>Declaration heads\<close>

text \<open>Template arguments from a \<open><\<close>: \<open>None\<close> is the refusal, otherwise where the loop stopped and at what depth.\<close>

function skip_template :: "token list \<Rightarrow> nat \<Rightarrow> nat \<Rightarrow> nat \<Rightarrow> (nat \<times> nat) option" where
  "skip_template tokens head j depth =
     (case get tokens j of
        None \<Rightarrow> Some (j, depth)
      | Some t \<Rightarrow>
          if tk_kind t \<in> {Punct (CHR '';''), Punct (CHR ''{''), Punct (CHR ''}'')} then None
          else let depth = (if tk_kind t = Punct (CHR ''<'') then depth + 1
                            else if tk_kind t = Punct (CHR ''>'') then depth - 1 else depth)
               in if depth = 0 \<or> j \<ge> head + MAX_HEAD_TOKENS then Some (j, depth)
                  else skip_template tokens head (j + 1) depth)"
  by pat_completeness auto
termination
  by (relation "measure (\<lambda>(tokens, head, j, depth). length tokens - j)") (auto simp: get_def split: if_splits)

lemma skip_template_ge: "skip_template tokens head j depth = Some (j', d) \<Longrightarrow> j \<le> j'"
proof (induction tokens head j depth rule: skip_template.induct)
  case (1 tokens head j depth)
  note step = skip_template.simps [of tokens head j depth]
  show ?case
  proof (cases "get tokens j")
    case None
    then show ?thesis using 1(2) step by simp
  next
    case (Some t)
    show ?thesis
      using 1(2) 1(1) [OF Some _ refl] step Some by (auto simp: Let_def split: if_splits)
  qed
qed

declare skip_template.simps [simp del]

text \<open>The loop over a declaration head: \<open>Inl\<close> is an early return, \<open>Inr\<close> how it stopped.\<close>

function head_loop ::
  "token list \<Rightarrow> bytes \<Rightarrow> nat \<Rightarrow> nat \<Rightarrow> nat \<Rightarrow> bool \<Rightarrow> bool \<Rightarrow> bool + (nat \<times> bool \<times> kind)" where
  "head_loop tokens src head j idents primitive after_scope =
     (if j \<ge> head + MAX_HEAD_TOKENS then Inl False
      else case get tokens j of
        None \<Rightarrow> Inl False
      | Some t \<Rightarrow>
          if tk_kind t = Ident
          then (let word = token_text t src in
                if word = ''operator'' then Inr (idents + 1, primitive, Punct (CHR ''(''))
                else if word \<in> set PRIMITIVE_KEYS then head_loop tokens src head (j + 1) idents True False
                else if word \<notin> set QUALIFIER_KEYS \<and> \<not> after_scope
                then head_loop tokens src head (j + 1) (idents + 1) primitive False
                else head_loop tokens src head (j + 1) idents primitive False)
          else if tk_kind t = Scope then head_loop tokens src head (j + 1) idents primitive True
          else if tk_kind t = Punct (CHR ''~'') then Inl (idents + of_bool primitive = 0)
          else if tk_kind t \<in> {Punct (CHR ''*''), Punct (CHR ''&'')}
          then head_loop tokens src head (j + 1) idents primitive after_scope
          else if tk_kind t = Punct (CHR ''<'')
          then (case skip_template tokens head j 0 of
                  None \<Rightarrow> Inl False
                | Some (j', depth) \<Rightarrow>
                    if depth \<noteq> 0 then Inl False
                    else head_loop tokens src head (j' + 1) idents primitive after_scope)
          else Inr (idents, primitive, tk_kind t))"
  by pat_completeness auto
termination
  by (relation "measure (\<lambda>(tokens, src, head, j, idents, primitive, after_scope). head + MAX_HEAD_TOKENS - j)")
    (auto dest!: skip_template_ge)

declare head_loop.simps [simp del]

definition declarator_head :: "token list \<Rightarrow> bytes \<Rightarrow> nat \<Rightarrow> bool" where
  "declarator_head tokens src head =
     (case head_loop tokens src head head 0 False False of
        Inl b \<Rightarrow> b
      | Inr (idents, primitive, stop) \<Rightarrow>
          let n = idents + of_bool primitive
          in if n = 2 then True else if n = 1 then stop = Punct (CHR ''('') else False)"

text \<open>\<open>prev.checked_sub(1).is_some_and(|p| ident_is(tokens.get(p), ..))\<close>\<close>

definition before_is :: "token list \<Rightarrow> bytes \<Rightarrow> nat option \<Rightarrow> bytes list \<Rightarrow> bool" where
  "before_is tokens src prev_idx words =
     (case prev_idx of Some (Suc p) \<Rightarrow> ident_is (get tokens p) src words | _ \<Rightarrow> False)"

definition qualifies :: "token list \<Rightarrow> bytes \<Rightarrow> nat option \<Rightarrow> nat \<Rightarrow> form option" where
  "qualifies tokens src prev_idx next =
     (let prev = map_option (\<lambda>p. tokens ! p) prev_idx;
          head = skip_candidates tokens src next
      in case get tokens head of
           None \<Rightarrow> None
         | Some first \<Rightarrow>
             let after = kind_at tokens (head + 1) in
             if ident_is prev src CLASS_KEYS
             then (let instantiation = before_is tokens src prev_idx [''template''];
                       named = \<not> instantiation \<and> tk_kind first = Ident \<and> \<not> ident_is (Some first) src [''final'']
                         \<and> (after \<in> {Some (Punct (CHR ''{'')), Some (Punct (CHR '':'')), Some (Punct (CHR ''<'')), Some Scope}
                            \<or> ident_is (get tokens (head + 1)) src [''final''])
                   in if named then Some Spaces else None)
             else
               let declaration_start =
                     (case map_option tk_kind prev of
                        None \<Rightarrow> True
                      | Some Directive \<Rightarrow> True
                      | Some (Punct c) \<Rightarrow> c \<in> {CHR '';'', CHR ''{'', CHR ''}'', CHR '':'', CHR ''>'', CHR '']''}
                      | Some Ident \<Rightarrow> ident_is prev src SPECIFIER_KEYS
                      | Some Str \<Rightarrow> before_is tokens src prev_idx [''extern'']
                      | _ \<Rightarrow> False)
               in if \<not> declaration_start then None
                  else let form = (if map_option tk_kind prev = Some Ident \<or> ident_is (Some first) src [''friend'']
                                   then Spaces else Attribute);
                           shaped = (if tk_kind first = Punct (CHR ''~'') then True
                             else if tk_kind first = Ident
                             then \<not> (after = None \<or> (\<exists>c \<in> {CHR '';'', CHR ''='', CHR '','', CHR ''['', CHR '')'', CHR ''{'', CHR ''}'', CHR '':''}.
                                        after = Some (Punct c)))
                                  \<and> declarator_head tokens src head
                             else False)
                       in if shaped then Some form else None)"

section \<open>Spans\<close>

lemma args_loop_bounds: "args_loop limit d j ts = Some k \<Longrightarrow> j < k \<and> k \<le> j + length ts"
  by (induction limit d j ts rule: args_loop.induct) (auto split: if_splits)

lemma after_args_gt: "after_args tokens i = Some k \<Longrightarrow> i < k"
  by (auto simp: after_args_def split: if_splits dest!: args_loop_bounds)

lemma after_args_le: "after_args tokens i = Some k \<Longrightarrow> i < length tokens \<Longrightarrow> k \<le> length tokens"
  by (auto simp: after_args_def split: if_splits dest!: args_loop_bounds)

function blank_spans_from :: "token list \<Rightarrow> bytes \<Rightarrow> nat option \<Rightarrow> nat \<Rightarrow> macro_span list" where
  "blank_spans_from tokens src prev i =
     (if i < length tokens
      then let t = tokens ! i in
        if tk_kind t = Ident \<and> is_candidate (token_text t src)
        then (case after_args tokens i of
                Some next \<Rightarrow>
                  (case qualifies tokens src prev next of
                     Some form \<Rightarrow>
                       (tk_start t, tk_end (tokens ! (next - 1)), form) # blank_spans_from tokens src prev next
                   | None \<Rightarrow> blank_spans_from tokens src (Some i) (i + 1))
              | None \<Rightarrow> blank_spans_from tokens src (Some i) (i + 1))
        else blank_spans_from tokens src (Some i) (i + 1)
      else [])"
  by pat_completeness auto
termination
  by (relation "measure (\<lambda>(tokens, src, prev, i). length tokens - i)")
    (auto dest!: after_args_gt)

declare blank_spans_from.simps [simp del]

definition blank_spans :: "token list \<Rightarrow> bytes \<Rightarrow> macro_span list" where
  "blank_spans tokens src = blank_spans_from tokens src None 0"

definition is_c_macro :: "bytes \<Rightarrow> bool" where
  "is_c_macro word \<longleftrightarrow> is_candidate word \<or> word \<in> set C_MACROS"

text \<open>The run of macros at the head of a C function; \<open>None\<close> is the early return.\<close>

fun c_macro_run :: "nat \<Rightarrow> token list \<Rightarrow> bytes \<Rightarrow> nat \<Rightarrow> macro_span list \<Rightarrow> (nat \<times> macro_span list) option" where
  "c_macro_run 0 tokens src i spans = Some (i, spans)"
| "c_macro_run (Suc n) tokens src i spans =
     (case get tokens i of
        None \<Rightarrow> None
      | Some t \<Rightarrow>
          if tk_kind t \<noteq> Ident \<or> \<not> is_c_macro (token_text t src) then Some (i, spans)
          else (case after_args tokens i of
                  None \<Rightarrow> None
                | Some next \<Rightarrow>
                    let form = (if spans = [] then CSpecifier else Spaces);
                        args_end = tk_end (tokens ! (next - 1))
                    in c_macro_run n tokens src next
                         (spans @ (tk_start t, tk_end t, form)
                            # (if args_end > tk_end t then [(tk_end t, args_end, Spaces)] else []))))"

function c_head_loop ::
  "token list \<Rightarrow> bytes \<Rightarrow> nat \<Rightarrow> nat \<Rightarrow> nat \<Rightarrow> bool \<Rightarrow> macro_span list \<Rightarrow> (nat \<times> macro_span list) option" where
  "c_head_loop tokens src start i idents primitive spans =
     (if i < start + MAX_HEAD_TOKENS
      then case get tokens i of
        None \<Rightarrow> None
      | Some t \<Rightarrow>
          if tk_kind t = Ident
          then (let word = token_text t src in
                if word \<in> set (tl C_MACROS) \<and> kind_at tokens (i + 1) \<noteq> Some (Punct (CHR ''(''))
                then c_head_loop tokens src start (i + 1) idents primitive (spans @ [(tk_start t, tk_end t, Spaces)])
                else if word \<in> set PRIMITIVE_KEYS \<or> word = ''_Bool''
                then c_head_loop tokens src start (i + 1) idents True spans
                else if word \<notin> set C_QUALIFIERS
                then c_head_loop tokens src start (i + 1) (idents + 1) primitive spans
                else c_head_loop tokens src start (i + 1) idents primitive spans)
          else if tk_kind t = Punct (CHR ''*'')
          then c_head_loop tokens src start (i + 1) idents primitive spans
          else if tk_kind t = Punct (CHR ''('')
          then (if idents + of_bool primitive = 2 then Some (i, spans) else None)
          else None
      else None)"
  by pat_completeness auto
termination
  by (relation "measure (\<lambda>(tokens, src, start, i, idents, primitive, spans). start + MAX_HEAD_TOKENS - i)") auto

declare c_head_loop.simps [simp del]

definition c_function_head :: "token list \<Rightarrow> bytes \<Rightarrow> nat \<Rightarrow> (nat \<times> macro_span list) option" where
  "c_function_head tokens src start =
     (case c_macro_run MAX_MACRO_RUN tokens src start [] of
        None \<Rightarrow> None
      | Some (i, spans) \<Rightarrow> if spans = [] then None else c_head_loop tokens src start i 0 False spans)"

lemma c_macro_run_ge:
  "c_macro_run n tokens src i spans = Some (i', spans') \<Longrightarrow>
     i \<le> i' \<and> (i = i' \<longrightarrow> spans' = spans)"
proof (induction n arbitrary: i spans)
  case (Suc n)
  then show ?case
    by (fastforce simp: Let_def split: option.splits if_splits dest!: after_args_gt)
qed simp

lemma c_head_loop_ge:
  "c_head_loop tokens src start i idents primitive spans = Some (i', spans') \<Longrightarrow> i \<le> i'"
proof (induction tokens src start i idents primitive spans rule: c_head_loop.induct)
  case (1 tokens src start i idents primitive spans)
  note step = c_head_loop.simps [of tokens src start i idents primitive spans]
  show ?case
  proof (cases "get tokens i")
    case None
    then show ?thesis using 1(6) step by (simp split: if_splits)
  next
    case (Some t)
    note IH = 1(1-5) [OF _ Some]
    show ?thesis using 1(6) step Some IH by (auto simp: Let_def split: if_splits)
  qed
qed

lemma c_function_head_gt:
  assumes "c_function_head tokens src start = Some (e, spans)"
  shows "start < e"
  using assms c_macro_run_ge [of MAX_MACRO_RUN tokens src start "[]"] c_head_loop_ge
  by (fastforce simp: c_function_head_def split: option.splits if_splits)

definition c_declaration_start :: "token list \<Rightarrow> bytes \<Rightarrow> nat \<Rightarrow> bool" where
  "c_declaration_start tokens src i =
     (case i of
        0 \<Rightarrow> True
      | Suc p \<Rightarrow>
          (case kind_at tokens p of
             None \<Rightarrow> True
           | Some Directive \<Rightarrow> True
           | Some (Punct c) \<Rightarrow> c \<in> {CHR '';'', CHR ''{'', CHR ''}''}
           | Some Ident \<Rightarrow> ident_is (get tokens p) src [''static'', ''inline'', ''extern'', ''_Noreturn'']
           | _ \<Rightarrow> False))"

function c_spans_from :: "token list \<Rightarrow> bytes \<Rightarrow> nat \<Rightarrow> macro_span list" where
  "c_spans_from tokens src i =
     (if i < length tokens
      then case (if c_declaration_start tokens src i then c_function_head tokens src i else None) of
             Some (e, head_spans) \<Rightarrow> head_spans @ c_spans_from tokens src e
           | None \<Rightarrow> c_spans_from tokens src (i + 1)
      else [])"
  by pat_completeness auto
termination
  by (relation "measure (\<lambda>(tokens, src, i). length tokens - i)")
    (auto dest!: c_function_head_gt split: if_splits)

declare c_spans_from.simps [simp del]

section \<open>Overwriting\<close>

definition blank :: "bytes \<Rightarrow> bytes" where
  "blank xs = map (\<lambda>b. if b \<noteq> NL \<and> b \<noteq> CR then CHR '' '' else b) xs"

text \<open>\<open>out[s..s + xs.len()].copy_from_slice(xs)\<close>\<close>

definition put :: "bytes \<Rightarrow> nat \<Rightarrow> bytes \<Rightarrow> bytes" where
  "put out s xs = take s out @ xs @ drop (s + length xs) out"

definition overwrite_span :: "bytes \<Rightarrow> bytes \<Rightarrow> macro_span \<Rightarrow> bytes option" where
  "overwrite_span src out span =
     (case span of (s, e, form) \<Rightarrow>
        if s \<le> e \<and> e \<le> length out
        then let attribute = (form = Attribute \<and> e - s \<ge> 5
                   \<and> list_all (\<lambda>b. b \<noteq> NL \<and> b \<noteq> CR) (cut src (e - 2) e));
                 blanked = blank (cut out s e)
             in if attribute then Some (put out s (put (put blanked 0 ''[[a'') (e - s - 2) '']]''))
                else if form = CSpecifier
                then (if e - s \<ge> 6 then Some (put out s (put blanked 0 ''extern'')) else None)
                else Some (put out s blanked)
        else None)"

fun overwrite_all :: "bytes \<Rightarrow> macro_span list \<Rightarrow> bytes \<Rightarrow> bytes option" where
  "overwrite_all src [] out = Some out"
| "overwrite_all src (span # spans) out = do { out \<leftarrow> overwrite_span src out span; overwrite_all src spans out }"

definition overwrite_spans :: "bytes \<Rightarrow> macro_span list \<Rightarrow> bytes option option" where
  "overwrite_spans src spans =
     (if spans = [] then Some None else map_option Some (overwrite_all src spans src))"

definition mentions :: "bytes list \<Rightarrow> bytes \<Rightarrow> bool" where
  "mentions words src = list_ex (\<lambda>s. find_window s src \<noteq> None) words"

definition neutralize :: "bytes \<Rightarrow> bytes option option" where
  "neutralize src =
     (if \<not> mentions SUFFIXES src then Some None
      else overwrite_spans src (blank_spans (tokenize src) src))"

definition neutralize_c :: "bytes \<Rightarrow> bytes option option" where
  "neutralize_c src =
     (if \<not> mentions (SUFFIXES @ C_MACROS) src then Some None
      else overwrite_spans src (c_spans_from (tokenize src) src 0))"

section \<open>Directives only\<close>

definition splice_len :: "bytes \<Rightarrow> nat \<Rightarrow> nat option" where
  "splice_len src i =
     (if cut src i (i + 2) = [BACKSLASH, NL] then Some 2
      else if cut src i (i + 3) = [BACKSLASH, CR, NL] then Some 3 else None)"

lemma splice_len_pos: "splice_len src i = Some n \<Longrightarrow> 0 < n"
  by (auto simp: splice_len_def split: if_splits)

function skip_spliced_comment :: "bytes \<Rightarrow> nat \<Rightarrow> nat" where
  "skip_spliced_comment src i =
     (if i < length src \<and> src ! i \<noteq> NL
      then skip_spliced_comment src (i + (case splice_len src i of Some n \<Rightarrow> n | None \<Rightarrow> 1))
      else i)"
  by pat_completeness auto
termination
  by (relation "measure (\<lambda>(src, i). length src - i)")
    (auto split: option.split dest: splice_len_pos intro!: diff_less_mono2)

function comment_line_start :: "bytes \<Rightarrow> nat \<Rightarrow> nat \<Rightarrow> bool \<Rightarrow> bool" where
  "comment_line_start src i e line_start =
     (if i < e
      then case splice_len src i of
             Some n \<Rightarrow> comment_line_start src (i + n) e line_start
           | None \<Rightarrow> comment_line_start src (i + 1) e (line_start \<or> src ! i = NL)
      else line_start)"
  by pat_completeness auto
termination
  by (relation "measure (\<lambda>(src, i, e, line_start). e - i)")
    (auto dest: splice_len_pos intro!: diff_less_mono2)

declare skip_spliced_comment.simps [simp del] comment_line_start.simps [simp del]

lemma skip_spliced_comment_ge: "i \<le> skip_spliced_comment src i"
proof (induction src i rule: skip_spliced_comment.induct)
  case (1 src i)
  then show ?case
    using skip_spliced_comment.simps [of src i] by (cases "i < length src \<and> src ! i \<noteq> NL") auto
qed

lemma skip_spliced_comment_gt:
  "i < length src \<Longrightarrow> src ! i \<noteq> NL \<Longrightarrow> i < skip_spliced_comment src i"
  using skip_spliced_comment_ge [of "i + (case splice_len src i of Some n \<Rightarrow> n | None \<Rightarrow> 1)" src]
    skip_spliced_comment.simps [of src i]
  by (auto split: option.splits dest: splice_len_pos)

lemma cut2: "cut src i (i + 2) = [a, b] \<Longrightarrow> i < length src \<and> src ! i = a"
  by (cases "drop i src") (auto simp: cut_def numeral_2_eq_2 nth_via_drop dest: arg_cong [where f = length])

function directive_end :: "bytes \<Rightarrow> nat \<Rightarrow> nat" where
  "directive_end src i =
     (if i < length src \<and> src ! i \<noteq> NL
      then case splice_len src i of
             Some n \<Rightarrow> directive_end src (i + n)
           | None \<Rightarrow>
               if cut src i (i + 2) = ''//'' then directive_end src (skip_spliced_comment src i)
               else if cut src i (i + 2) = ''/*'' then directive_end src (skip_block_comment src i)
               else if src ! i \<in> {SQUOTE, DQUOTE} then directive_end src (skip_quoted src i (src ! i))
               else directive_end src (i + 1)
      else i)"
  by pat_completeness auto
termination
  by (relation "measure (\<lambda>(src, i). length src - i)")
    (auto dest: splice_len_pos simp: skip_quoted_bounds intro!: diff_less_mono2 skip_spliced_comment_gt skip_block_comment_gt)

declare directive_end.simps [simp del]

lemma directive_end_ge: "i \<le> directive_end src i"
proof (induction "length src - i" arbitrary: i rule: less_induct)
  case less
  show ?case
  proof (cases "i < length src \<and> src ! i \<noteq> NL")
    case True
    then have i: "i < length src" by simp
    have more: "i \<le> directive_end src j" if "i < j" for j
      using less.hyps [OF diff_less_mono2 [OF that i]] that by simp
    show ?thesis
      using True more skip_spliced_comment_gt [OF i] skip_block_comment_gt [OF i] skip_quoted_bounds [OF i]
        directive_end.simps [of src i]
      by (auto split: option.splits if_splits dest: splice_len_pos)
  next
    case False
    have "directive_end src i = i" by (subst directive_end.simps) (simp only: if_not_P [OF False])
    then show ?thesis by simp
  qed
qed

text \<open>The next index outside directives, comments and blanks, where no directive starts.\<close>

definition skip_code :: "bytes \<Rightarrow> nat \<Rightarrow> nat" where
  "skip_code src i =
     (if src ! i \<in> {SQUOTE, DQUOTE} then skip_quoted src i (src ! i)
      else if is_alphabetic (src ! i) \<or> src ! i = CHR ''_''
      then (let e = skip_while (\<lambda>b. is_alphanumeric b \<or> b = CHR ''_'') src i
            in if get src e = Some DQUOTE \<and> cut src i e \<in> {''R'', ''LR'', ''uR'', ''UR'', ''u8R''}
               then skip_raw_string src e else e)
      else if is_digit (src ! i) then skip_number src i
      else i + 1)"

lemma skip_code_gt:
  assumes "i < length src"
  shows "i < skip_code src i"
proof -
  let ?P = "\<lambda>b. is_alphanumeric b \<or> b = CHR ''_''"
  have e: "i < skip_while ?P src i" if "is_alphabetic (src ! i) \<or> src ! i = CHR ''_''"
    using skip_while_gt [OF assms, of ?P] that by (auto simp: is_alphanumeric_def)
  have raw: "e < skip_raw_string src e" if "get src e = Some DQUOTE" for e
    using skip_raw_string_bounds [of e src] that by (simp add: get_Some)
  show ?thesis
    using e raw [of "skip_while ?P src i"] skip_quoted_bounds [OF assms] skip_number_gt [OF assms]
    by (auto simp: skip_code_def Let_def)
qed

function directives_from :: "bytes \<Rightarrow> nat \<Rightarrow> bool \<Rightarrow> bytes \<Rightarrow> bytes" where
  "directives_from src i line_start output =
     (if i < length src
      then case splice_len src i of
        Some n \<Rightarrow> directives_from src (i + n) line_start output
      | None \<Rightarrow>
          if src ! i = NL then directives_from src (i + 1) True output
          else if is_whitespace (src ! i) then directives_from src (i + 1) line_start output
          else if cut src i (i + 2) = ''//'' then directives_from src (skip_spliced_comment src i) line_start output
          else if cut src i (i + 2) = ''/*''
          then directives_from src (skip_block_comment src i)
                 (comment_line_start src i (skip_block_comment src i) line_start) output
          else if src ! i = CHR ''#'' \<and> line_start
          then (let e = directive_end src (i + 1)
                in directives_from src e line_start (put output i (cut src i e)))
          else directives_from src (skip_code src i) False output
      else output)"
  by pat_completeness auto
termination
  by (relation "measure (\<lambda>(src, i, line_start, output). length src - i)")
    (auto dest: splice_len_pos intro!: diff_less_mono2 skip_spliced_comment_gt skip_block_comment_gt skip_code_gt
      order.strict_trans2 [OF lessI directive_end_ge, simplified])

declare directives_from.simps [simp del]

definition directives_only :: "bytes \<Rightarrow> bytes" where
  "directives_only src =
     directives_from src (if starts_with [CHR 0xEF, CHR 0xBB, CHR 0xBF] src then 3 else 0) True (blank src)"

section \<open>Line structure\<close>

text \<open>Two bytes are alike when both are ordinary or both are the same line-break byte.\<close>

abbreviation is_nl :: "char \<Rightarrow> bool" where
  "is_nl b \<equiv> b = NL \<or> b = CR"

definition alike :: "char \<Rightarrow> char \<Rightarrow> bool" where
  "alike a b \<longleftrightarrow> (is_nl a \<or> is_nl b \<longrightarrow> b = a)"

text \<open>Same length, and line breaks at the same offsets: every offset, line and column of the copy is one of the original.\<close>

definition same_layout :: "bytes \<Rightarrow> bytes \<Rightarrow> bool" where
  "same_layout src out \<longleftrightarrow> list_all2 alike src out"

lemma same_layout_iff:
  "same_layout src out \<longleftrightarrow> length out = length src
     \<and> (\<forall>i < length src. is_nl (src ! i) \<or> is_nl (out ! i) \<longrightarrow> out ! i = src ! i)"
  unfolding same_layout_def list_all2_conv_all_nth alike_def by (simp only: eq_commute [of "length src"])

lemma same_layout_length: "same_layout src out \<Longrightarrow> length out = length src"
  by (simp add: same_layout_iff)

lemma same_layout_nth:
  "same_layout src out \<Longrightarrow> i < length src \<Longrightarrow> is_nl (src ! i) \<or> is_nl (out ! i) \<Longrightarrow> out ! i = src ! i"
  unfolding same_layout_iff by blast

lemma same_layout_refl [simp]: "same_layout src src"
  by (simp add: same_layout_iff)

lemma alike_blank:
  assumes "alike a b"
  shows "alike a (if b \<noteq> NL \<and> b \<noteq> CR then CHR '' '' else b)"
proof (cases "is_nl b")
  case True
  then show ?thesis using assms by auto
next
  case False
  then have "\<not> is_nl a" using assms unfolding alike_def by blast
  then show ?thesis using False by (simp add: alike_def)
qed

lemma same_layout_blank: "same_layout src out \<Longrightarrow> same_layout src (blank out)"
  unfolding same_layout_def blank_def list_all2_map2 by (erule list_all2_mono) (rule alike_blank)

lemma same_layout_plain:
  "length xs = length ys \<Longrightarrow> list_all (\<lambda>b. \<not> is_nl b) xs \<Longrightarrow> list_all (\<lambda>b. \<not> is_nl b) ys \<Longrightarrow> same_layout xs ys"
  by (simp add: same_layout_iff list_all_length)

lemma length_cut: "e \<le> length xs \<Longrightarrow> length (cut xs s e) = e - s"
  by (simp add: cut_def)

lemma nth_cut: "s + i < e \<Longrightarrow> e \<le> length xs \<Longrightarrow> cut xs s e ! i = xs ! (s + i)"
  by (simp add: cut_def)

lemma cut_cut: "s + b \<le> e \<Longrightarrow> cut (cut xs s e) a b = cut xs (s + a) (s + b)"
proof -
  assume "s + b \<le> e"
  then have "min (b - a) (e - s - a) = b - a" by (simp add: min_def)
  then show ?thesis by (simp add: cut_def drop_take add.commute)
qed

lemma same_layout_cut: "same_layout src out \<Longrightarrow> same_layout (cut src s e) (cut out s e)"
  by (simp add: same_layout_def cut_def)

lemma length_put [simp]: "s + length xs \<le> length out \<Longrightarrow> length (put out s xs) = length out"
  by (simp add: put_def)

lemma nth_put:
  assumes "s + length xs \<le> length out"
  shows "put out s xs ! i = (if s \<le> i \<and> i < s + length xs then xs ! (i - s) else out ! i)"
proof -
  consider "i < s" | "s \<le> i" "i < s + length xs" | "s + length xs \<le> i" by linarith
  then show ?thesis using assms by cases (auto simp: put_def nth_append)
qed

lemma same_layout_put:
  assumes "same_layout src out" and "s + length xs \<le> length out" and "same_layout (cut src s (s + length xs)) xs"
  shows "same_layout src (put out s xs)"
  unfolding same_layout_iff
proof (intro conjI allI impI)
  have len: "length out = length src" using assms(1) by (simp add: same_layout_iff)
  show "length (put out s xs) = length src" using assms(2) len by simp
  fix i assume i: "i < length src" "is_nl (src ! i) \<or> is_nl (put out s xs ! i)"
  show "put out s xs ! i = src ! i"
  proof (cases "s \<le> i \<and> i < s + length xs")
    case True
    then have "cut src s (s + length xs) ! (i - s) = src ! i" "i - s < length (cut src s (s + length xs))"
      using assms(2) len by (auto simp: nth_cut length_cut)
    moreover have put: "put out s xs ! i = xs ! (i - s)" using True by (simp add: nth_put [OF assms(2)])
    ultimately show ?thesis using same_layout_nth [OF assms(3), of "i - s"] i(2) by simp
  next
    case False
    then have "put out s xs ! i = out ! i" using nth_put [OF assms(2)] by presburger
    then show ?thesis using same_layout_nth [OF assms(1) i(1)] i(2) by simp
  qed
qed

definition span_ok :: "bytes \<Rightarrow> macro_span \<Rightarrow> bool" where
  "span_ok src span = (case span of (s, e, form) \<Rightarrow> s \<le> e \<and> e \<le> length src
     \<and> (form \<noteq> Spaces \<longrightarrow> s + 6 \<le> e \<and> list_all (\<lambda>b. \<not> is_nl b) (cut src s (s + 6))))"

lemma list_all_cut_prefix: "list_all P (cut xs s (s + n)) \<Longrightarrow> m \<le> n \<Longrightarrow> list_all P (cut xs s (s + m))"
  by (auto simp: cut_def list_all_iff dest: set_take_subset_set_take [of m n, THEN subsetD, rotated])

lemma overwrite_span_layout:
  assumes "span_ok src (s, e, form)" and same: "same_layout src out"
  shows "\<exists>out'. overwrite_span src out (s, e, form) = Some out' \<and> same_layout src out'
    \<and> (\<forall>i. \<not> (s \<le> i \<and> i < e) \<longrightarrow> out' ! i = out ! i)"
proof -
  have len: "length out = length src" using same by (simp add: same_layout_iff)
  have se: "s \<le> e" "e \<le> length src" using assms(1) by (auto simp: span_ok_def)
  define inner where "inner = cut src s e"
  have inner: "length inner = e - s" using se by (simp add: inner_def length_cut)
  have finish: "same_layout src (put out s xs) \<and> (\<forall>i. \<not> (s \<le> i \<and> i < e) \<longrightarrow> put out s xs ! i = out ! i)"
    if "same_layout inner xs" for xs
  proof -
    have "length xs = e - s" using that inner by (simp add: same_layout_iff)
    with se len have b: "s + length xs \<le> length out" and e: "s + length xs = e" by simp_all
    show ?thesis using same_layout_put [OF same b] that nth_put [OF b] e by (simp add: inner_def)
  qed
  let ?b = "blank (cut out s e)"
  have blanked: "same_layout inner ?b"
    unfolding inner_def by (intro same_layout_blank same_layout_cut same)
  have lb: "length ?b = e - s" using se len by (simp add: blank_def length_cut)
  have ext: "same_layout inner (put ?b 0 xs)" if "form \<noteq> Spaces" "length xs \<le> 6" "list_all (\<lambda>b. \<not> is_nl b) xs" for xs
  proof (rule same_layout_put [OF blanked])
    have "list_all (\<lambda>b. \<not> is_nl b) (cut src s (s + length xs))"
      using assms(1) that list_all_cut_prefix [of _ src s 6] by (auto simp: span_ok_def)
    moreover have "s + length xs \<le> e" using assms(1) that by (auto simp: span_ok_def)
    ultimately show "0 + length xs \<le> length ?b" "same_layout (cut inner 0 (0 + length xs)) xs"
      using that lb se by (auto simp: inner_def cut_cut length_cut intro!: same_layout_plain)
  qed
  let ?attr = "form = Attribute \<and> e - s \<ge> 5 \<and> list_all (\<lambda>b. b \<noteq> NL \<and> b \<noteq> CR) (cut src (e - 2) e)"
  show ?thesis
  proof (cases ?attr)
    case True
    let ?a = "put ?b 0 ''[[a''"
    have a: "same_layout inner ?a" using True by (intro ext) auto
    have "same_layout inner (put ?a (e - s - 2) '']]'')"
    proof (rule same_layout_put [OF a])
      have *: "s + (e - s - 2) = e - 2" "s + (e - s) = e" using True se by linarith+
      have e2: "e - (e - 2) = Suc (Suc 0)" using True by linarith
      have len2: "e - s - 2 + length '']]'' = e - s" using True by (simp del: One_nat_def) linarith
      from len2 * have two: "cut inner (e - s - 2) (e - s - 2 + length '']]'') = cut src (e - 2) e"
        by (simp only: inner_def cut_cut)
      show "same_layout (cut inner (e - s - 2) (e - s - 2 + length '']]'')) '']]''"
        using True se e2 by (intro same_layout_plain) (simp_all only: two, simp_all add: length_cut)
      show "e - s - 2 + length '']]'' \<le> length ?a"
        using same_layout_length [OF a] inner len2 by (simp only: le_refl)
    qed
    from finish [OF this] True se len show ?thesis by (simp add: overwrite_span_def Let_def)
  next
    case False
    have "same_layout inner (put ?b 0 ''extern'')" if "form = CSpecifier" using that by (intro ext) auto
    with finish [OF this] finish [OF blanked] False se len assms(1) show ?thesis
      by (auto simp: overwrite_span_def Let_def span_ok_def)
  qed
qed

definition in_span :: "nat \<Rightarrow> macro_span \<Rightarrow> bool" where
  "in_span i span = (case span of (s, e, _) \<Rightarrow> s \<le> i \<and> i < e)"

lemma overwrite_all_layout:
  assumes "\<forall>span \<in> set spans. span_ok src span" and "same_layout src out"
  shows "\<exists>out'. overwrite_all src spans out = Some out' \<and> same_layout src out'
    \<and> (\<forall>i. (\<forall>span \<in> set spans. \<not> in_span i span) \<longrightarrow> out' ! i = out ! i)"
  using assms
proof (induction spans arbitrary: out)
  case (Cons span spans)
  obtain s e form where span: "span = (s, e, form)" by (cases span)
  obtain out1 where out1: "overwrite_span src out span = Some out1" "same_layout src out1"
    "\<forall>i. \<not> in_span i span \<longrightarrow> out1 ! i = out ! i"
    using overwrite_span_layout [of src s e form out] Cons.prems by (auto simp: span in_span_def)
  then show ?case using Cons.IH [of out1] Cons.prems(1) by auto
qed simp

lemma overwrite_spans_layout:
  assumes "\<forall>span \<in> set spans. span_ok src span"
  obtains r where "overwrite_spans src spans = Some r"
    and "\<And>out. r = Some out \<Longrightarrow> same_layout src out"
    and "\<And>out i. r = Some out \<Longrightarrow> \<forall>span \<in> set spans. \<not> in_span i span \<Longrightarrow> out ! i = src ! i"
proof -
  obtain out where out: "overwrite_all src spans src = Some out" "same_layout src out"
    "\<forall>i. (\<forall>span \<in> set spans. \<not> in_span i span) \<longrightarrow> out ! i = src ! i"
    using overwrite_all_layout [OF assms same_layout_refl] by blast
  show thesis
    by (rule that [of "if spans = [] then None else Some out"])
      (use out in \<open>auto simp: overwrite_spans_def split: if_splits\<close>)
qed

section \<open>Spans come from macro tokens\<close>

lemma word_bytes: "is_upper b \<or> is_digit b \<or> b = CHR ''_'' \<Longrightarrow> \<not> is_nl b"
  by (auto simp: is_upper_def is_digit_def byte_val_def)

lemma candidate_shape: "is_candidate w \<Longrightarrow> 6 \<le> length w \<and> list_all (\<lambda>b. \<not> is_nl b) w"
proof
  assume w: "is_candidate w"
  then show "6 \<le> length w" by (auto simp: is_candidate_def SUFFIXES_def)
  from w have "list_all (\<lambda>b. is_upper b \<or> is_digit b \<or> b = CHR ''_'') w" by (simp add: is_candidate_def)
  then show "list_all (\<lambda>b. \<not> is_nl b) w" by (rule list.pred_mono_strong) (rule word_bytes)
qed

lemma c_macro_shape: "is_c_macro w \<Longrightarrow> 6 \<le> length w \<and> list_all (\<lambda>b. \<not> is_nl b) w"
  by (auto simp: is_c_macro_def C_MACROS_def dest: candidate_shape)

lemma macro_token_span:
  assumes "tokens_ok src n tokens" and "t \<in> set tokens"
    and "6 \<le> length (token_text t src) \<and> list_all (\<lambda>b. \<not> is_nl b) (token_text t src)"
    and "tk_end t \<le> e" and "e \<le> length src"
  shows "span_ok src (tk_start t, e, form)"
proof -
  have t: "tk_start t < tk_end t" "tk_end t \<le> length src" using tokens_ok_mem [OF assms(1,2)] by simp_all
  have "6 \<le> tk_end t - tk_start t" using assms(3) t by (simp add: token_text_def length_cut)
  moreover have "list_all (\<lambda>b. \<not> is_nl b) (cut src (tk_start t) (tk_start t + 6))"
    using list_all_cut_prefix [of _ src "tk_start t" "tk_end t - tk_start t" 6] assms(3) t calculation
    by (simp add: token_text_def)
  moreover have "tk_start t + 6 \<le> e" using calculation(1) t assms(4) by linarith
  ultimately show ?thesis using t assms(4,5) by (simp add: span_ok_def)
qed

lemma macro_end:
  assumes "tokens_ok src n tokens" and "i < length tokens" and "after_args tokens i = Some k"
  shows "tk_end (tokens ! i) \<le> tk_end (tokens ! (k - 1))" and "tk_end (tokens ! (k - 1)) \<le> length src"
proof -
  have k: "i \<le> k - 1" "k - 1 < length tokens"
    using after_args_gt [OF assms(3)] after_args_le [OF assms(3,2)] by simp_all
  have last: "tk_start (tokens ! (k - 1)) < tk_end (tokens ! (k - 1))" "tk_end (tokens ! (k - 1)) \<le> length src"
    using tokens_ok_mem [OF assms(1) nth_mem [OF k(2)]] by simp_all
  then show "tk_end (tokens ! (k - 1)) \<le> length src" by simp
  show "tk_end (tokens ! i) \<le> tk_end (tokens ! (k - 1))"
    using tokens_ok_nth_less [OF assms(1) _ k(2), of i] k(1) last(1) by (cases "i = k - 1") auto
qed

definition macro_span_of :: "(bytes \<Rightarrow> bool) \<Rightarrow> token list \<Rightarrow> bytes \<Rightarrow> macro_span \<Rightarrow> bool" where
  "macro_span_of P tokens src span \<longleftrightarrow> span_ok src span \<and>
     (\<exists>t \<in> set tokens. tk_kind t = Ident \<and> P (token_text t src) \<and> fst span \<in> {tk_start t, tk_end t})"

lemma blank_spans_from_ok:
  assumes "tokens_ok src n tokens"
  shows "\<forall>span \<in> set (blank_spans_from tokens src prev i). macro_span_of is_candidate tokens src span"
proof (induction "length tokens - i" arbitrary: prev i rule: less_induct)
  case less
  note step = blank_spans_from.simps [of tokens src prev i]
  show ?case
  proof (cases "i < length tokens")
    case True
    let ?t = "tokens ! i"
    have IH: "\<forall>span \<in> set (blank_spans_from tokens src prev' j). macro_span_of is_candidate tokens src span"
      if "i < j" for prev' j using less [OF diff_less_mono2 [OF that True]] .
    have span: "macro_span_of is_candidate tokens src (tk_start ?t, tk_end (tokens ! (k - 1)), form)"
      if "tk_kind ?t = Ident" "is_candidate (token_text ?t src)" "after_args tokens i = Some k" for k form
      using macro_token_span [OF assms nth_mem [OF True] candidate_shape [OF that(2)] macro_end [OF assms True that(3)]]
        that True by (auto simp: macro_span_of_def intro!: bexI [of _ ?t])
    show ?thesis
      using step True IH [of "i + 1"] IH [OF after_args_gt] span
      by (auto simp: Let_def split: if_splits option.splits)
  qed (use step in simp)
qed

lemma c_macro_run_ok:
  assumes "tokens_ok src n tokens"
  shows "list_all (macro_span_of is_c_macro tokens src) spans \<Longrightarrow>
    c_macro_run m tokens src i spans = Some (i', spans') \<Longrightarrow>
    list_all (macro_span_of is_c_macro tokens src) spans'"
proof (induction m arbitrary: i spans)
  case (Suc m)
  show ?case
  proof (cases "get tokens i")
    case (Some t)
    then have i: "i < length tokens" "t = tokens ! i" by (auto simp: get_Some)
    show ?thesis
    proof (cases "tk_kind t \<noteq> Ident \<or> \<not> is_c_macro (token_text t src)")
      case True
      then show ?thesis using Suc.prems Some by simp
    next
      case False
      then obtain k where k: "after_args tokens i = Some k" using Suc.prems(2) Some by (auto split: option.splits)
      let ?e = "tk_end (tokens ! (k - 1))"
      have t: "t \<in> set tokens" using i by simp
      note e = macro_end [OF assms i(1) k, folded i(2)]
      have tt: "tk_end t \<le> length src" using tokens_ok_mem [OF assms t] by simp
      have name: "macro_span_of is_c_macro tokens src (tk_start t, tk_end t, form)" for form
        using macro_token_span [OF assms t c_macro_shape le_refl tt] False t by (auto simp: macro_span_of_def)
      have args: "macro_span_of is_c_macro tokens src (tk_end t, ?e, Spaces)"
        using e False t by (auto simp: macro_span_of_def span_ok_def)
      let ?spans1 = "spans @ (tk_start t, tk_end t, if spans = [] then CSpecifier else Spaces)
          # (if ?e > tk_end t then [(tk_end t, ?e, Spaces)] else [])"
      have "c_macro_run m tokens src k ?spans1 = Some (i', spans')"
        using Suc.prems(2) Some False k by (simp add: Let_def split del: if_split cong: if_cong)
      moreover have "list_all (macro_span_of is_c_macro tokens src) ?spans1"
        using Suc.prems(1) name args by auto
      ultimately show ?thesis by (intro Suc.IH [of ?spans1 k])
    qed
  qed (use Suc.prems in simp)
qed simp

lemma c_head_loop_ok:
  assumes "tokens_ok src n tokens"
  shows "list_all (macro_span_of is_c_macro tokens src) spans \<Longrightarrow>
    c_head_loop tokens src start i idents primitive spans = Some (i', spans') \<Longrightarrow>
    list_all (macro_span_of is_c_macro tokens src) spans'"
proof (induction "start + MAX_HEAD_TOKENS - i" arbitrary: i idents primitive spans rule: less_induct)
  case less
  note step = c_head_loop.simps [of tokens src start i idents primitive spans]
  show ?case
  proof (cases "i < start + MAX_HEAD_TOKENS \<and> get tokens i \<noteq> None")
    case True
    then obtain t where t: "get tokens i = Some t" and i: "i < start + MAX_HEAD_TOKENS" by auto
    then have mem: "t \<in> set tokens" by (auto simp: get_Some)
    have tt: "tk_end t \<le> length src" using tokens_ok_mem [OF assms mem] by simp
    have span: "macro_span_of is_c_macro tokens src (tk_start t, tk_end t, Spaces)"
      if "tk_kind t = Ident" "token_text t src \<in> set (tl C_MACROS)"
    proof -
      have "is_c_macro (token_text t src)" using that by (auto simp: is_c_macro_def C_MACROS_def)
      with macro_token_span [OF assms mem c_macro_shape le_refl tt] that mem show ?thesis
        by (auto simp: macro_span_of_def)
    qed
    have IH: "c_head_loop tokens src start (Suc i) a b spans'' = Some (i', spans') \<Longrightarrow>
        list_all (macro_span_of is_c_macro tokens src) spans'' \<Longrightarrow>
        list_all (macro_span_of is_c_macro tokens src) spans'" for a b spans''
      using less.hyps [of "Suc i"] i by simp
    show ?thesis
      using less.prems(2) [unfolded step] less.prems(1) t i span
      by (auto simp: Let_def split: if_splits intro: IH)
  next
    case False
    then show ?thesis using less.prems(2) [unfolded step] by (auto split: if_splits)
  qed
qed

lemma c_spans_from_ok:
  assumes "tokens_ok src n tokens"
  shows "\<forall>span \<in> set (c_spans_from tokens src i). macro_span_of is_c_macro tokens src span"
proof (induction "length tokens - i" arbitrary: i rule: less_induct)
  case less
  note step = c_spans_from.simps [of tokens src i]
  show ?case
  proof (cases "i < length tokens")
    case True
    have IH: "\<forall>span \<in> set (c_spans_from tokens src j). macro_span_of is_c_macro tokens src span" if "i < j" for j
      using less [OF diff_less_mono2 [OF that True]] .
    have head: "list_all (macro_span_of is_c_macro tokens src) spans"
      if "c_function_head tokens src i = Some (e, spans)" for e spans
    proof -
      from that obtain j spans1 where run: "c_macro_run MAX_MACRO_RUN tokens src i [] = Some (j, spans1)"
        and loop: "c_head_loop tokens src i j 0 False spans1 = Some (e, spans)"
        by (auto simp: c_function_head_def split: option.splits if_splits)
      show ?thesis using c_head_loop_ok [OF assms c_macro_run_ok [OF assms _ run] loop] by simp
    qed
    show ?thesis
    proof (cases "if c_declaration_start tokens src i then c_function_head tokens src i else None")
      case None
      then show ?thesis using step True IH [of "i + 1"] by simp
    next
      case (Some r)
      obtain e spans where r: "r = (e, spans)" by (cases r)
      with Some have f: "c_function_head tokens src i = Some (e, spans)" by (simp split: if_splits)
      show ?thesis
        using step True Some r head [OF f] IH [OF c_function_head_gt [OF f]] by (auto simp: list_all_iff)
    qed
  qed (use step in simp)
qed

section \<open>Directive copies keep the layout\<close>

lemma splice_len_le: "splice_len src i = Some n \<Longrightarrow> i + n \<le> length src"
  by (auto simp: splice_len_def cut_def split: if_splits dest!: arg_cong [where f = length])

lemma cut2_le: "cut src i (i + 2) = [a, b] \<Longrightarrow> i + 2 \<le> length src"
  by (auto simp: cut_def dest!: arg_cong [where f = length])

lemma skip_spliced_comment_le: "i \<le> length src \<Longrightarrow> skip_spliced_comment src i \<le> length src"
proof (induction "length src - i" arbitrary: i rule: less_induct)
  case less
  show ?case
  proof (cases "i < length src \<and> src ! i \<noteq> NL")
    case True
    let ?j = "i + (case splice_len src i of Some n \<Rightarrow> n | None \<Rightarrow> 1)"
    have j: "i < ?j" "?j \<le> length src"
      using True splice_len_pos splice_len_le by (auto split: option.split)
    have "skip_spliced_comment src i = skip_spliced_comment src ?j"
      by (subst skip_spliced_comment.simps) (simp only: if_P [OF True])
    then show ?thesis using less.hyps [of ?j] j True by auto
  next
    case False
    have "skip_spliced_comment src i = i"
      by (subst skip_spliced_comment.simps) (simp only: if_not_P [OF False])
    then show ?thesis using less.prems by simp
  qed
qed

lemma directive_end_step:
  assumes "i < length src" "src ! i \<noteq> NL"
  obtains j where "directive_end src i = directive_end src j" and "i < j" and "j \<le> length src"
proof (cases "splice_len src i")
  case (Some n)
  then show ?thesis using that [of "i + n"] assms splice_len_pos [OF Some] splice_len_le [OF Some]
      directive_end.simps [of src i] by simp
next
  case None
  note step = directive_end.simps [of src i]
  show ?thesis
  proof (cases "cut src i (i + 2) = ''//''")
    case True
    then show ?thesis
      using that [of "skip_spliced_comment src i"] None step assms skip_spliced_comment_gt [OF assms]
        skip_spliced_comment_le [of i src] by simp
  next
    case slash: False
    show ?thesis
    proof (cases "cut src i (i + 2) = ''/*''")
      case True
      then show ?thesis
        using that [of "skip_block_comment src i"] None step assms skip_block_comment_gt [OF assms(1)]
          skip_block_comment_le [OF cut2_le [OF True]] slash by simp
    next
      case star: False
      show ?thesis
      proof (cases "src ! i \<in> {SQUOTE, DQUOTE}")
        case True
        then show ?thesis
          using that [of "skip_quoted src i (src ! i)"] None step assms slash star skip_quoted_bounds [OF assms(1)]
          by auto
      next
        case False
        then show ?thesis using that [of "i + 1"] None step assms slash star by simp
      qed
    qed
  qed
qed

lemma directive_end_le: "i \<le> length src \<Longrightarrow> directive_end src i \<le> length src"
proof (induction "length src - i" arbitrary: i rule: less_induct)
  case less
  show ?case
  proof (cases "i < length src \<and> src ! i \<noteq> NL")
    case True
    then obtain j where "directive_end src i = directive_end src j" "i < j" "j \<le> length src"
      using directive_end_step [of i src] by blast
    then show ?thesis using less.hyps [of j] True by simp
  next
    case False
    have "directive_end src i = i" by (subst directive_end.simps) (simp only: if_not_P [OF False])
    then show ?thesis using less.prems by simp
  qed
qed

definition source_or_blank :: "bytes \<Rightarrow> bytes \<Rightarrow> bool" where
  "source_or_blank src out \<longleftrightarrow> length out = length src \<and>
     (\<forall>i < length src. out ! i = src ! i \<or> (out ! i = CHR '' '' \<and> \<not> is_nl (src ! i)))"

lemma source_or_blank_layout: "source_or_blank src out \<Longrightarrow> same_layout src out"
  unfolding source_or_blank_def same_layout_iff by force

lemma source_or_blank_blank: "source_or_blank src (blank src)"
  by (auto simp: source_or_blank_def blank_def)

lemma source_or_blank_put:
  assumes "source_or_blank src out" and "s \<le> e" and "e \<le> length src"
  shows "source_or_blank src (put out s (cut src s e))"
proof -
  have len: "length out = length src" "length (cut src s e) = e - s"
    using assms by (auto simp: source_or_blank_def length_cut)
  then have b: "s + length (cut src s e) \<le> length out" using assms by simp
  show ?thesis
    using assms len by (auto simp: source_or_blank_def nth_put [OF b] nth_cut)
qed

lemma directives_from_layout:
  "source_or_blank src out \<Longrightarrow> source_or_blank src (directives_from src i ls out)"
proof (induction "length src - i" arbitrary: i ls out rule: less_induct)
  case less
  show ?case
  proof (cases "i < length src")
    case True
    have IH: "source_or_blank src (directives_from src j ls' out')" if "i < j" "source_or_blank src out'" for j ls' out'
      using less.hyps [OF diff_less_mono2 [OF that(1) True] that(2)] .
    let ?e = "directive_end src (i + 1)"
    have e: "i < ?e" "?e \<le> length src"
      using directive_end_ge [of "i + 1" src] directive_end_le [of "i + 1" src] True by simp_all
    have "source_or_blank src (put out i (cut src i ?e))"
      using source_or_blank_put [OF less.prems] e by simp
    then show ?thesis
      using True IH less.prems e splice_len_pos skip_spliced_comment_gt [OF True] skip_block_comment_gt [OF True]
        skip_code_gt [OF True]
      by (subst directives_from.simps) (auto simp: Let_def split: option.split)
  next
    case False
    then have "directives_from src i ls out = out" by (subst directives_from.simps) simp
    then show ?thesis using less.prems by simp
  qed
qed

section \<open>Properties\<close>

text \<open>
  Neutralising export macros never panics and never moves anything: in the copies made for C++ and
  for C every byte offset, line and column is that of the original, and a byte outside the
  recognised macros (an upper-case identifier token of the naming convention, or one of the C macros, with its
  argument list) is the original byte.
\<close>

theorem export_macros_keep_layout:
  "(\<exists>r. neutralize src = Some r \<and> (\<forall>out. r = Some out \<longrightarrow> same_layout src out
      \<and> (\<exists>spans. (\<forall>i. (\<forall>span \<in> set spans. \<not> in_span i span) \<longrightarrow> out ! i = src ! i)
           \<and> (\<forall>span \<in> set spans. macro_span_of is_candidate (tokenize src) src span))))
   \<and> (\<exists>r. neutralize_c src = Some r \<and> (\<forall>out. r = Some out \<longrightarrow> same_layout src out
      \<and> (\<exists>spans. (\<forall>i. (\<forall>span \<in> set spans. \<not> in_span i span) \<longrightarrow> out ! i = src ! i)
           \<and> (\<forall>span \<in> set spans. macro_span_of is_c_macro (tokenize src) src span))))"
proof -
  have *: "\<exists>r. overwrite_spans src spans = Some r \<and> (\<forall>out. r = Some out \<longrightarrow> same_layout src out
      \<and> (\<exists>spans. (\<forall>i. (\<forall>span \<in> set spans. \<not> in_span i span) \<longrightarrow> out ! i = src ! i)
           \<and> (\<forall>span \<in> set spans. macro_span_of P (tokenize src) src span)))"
    if ok: "\<forall>span \<in> set spans. macro_span_of P (tokenize src) src span" for spans P
  proof -
    have "\<forall>span \<in> set spans. span_ok src span" using ok by (simp add: macro_span_of_def)
    then obtain r where r: "overwrite_spans src spans = Some r"
      and same: "\<And>out. r = Some out \<Longrightarrow> same_layout src out"
      and out: "\<And>out i. r = Some out \<Longrightarrow> \<forall>span \<in> set spans. \<not> in_span i span \<Longrightarrow> out ! i = src ! i"
      by (rule overwrite_spans_layout) iprover
    show ?thesis
    proof (intro exI [of _ r] conjI allI impI r)
      fix o1 assume r1: "r = Some o1"
      then show "same_layout src o1" by (rule same)
      show "\<exists>spans. (\<forall>i. (\<forall>span \<in> set spans. \<not> in_span i span) \<longrightarrow> o1 ! i = src ! i)
          \<and> (\<forall>span \<in> set spans. macro_span_of P (tokenize src) src span)"
        by (intro exI [of _ spans] conjI ok allI impI out [OF r1])
    qed
  qed
  show ?thesis
    using * [OF blank_spans_from_ok [OF tokenize_ok], of None 0] * [OF c_spans_from_ok [OF tokenize_ok], of 0]
    by (simp add: neutralize_def neutralize_c_def blank_spans_def)
qed

theorem export_macros_keep_layout_witness:
  "neutralize ''class MY_API W{};'' = Some (Some ''class        W{};'')
   \<and> same_layout ''class MY_API W{};'' ''class        W{};''"
proof -
  have "neutralize ''class MY_API W{};'' = Some (Some ''class        W{};'')" by code_simp
  with export_macros_keep_layout [of "''class MY_API W{};''"] show ?thesis by auto
qed

text \<open>
  The copy that keeps only preprocessor directives has the layout of the original, and each of its
  bytes is the original byte or a blank in place of a byte that is no line break.
\<close>

theorem directives_only_keeps_layout:
  "same_layout src (directives_only src) \<and> source_or_blank src (directives_only src)"
  using directives_from_layout [OF source_or_blank_blank] source_or_blank_layout
  by (simp add: directives_only_def)

end
