(* ===== verification/Dead_Regions.thy ===== *)
theory Dead_Regions
  imports Protocol_Types C_Lexer "HOL-Library.Product_Lexorder"
begin

text \<open>
  Preprocessor groups that no build reaches, \<open>crates/parser/src/preproc.rs\<close>. The syntax tree is the
  parser library's: a node is what the code reads of it (kind, whether it is named or was inserted
  by error recovery, byte range, children with their field names). The tree cursor of
  \<open>DeadRegions::scan\<close> is the path from the current node to the root, each frame with the siblings still to the right of it.
\<close>

section \<open>Syntax trees\<close>

datatype node =
  Node (nd_kind: string) (nd_named: bool) (nd_missing: bool) (nd_start: nat) (nd_end: nat)
    (nd_children: "(string option \<times> node) list")

definition child_by_field_name :: "string \<Rightarrow> node \<Rightarrow> node option" where
  "child_by_field_name f n = map_option snd (find (\<lambda>(g, _). g = Some f) (nd_children n))"

definition first_named_child :: "node \<Rightarrow> node option" where
  "first_named_child n = map_option snd (find (\<lambda>(_, c). nd_named c) (nd_children n))"

definition utf8_text :: "bytes \<Rightarrow> node \<Rightarrow> bytes" where
  "utf8_text src n = cut src (nd_start n) (nd_end n)"

definition frame_size :: "node list \<Rightarrow> nat" where
  "frame_size ns = sum_list (map size ns)"

lemma frame_size_children: "frame_size (map snd (nd_children n)) < size n"
proof -
  have *: "sum_list (map (size \<circ> snd) cs) \<le> size_list (size_prod (\<lambda>x. 0) size) cs"
    for cs :: "(string option \<times> node) list"
    by (induction cs) (auto simp: size_prod_def split: prod.splits)
  show ?thesis
    using * [of "nd_children n"] by (cases n) (simp add: frame_size_def)
qed

lemma size_child: "(f, c) \<in> set (nd_children n) \<Longrightarrow> size c < size n"
proof -
  assume "(f, c) \<in> set (nd_children n)"
  then have "size c \<in> set (map size (map snd (nd_children n)))" by force
  then have "size c \<le> frame_size (map snd (nd_children n))"
    unfolding frame_size_def by (intro member_le_sum_list) simp_all
  then show ?thesis using frame_size_children [of n] by simp
qed

lemma first_named_child_mem: "first_named_child n = Some c \<Longrightarrow> \<exists>f. (f, c) \<in> set (nd_children n)"
  by (auto simp: first_named_child_def find_Some_iff intro: nth_mem) (metis nth_mem)

lemma child_by_field_name_mem: "child_by_field_name f n = Some c \<Longrightarrow> (Some f, c) \<in> set (nd_children n)"
  by (auto simp: child_by_field_name_def find_Some_iff) (metis nth_mem)

section \<open>The spans a conditional establishes\<close>

function unwrap_condition :: "node \<Rightarrow> node option" where
  "unwrap_condition n =
     (if nd_kind n = ''parenthesized_expression''
      then (case first_named_child n of None \<Rightarrow> None | Some c \<Rightarrow> unwrap_condition c)
      else Some n)"
  by pat_completeness auto

termination
  by (relation "measure size") (auto dest!: first_named_child_mem size_child)

declare unwrap_condition.simps [simp del]

definition literal_condition :: "bytes \<Rightarrow> node \<Rightarrow> bool option" where
  "literal_condition src grp =
     (case child_by_field_name ''condition'' grp of
        None \<Rightarrow> None
      | Some c \<Rightarrow>
          (case unwrap_condition c of
             None \<Rightarrow> None
           | Some condition \<Rightarrow>
               if nd_kind condition \<noteq> ''number_literal'' then None
               else if utf8_text src condition = ''0'' then Some False
               else if utf8_text src condition = ''1'' then Some True
               else None))"

text \<open>The second argument of \<open>opener_of\<close> are the ancestors of the first, the nearest first.\<close>

fun opener_of :: "node \<Rightarrow> node list \<Rightarrow> node option" where
  "opener_of n ancestors =
     (if nd_kind n \<in> {''preproc_elif'', ''preproc_elifdef'', ''preproc_else''}
      then (case ancestors of [] \<Rightarrow> None | p # ps \<Rightarrow> opener_of p ps)
      else Some n)"

declare opener_of.simps [simp del]

definition terminated_by_endif :: "node \<Rightarrow> node list \<Rightarrow> bool" where
  "terminated_by_endif grp ancestors \<longleftrightarrow>
     (case opener_of grp ancestors of
        None \<Rightarrow> False
      | Some opener \<Rightarrow>
          nd_children opener \<noteq> []
          \<and> (let final = snd (last (nd_children opener)) in nd_kind final = ''#endif'' \<and> \<not> nd_missing final))"

definition dead_parts :: "bytes \<Rightarrow> node \<Rightarrow> (bool \<times> bool) option" where
  "dead_parts src n =
     (if nd_kind n = ''preproc_if''
      then (case literal_condition src n of
              Some False \<Rightarrow> Some (True, False) | Some True \<Rightarrow> Some (False, True) | None \<Rightarrow> None)
      else if nd_kind n = ''preproc_elif'' \<and> literal_condition src n = Some False then Some (True, False)
      else None)"

definition collect_dead_spans :: "bytes \<Rightarrow> node \<Rightarrow> node list \<Rightarrow> (nat \<times> nat) list" where
  "collect_dead_spans src n ancestors =
     (case dead_parts src n of
        None \<Rightarrow> []
      | Some (own_group_dead, else_chain_dead) \<Rightarrow>
          if \<not> terminated_by_endif n ancestors then []
          else let alternative = child_by_field_name ''alternative'' n in
            (if own_group_dead
             then [(nd_start n, case alternative of None \<Rightarrow> nd_end n | Some alt \<Rightarrow> nd_start alt)] else [])
            @ (case alternative of
                 Some alt \<Rightarrow> if else_chain_dead then [(nd_start alt, nd_end n)] else []
               | None \<Rightarrow> []))"

section \<open>The walk\<close>

fun climb :: "node list list \<Rightarrow> node list list" where
  "climb [] = []"
| "climb (frame # up) = (if tl frame = [] then climb up else tl frame # up)"

definition advance :: "node list list \<Rightarrow> node list list" where
  "advance path =
     (let n = hd (hd path)
      in if nd_children n \<noteq> [] then map snd (nd_children n) # path else climb path)"

definition ancestors_of :: "node list list \<Rightarrow> node list" where
  "ancestors_of path = map hd (tl path)"

definition directive_token :: "node \<Rightarrow> bool" where
  "directive_token n \<longleftrightarrow> \<not> nd_named n \<and> starts_with ''#'' (nd_kind n)"

definition path_size :: "node list list \<Rightarrow> nat" where
  "path_size path = (case path of [] \<Rightarrow> 0 | f # up \<Rightarrow> frame_size f + sum_list (map (frame_size \<circ> tl) up))"

lemma frame_size_Cons [simp]: "frame_size (n # ns) = size n + frame_size ns"
  by (simp add: frame_size_def)

lemma frame_size_tl: "frame_size (tl f) \<le> frame_size f"
  by (cases f) simp_all

lemma path_size_climb: "path_size (climb path) \<le> sum_list (map (frame_size \<circ> tl) path)"
proof (induction path)
  case (Cons f up)
  have "path_size (climb up) \<le> sum_list (map (frame_size \<circ> tl) up)" by (rule Cons.IH)
  then show ?case by (simp add: path_size_def [of "tl f # up"] comp_def)
qed (simp add: path_size_def)

lemma node_size_pos: "0 < size (n :: node)"
  by (cases n) simp

lemma path_size_advance:
  assumes "path \<noteq> []" and "hd path \<noteq> []"
  shows "path_size (advance path) < path_size path"
proof -
  obtain n ns up where p: "path = (n # ns) # up" using assms by (metis list.exhaust_sel)
  show ?thesis
    using path_size_climb [of "(n # ns) # up"] frame_size_children [of n] node_size_pos [of n]
    by (auto simp: p advance_def path_size_def)
qed

function dead_walk ::
  "bytes \<Rightarrow> node list list \<Rightarrow> (nat \<times> nat) list \<Rightarrow> nat list \<Rightarrow> (nat \<times> nat) list \<times> nat list" where
  "dead_walk src path ranges directives =
     (if path = [] \<or> hd path = [] then (ranges, directives)
      else let n = hd (hd path)
           in dead_walk src (advance path) (ranges @ collect_dead_spans src n (ancestors_of path))
                (if directive_token n then directives @ [nd_start n] else directives))"
  by pat_completeness auto

termination
  by (relation "measure (\<lambda>(_, path, _, _). path_size path)") (auto intro: path_size_advance)

declare dead_walk.simps [simp del]

section \<open>Dead regions\<close>

record dead_regions =
  dr_ranges :: "(nat \<times> nat) list"
  dr_directives :: "nat list"

definition merge_range :: "(nat \<times> nat) list \<Rightarrow> nat \<times> nat \<Rightarrow> (nat \<times> nat) list" where
  "merge_range merged r =
     (if merged \<noteq> [] \<and> fst r \<le> snd (last merged)
      then butlast merged @ [(fst (last merged), max (snd (last merged)) (snd r))]
      else merged @ [r])"

definition merged :: "(nat \<times> nat) list \<Rightarrow> dead_regions" where
  "merged ranges = \<lparr>dr_ranges = foldl merge_range [] (sort ranges), dr_directives = []\<rparr>"

definition dead_scan :: "node \<Rightarrow> bytes \<Rightarrow> language \<Rightarrow> dead_regions" where
  "dead_scan root src language =
     (if language \<notin> {Lang_C, Lang_Cpp} then \<lparr>dr_ranges = [], dr_directives = []\<rparr>
      else let (ranges, directives) = dead_walk src [[root]] [] []
           in (merged ranges)\<lparr>dr_directives := directives\<rparr>)"

text \<open>\<open>partition_point\<close> of a slice that the predicate partitions, and \<open>binary_search(..).is_ok()\<close> as a bisection.\<close>

definition partition_point :: "('a \<Rightarrow> bool) \<Rightarrow> 'a list \<Rightarrow> nat" where
  "partition_point P xs = length (takeWhile P xs)"

definition covers :: "dead_regions \<Rightarrow> nat \<Rightarrow> bool" where
  "covers d b =
     (let idx = partition_point (\<lambda>r. fst r \<le> b) (dr_ranges d)
      in 0 < idx \<and> b < snd (dr_ranges d ! (idx - 1)))"

function bisect :: "'a::linorder list \<Rightarrow> 'a \<Rightarrow> nat \<Rightarrow> nat \<Rightarrow> bool" where
  "bisect xs x lo hi =
     (if lo < hi
      then let mid = (lo + hi) div 2
           in if xs ! mid = x then True
              else if xs ! mid < x then bisect xs x (mid + 1) hi else bisect xs x lo mid
      else False)"
  by pat_completeness auto

termination
  by (relation "measure (\<lambda>(_, _, lo, hi). hi - lo)") auto

declare bisect.simps [simp del]

definition has_directive_at :: "dead_regions \<Rightarrow> nat \<Rightarrow> bool" where
  "has_directive_at d b = bisect (dr_directives d) b 0 (length (dr_directives d))"

section \<open>The walk visits the tree in order\<close>

function preorder :: "node list \<Rightarrow> node \<Rightarrow> (node \<times> node list) list" where
  "preorder ancestors n =
     (n, ancestors) # concat (map (preorder (n # ancestors)) (map snd (nd_children n)))"
  by pat_completeness auto

termination
  by (relation "measure (\<lambda>(_, n). size n)") (auto dest: size_child)

declare preorder.simps [simp del]

definition spans_of :: "bytes \<Rightarrow> (node \<times> node list) list \<Rightarrow> (nat \<times> nat) list" where
  "spans_of src visits = concat (map (\<lambda>(n, ancestors). collect_dead_spans src n ancestors) visits)"

definition directives_of :: "(node \<times> node list) list \<Rightarrow> nat list" where
  "directives_of visits = map (nd_start \<circ> fst) (filter (directive_token \<circ> fst) visits)"

lemma spans_of_simps [simp]:
  "spans_of src [] = []"
  "spans_of src ((n, a) # vs) = collect_dead_spans src n a @ spans_of src vs"
  "spans_of src (vs @ ws) = spans_of src vs @ spans_of src ws"
  by (simp_all add: spans_of_def)

lemma directives_of_simps [simp]:
  "directives_of [] = []"
  "directives_of ((n, a) # vs) = (if directive_token n then nd_start n # directives_of vs else directives_of vs)"
  "directives_of (vs @ ws) = directives_of vs @ directives_of ws"
  by (simp_all add: directives_of_def)

abbreviation visits :: "node list \<Rightarrow> node list \<Rightarrow> (node \<times> node list) list" where
  "visits ancestors ns \<equiv> concat (map (preorder ancestors) ns)"

lemma dead_walk_frame:
  "ns \<noteq> [] \<Longrightarrow> dead_walk src (ns # up) ranges directives =
     dead_walk src (climb up) (ranges @ spans_of src (visits (map hd up) ns))
       (directives @ directives_of (visits (map hd up) ns))"
proof (induction "frame_size ns" arbitrary: ns up ranges directives rule: less_induct)
  case less
  obtain n rest where ns: "ns = n # rest" using less.prems by (cases ns) auto
  define kids where "kids = map snd (nd_children n)"
  define r where "r = ranges @ collect_dead_spans src n (map hd up)"
  define d where "d = (if directive_token n then directives @ [nd_start n] else directives)"
  have here: "dead_walk src (ns # up) ranges directives = dead_walk src (advance (ns # up)) r d"
    by (subst dead_walk.simps) (simp add: ns r_def d_def ancestors_of_def Let_def)
  have pre: "preorder (map hd up) n = (n, map hd up) # visits (n # map hd up) kids"
    by (subst preorder.simps) (simp add: kids_def)
  have kids_walk: "dead_walk src (advance (ns # up)) r d =
      dead_walk src (climb (ns # up)) (r @ spans_of src (visits (n # map hd up) kids))
        (d @ directives_of (visits (n # map hd up) kids))"
  proof (cases "kids = []")
    case True
    then show ?thesis by (simp add: advance_def ns kids_def)
  next
    case False
    have "frame_size kids < frame_size ns"
      using frame_size_children [of n] by (simp add: ns kids_def)
    from less.hyps [OF this False, of "ns # up" r d] False show ?thesis
      by (simp add: advance_def ns kids_def)
  qed
  have rest: "dead_walk src (climb (ns # up)) r' d' =
      dead_walk src (climb up) (r' @ spans_of src (visits (map hd up) rest))
        (d' @ directives_of (visits (map hd up) rest))" for r' d'
  proof (cases "rest = []")
    case False
    have "frame_size rest < frame_size ns" using node_size_pos [of n] by (simp add: ns)
    from less.hyps [OF this False] False show ?thesis by (simp add: ns)
  qed (simp add: ns)
  show ?case
    unfolding here kids_walk rest by (simp add: ns pre r_def d_def)
qed

lemma dead_walk_preorder:
  "dead_walk src [[root]] [] [] = (spans_of src (preorder [] root), directives_of (preorder [] root))"
  using dead_walk_frame [of "[root]" src "[]" "[]" "[]"] by (simp add: dead_walk.simps)

section \<open>Merged ranges\<close>

definition in_range :: "nat \<Rightarrow> nat \<times> nat \<Rightarrow> bool" where
  "in_range b r \<longleftrightarrow> fst r \<le> b \<and> b < snd r"

definition gapped :: "(nat \<times> nat) list \<Rightarrow> bool" where
  "gapped rs \<longleftrightarrow> sorted_wrt (\<lambda>x y. snd x < fst y \<and> fst x \<le> fst y) rs"

lemma gapped_snoc:
  "gapped (rs @ [r]) \<longleftrightarrow> gapped rs \<and> (\<forall>x \<in> set rs. snd x < fst r \<and> fst x \<le> fst r)"
  by (simp add: gapped_def sorted_wrt_append)

lemma merge_range_step:
  assumes "gapped m" and "\<forall>x \<in> set m. fst x \<le> fst r"
  shows "gapped (merge_range m r)"
    and "\<forall>x \<in> set (merge_range m r). fst x \<le> fst r"
    and "(\<exists>x \<in> set (merge_range m r). in_range b x) \<longleftrightarrow> (\<exists>x \<in> set m. in_range b x) \<or> in_range b r"
proof -
  show "gapped (merge_range m r)"
  proof (cases m rule: rev_cases)
    case (snoc m' l)
    show ?thesis
    proof (cases "fst r \<le> snd l")
      case True
      then show ?thesis using assms(1) by (simp add: merge_range_def snoc gapped_snoc)
    next
      case False
      have "snd x < fst r \<and> fst x \<le> fst r" if "x \<in> set m" for x
      proof (cases "x = l")
        case x: False
        then have "x \<in> set m'" using that snoc by auto
        then have "snd x < fst l" using assms(1) by (simp add: snoc gapped_snoc)
        moreover have "fst l \<le> fst r" using assms(2) snoc by simp
        ultimately show ?thesis using assms(2) that by auto
      qed (use False assms(2) snoc in auto)
      moreover have "merge_range m r = m @ [r]" using False by (simp add: merge_range_def snoc)
      ultimately show ?thesis using assms(1) by (simp only: gapped_snoc) blast
    qed
  qed (simp add: merge_range_def gapped_def)
  show "\<forall>x \<in> set (merge_range m r). fst x \<le> fst r"
    using assms(2) by (auto simp: merge_range_def dest: in_set_butlastD)
  show "(\<exists>x \<in> set (merge_range m r). in_range b x) \<longleftrightarrow> (\<exists>x \<in> set m. in_range b x) \<or> in_range b r"
    using assms(2) by (cases m rule: rev_cases) (auto simp: merge_range_def in_range_def)
qed

lemma merge_all:
  assumes "gapped m" and "\<forall>x \<in> set m. \<forall>r \<in> set rs. fst x \<le> fst r" and "sorted rs"
  shows "gapped (foldl merge_range m rs)
    \<and> ((\<exists>x \<in> set (foldl merge_range m rs). in_range b x) \<longleftrightarrow> (\<exists>x \<in> set m \<union> set rs. in_range b x))"
  using assms
proof (induction rs arbitrary: m)
  case (Cons r rs)
  have le: "fst r \<le> fst r'" if "r' \<in> set rs" for r'
    using Cons.prems(3) that by (auto simp: less_eq_prod_def)
  note step = merge_range_step [OF Cons.prems(1), of r]
  have m: "\<forall>x \<in> set m. fst x \<le> fst r" using Cons.prems(2) by simp
  have "\<forall>x \<in> set (merge_range m r). \<forall>r' \<in> set rs. fst x \<le> fst r'"
    using step(2) [OF m] le order_trans by blast
  from Cons.IH [OF step(1) [OF m] this] Cons.prems(3) step(3) [OF m, of b] show ?case by auto
qed simp

lemma covers_gapped:
  assumes "gapped (dr_ranges d)"
  shows "covers d b \<longleftrightarrow> (\<exists>r \<in> set (dr_ranges d). in_range b r)"
proof -
  define p q where "p = takeWhile (\<lambda>r. fst r \<le> b) (dr_ranges d)" and "q = dropWhile (\<lambda>r. fst r \<le> b) (dr_ranges d)"
  have d: "dr_ranges d = p @ q" by (simp add: p_def q_def)
  have late: "\<not> in_range b r" if r: "r \<in> set q" for r
  proof -
    obtain y ys where q: "q = y # ys" using r by (cases q) auto
    have "\<not> fst y \<le> b" using q hd_dropWhile [of "\<lambda>r. fst r \<le> b" "dr_ranges d"] by (simp add: q_def)
    moreover have "fst y \<le> fst r" using assms r by (auto simp: gapped_def d q sorted_wrt_append)
    ultimately show ?thesis by (simp add: in_range_def)
  qed
  show ?thesis
  proof (cases p rule: rev_cases)
    case Nil
    then have "dr_ranges d = q" using d by simp
    then show ?thesis using late Nil by (simp add: covers_def partition_point_def p_def)
  next
    case (snoc p' r)
    have r: "fst r \<le> b" using snoc set_takeWhileD [of r "\<lambda>r. fst r \<le> b" "dr_ranges d"] by (simp add: p_def)
    have "\<not> in_range b x" if "x \<in> set p'" for x
      using assms that r by (auto simp: gapped_def d snoc sorted_wrt_append in_range_def)
    then have "(\<exists>x \<in> set (dr_ranges d). in_range b x) \<longleftrightarrow> in_range b r" using late by (auto simp: d snoc)
    moreover have "covers d b \<longleftrightarrow> b < snd r"
    proof -
      have "partition_point (\<lambda>r. fst r \<le> b) (dr_ranges d) = Suc (length p')"
        using snoc by (simp add: partition_point_def flip: p_def)
      then show ?thesis by (simp add: covers_def) (simp add: d snoc)
    qed
    ultimately show ?thesis using r by (simp add: in_range_def)
  qed
qed

lemma bisect_iff:
  "sorted xs \<Longrightarrow> hi \<le> length xs \<Longrightarrow> bisect xs x lo hi \<longleftrightarrow> (\<exists>i. lo \<le> i \<and> i < hi \<and> xs ! i = x)"
proof (induction xs x lo hi rule: bisect.induct)
  case (1 xs x lo hi)
  show ?case
  proof (cases "lo < hi")
    case True
    define mid where "mid = (lo + hi) div 2"
    have mid: "lo \<le> mid" "mid < hi" using True by (auto simp: mid_def)
    have below: "xs ! i \<le> xs ! mid" if "i \<le> mid" for i
      using that mid "1.prems" by (simp add: sorted_nth_mono)
    have above: "xs ! mid \<le> xs ! i" if "mid \<le> i" "i < hi" for i
      using that mid "1.prems" by (simp add: sorted_nth_mono)
    consider "xs ! mid = x" | "xs ! mid < x" | "x < xs ! mid" by force
    then show ?thesis
    proof cases
      case 1
      then show ?thesis using True mid by (subst bisect.simps) (auto simp flip: mid_def)
    next
      case 2
      have "bisect xs x lo hi \<longleftrightarrow> bisect xs x (mid + 1) hi"
        using True 2 by (subst bisect.simps) (auto simp: Let_def simp flip: mid_def)
      also have "\<dots> \<longleftrightarrow> (\<exists>i. mid + 1 \<le> i \<and> i < hi \<and> xs ! i = x)"
        using "1.IH"(1) [OF True mid_def] 2 "1.prems" by auto
      also have "\<dots> \<longleftrightarrow> (\<exists>i. lo \<le> i \<and> i < hi \<and> xs ! i = x)"
      proof -
        have "mid + 1 \<le> i" if "xs ! i = x" for i
          using below [of i] 2 that by (metis Suc_eq_plus1 Suc_leI leD leI)
        moreover have "lo \<le> i" if "mid + 1 \<le> i" for i using mid that by simp
        ultimately show ?thesis by blast
      qed
      finally show ?thesis .
    next
      case 3
      have "bisect xs x lo hi \<longleftrightarrow> bisect xs x lo mid"
        using True 3 by (subst bisect.simps) (auto simp: Let_def simp flip: mid_def)
      also have "\<dots> \<longleftrightarrow> (\<exists>i. lo \<le> i \<and> i < mid \<and> xs ! i = x)"
        using "1.IH"(2) [OF True mid_def] 3 mid "1.prems" by auto
      also have "\<dots> \<longleftrightarrow> (\<exists>i. lo \<le> i \<and> i < hi \<and> xs ! i = x)"
      proof -
        have "i < mid" if "i < hi" "xs ! i = x" for i
          using above [of i] 3 that by (meson leD leI)
        moreover have "i < hi" if "i < mid" for i using mid that by simp
        ultimately show ?thesis by blast
      qed
      finally show ?thesis .
    qed
  qed (subst bisect.simps, auto)
qed

section \<open>Trees of well-nested ranges\<close>

text \<open>
  What the parser library guarantees of byte ranges: a node's children lie inside it, one after
  the other.
\<close>

definition node_ok :: "node \<Rightarrow> bool" where
  "node_ok n \<longleftrightarrow> nd_start n \<le> nd_end n
     \<and> list_all (\<lambda>(_, c). nd_start n \<le> nd_start c \<and> nd_end c \<le> nd_end n) (nd_children n)
     \<and> sorted_wrt (\<lambda>a b. nd_end a \<le> nd_start b) (map snd (nd_children n))"

definition well_nested :: "node \<Rightarrow> bool" where
  "well_nested root \<longleftrightarrow> list_all (\<lambda>(n, _). node_ok n) (preorder [] root)"

lemma preorder_start_bounds:
  "list_all (\<lambda>(n, _). node_ok n) (preorder ancestors n) \<Longrightarrow> (m, a) \<in> set (preorder ancestors n) \<Longrightarrow>
   nd_start n \<le> nd_start m \<and> nd_end m \<le> nd_end n \<and> nd_start m \<le> nd_end m"
proof (induction ancestors n arbitrary: m a rule: preorder.induct)
  case (1 ancestors n)
  note pre = preorder.simps [of ancestors n]
  have n: "node_ok n" using "1.prems"(1) by (simp add: pre)
  consider "m = n" | c where "c \<in> set (map snd (nd_children n))" "(m, a) \<in> set (preorder (n # ancestors) c)"
    using "1.prems"(2) by (auto simp: pre)
  then show ?case
  proof cases
    case 2
    have "list_all (\<lambda>(n, _). node_ok n) (preorder (n # ancestors) c)"
      using "1.prems"(1) 2(1) by (auto simp: pre list_all_iff)
    then have "nd_start c \<le> nd_start m \<and> nd_end m \<le> nd_end c \<and> nd_start m \<le> nd_end m"
      using "1.IH" 2 by blast
    moreover have "nd_start n \<le> nd_start c" "nd_end c \<le> nd_end n"
      using n 2(1) by (auto simp: node_ok_def list_all_iff)
    ultimately show ?thesis by simp
  qed (use n in \<open>simp add: node_ok_def\<close>)
qed

lemma preorder_child_visited:
  "(n, a) \<in> set (preorder ancestors root) \<Longrightarrow> c \<in> set (map snd (nd_children n)) \<Longrightarrow>
   (c, n # a) \<in> set (preorder ancestors root)"
proof (induction ancestors root rule: preorder.induct)
  case (1 ancestors root)
  note pre = preorder.simps [of ancestors root]
  have self: "(c, l) \<in> set (preorder l c)" for l c by (subst preorder.simps) simp
  consider "n = root" "a = ancestors"
    | d where "d \<in> set (map snd (nd_children root))" "(n, a) \<in> set (preorder (root # ancestors) d)"
    using "1.prems"(1) by (auto simp: pre)
  then show ?case
  proof cases
    case 1
    then show ?thesis using "1.prems"(2) self by (auto simp: pre)
  next
    case 2
    then have "(c, n # a) \<in> set (preorder (root # ancestors) d)" using "1.IH" "1.prems"(2) by blast
    then show ?thesis using 2(1) by (auto simp: pre)
  qed
qed

lemma preorder_child_ok:
  assumes "(n, a) \<in> set (preorder ancestors root)" and "c \<in> set (map snd (nd_children n))"
    and "list_all (\<lambda>(n, _). node_ok n) (preorder ancestors root)"
  shows "nd_start c \<le> nd_end c"
  using preorder_child_visited [OF assms(1,2)] assms(3) by (auto simp: list_all_iff node_ok_def)

lemma sorted_concat_ranges:
  assumes "\<forall>c \<in> set cs. sorted (f c) \<and> (\<forall>x \<in> set (f c). (nd_start c :: nat) \<le> x \<and> x \<le> nd_end c)"
    and "sorted_wrt (\<lambda>a b. nd_end a \<le> nd_start b) cs"
  shows "sorted (concat (map f cs))"
  using assms
proof (induction cs)
  case (Cons c cs)
  have "x \<le> y" if "x \<in> set (f c)" and y: "c' \<in> set cs" "y \<in> set (f c')" for x y c'
  proof -
    have "x \<le> nd_end c" using Cons.prems that by simp
    also have "\<dots> \<le> nd_start c'" using Cons.prems y by simp
    also have "\<dots> \<le> y" using Cons.prems y by simp
    finally show ?thesis .
  qed
  then show ?case using Cons by (auto simp: sorted_append)
qed simp

lemma preorder_sorted:
  "list_all (\<lambda>(n, _). node_ok n) (preorder ancestors n) \<Longrightarrow> sorted (map (nd_start \<circ> fst) (preorder ancestors n))"
proof (induction ancestors n rule: preorder.induct)
  case (1 ancestors n)
  note pre = preorder.simps [of ancestors n]
  have n: "node_ok n" using "1.prems" by (simp add: pre)
  have kid: "list_all (\<lambda>(n, _). node_ok n) (preorder (n # ancestors) c)" if "c \<in> set (map snd (nd_children n))" for c
    using "1.prems" that by (auto simp: pre list_all_iff)
  have "sorted (concat (map (\<lambda>c. map (nd_start \<circ> fst) (preorder (n # ancestors) c)) (map snd (nd_children n))))"
  proof (rule sorted_concat_ranges)
    show "\<forall>c \<in> set (map snd (nd_children n)). sorted (map (nd_start \<circ> fst) (preorder (n # ancestors) c))
      \<and> (\<forall>x \<in> set (map (nd_start \<circ> fst) (preorder (n # ancestors) c)). nd_start c \<le> x \<and> x \<le> nd_end c)"
      using "1.IH" kid preorder_start_bounds [OF kid] by fastforce
    show "sorted_wrt (\<lambda>a b. nd_end a \<le> nd_start b) (map snd (nd_children n))" using n by (simp add: node_ok_def)
  qed
  moreover have "\<forall>x \<in> set (preorder ancestors n). nd_start n \<le> nd_start (fst x)"
    using preorder_start_bounds [OF "1.prems"] by fastforce
  ultimately show ?case by (simp add: pre map_concat comp_def)
qed

lemma directives_sorted: "well_nested root \<Longrightarrow> sorted (directives_of (preorder [] root))"
  unfolding directives_of_def by (rule sorted_filter) (rule preorder_sorted, simp add: well_nested_def)

section \<open>What a region covers\<close>

lemma dead_scan_C:
  assumes "lang \<in> {Lang_C, Lang_Cpp}"
  shows "dr_ranges (dead_scan root src lang) = foldl merge_range [] (sort (spans_of src (preorder [] root)))"
    and "dr_directives (dead_scan root src lang) = directives_of (preorder [] root)"
  using assms by (auto simp: dead_scan_def dead_walk_preorder merged_def)

lemma covers_spans:
  assumes "lang \<in> {Lang_C, Lang_Cpp}"
  shows "covers (dead_scan root src lang) b \<longleftrightarrow> (\<exists>r \<in> set (spans_of src (preorder [] root)). in_range b r)"
  using merge_all [of "[]" "sort (spans_of src (preorder [] root))" b] dead_scan_C(1) [OF assms]
  by (simp add: covers_gapped gapped_def)

lemma covers_none: "lang \<notin> {Lang_C, Lang_Cpp} \<Longrightarrow> \<not> covers (dead_scan root src lang) b"
  by (simp add: dead_scan_def covers_def partition_point_def)

lemma collect_dead_spans_cases:
  assumes "r \<in> set (collect_dead_spans src n ancestors)"
  shows "terminated_by_endif n ancestors \<and>
    ((nd_kind n \<in> {''preproc_if'', ''preproc_elif''} \<and> literal_condition src n = Some False
        \<and> r = (nd_start n, case child_by_field_name ''alternative'' n of None \<Rightarrow> nd_end n | Some alt \<Rightarrow> nd_start alt))
     \<or> (nd_kind n = ''preproc_if'' \<and> literal_condition src n = Some True
        \<and> (\<exists>alt. child_by_field_name ''alternative'' n = Some alt \<and> r = (nd_start alt, nd_end n))))"
  using assms
  by (auto simp: collect_dead_spans_def dead_parts_def Let_def split: option.splits if_splits bool.splits prod.splits)

lemma node_ok_alternative:
  "node_ok n \<Longrightarrow> child_by_field_name f n = Some c \<Longrightarrow> nd_start n \<le> nd_start c \<and> nd_end c \<le> nd_end n"
  by (auto simp: node_ok_def list_all_iff dest!: child_by_field_name_mem)

text \<open>
  C11. Looking a byte up in the sorted, merged ranges is the same as asking whether some conditional of
  the tree establishes a dead span over it, in C and C++; in every other language nothing is dead.
\<close>

theorem dead_scan_covers:
  "covers (dead_scan root src lang) b \<longleftrightarrow>
     lang \<in> {Lang_C, Lang_Cpp}
     \<and> (\<exists>(n, ancestors) \<in> set (preorder [] root). \<exists>r \<in> set (collect_dead_spans src n ancestors). in_range b r)"
proof -
  have "(\<exists>r \<in> set (spans_of src vs). in_range b r)
      \<longleftrightarrow> (\<exists>(n, ancestors) \<in> set vs. \<exists>r \<in> set (collect_dead_spans src n ancestors). in_range b r)" for vs
    by (induction vs) auto
  then show ?thesis using covers_spans [of lang root src b] covers_none [of lang root src b] by blast
qed

text \<open>
  C31. Only provably dead code is masked: a covered byte lies inside a conditional closed by a real
  \<open>#endif\<close>, and either the literal condition is false and the byte comes before the alternative,
  or it is the alternative of a condition that is literally true.
\<close>

theorem dead_bytes_are_dead:
  assumes "well_nested root" and "covers (dead_scan root src lang) b"
  shows "\<exists>(n, ancestors) \<in> set (preorder [] root).
     nd_start n \<le> b \<and> b < nd_end n \<and> terminated_by_endif n ancestors
     \<and> (nd_kind n \<in> {''preproc_if'', ''preproc_elif''} \<and> literal_condition src n = Some False
          \<and> (\<forall>alt. child_by_field_name ''alternative'' n = Some alt \<longrightarrow> b < nd_start alt)
        \<or> nd_kind n = ''preproc_if'' \<and> literal_condition src n = Some True
          \<and> (\<exists>alt. child_by_field_name ''alternative'' n = Some alt \<and> nd_start alt \<le> b))"
proof -
  have lang: "lang \<in> {Lang_C, Lang_Cpp}" using assms(2) covers_none by blast
  obtain n ancestors r where n: "(n, ancestors) \<in> set (preorder [] root)"
    and r: "r \<in> set (collect_dead_spans src n ancestors)" "in_range b r"
    using assms(2) unfolding covers_spans [OF lang] by (auto simp: spans_of_def)
  have ok: "node_ok n" using assms(1) n by (auto simp: well_nested_def list_all_iff)
  note alt = node_ok_alternative [OF ok, of "''alternative''"]
  have le: "nd_start alt \<le> nd_end alt" if "child_by_field_name ''alternative'' n = Some alt" for alt
  proof -
    have "alt \<in> set (map snd (nd_children n))" using child_by_field_name_mem [OF that] by force
    moreover have "list_all (\<lambda>(n, _). node_ok n) (preorder [] root)" using assms(1) by (simp add: well_nested_def)
    ultimately show ?thesis using n preorder_child_ok by blast
  qed
  show ?thesis
    using n collect_dead_spans_cases [OF r(1)] r(2) alt le
    by (intro bexI [OF _ n]) (fastforce simp: in_range_def split: option.splits)
qed

text \<open>
  A byte has a directive token exactly when some directive token of the tree starts there: the tokens are
  collected in source order, which the binary search relies on.
\<close>

theorem dead_scan_directives:
  assumes "well_nested root" and "lang \<in> {Lang_C, Lang_Cpp}"
  shows "has_directive_at (dead_scan root src lang) b \<longleftrightarrow>
     (\<exists>(n, _) \<in> set (preorder [] root). directive_token n \<and> nd_start n = b)"
proof -
  let ?ds = "directives_of (preorder [] root)"
  have "has_directive_at (dead_scan root src lang) b \<longleftrightarrow> b \<in> set ?ds"
    using bisect_iff [OF directives_sorted [OF assms(1)] order_refl, of b 0]
    by (auto simp: has_directive_at_def dead_scan_C(2) [OF assms(2)] in_set_conv_nth)
  then show ?thesis by (force simp: directives_of_def)
qed

text \<open>A group \<open>#if 0 ... #else ... #endif\<close>, as the parser reports it.\<close>

definition sample_tree :: node where
  "sample_tree =
     Node ''translation_unit'' True False 0 27
       [(None, Node ''preproc_if'' True False 0 27
          [(None, Node ''#if'' False False 0 3 []),
           (Some ''condition'', Node ''number_literal'' True False 4 5 []),
           (None, Node ''call_expression'' True False 6 9 []),
           (Some ''alternative'', Node ''preproc_else'' True False 10 19
              [(None, Node ''#else'' False False 10 15 []), (None, Node ''call_expression'' True False 16 19 [])]),
           (None, Node ''#endif'' False False 20 26 [])])]"

definition sample_source :: bytes where
  "sample_source = ''#if 0 a() #else b() #endif ''"

lemma sample_well_nested: "well_nested sample_tree"
  by code_simp

theorem dead_bytes_are_dead_witness:
  "covers (dead_scan sample_tree sample_source Lang_C) 7 \<and> \<not> covers (dead_scan sample_tree sample_source Lang_C) 16
   \<and> (\<exists>(n, ancestors) \<in> set (preorder [] sample_tree). nd_start n \<le> 7 \<and> terminated_by_endif n ancestors)"
proof -
  have c: "covers (dead_scan sample_tree sample_source Lang_C) 7" by code_simp
  have "\<not> covers (dead_scan sample_tree sample_source Lang_C) 16" by code_simp
  with c dead_bytes_are_dead [OF sample_well_nested c] show ?thesis by blast
qed

theorem dead_scan_directives_witness:
  "has_directive_at (dead_scan sample_tree sample_source Lang_C) 10
   \<and> (\<exists>(n, _) \<in> set (preorder [] sample_tree). directive_token n \<and> nd_start n = 10)"
proof -
  have "has_directive_at (dead_scan sample_tree sample_source Lang_C) 10" by code_simp
  with dead_scan_directives [OF sample_well_nested, of Lang_C sample_source 10] show ?thesis by simp
qed

end
