(* ===== verification/Preproc_Arms.thy ===== *)
theory Preproc_Arms
  imports Export_Macro Dead_Regions Work
begin

text \<open>
  The pre-pass that reduces split conditional groups, \<open>crates/parser/src/preproc_arms.rs\<close>: when the arms of an
  \<open>#if\<close> each hold part of one statement, the copy handed to the parser keeps one arm and blanks what
  ties the others to the code around them. The scanner keeps stacks of open braces, parentheses,
  sinks and groups; \<open>braces\<close> and \<open>parens\<close> are in source order (the innermost last), \<open>sinks\<close> and
  \<open>groups\<close> have the innermost first. An \<open>expect\<close> on a missing entry is \<open>None\<close>. Brace depths are
  \<open>i32\<close> in the source; a file is far too small for them to overflow, and they are integers here.
\<close>

section \<open>Directives\<close>

datatype directive_kind = If "bool option" | Else "bool option" | Endif

definition trim_start :: "bytes \<Rightarrow> bytes" where
  "trim_start txt = dropWhile is_whitespace txt"

definition trim :: "bytes \<Rightarrow> bytes" where
  "trim txt = rev (dropWhile is_whitespace (rev (trim_start txt)))"

abbreviation word_byte :: "char \<Rightarrow> bool" where
  "word_byte b \<equiv> is_alphanumeric b \<or> b = CHR ''_''"

definition keyword :: "bytes \<Rightarrow> bytes" where
  "keyword txt =
     (case strip_prefix ''#'' txt of
        None \<Rightarrow> []
      | Some rest \<Rightarrow> takeWhile word_byte (trim_start rest))"

lemma length_trim: "length (trim txt) \<le> length txt"
proof -
  have "length (trim txt) \<le> length (rev (trim_start txt))"
    unfolding trim_def length_rev [of "dropWhile _ _"] by (rule length_dropWhile_le)
  also have "\<dots> \<le> length txt" by (simp add: trim_start_def length_dropWhile_le)
  finally show ?thesis .
qed

function strip_parens :: "bytes \<Rightarrow> bytes" where
  "strip_parens txt =
     (case strip_prefix ''('' txt of
        None \<Rightarrow> txt
      | Some t \<Rightarrow> (case strip_suffix '')'' t of None \<Rightarrow> txt | Some inner \<Rightarrow> strip_parens (trim inner)))"
  by pat_completeness auto

termination
proof (relation "measure length")
  fix "txt" t inner assume "strip_prefix ''('' txt = Some t" "strip_suffix '')'' t = Some inner"
  then have "length inner < length txt"
    by (auto simp: strip_prefix_Some_iff strip_suffix_def split: if_splits)
  then show "(trim inner, txt) \<in> measure length" using length_trim [of inner] by simp
qed simp

declare strip_parens.simps [simp del]

text \<open>The first comment in a condition.\<close>

fun comment_at :: "bytes \<Rightarrow> nat option" where
  "comment_at (a # b # xs) =
     (if [a, b] = ''/*'' \<or> [a, b] = ''//'' then Some 0 else map_option Suc (comment_at (b # xs)))"
| "comment_at _ = None"

definition literal :: "bytes \<Rightarrow> bool option" where
  "literal condition =
     (let e = (case comment_at condition of Some n \<Rightarrow> n | None \<Rightarrow> length condition);
          txt = strip_parens (trim (take e condition))
      in if txt = ''0'' then Some False else if txt = ''1'' then Some True else None)"

definition directive :: "bytes \<Rightarrow> directive_kind option" where
  "directive txt =
     (case strip_prefix ''#'' txt of
        None \<Rightarrow> None
      | Some rest \<Rightarrow>
          let rest = trim_start rest;
              kw = takeWhile word_byte rest;
              condition = dropWhile word_byte rest
          in if kw = ''if'' then Some (If (literal condition))
             else if kw \<in> {''ifdef'', ''ifndef''} then Some (If None)
             else if kw = ''elif'' then Some (Else (literal condition))
             else if kw \<in> {''elifdef'', ''elifndef'', ''else''} then Some (Else None)
             else if kw = ''endif'' then Some Endif
             else None)"

section \<open>Scanner state\<close>

record depth =
  dp_net :: int
  dp_low :: int

definition depth_zero :: depth where "depth_zero = \<lparr>dp_net = 0, dp_low = 0\<rparr>"

definition depth_step :: "depth \<Rightarrow> int \<Rightarrow> depth" where
  "depth_step d delta =
     (let net = dp_net d + delta in \<lparr>dp_net = net, dp_low = min (dp_low d) net\<rparr>)"

definition depth_then :: "depth \<Rightarrow> depth \<Rightarrow> depth" where
  "depth_then d next = \<lparr>dp_net = dp_net d + dp_net next, dp_low = min (dp_low d) (dp_net d + dp_low next)\<rparr>"

definition balanced :: "depth \<Rightarrow> bool" where
  "balanced d \<longleftrightarrow> dp_net d = 0 \<and> dp_low d = 0"

datatype first = First_Unseen | First_Else | First_Other

datatype brace_kind = Brace_Function | Brace_Block | Brace_Other

record open_brace =
  ob_at :: nat
  ob_kind :: brace_kind
  ob_blocks :: int

datatype prev = Boundary | BodyHead | Prev_Other

datatype position = Pos_Start | Pos_AfterCloser | Pos_Inside

record closer =
  cl_at :: nat
  cl_else_after :: "(nat \<times> nat) option"

record sink =
  sk_brace_base :: nat
  sk_paren_base :: nat
  sk_closers :: "closer list"
  sk_paren_closed :: bool
  sk_leading_else :: "(nat \<times> nat) option"
  sk_position :: position
  sk_prev :: prev
  sk_opaque :: bool

definition sink_new :: "nat \<Rightarrow> nat \<Rightarrow> prev \<Rightarrow> sink" where
  "sink_new brace_base paren_base p =
     \<lparr>sk_brace_base = brace_base, sk_paren_base = paren_base, sk_closers = [], sk_paren_closed = False,
      sk_leading_else = None, sk_position = Pos_Start, sk_prev = p, sk_opaque = False\<rparr>"

record arm =
  am_directive :: "nat \<times> nat"
  am_literal :: "bool option"
  am_braces :: depth
  am_parens :: depth
  am_first :: first
  am_sandboxed :: bool

definition arm_new :: "nat \<times> nat \<Rightarrow> bool option \<Rightarrow> bool \<Rightarrow> arm" where
  "arm_new d lit sandboxed =
     \<lparr>am_directive = d, am_literal = lit, am_braces = depth_zero, am_parens = depth_zero,
      am_first = First_Unseen, am_sandboxed = sandboxed\<rparr>"

definition whole :: "arm \<Rightarrow> bool" where
  "whole a \<longleftrightarrow> balanced (am_braces a) \<and> balanced (am_parens a) \<and> am_first a \<noteq> First_Else"

record group =
  gr_arms :: "arm list"
  gr_kept :: "nat option"
  gr_taken :: bool
  gr_in_body :: bool
  gr_blocks :: int
  gr_prev_at_open :: prev
  gr_pending :: "(nat \<times> nat) list"

record scan =
  sc_braces :: "open_brace list"
  sc_parens :: "nat list"
  sc_sinks :: "sink list"
  sc_groups :: "group list"
  sc_blanks :: "(nat \<times> nat) list"

definition scan_default :: scan where
  "scan_default = \<lparr>sc_braces = [], sc_parens = [], sc_sinks = [], sc_groups = [], sc_blanks = []\<rparr>"

section \<open>Tokens\<close>

text \<open>\<open>Scan::sink\<close>: the innermost sink, after pushing the root sink when there is none.\<close>

definition with_root :: "scan \<Rightarrow> scan" where
  "with_root s = (if sc_sinks s = [] then s\<lparr>sc_sinks := [sink_new 0 0 Boundary]\<rparr> else s)"

definition top_sink :: "scan \<Rightarrow> sink" where
  "top_sink s = hd (sc_sinks (with_root s))"

definition upd_sink :: "(sink \<Rightarrow> sink) \<Rightarrow> scan \<Rightarrow> scan" where
  "upd_sink f s =
     (let s' = with_root s in s'\<lparr>sc_sinks := f (hd (sc_sinks s')) # tl (sc_sinks s')\<rparr>)"

definition upd_last :: "('a \<Rightarrow> 'a) \<Rightarrow> 'a list \<Rightarrow> 'a list" where
  "upd_last f xs = (if xs = [] then [] else butlast xs @ [f (last xs)])"

text \<open>The current arm, \<open>groups.last_mut().and_then(|g| g.arms.last_mut())\<close>.\<close>

definition upd_arm :: "(arm \<Rightarrow> arm) \<Rightarrow> scan \<Rightarrow> scan" where
  "upd_arm f s =
     (case sc_groups s of
        [] \<Rightarrow> s
      | g # gs \<Rightarrow> s\<lparr>sc_groups := g\<lparr>gr_arms := upd_last f (gr_arms g)\<rparr> # gs\<rparr>)"

definition arm_token :: "kind \<Rightarrow> bytes \<Rightarrow> arm \<Rightarrow> arm" where
  "arm_token k txt a =
     (let a = (if am_first a = First_Unseen
               then a\<lparr>am_first := if txt = ''else'' then First_Else else First_Other\<rparr> else a)
      in if k = Punct (CHR ''{'') then a\<lparr>am_braces := depth_step (am_braces a) 1\<rparr>
         else if k = Punct (CHR ''}'') then a\<lparr>am_braces := depth_step (am_braces a) (-1)\<rparr>
         else if k = Punct (CHR ''('') then a\<lparr>am_parens := depth_step (am_parens a) 1\<rparr>
         else if k = Punct (CHR '')'') then a\<lparr>am_parens := depth_step (am_parens a) (-1)\<rparr>
         else a)"

definition BODY_HEADS :: "bytes list" where
  "BODY_HEADS = [''else'', ''do'', ''try'', ''const'', ''override'', ''final'', ''noexcept'', ''mutable'']"

definition ident_sink :: "nat \<Rightarrow> nat \<Rightarrow> bytes \<Rightarrow> sink \<Rightarrow> sink" where
  "ident_sink start e txt k =
     (let k = (if txt = ''else''
               then (case sk_position k of
                       Pos_Start \<Rightarrow> k\<lparr>sk_leading_else := Some (start, e)\<rparr>
                     | Pos_AfterCloser \<Rightarrow>
                         k\<lparr>sk_closers := upd_last (\<lambda>c. c\<lparr>cl_else_after := Some (start, e)\<rparr>) (sk_closers k)\<rparr>
                     | Pos_Inside \<Rightarrow> k)
               else k)
      in k\<lparr>sk_position := Pos_Inside, sk_prev := if txt \<in> set BODY_HEADS then BodyHead else Prev_Other\<rparr>)"

definition open_kind :: "prev \<Rightarrow> open_brace option \<Rightarrow> brace_kind" where
  "open_kind p outer =
     (let in_body = (case outer of Some ob \<Rightarrow> ob_kind ob \<noteq> Brace_Other | None \<Rightarrow> False)
      in case p of
           BodyHead \<Rightarrow> if in_body then Brace_Block else Brace_Function
         | Boundary \<Rightarrow> if in_body then Brace_Block else Brace_Other
         | Prev_Other \<Rightarrow> Brace_Other)"

definition last_opt :: "'a list \<Rightarrow> 'a option" where
  "last_opt xs = (if xs = [] then None else Some (last xs))"

definition open_brace_token :: "nat \<Rightarrow> scan \<Rightarrow> scan" where
  "open_brace_token start s =
     (let p = sk_prev (top_sink s);
          s = with_root s;
          outer = last_opt (sc_braces s);
          k = open_kind p outer;
          blocks = (if k = Brace_Block
                    then (case outer of
                            Some ob \<Rightarrow> if ob_kind ob = Brace_Block then ob_blocks ob + 1 else 1
                          | None \<Rightarrow> 1)
                    else 0)
      in upd_sink (\<lambda>k. k\<lparr>sk_position := Pos_Inside, sk_prev := Boundary\<rparr>)
           (s\<lparr>sc_braces := sc_braces s @ [\<lparr>ob_at = start, ob_kind = k, ob_blocks = blocks\<rparr>]\<rparr>))"

definition close_brace_token :: "nat \<Rightarrow> scan \<Rightarrow> scan" where
  "close_brace_token start s =
     (let base = sk_brace_base (top_sink s);
          s = with_root s
      in upd_sink (\<lambda>k. k\<lparr>sk_prev := Boundary\<rparr>)
           (if length (sc_braces s) > base
            then upd_sink (\<lambda>k. k\<lparr>sk_position := Pos_Inside\<rparr>) (s\<lparr>sc_braces := butlast (sc_braces s)\<rparr>)
            else upd_sink (\<lambda>k. k\<lparr>sk_closers := sk_closers k @ [\<lparr>cl_at = start, cl_else_after = None\<rparr>],
                               sk_position := Pos_AfterCloser\<rparr>) s))"

definition open_paren_token :: "nat \<Rightarrow> scan \<Rightarrow> scan" where
  "open_paren_token start s =
     upd_sink (\<lambda>k. k\<lparr>sk_position := Pos_Inside, sk_prev := Prev_Other\<rparr>)
       (s\<lparr>sc_parens := sc_parens s @ [start]\<rparr>)"

definition close_paren_token :: "scan \<Rightarrow> scan" where
  "close_paren_token s =
     (let base = sk_paren_base (top_sink s);
          s = with_root s
      in upd_sink (\<lambda>k. k\<lparr>sk_position := Pos_Inside, sk_prev := BodyHead\<rparr>)
           (if length (sc_parens s) > base then s\<lparr>sc_parens := butlast (sc_parens s)\<rparr>
            else upd_sink (\<lambda>k. k\<lparr>sk_paren_closed := True\<rparr>) s))"

definition scan_token :: "kind \<Rightarrow> nat \<Rightarrow> nat \<Rightarrow> bytes \<Rightarrow> scan \<Rightarrow> scan" where
  "scan_token k start e txt s0 =
     (let s = upd_arm (arm_token k txt) s0 in
      case k of
        Ident \<Rightarrow> upd_sink (ident_sink start e txt) s
      | Punct c \<Rightarrow>
          if c = CHR ''{'' then open_brace_token start s
          else if c = CHR ''}'' then close_brace_token start s
          else if c = CHR ''('' then open_paren_token start s
          else if c = CHR '')'' then close_paren_token s
          else upd_sink (\<lambda>k. k\<lparr>sk_position := Pos_Inside,
                 sk_prev := if c \<in> {CHR '';'', CHR '':''} then Boundary
                            else if c = CHR '']'' then BodyHead else Prev_Other\<rparr>) s
      | _ \<Rightarrow> upd_sink (\<lambda>k. k\<lparr>sk_position := Pos_Inside, sk_prev := Prev_Other\<rparr>) s)"

section \<open>Groups\<close>

definition start_arm :: "nat \<times> nat \<Rightarrow> bool option \<Rightarrow> scan \<Rightarrow> scan option" where
  "start_arm d lit s =
     (case sc_groups s of
        [] \<Rightarrow> None
      | g # gs \<Rightarrow>
          let kept = (gr_kept g = None \<and> \<not> gr_taken g \<and> lit \<noteq> Some False);
              g' = (if kept then g\<lparr>gr_kept := Some (length (gr_arms g)), gr_taken := (lit = Some True)\<rparr> else g);
              s' = s\<lparr>sc_groups := g'\<lparr>gr_arms := gr_arms g' @ [arm_new d lit (\<not> kept)]\<rparr> # gs\<rparr>
          in Some (if kept then s'
                   else s'\<lparr>sc_sinks :=
                     sink_new (length (sc_braces s)) (length (sc_parens s)) (gr_prev_at_open g) # sc_sinks s\<rparr>))"

definition closer_blanks :: "closer \<Rightarrow> (nat \<times> nat) list" where
  "closer_blanks c = (cl_at c, cl_at c + 1) # (case cl_else_after c of None \<Rightarrow> [] | Some r \<Rightarrow> [r])"

text \<open>What has to be blanked in a sandboxed arm that stays in place.\<close>

definition arm_blanks :: "sink \<Rightarrow> open_brace list \<Rightarrow> (nat \<times> nat) list" where
  "arm_blanks k opened =
     (case sk_leading_else k of None \<Rightarrow> [] | Some r \<Rightarrow> [r])
     @ concat (map closer_blanks (sk_closers k)) @ map (\<lambda>ob. (ob_at ob, ob_at ob + 1)) opened"

definition end_arm :: "nat \<Rightarrow> scan \<Rightarrow> scan option" where
  "end_arm e s =
     (case sc_groups s of
        [] \<Rightarrow> None
      | g # gs \<Rightarrow>
          (case last_opt (gr_arms g) of
             None \<Rightarrow> None
           | Some a \<Rightarrow>
               if \<not> am_sandboxed a then Some s
               else (case sc_sinks s of
                       [] \<Rightarrow> None
                     | k # ks \<Rightarrow>
                         let dead = (am_literal a = Some False \<or> (gr_kept g \<noteq> None \<and> gr_taken g));
                             expression = (sk_paren_closed k \<or> length (sc_parens s) > sk_paren_base k);
                             pending = (if dead \<or> sk_opaque k \<or> expression
                                        then [(snd (am_directive a), e)]
                                        else arm_blanks k (drop (sk_brace_base k) (sc_braces s)))
                         in if sk_brace_base k \<le> length (sc_braces s)
                            then Some (s\<lparr>sc_sinks := ks,
                                    sc_groups := g\<lparr>gr_pending := gr_pending g @ pending\<rparr> # gs,
                                    sc_braces := take (sk_brace_base k) (sc_braces s),
                                    sc_parens := take (sk_paren_base k) (sc_parens s)\<rparr>)
                            else None)))"

definition split_group :: "group \<Rightarrow> bool" where
  "split_group g \<longleftrightarrow>
     (let fst_arm = hd (gr_arms g) in
      \<not> list_all whole (gr_arms g) \<and> gr_in_body g
      \<and> list_all (\<lambda>a. dp_low (am_braces a) \<ge> - gr_blocks g) (gr_arms g)
      \<and> (if length (gr_arms g) = 1
         then dp_net (am_braces fst_arm) = 0 \<and> dp_net (am_parens fst_arm) = 0
         else list_all (\<lambda>a. dp_net (am_braces a) = dp_net (am_braces fst_arm)
                          \<and> dp_net (am_parens a) = dp_net (am_parens fst_arm)) (gr_arms g)))"

definition join_arm :: "arm \<Rightarrow> arm \<Rightarrow> arm" where
  "join_arm kept parent =
     parent\<lparr>am_first := if am_first parent = First_Unseen then am_first kept else am_first parent,
            am_braces := depth_then (am_braces parent) (am_braces kept),
            am_parens := depth_then (am_parens parent) (am_parens kept)\<rparr>"

definition resolve :: "nat \<times> nat \<Rightarrow> scan \<Rightarrow> scan option" where
  "resolve endif s =
     (case sc_groups s of
        [] \<Rightarrow> None
      | g # gs \<Rightarrow>
          let s = s\<lparr>sc_groups := gs\<rparr> in
          (case gr_kept g of
             None \<Rightarrow> Some s
           | Some kept \<Rightarrow>
               if kept < length (gr_arms g)
               then let s = (if split_group g
                             then s\<lparr>sc_blanks := sc_blanks s @ gr_pending g @ map am_directive (gr_arms g) @ [endif]\<rparr>
                             else if \<not> list_all whole (gr_arms g) then upd_sink (\<lambda>k. k\<lparr>sk_opaque := True\<rparr>) s
                             else s)
                    in Some (upd_arm (join_arm (gr_arms g ! kept)) s)
               else None))"

definition scan_directive :: "nat \<Rightarrow> nat \<Rightarrow> bytes \<Rightarrow> scan \<Rightarrow> scan option" where
  "scan_directive start e txt s =
     (case directive txt of
        None \<Rightarrow> Some s
      | Some (If lit) \<Rightarrow>
          let prev_at_open = sk_prev (top_sink s);
              s = with_root s;
              outer = last_opt (sc_braces s);
              g = \<lparr>gr_arms = [], gr_kept = None, gr_taken = False,
                   gr_in_body = (case outer of Some ob \<Rightarrow> ob_kind ob \<noteq> Brace_Other | None \<Rightarrow> False),
                   gr_blocks = (case outer of Some ob \<Rightarrow> ob_blocks ob | None \<Rightarrow> 0),
                   gr_prev_at_open = prev_at_open, gr_pending = []\<rparr>
          in start_arm (start, e) lit (s\<lparr>sc_groups := g # sc_groups s\<rparr>)
      | Some (Else lit) \<Rightarrow>
          if sc_groups s = [] then Some s else do { s \<leftarrow> end_arm start s; start_arm (start, e) lit s }
      | Some Endif \<Rightarrow>
          if sc_groups s = [] then Some s else do { s \<leftarrow> end_arm start s; resolve (start, e) s })"

section \<open>The pass\<close>

definition CHECK_EVERY :: nat where "CHECK_EVERY = 4096"

text \<open>
  The loop over the tokens. \<open>chk n\<close> is what the \<open>n\<close>-th check of the work control reports: a reason to stop, or nothing.
\<close>

fun scan_all ::
  "checks \<Rightarrow> nat \<Rightarrow> nat \<Rightarrow> bytes \<Rightarrow> scan \<Rightarrow> token list \<Rightarrow> (stop_reason + scan) option" where
  "scan_all chk n since src s [] = Some (Inr s)"
| "scan_all chk n since src s (t # ts) =
     (if tk_kind t = Directive
      then (case chk n of
              Some r \<Rightarrow> Some (Inl r)
            | None \<Rightarrow> do {
                s \<leftarrow> scan_directive (tk_start t) (tk_end t) (token_text t src) s;
                scan_all chk (n + 1) since src s ts })
      else if since + 1 = CHECK_EVERY
      then (case chk n of
              Some r \<Rightarrow> Some (Inl r)
            | None \<Rightarrow> scan_all chk (n + 1) 0 src
                (scan_token (tk_kind t) (tk_start t) (tk_end t) (token_text t src) s) ts)
      else scan_all chk n (since + 1) src
             (scan_token (tk_kind t) (tk_start t) (tk_end t) (token_text t src) s) ts)"

fun has_conditional_from :: "bool \<Rightarrow> bytes \<Rightarrow> bool" where
  "has_conditional_from line_start [] = False"
| "has_conditional_from line_start (b # rest) =
     (if b = NL then has_conditional_from True rest
      else if line_start \<and> b = CHR ''#''
      then starts_with ''if'' (dropWhile (\<lambda>c. c = CHR '' '' \<or> c = TAB) rest) \<or> has_conditional_from False rest
      else if b \<notin> {CHR '' '', TAB, CR} then has_conditional_from False rest
      else has_conditional_from line_start rest)"

definition has_conditional_directive :: "bytes \<Rightarrow> bool" where
  "has_conditional_directive src = has_conditional_from True src"

fun blank_ranges :: "(nat \<times> nat) list \<Rightarrow> bytes \<Rightarrow> bytes option" where
  "blank_ranges [] out = Some out"
| "blank_ranges ((s, e) # rs) out =
     (if s \<le> e \<and> e \<le> length out then blank_ranges rs (put out s (blank (cut out s e))) else None)"

definition select_split_arms :: "checks \<Rightarrow> bytes \<Rightarrow> (stop_reason + bytes option) option" where
  "select_split_arms chk src =
     (if \<not> has_conditional_directive src then Some (Inr None)
      else do {
        res \<leftarrow> scan_all chk 0 0 src scan_default (tokenize src);
        (case res of
           Inl r \<Rightarrow> Some (Inl r)
         | Inr s \<Rightarrow>
             if sc_blanks s = [] then Some (Inr None)
             else map_option (\<lambda>out. Inr (Some out)) (blank_ranges (sc_blanks s) src)) })"

section \<open>Conditions the pass blanked\<close>

definition memchr_newline :: "bytes \<Rightarrow> nat \<Rightarrow> nat" where
  "memchr_newline src from =
     (case position_of (\<lambda>b. b = NL) (drop (min from (length src)) src) of
        None \<Rightarrow> length src
      | Some p \<Rightarrow> from + p)"

definition continues_line :: "bytes \<Rightarrow> nat \<Rightarrow> bool" where
  "continues_line src nl =
     (let e = (if nl > 0 \<and> src ! (nl - 1) = CR then nl - 1 else nl)
      in e > 0 \<and> src ! (e - 1) = BACKSLASH)"

lemma memchr_newline_bounds:
  "from \<le> length src \<Longrightarrow> from \<le> memchr_newline src from \<and> memchr_newline src from \<le> length src"
  by (auto simp: memchr_newline_def dest!: position_of_bound split: option.splits)

text \<open>The end of the line that starts before \<open>e\<close>, its continuations included.\<close>

function logical_line_end :: "bytes \<Rightarrow> nat \<Rightarrow> nat" where
  "logical_line_end src e =
     (if e < length src \<and> continues_line src e
      then logical_line_end src (memchr_newline src (e + 1)) else e)"
  by pat_completeness auto

termination
proof (relation "measure (\<lambda>(src, e). length src - e)")
  fix src e assume "e < length src \<and> continues_line src e"
  then have "e + 1 \<le> memchr_newline src (e + 1)" using memchr_newline_bounds [of "e + 1" src] by simp
  then show "((src, memchr_newline src (e + 1)), (src, e)) \<in> measure (\<lambda>(src, e). length src - e)"
    using \<open>e < length src \<and> continues_line src e\<close> by auto
qed simp

declare logical_line_end.simps [simp del]

lemma logical_line_end_le: "e \<le> logical_line_end src e"
proof (induction src e rule: logical_line_end.induct)
  case (1 src e)
  show ?case
  proof (cases "e < length src \<and> continues_line src e")
    case True
    have "e \<le> memchr_newline src (e + 1)" using memchr_newline_bounds [of "e + 1" src] True by simp
    then show ?thesis using "1.IH" [OF True] True by (subst logical_line_end.simps) simp
  qed (subst logical_line_end.simps, auto)
qed

function condition_line_from :: "bytes \<Rightarrow> dead_regions \<Rightarrow> nat \<Rightarrow> bool" where
  "condition_line_from src dead i =
     (if i < length src
      then let line_end = logical_line_end src (memchr_newline src i);
               hash = i + length (takeWhile (\<lambda>b. b = CHR '' '' \<or> b = TAB) (cut src i line_end));
               line = cut src hash line_end
           in (get src hash = Some (CHR ''#'') \<and> keyword line \<in> {''if'', ''elif''}
               \<and> CHR ''('' \<in> set line \<and> \<not> has_directive_at dead hash)
              \<or> condition_line_from src dead (line_end + 1)
      else False)"
  by pat_completeness auto

termination
proof (relation "measure (\<lambda>(src, dead, i). length src - i)")
  fix src :: bytes and dead :: dead_regions and i line_end hash line
  assume "i < length src" and "line_end = logical_line_end src (memchr_newline src i)"
  then have "i \<le> line_end"
    using memchr_newline_bounds [of i src] logical_line_end_le [of "memchr_newline src i" src] by simp
  then show "((src, dead, line_end + 1), (src, dead, i)) \<in> measure (\<lambda>(src, dead, i). length src - i)"
    using \<open>i < length src\<close> by simp
qed simp

declare condition_line_from.simps [simp del]

definition has_blanked_call_condition_line :: "bytes \<Rightarrow> dead_regions \<Rightarrow> bool" where
  "has_blanked_call_condition_line src dead = condition_line_from src dead 0"

definition blanked_directives :: "bytes \<Rightarrow> dead_regions \<Rightarrow> token list" where
  "blanked_directives src dead =
     filter (\<lambda>t. tk_kind t = Directive \<and> \<not> has_directive_at dead (tk_start t)
                \<and> directive (token_text t src) \<noteq> None) (tokenize src)"

definition blanked_conditions :: "bytes \<Rightarrow> dead_regions \<Rightarrow> bytes option" where
  "blanked_conditions src dead =
     (if \<not> has_blanked_call_condition_line src dead then None
      else let spans = blanked_directives src dead;
               calls = list_ex (\<lambda>t. keyword (token_text t src) \<in> {''if'', ''elif''}
                                   \<and> CHR ''('' \<in> set (token_text t src)) spans
           in if \<not> calls then None
              else Some (foldl (\<lambda>out t. put out (tk_start t) (token_text t src)) (blank src) spans))"

section \<open>The invariant of the scan\<close>

text \<open>
  Everything the scanner has recorded lies before \<open>p\<close>, the end of the last token; the bases of the
  sinks decrease outwards from the stack heights; every group has an arm, and its kept arm is one of them;
  below the root sink there is one sink per group whose current arm is sandboxed.
\<close>

definition range_ok :: "nat \<Rightarrow> nat \<times> nat \<Rightarrow> bool" where
  "range_ok p r \<longleftrightarrow> fst r \<le> snd r \<and> snd r \<le> p"

definition closer_ok :: "nat \<Rightarrow> closer \<Rightarrow> bool" where
  "closer_ok p c \<longleftrightarrow> cl_at c < p \<and> pred_option (range_ok p) (cl_else_after c)"

definition sink_ok :: "nat \<Rightarrow> sink \<Rightarrow> bool" where
  "sink_ok p k \<longleftrightarrow> list_all (closer_ok p) (sk_closers k) \<and> pred_option (range_ok p) (sk_leading_else k)"

fun bases_ok :: "nat \<Rightarrow> nat \<Rightarrow> sink list \<Rightarrow> bool" where
  "bases_ok nb np [] \<longleftrightarrow> True"
| "bases_ok nb np (k # ks) \<longleftrightarrow>
     sk_brace_base k \<le> nb \<and> sk_paren_base k \<le> np \<and> bases_ok (sk_brace_base k) (sk_paren_base k) ks"

definition group_ok :: "nat \<Rightarrow> group \<Rightarrow> bool" where
  "group_ok p g \<longleftrightarrow> gr_arms g \<noteq> [] \<and> list_all (\<lambda>a. range_ok p (am_directive a)) (gr_arms g)
     \<and> list_all (range_ok p) (gr_pending g) \<and> pred_option (\<lambda>k. k < length (gr_arms g)) (gr_kept g)"

definition sandboxes :: "group list \<Rightarrow> nat" where
  "sandboxes gs = length (filter (\<lambda>g. am_sandboxed (last (gr_arms g))) gs)"

definition scan_ok :: "nat \<Rightarrow> scan \<Rightarrow> bool" where
  "scan_ok p s \<longleftrightarrow> list_all (\<lambda>ob. ob_at ob < p) (sc_braces s)
     \<and> bases_ok (length (sc_braces s)) (length (sc_parens s)) (sc_sinks s)
     \<and> list_all (sink_ok p) (sc_sinks s) \<and> list_all (group_ok p) (sc_groups s)
     \<and> (if sc_sinks s = [] then sc_groups s = [] else length (sc_sinks s) = Suc (sandboxes (sc_groups s)))
     \<and> list_all (range_ok p) (sc_blanks s)"

lemma range_ok_mono: "range_ok p r \<Longrightarrow> p \<le> q \<Longrightarrow> range_ok q r"
  by (simp add: range_ok_def)

lemma closer_ok_mono: "closer_ok p c \<Longrightarrow> p \<le> q \<Longrightarrow> closer_ok q c"
  by (auto simp: closer_ok_def range_ok_def option.pred_set)

lemma sink_ok_mono: "sink_ok p k \<Longrightarrow> p \<le> q \<Longrightarrow> sink_ok q k"
  by (auto simp: sink_ok_def list_all_iff option.pred_set intro: closer_ok_mono range_ok_mono)

lemma group_ok_mono: "group_ok p g \<Longrightarrow> p \<le> q \<Longrightarrow> group_ok q g"
  by (auto simp: group_ok_def list_all_iff intro: range_ok_mono)

lemma scan_ok_mono: "scan_ok p s \<Longrightarrow> p \<le> q \<Longrightarrow> scan_ok q s"
  by (auto simp: scan_ok_def list_all_iff intro: range_ok_mono sink_ok_mono group_ok_mono)

lemma bases_ok_mono: "bases_ok nb np ks \<Longrightarrow> nb \<le> nb' \<Longrightarrow> np \<le> np' \<Longrightarrow> bases_ok nb' np' ks"
  by (cases ks) auto

lemma scan_ok_default: "scan_ok p scan_default"
  by (simp add: scan_ok_def scan_default_def)

lemma scan_ok_with_root: "scan_ok p s \<Longrightarrow> scan_ok p (with_root s) \<and> sc_sinks (with_root s) \<noteq> []"
  by (auto simp: scan_ok_def with_root_def sink_new_def sink_ok_def sandboxes_def)

lemma with_root_same [simp]:
  "sc_braces (with_root s) = sc_braces s" "sc_parens (with_root s) = sc_parens s"
  "sc_groups (with_root s) = sc_groups s" "sc_blanks (with_root s) = sc_blanks s"
  "with_root (with_root s) = with_root s" "top_sink (with_root s) = top_sink s"
  by (simp_all add: with_root_def top_sink_def)

lemma scan_ok_upd_sink:
  assumes "scan_ok p s" and "\<And>k. sink_ok p k \<Longrightarrow> sink_ok p (f k)"
    and "\<And>k. sk_brace_base (f k) = sk_brace_base k \<and> sk_paren_base (f k) = sk_paren_base k"
  shows "scan_ok p (upd_sink f s)"
proof -
  obtain k ks where k: "sc_sinks (with_root s) = k # ks"
    using scan_ok_with_root [OF assms(1)] by (cases "sc_sinks (with_root s)") auto
  show ?thesis
    using scan_ok_with_root [OF assms(1)] assms(2) [of k] assms(3) [of k]
    by (simp add: upd_sink_def scan_ok_def k)
qed

lemma last_upd_last: "xs \<noteq> [] \<Longrightarrow> last (upd_last f xs) = f (last xs)"
  by (simp add: upd_last_def)

lemma length_upd_last [simp]: "length (upd_last f xs) = length xs"
  by (simp add: upd_last_def)

lemma list_all_upd_last: "list_all P xs \<Longrightarrow> (\<And>x. P x \<Longrightarrow> P (f x)) \<Longrightarrow> list_all P (upd_last f xs)"
  by (cases xs rule: rev_cases) (auto simp: upd_last_def)

lemma upd_last_Nil [simp]: "upd_last f xs = [] \<longleftrightarrow> xs = []"
  by (simp add: upd_last_def)

lemma scan_ok_upd_arm:
  assumes "scan_ok p s" and "\<And>a. am_directive (f a) = am_directive a \<and> am_sandboxed (f a) = am_sandboxed a"
  shows "scan_ok p (upd_arm f s)"
proof (cases "sc_groups s")
  case (Cons g gs)
  have g: "group_ok p g" using assms(1) Cons by (simp add: scan_ok_def)
  then have "group_ok p (g\<lparr>gr_arms := upd_last f (gr_arms g)\<rparr>)"
    using assms(2) by (auto simp: group_ok_def intro: list_all_upd_last)
  moreover have "am_sandboxed (last (upd_last f (gr_arms g))) = am_sandboxed (last (gr_arms g))"
    using g assms(2) by (simp add: group_ok_def last_upd_last)
  ultimately show ?thesis
    using assms(1) by (auto simp: upd_arm_def Cons scan_ok_def sandboxes_def split: if_splits)
qed (use assms in \<open>simp add: upd_arm_def\<close>)

lemma arm_token_same: "am_directive (arm_token k txt a) = am_directive a \<and> am_sandboxed (arm_token k txt a) = am_sandboxed a"
  by (simp add: arm_token_def Let_def)

lemma join_arm_same: "am_directive (join_arm k a) = am_directive a \<and> am_sandboxed (join_arm k a) = am_sandboxed a"
  by (simp add: join_arm_def)

lemma scan_ok_braces:
  assumes "scan_ok p s" and "list_all (\<lambda>ob. ob_at ob < p) bs"
    and "bases_ok (length bs) (length (sc_parens s)) (sc_sinks s)"
  shows "scan_ok p (s\<lparr>sc_braces := bs\<rparr>)"
  using assms by (simp add: scan_ok_def)

lemma scan_ok_parens:
  assumes "scan_ok p s" and "bases_ok (length (sc_braces s)) (length ps) (sc_sinks s)"
  shows "scan_ok p (s\<lparr>sc_parens := ps\<rparr>)"
  using assms by (simp add: scan_ok_def)

lemma scan_ok_top_base:
  assumes "scan_ok p s"
  shows "sk_brace_base (top_sink s) \<le> length (sc_braces s)" "sk_paren_base (top_sink s) \<le> length (sc_parens s)"
    "bases_ok (sk_brace_base (top_sink s)) (sk_paren_base (top_sink s)) (tl (sc_sinks (with_root s)))"
proof -
  obtain k ks where k: "sc_sinks (with_root s) = k # ks"
    using scan_ok_with_root [OF assms] by (cases "sc_sinks (with_root s)") auto
  show "sk_brace_base (top_sink s) \<le> length (sc_braces s)" "sk_paren_base (top_sink s) \<le> length (sc_parens s)"
    "bases_ok (sk_brace_base (top_sink s)) (sk_paren_base (top_sink s)) (tl (sc_sinks (with_root s)))"
    using scan_ok_with_root [OF assms] by (auto simp: scan_ok_def k top_sink_def)
qed

lemma bases_ok_top:
  assumes "scan_ok p s" and "sk_brace_base (top_sink s) \<le> nb" and "sk_paren_base (top_sink s) \<le> np"
  shows "bases_ok nb np (sc_sinks (with_root s))"
  using scan_ok_with_root [OF assms(1)] scan_ok_top_base(3) [OF assms(1)] assms(2,3)
  by (cases "sc_sinks (with_root s)") (auto simp: top_sink_def)

lemma ident_sink_ok:
  assumes "sink_ok p k" and "range_ok p (start, e)"
  shows "sink_ok p (ident_sink start e txt k)"
  using assms
  by (auto simp: ident_sink_def sink_ok_def Let_def closer_ok_def split: position.splits intro!: list_all_upd_last)

lemma ident_sink_bases:
  "sk_brace_base (ident_sink start e txt k) = sk_brace_base k \<and> sk_paren_base (ident_sink start e txt k) = sk_paren_base k"
  by (simp add: ident_sink_def Let_def split: position.splits)

lemma list_all_butlast: "list_all P xs \<Longrightarrow> list_all P (butlast xs)"
  by (auto simp: list_all_iff dest: in_set_butlastD)

lemma scan_ok_open_brace:
  assumes "scan_ok p s" and "start < p" shows "scan_ok p (open_brace_token start s)"
proof -
  note r = scan_ok_with_root [OF assms(1)]
  have "scan_ok p ((with_root s)\<lparr>sc_braces := sc_braces s @ [ob]\<rparr>)"
    if "ob_at ob = start" for ob
    using r scan_ok_top_base [OF assms(1)] that assms
    by (intro scan_ok_braces bases_ok_top [OF assms(1)]) (auto simp: scan_ok_def)
  then show ?thesis
    unfolding open_brace_token_def Let_def
    by (intro scan_ok_upd_sink) (auto simp: sink_ok_def)
qed

lemma scan_ok_close_brace:
  assumes "scan_ok p s" and "start < p" shows "scan_ok p (close_brace_token start s)"
proof -
  note r = scan_ok_with_root [OF assms(1)]
  have pop: "scan_ok p ((with_root s)\<lparr>sc_braces := butlast (sc_braces s)\<rparr>)"
    if "sk_brace_base (top_sink s) < length (sc_braces s)"
    using r scan_ok_top_base [OF assms(1)] that assms
    by (intro scan_ok_braces bases_ok_top [OF assms(1)]) (auto simp: scan_ok_def intro: list_all_butlast)
  show ?thesis
  proof (cases "sk_brace_base (top_sink s) < length (sc_braces s)")
    case True
    then show ?thesis
      unfolding close_brace_token_def Let_def
      using pop by (auto intro!: scan_ok_upd_sink simp: sink_ok_def)
  next
    case False
    then show ?thesis
      unfolding close_brace_token_def Let_def
      using r assms by (auto intro!: scan_ok_upd_sink simp: sink_ok_def closer_ok_def)
  qed
qed

lemma scan_ok_open_paren:
  assumes "scan_ok p s" shows "scan_ok p (open_paren_token start s)"
proof -
  have "scan_ok p (s\<lparr>sc_parens := sc_parens s @ [start]\<rparr>)"
    using assms by (intro scan_ok_parens) (auto simp: scan_ok_def intro: bases_ok_mono)
  then show ?thesis
    unfolding open_paren_token_def by (intro scan_ok_upd_sink) (auto simp: sink_ok_def)
qed

lemma scan_ok_close_paren:
  assumes "scan_ok p s" shows "scan_ok p (close_paren_token s)"
proof -
  note r = scan_ok_with_root [OF assms]
  have pop: "scan_ok p ((with_root s)\<lparr>sc_parens := butlast (sc_parens s)\<rparr>)"
    if "sk_paren_base (top_sink s) < length (sc_parens s)"
    using r scan_ok_top_base [OF assms] that
    by (intro scan_ok_parens bases_ok_top [OF assms]) (auto simp: scan_ok_def)
  show ?thesis
  proof (cases "sk_paren_base (top_sink s) < length (sc_parens s)")
    case True
    then show ?thesis
      unfolding close_paren_token_def Let_def
      using pop by (auto intro!: scan_ok_upd_sink simp: sink_ok_def)
  next
    case False
    then show ?thesis
      unfolding close_paren_token_def Let_def
      using r by (auto intro!: scan_ok_upd_sink simp: sink_ok_def)
  qed
qed

lemma scan_ok_token:
  assumes "scan_ok p s" and "p \<le> start" and "start < e"
  shows "scan_ok e (scan_token k start e txt s)"
proof -
  have s: "scan_ok e (upd_arm (arm_token k txt) s)"
    using scan_ok_upd_arm [OF scan_ok_mono [OF assms(1)]] assms arm_token_same by simp
  have plain: "scan_ok e (upd_sink (\<lambda>k. k\<lparr>sk_position := q, sk_prev := r\<rparr>) (upd_arm (arm_token k txt) s))" for q r
    using s by (intro scan_ok_upd_sink) (auto simp: sink_ok_def)
  have ident: "scan_ok e (upd_sink (ident_sink start e txt) (upd_arm (arm_token k txt) s))"
    using s assms by (intro scan_ok_upd_sink ident_sink_ok ident_sink_bases) (auto simp: range_ok_def)
  show ?thesis
    unfolding scan_token_def Let_def
    using plain ident scan_ok_open_brace [OF s assms(3)] scan_ok_close_brace [OF s assms(3)]
      scan_ok_open_paren [OF s] scan_ok_close_paren [OF s]
    by (auto split: kind.splits)
qed

text \<open>Between two arms the current group is set aside; the rest of the state is as always.\<close>

definition between_ok :: "nat \<Rightarrow> group \<Rightarrow> group list \<Rightarrow> scan \<Rightarrow> bool" where
  "between_ok p g gs s \<longleftrightarrow> sc_groups s = g # gs \<and> sc_sinks s \<noteq> [] \<and> scan_ok p (s\<lparr>sc_groups := gs\<rparr>)
     \<and> list_all (\<lambda>a. range_ok p (am_directive a)) (gr_arms g)
     \<and> list_all (range_ok p) (gr_pending g) \<and> pred_option (\<lambda>k. k < length (gr_arms g)) (gr_kept g)"

lemma between_ok_mono: "between_ok p g gs s \<Longrightarrow> p \<le> q \<Longrightarrow> between_ok q g gs s"
  by (auto simp: between_ok_def list_all_iff intro: range_ok_mono scan_ok_mono)

lemma start_arm_ok:
  assumes "between_ok p g gs s" and "range_ok p d"
  shows "\<exists>s'. start_arm d lit s = Some s' \<and> scan_ok p s'"
  using assms
  by (cases "gr_kept g")
    (auto simp: start_arm_def between_ok_def Let_def scan_ok_def group_ok_def arm_new_def sandboxes_def
      sink_new_def sink_ok_def split: if_splits)

lemma closer_blanks_ok: "closer_ok p c \<Longrightarrow> list_all (range_ok p) (closer_blanks c)"
  by (cases "cl_else_after c") (auto simp: closer_blanks_def closer_ok_def range_ok_def)

lemma arm_blanks_ok:
  assumes "sink_ok p k" and "list_all (\<lambda>ob. ob_at ob < p) bs"
  shows "list_all (range_ok p) (arm_blanks k bs)"
proof -
  have "list_all (range_ok p) (concat (map closer_blanks (sk_closers k)))"
    using assms(1) closer_blanks_ok by (fastforce simp: sink_ok_def list_all_iff)
  moreover have "list_all (range_ok p) (map (\<lambda>ob. (ob_at ob, ob_at ob + 1)) bs)"
    using assms(2) by (auto simp: list_all_iff range_ok_def)
  ultimately show ?thesis
    using assms(1) by (cases "sk_leading_else k") (auto simp: arm_blanks_def sink_ok_def)
qed

lemma end_arm_ok:
  assumes "scan_ok p s" and "sc_groups s \<noteq> []" and "p \<le> e"
  shows "\<exists>s' g gs. end_arm e s = Some s' \<and> between_ok e g gs s' \<and> gr_arms g \<noteq> []"
proof -
  obtain g gs where g: "sc_groups s = g # gs" using assms(2) by (cases "sc_groups s") auto
  have ok: "scan_ok e s" using assms scan_ok_mono by blast
  have arms: "gr_arms g \<noteq> []" using ok g by (simp add: scan_ok_def group_ok_def)
  have root: "sc_sinks s \<noteq> []" using ok g by (auto simp: scan_ok_def)
  define a where "a = last (gr_arms g)"
  show ?thesis
  proof (cases "am_sandboxed a")
    case False
    then have "end_arm e s = Some s" by (simp add: end_arm_def g last_opt_def arms a_def)
    moreover have "between_ok e g gs s"
      using ok g False root by (auto simp: between_ok_def scan_ok_def sandboxes_def group_ok_def a_def)
    ultimately show ?thesis using arms by blast
  next
    case True
    obtain k ks where k: "sc_sinks s = k # ks" using root by (cases "sc_sinks s") auto
    have base: "sk_brace_base k \<le> length (sc_braces s)" "sk_paren_base k \<le> length (sc_parens s)"
      using ok by (auto simp: scan_ok_def k)
    have ks: "ks \<noteq> []" "length ks = Suc (sandboxes gs)"
      using ok True by (auto simp: scan_ok_def k g sandboxes_def a_def)
    define pending where "pending =
      (if (am_literal a = Some False \<or> (gr_kept g \<noteq> None \<and> gr_taken g)) \<or> sk_opaque k
          \<or> (sk_paren_closed k \<or> length (sc_parens s) > sk_paren_base k)
       then [(snd (am_directive a), e)] else arm_blanks k (drop (sk_brace_base k) (sc_braces s)))"
    define s' where "s' = s\<lparr>sc_sinks := ks, sc_groups := g\<lparr>gr_pending := gr_pending g @ pending\<rparr> # gs,
      sc_braces := take (sk_brace_base k) (sc_braces s), sc_parens := take (sk_paren_base k) (sc_parens s)\<rparr>"
    have step: "end_arm e s = Some s'"
      by (simp add: end_arm_def g last_opt_def arms True k base s'_def pending_def Let_def flip: a_def)
    have "range_ok p (am_directive a)"
      using assms(1) arms by (auto simp: scan_ok_def g group_ok_def list_all_iff a_def)
    then have "range_ok e (snd (am_directive a), e)" using assms(3) by (simp add: range_ok_def)
    moreover have "list_all (range_ok e) (arm_blanks k (drop (sk_brace_base k) (sc_braces s)))"
      using ok by (intro arm_blanks_ok) (auto simp: scan_ok_def k list_all_iff dest: in_set_dropD)
    ultimately have "list_all (range_ok e) pending" by (simp add: pending_def)
    then have "between_ok e (g\<lparr>gr_pending := gr_pending g @ pending\<rparr>) gs s'"
      using ok ks base
      by (auto simp: between_ok_def s'_def scan_ok_def g k group_ok_def list_all_iff min_absorb2 dest: in_set_takeD)
    then show ?thesis using step arms by fastforce
  qed
qed

lemma resolve_ok:
  assumes "between_ok p g gs s" and "range_ok p endif"
  shows "\<exists>s'. resolve endif s = Some s' \<and> scan_ok p s'"
proof (cases "gr_kept g")
  case None
  then show ?thesis using assms by (auto simp: resolve_def between_ok_def)
next
  case (Some kept)
  have kept: "kept < length (gr_arms g)" using assms Some by (simp add: between_ok_def)
  let ?s = "s\<lparr>sc_groups := gs\<rparr>"
  have s: "scan_ok p ?s" using assms by (simp add: between_ok_def)
  have split: "scan_ok p (?s\<lparr>sc_blanks := sc_blanks s @ gr_pending g @ map am_directive (gr_arms g) @ [endif]\<rparr>)"
    using assms by (auto simp: between_ok_def scan_ok_def list_all_iff)
  have opaque: "scan_ok p (upd_sink (\<lambda>k. k\<lparr>sk_opaque := True\<rparr>) ?s)"
    using s by (intro scan_ok_upd_sink) (auto simp: sink_ok_def)
  have g: "sc_groups s = g # gs" using assms by (simp add: between_ok_def)
  show ?thesis
    using s split opaque kept
    by (auto simp: resolve_def g Some Let_def intro!: scan_ok_upd_arm join_arm_same)
qed

lemma scan_directive_ok:
  assumes "scan_ok p s" and "p \<le> start" and "start < e"
  shows "\<exists>s'. scan_directive start e txt s = Some s' \<and> scan_ok e s'"
proof -
  have s: "scan_ok e s" and r: "range_ok e (start, e)" using assms scan_ok_mono by (auto simp: range_ok_def)
  have arm: "\<exists>s'. Option.bind (end_arm start s) f = Some s' \<and> scan_ok e s'"
    if "sc_groups s \<noteq> []" and f: "\<And>g gs s'. between_ok e g gs s' \<Longrightarrow> \<exists>s''. f s' = Some s'' \<and> scan_ok e s''" for f
    using end_arm_ok [OF assms(1) that(1) assms(2)] f between_ok_mono [of start _ _ _ e] assms(3)
    by (metis bind.bind_lunit less_imp_le)
  show ?thesis
  proof (cases "directive txt")
    case None
    then show ?thesis using s by (simp add: scan_directive_def)
  next
    case (Some d)
    show ?thesis
    proof (cases d)
      case (If lit)
      have "between_ok e \<lparr>gr_arms = [], gr_kept = None, gr_taken = False, gr_in_body = ib, gr_blocks = bl,
          gr_prev_at_open = pr, gr_pending = []\<rparr> (sc_groups s)
        ((with_root s)\<lparr>sc_groups := \<lparr>gr_arms = [], gr_kept = None, gr_taken = False, gr_in_body = ib, gr_blocks = bl,
          gr_prev_at_open = pr, gr_pending = []\<rparr> # sc_groups s\<rparr>)" for ib bl pr
        using scan_ok_with_root [OF s] by (simp add: between_ok_def scan_ok_def)
      from start_arm_ok [OF this r] show ?thesis by (simp add: scan_directive_def Some If Let_def)
    next
      case (Else lit)
      show ?thesis
        using arm [of "start_arm (start, e) lit"] start_arm_ok [OF _ r] s
        by (simp add: scan_directive_def Some Else)
    next
      case Endif
      show ?thesis
        using arm [of "resolve (start, e)"] resolve_ok [OF _ r] s
        by (simp add: scan_directive_def Some Endif)
    qed
  qed
qed

lemma scan_all_ok:
  assumes "tokens_ok src p ts" and "scan_ok p s" and "p \<le> length src"
  shows "\<exists>res. scan_all chk n since src s ts = Some res \<and> (\<forall>s'. res = Inr s' \<longrightarrow> scan_ok (length src) s')"
  using assms
proof (induction ts arbitrary: p n since s)
  case Nil
  then show ?case by (simp add: scan_ok_mono)
next
  case (Cons t ts)
  have t: "p \<le> tk_start t" "tk_start t < tk_end t" "tk_end t \<le> length src" "tokens_ok src (tk_end t) ts"
    using Cons.prems by auto
  obtain s1 where "scan_directive (tk_start t) (tk_end t) (token_text t src) s = Some s1" "scan_ok (tk_end t) s1"
    using scan_directive_ok [OF Cons.prems(2) t(1,2)] by blast
  then show ?case
    using Cons.IH [OF t(4) _ t(3)] scan_ok_token [OF Cons.prems(2) t(1,2)]
    by (auto split: option.splits)
qed

section \<open>The copy\<close>

lemma source_or_blank_erase:
  assumes "source_or_blank src out" and "s \<le> e" and "e \<le> length out"
  shows "source_or_blank src (put out s (blank (cut out s e)))"
proof -
  have len: "length out = length src" "length (blank (cut out s e)) = e - s"
    using assms by (auto simp: source_or_blank_def length_cut blank_def)
  then have b: "s + length (blank (cut out s e)) \<le> length out" using assms by simp
  have inner: "blank (cut out s e) ! j = (if is_nl (out ! (s + j)) then out ! (s + j) else CHR '' '')"
    if "s + j < e" for j
  proof -
    have "j < length (cut out s e)" using assms that by (simp add: length_cut)
    then show ?thesis using assms that by (simp add: blank_def nth_cut)
  qed
  have nth: "put out s (blank (cut out s e)) ! i =
      (if s \<le> i \<and> i < e then if is_nl (out ! i) then out ! i else CHR '' '' else out ! i)"
    if "i < length src" for i
    unfolding nth_put [OF b] len(2) using assms(2) inner [of "i - s"] by simp
  have "length (put out s (blank (cut out s e))) = length src"
    using b len by (simp add: put_def)
  moreover have "put out s (blank (cut out s e)) ! i = src ! i
      \<or> put out s (blank (cut out s e)) ! i = CHR '' '' \<and> \<not> is_nl (src ! i)" if "i < length src" for i
  proof -
    have "out ! i = src ! i \<or> out ! i = CHR '' '' \<and> \<not> is_nl (src ! i)"
      using assms(1) that by (simp add: source_or_blank_def)
    then show ?thesis unfolding nth [OF that] by metis
  qed
  ultimately show ?thesis unfolding source_or_blank_def by blast
qed

lemma blank_ranges_ok:
  "list_all (range_ok (length src)) rs \<Longrightarrow> source_or_blank src out \<Longrightarrow>
   \<exists>out'. blank_ranges rs out = Some out' \<and> source_or_blank src out'"
proof (induction rs arbitrary: out)
  case (Cons r rs)
  obtain s e where r: "r = (s, e)" by force
  have len: "s \<le> e" "e \<le> length out" using Cons.prems by (auto simp: r range_ok_def source_or_blank_def)
  from Cons.IH [OF _ source_or_blank_erase [OF Cons.prems(2) len]] Cons.prems(1) len
  show ?case by (auto simp: r)
qed simp

lemma select_split_arms_cases:
  "\<exists>res. select_split_arms chk src = Some res \<and> (\<forall>out. res = Inr (Some out) \<longrightarrow> source_or_blank src out)"
proof (cases "has_conditional_directive src")
  case True
  obtain res where res: "scan_all chk 0 0 src scan_default (tokenize src) = Some res"
    and ok: "\<And>s. res = Inr s \<Longrightarrow> scan_ok (length src) s"
    using scan_all_ok [OF tokenize_ok scan_ok_default, of src chk 0 0] by auto
  show ?thesis
  proof (cases res)
    case (Inl r)
    then show ?thesis using True res by (simp add: select_split_arms_def)
  next
    case (Inr s)
    have "list_all (range_ok (length src)) (sc_blanks s)" using ok [OF Inr] by (simp add: scan_ok_def)
    from blank_ranges_ok [OF this, of src] show ?thesis
      using True res Inr by (auto simp: select_split_arms_def source_or_blank_def)
  qed
qed (simp add: select_split_arms_def)

section \<open>Stops\<close>

text \<open>How many times the loop consults the work control if it is never told to stop.\<close>

fun checks_in :: "nat \<Rightarrow> token list \<Rightarrow> nat" where
  "checks_in since [] = 0"
| "checks_in since (t # ts) =
     (if tk_kind t = Directive then Suc (checks_in since ts)
      else if since + 1 = CHECK_EVERY then Suc (checks_in 0 ts)
      else checks_in (since + 1) ts)"

lemma scan_all_stop:
  "scan_all chk n since src s ts = Some res \<Longrightarrow> ended_as (first_stop chk n (checks_in since ts)) res"
proof (induction ts arbitrary: n since s)
  case Nil
  then show ?case by (auto simp: ended_as_def)
next
  case (Cons t ts)
  have found: "ended_as (Some r) (Inl r)" for r by (simp add: ended_as_def)
  show ?case
    using Cons.prems
    by (auto intro: Cons.IH found split: if_splits option.splits bind_splits)
qed

section \<open>Brackets of an arm\<close>

text \<open>The depth of a run of bracket steps, and what its two numbers mean.\<close>

definition depth_of :: "int list \<Rightarrow> depth" where
  "depth_of ds = foldl depth_step depth_zero ds"

lemma depth_of_snoc: "depth_of (ds @ [d]) = depth_step (depth_of ds) d"
  by (simp add: depth_of_def)

lemma depth_of_Nil [simp]: "depth_of [] = depth_zero"
  by (simp add: depth_of_def)

lemma depth_of_net: "dp_net (depth_of ds) = sum_list ds"
  by (induction ds rule: rev_induct) (simp_all add: depth_of_snoc depth_step_def depth_zero_def Let_def)

lemma depth_of_append: "depth_of (xs @ ys) = depth_then (depth_of xs) (depth_of ys)"
proof (induction ys rule: rev_induct)
  case Nil
  have "dp_low (depth_of xs) \<le> dp_net (depth_of xs)"
    by (induction xs rule: rev_induct) (simp_all add: depth_of_snoc depth_step_def depth_zero_def Let_def)
  then show ?case by (simp add: depth_then_def depth_zero_def min_absorb1)
next
  case (snoc y ys)
  have "depth_of (xs @ ys @ [y]) = depth_step (depth_of (xs @ ys)) y"
    using depth_of_snoc [of "xs @ ys" y] by simp
  then show ?case
    by (simp add: snoc.IH depth_of_snoc depth_step_def depth_then_def Let_def min_def)
qed

lemma balanced_append: "balanced (depth_of xs) \<Longrightarrow> balanced (depth_of ys) \<Longrightarrow> balanced (depth_of (xs @ ys))"
  by (simp add: balanced_def depth_of_append depth_then_def)

lemma balanced_wrap: "balanced (depth_of xs) \<Longrightarrow> balanced (depth_of (1 # xs @ [-1]))"
proof -
  have ends: "depth_of [1] = \<lparr>dp_net = 1, dp_low = 0\<rparr>" "depth_of [-1] = \<lparr>dp_net = -1, dp_low = -1\<rparr>"
    by (simp_all add: depth_of_def depth_step_def depth_zero_def Let_def)
  assume "balanced (depth_of xs)"
  then show ?thesis
    using depth_of_append [of "[1]" "xs @ [-1]"] depth_of_append [of xs "[-1]"]
    by (simp add: balanced_def depth_then_def ends)
qed

lemma depth_of_low: "dp_low (depth_of ds) \<ge> 0 \<longleftrightarrow> (\<forall>n \<le> length ds. 0 \<le> sum_list (take n ds))"
proof (induction ds rule: rev_induct)
  case (snoc d ds)
  have "(\<forall>n \<le> length (ds @ [d]). 0 \<le> sum_list (take n (ds @ [d])))
      \<longleftrightarrow> (\<forall>n \<le> length ds. 0 \<le> sum_list (take n ds)) \<and> 0 \<le> sum_list (ds @ [d])"
    by (auto simp: le_Suc_eq)
  then show ?case using snoc.IH by (simp add: depth_of_snoc depth_step_def Let_def depth_of_net)
qed (simp add: depth_zero_def)

subsection \<open>A sandboxed arm without its unmatched braces\<close>

definition brace_events :: "token list \<Rightarrow> (nat \<times> int) list" where
  "brace_events ts =
     concat (map (\<lambda>t. if tk_kind t = Punct (CHR ''{'') then [(tk_start t, 1)]
                     else if tk_kind t = Punct (CHR ''}'') then [(tk_start t, -1)] else []) ts)"

text \<open>The positions of openers and closers without a partner, the reference for the scanner's stacks.\<close>

definition unmatched_step :: "nat list \<times> nat list \<Rightarrow> token \<Rightarrow> nat list \<times> nat list" where
  "unmatched_step = (\<lambda>(opens, closes) t.
     if tk_kind t = Punct (CHR ''{'') then (opens @ [tk_start t], closes)
     else if tk_kind t = Punct (CHR ''}'')
     then if opens \<noteq> [] then (butlast opens, closes) else (opens, closes @ [tk_start t])
     else (opens, closes))"

definition balanced_events :: "(nat \<times> int) list \<Rightarrow> bool" where
  "balanced_events w \<longleftrightarrow> balanced (depth_of (map snd w))"

lemma balanced_events_Nil [simp]: "balanced_events []"
  by (simp add: balanced_events_def balanced_def depth_zero_def)

lemma balanced_events_append: "balanced_events v \<Longrightarrow> balanced_events w \<Longrightarrow> balanced_events (v @ w)"
  by (simp add: balanced_events_def balanced_append)

lemma balanced_events_wrap: "balanced_events v \<Longrightarrow> balanced_events ((a, 1) # v @ [(b, -1)])"
  using balanced_wrap [of "map snd v"] by (simp add: balanced_events_def)

text \<open>Balanced words separated by the open braces.\<close>

inductive open_shape :: "nat list \<Rightarrow> (nat \<times> int) list \<Rightarrow> bool" where
  closed: "balanced_events w \<Longrightarrow> open_shape [] w"
| opened: "open_shape opens w \<Longrightarrow> balanced_events v \<Longrightarrow> open_shape (opens @ [b]) (w @ (b, 1) # v)"

lemma open_shape_append: "open_shape opens w \<Longrightarrow> balanced_events v \<Longrightarrow> open_shape opens (w @ v)"
proof (induction rule: open_shape.cases)
  case (opened opens' w' v' b)
  then show ?case
    using open_shape.opened [of opens' w' "v' @ v" b] balanced_events_append [of v' v] by simp
qed (auto intro: open_shape.closed balanced_events_append)

lemma open_shape_pop:
  assumes "open_shape (opens @ [b]) w"
  shows "\<exists>w' v. w = w' @ (b, 1) # v \<and> open_shape opens w' \<and> balanced_events v"
  using assms by (cases rule: open_shape.cases) auto

lemma open_shape_opens: "open_shape opens w \<Longrightarrow> set opens \<subseteq> fst ` set w"
  by (induction rule: open_shape.induct) auto

lemma open_shape_balanced:
  "open_shape opens w \<Longrightarrow> distinct (map fst w) \<Longrightarrow> balanced_events (filter (\<lambda>(p, _). p \<notin> set opens) w)"
proof (induction rule: open_shape.induct)
  case (closed w)
  then show ?case by (simp add: case_prod_beta)
next
  case (opened opens w v b)
  have b: "b \<notin> fst ` set w" and v: "fst ` set v \<inter> fst ` set w = {}" "b \<notin> fst ` set v"
    using opened.prems by auto
  have "filter (\<lambda>(p, _). p \<notin> set (opens @ [b])) w = filter (\<lambda>(p, _). p \<notin> set opens) w"
    using b by (intro filter_cong) force+
  moreover have "filter (\<lambda>(p, _). p \<notin> set (opens @ [b])) v = v"
    using v open_shape_opens [OF opened.hyps(1)] by (intro filter_True) force
  ultimately show ?case
    using opened by (simp add: balanced_events_append)
qed

lemma brace_events_simps [simp]:
  "brace_events [] = []"
  "brace_events (ts @ us) = brace_events ts @ brace_events us"
  by (simp_all add: brace_events_def)

lemma brace_events_single:
  "brace_events [t] = (if tk_kind t = Punct (CHR ''{'') then [(tk_start t, 1)]
     else if tk_kind t = Punct (CHR ''}'') then [(tk_start t, -1)] else [])"
  by (simp add: brace_events_def)

lemma brace_events_mem: "(q, d) \<in> set (brace_events ts) \<Longrightarrow> \<exists>t \<in> set ts. q = tk_start t \<and> (\<exists>c. tk_kind t = Punct c)"
  by (auto simp: brace_events_def split: if_splits)

lemma tokens_ok_append: "tokens_ok src p (ts @ us) \<Longrightarrow> tokens_ok src p ts"
  by (induction ts arbitrary: p) auto

lemma tokens_ok_snoc_after: "tokens_ok src p (ts @ [t]) \<Longrightarrow> u \<in> set ts \<Longrightarrow> tk_start u < tk_end u \<and> tk_end u \<le> tk_start t"
proof (induction ts arbitrary: p)
  case (Cons a ts)
  then show ?case using tokens_ok_mem [of src "tk_end a" "ts @ [t]" t] by auto
qed simp

lemma brace_events_distinct: "tokens_ok src p ts \<Longrightarrow> distinct (map fst (brace_events ts))"
proof (induction ts rule: rev_induct)
  case (snoc t ts)
  have "q < tk_start t" if "(q, d) \<in> set (brace_events ts)" for q d
    using brace_events_mem [OF that] tokens_ok_snoc_after [OF snoc.prems] by force
  then have "(tk_start t, d) \<notin> set (brace_events ts)" for d by blast
  then show ?case
    using snoc.IH [OF tokens_ok_append [OF snoc.prems]] by (force simp: brace_events_def)
qed simp

lemma unmatched_shape:
  assumes "tokens_ok src p ts" and "foldl unmatched_step ([], []) ts = (opens, closes)"
  shows "open_shape opens (filter (\<lambda>(q, _). q \<notin> set closes) (brace_events ts))
    \<and> set closes \<subseteq> tk_start ` set ts"
  using assms
proof (induction ts arbitrary: opens closes rule: rev_induct)
  case Nil
  then show ?case by (simp add: open_shape.closed)
next
  case (snoc t ts)
  obtain os cs where before: "foldl unmatched_step ([], []) ts = (os, cs)" by force
  let ?w = "filter (\<lambda>(q, _). q \<notin> set cs) (brace_events ts)"
  have IH: "open_shape os ?w" "set cs \<subseteq> tk_start ` set ts"
    using snoc.IH [OF tokens_ok_append [OF snoc.prems(1)] before] by auto
  have after: "tk_start u < tk_start t" if "u \<in> set ts" for u
    using tokens_ok_snoc_after [OF snoc.prems(1) that] by simp
  then have fresh: "tk_start t \<notin> set cs" using IH(2) by fastforce
  have step: "unmatched_step (os, cs) t = (opens, closes)" using snoc.prems(2) before by simp
  show ?case
  proof (cases "tk_kind t = Punct (CHR ''{'')")
    case True
    then have "opens = os @ [tk_start t]" "closes = cs" using step by (auto simp: unmatched_step_def)
    then show ?thesis
      using True IH fresh open_shape.opened [OF IH(1) balanced_events_Nil] by (auto simp: brace_events_single)
  next
    case no_open: False
    show ?thesis
    proof (cases "tk_kind t = Punct (CHR ''}'')")
      case True
      show ?thesis
      proof (cases os rule: rev_cases)
        case Nil
        then have *: "opens = []" "closes = cs @ [tk_start t]" using step True by (auto simp: unmatched_step_def)
        have "q \<noteq> tk_start t" if "(q, d) \<in> set (brace_events ts)" for q d
          using brace_events_mem [OF that] after by force
        then have "filter (\<lambda>(q, _). q \<notin> set closes) (brace_events (ts @ [t])) = ?w"
          using True by (auto simp: * brace_events_single intro!: filter_cong)
        then show ?thesis using IH Nil * by auto
      next
        case (snoc os' b)
        then have *: "opens = os'" "closes = cs" using step True by (auto simp: unmatched_step_def)
        obtain w v where w: "?w = w @ (b, 1) # v" "open_shape os' w" "balanced_events v"
          using open_shape_pop [of os' b ?w] IH(1) snoc by auto
        have "open_shape os' (w @ (b, 1) # v @ [(tk_start t, -1)])"
          by (rule open_shape_append [OF w(2) balanced_events_wrap [OF w(3)]])
        then show ?thesis using IH True fresh w(1) * by (auto simp: brace_events_single)
      qed
    next
      case False
      then have "opens = os" "closes = cs" using step no_open by (auto simp: unmatched_step_def)
      then show ?thesis using IH False no_open by (auto simp: brace_events_single)
    qed
  qed
qed

text \<open>The scanner over tokens that are no directives, and what it knows of the arm it is in.\<close>

definition scan_tokens :: "bytes \<Rightarrow> scan \<Rightarrow> token list \<Rightarrow> scan" where
  "scan_tokens src = foldl (\<lambda>s t. scan_token (tk_kind t) (tk_start t) (tk_end t) (token_text t src) s)"

definition arm_view :: "scan \<Rightarrow> nat list \<times> nat list" where
  "arm_view s =
     (map ob_at (drop (sk_brace_base (hd (sc_sinks s))) (sc_braces s)), map cl_at (sk_closers (hd (sc_sinks s))))"

definition else_ranges :: "sink \<Rightarrow> (nat \<times> nat) set" where
  "else_ranges k = set_option (sk_leading_else k) \<union> (\<Union>c \<in> set (sk_closers k). set_option (cl_else_after c))"

definition in_arm :: "scan \<Rightarrow> bool" where
  "in_arm s \<longleftrightarrow> sc_sinks s \<noteq> [] \<and> sk_brace_base (hd (sc_sinks s)) \<le> length (sc_braces s)"

lemma upd_arm_same [simp]:
  "sc_sinks (upd_arm f s) = sc_sinks s" "sc_braces (upd_arm f s) = sc_braces s"
  by (simp_all add: upd_arm_def split: list.splits)

lemma with_root_id: "sc_sinks s \<noteq> [] \<Longrightarrow> with_root s = s"
  by (simp add: with_root_def)

lemma upd_sink_sinks:
  "sc_sinks s \<noteq> [] \<Longrightarrow> sc_sinks (upd_sink f s) = f (hd (sc_sinks s)) # tl (sc_sinks s)"
  "sc_braces (upd_sink f s) = sc_braces s"
  by (simp_all add: upd_sink_def with_root_id Let_def)

lemma map_cl_at_upd_last: "map cl_at (upd_last (\<lambda>c. c\<lparr>cl_else_after := r\<rparr>) cs) = map cl_at cs"
  by (cases cs rule: rev_cases) (simp_all add: upd_last_def)

lemma upd_last_mem:
  "c \<in> set (upd_last f cs) \<Longrightarrow> c \<in> set cs \<or> (\<exists>c' \<in> set cs. c = f c')"
  by (cases cs rule: rev_cases) (auto simp: upd_last_def)

lemma ident_sink_view:
  "map cl_at (sk_closers (ident_sink start e txt k)) = map cl_at (sk_closers k)"
  by (simp add: ident_sink_def Let_def map_cl_at_upd_last split: position.splits)

lemma ident_sink_else: "else_ranges (ident_sink start e txt k) \<subseteq> else_ranges k \<union> {(start, e)}"
  by (auto simp: ident_sink_def else_ranges_def Let_def dest!: upd_last_mem split: position.splits)

lemma else_ranges_plain [simp]:
  "else_ranges (k\<lparr>sk_position := q\<rparr>) = else_ranges k" "else_ranges (k\<lparr>sk_prev := r\<rparr>) = else_ranges k"
  "else_ranges (k\<lparr>sk_paren_closed := b\<rparr>) = else_ranges k"
  "else_ranges (k\<lparr>sk_closers := sk_closers k @ [\<lparr>cl_at = n, cl_else_after = None\<rparr>]\<rparr>) = else_ranges k"
  by (simp_all add: else_ranges_def)

lemma in_arm_cases:
  assumes "in_arm s"
  obtains k ks where "sc_sinks s = k # ks" "sk_brace_base k \<le> length (sc_braces s)"
  using assms by (cases "sc_sinks s") (auto simp: in_arm_def)

lemma scan_token_view:
  assumes "in_arm s"
  shows "in_arm (scan_token (tk_kind t) (tk_start t) (tk_end t) txt s)"
    and "arm_view (scan_token (tk_kind t) (tk_start t) (tk_end t) txt s) = unmatched_step (arm_view s) t"
    and "else_ranges (hd (sc_sinks (scan_token (tk_kind t) (tk_start t) (tk_end t) txt s)))
      \<subseteq> else_ranges (hd (sc_sinks s)) \<union> (if tk_kind t = Ident then {(tk_start t, tk_end t)} else {})"
proof -
  obtain k ks where k: "sc_sinks s = k # ks" "sk_brace_base k \<le> length (sc_braces s)"
    using assms by (rule in_arm_cases)
  note defs = scan_token_def open_brace_token_def close_brace_token_def open_paren_token_def close_paren_token_def
    Let_def top_sink_def with_root_id upd_sink_sinks k(1)
  show "in_arm (scan_token (tk_kind t) (tk_start t) (tk_end t) txt s)"
    using k by (auto simp: defs in_arm_def ident_sink_bases split: kind.splits)
  show "arm_view (scan_token (tk_kind t) (tk_start t) (tk_end t) txt s) = unmatched_step (arm_view s) t"
    using k by (auto simp: defs arm_view_def unmatched_step_def ident_sink_bases ident_sink_view
        map_butlast drop_butlast split: kind.splits)
  show "else_ranges (hd (sc_sinks (scan_token (tk_kind t) (tk_start t) (tk_end t) txt s)))
      \<subseteq> else_ranges (hd (sc_sinks s)) \<union> (if tk_kind t = Ident then {(tk_start t, tk_end t)} else {})"
    using ident_sink_else [of "tk_start t" "tk_end t" "txt" k] by (cases "tk_kind t") (simp_all add: defs)
qed

lemma scan_tokens_view:
  assumes "in_arm s"
  shows "in_arm (scan_tokens src s ts)
    \<and> arm_view (scan_tokens src s ts) = foldl unmatched_step (arm_view s) ts
    \<and> else_ranges (hd (sc_sinks (scan_tokens src s ts)))
        \<subseteq> else_ranges (hd (sc_sinks s)) \<union> (\<lambda>t. (tk_start t, tk_end t)) ` {t \<in> set ts. tk_kind t = Ident}"
proof (induction ts rule: rev_induct)
  case Nil
  then show ?case using assms by (simp add: scan_tokens_def)
next
  case (snoc t ts)
  let ?s = "scan_tokens src s ts"
  have step: "scan_tokens src s (ts @ [t]) = scan_token (tk_kind t) (tk_start t) (tk_end t) (token_text t src) ?s"
    by (simp add: scan_tokens_def)
  have "in_arm ?s" using snoc.IH by blast
  note view = scan_token_view [OF this, of t "token_text t src"]
  have "else_ranges (hd (sc_sinks (scan_tokens src s (ts @ [t]))))
      \<subseteq> else_ranges (hd (sc_sinks s)) \<union> (\<lambda>t. (tk_start t, tk_end t)) ` {u \<in> set (ts @ [t]). tk_kind u = Ident}"
    unfolding step using view(3) snoc.IH by (cases "tk_kind t = Ident") auto
  then show ?case using view(1,2) snoc.IH by (simp add: step)
qed

definition blanked_at :: "(nat \<times> nat) list \<Rightarrow> nat \<Rightarrow> bool" where
  "blanked_at rs q \<longleftrightarrow> list_ex (\<lambda>(a, b). a \<le> q \<and> q < b) rs"

lemma arm_blanks_at:
  "blanked_at (arm_blanks k obs) q \<longleftrightarrow>
     q \<in> cl_at ` set (sk_closers k) \<or> q \<in> ob_at ` set obs \<or> (\<exists>(a, b) \<in> else_ranges k. a \<le> q \<and> q < b)"
proof -
  have closer: "list_ex P (closer_blanks c) \<longleftrightarrow> P (cl_at c, cl_at c + 1) \<or> (\<exists>r \<in> set_option (cl_else_after c). P r)" for P c
    by (cases "cl_else_after c") (auto simp: closer_blanks_def)
  have lead: "list_ex P (case sk_leading_else k of None \<Rightarrow> [] | Some r \<Rightarrow> [r])
      \<longleftrightarrow> (\<exists>r \<in> set_option (sk_leading_else k). P r)" for P
    by (cases "sk_leading_else k") auto
  have cs: "list_ex P (concat (map closer_blanks cs)) \<longleftrightarrow> (\<exists>c \<in> set cs. list_ex P (closer_blanks c))" for P cs
    by (induction cs) auto
  have one: "(\<lambda>(a, b). a \<le> q \<and> q < b) (n, n + 1) \<longleftrightarrow> q = n" for n by auto
  have obs: "list_ex (\<lambda>(a, b). a \<le> q \<and> q < b) (map (\<lambda>ob. (ob_at ob, ob_at ob + 1)) obs) \<longleftrightarrow> q \<in> ob_at ` set obs"
    by (induction obs) auto
  show ?thesis
    unfolding blanked_at_def arm_blanks_def list_ex_append lead cs closer obs one else_ranges_def by blast
qed

lemma ident_range_avoids:
  assumes "tokens_ok src p ts" and "t \<in> set ts" "u \<in> set ts" and "tk_kind t = Ident" and "tk_kind u \<noteq> Ident"
  shows "\<not> (tk_start t \<le> tk_start u \<and> tk_start u < tk_end t)"
proof -
  obtain a b where ab: "a < length ts" "ts ! a = t" "b < length ts" "ts ! b = u"
    using assms(2,3) by (meson in_set_conv_nth)
  have "a \<noteq> b" using ab assms(4,5) by auto
  then consider "a < b" | "b < a" by linarith
  then show ?thesis
  proof cases
    case 1
    then show ?thesis using tokens_ok_nth_less [OF assms(1) 1] ab by simp
  next
    case 2
    then have "tk_end u \<le> tk_start t" using tokens_ok_nth_less [OF assms(1) 2] ab by simp
    then show ?thesis using tokens_ok_mem [OF assms(1,3)] by simp
  qed
qed

lemma sandboxed_arm_events:
  assumes "sc_sinks s = sink_new (length (sc_braces s)) np pr # ks" and "tokens_ok src p ts"
  defines "k \<equiv> hd (sc_sinks (scan_tokens src s ts))"
  shows "filter (\<lambda>(q, _). \<not> blanked_at (arm_blanks k (drop (sk_brace_base k) (sc_braces (scan_tokens src s ts)))) q)
      (brace_events ts)
    = filter (\<lambda>(q, _). q \<notin> set (fst (foldl unmatched_step ([], []) ts)))
        (filter (\<lambda>(q, _). q \<notin> set (snd (foldl unmatched_step ([], []) ts))) (brace_events ts))"
proof -
  have fresh: "in_arm s" "arm_view s = ([], [])" "else_ranges (hd (sc_sinks s)) = {}"
    using assms(1) by (auto simp: in_arm_def arm_view_def else_ranges_def sink_new_def)
  note view = scan_tokens_view [OF fresh(1), of src ts, unfolded fresh(2,3)]
  have no_else: "\<not> (\<exists>(a, b) \<in> else_ranges k. a \<le> q \<and> q < b)" if q: "(q, d) \<in> set (brace_events ts)" for q d
  proof -
    obtain u c where u: "u \<in> set ts" "q = tk_start u" "tk_kind u = Punct c" using brace_events_mem [OF q] by blast
    show ?thesis
      using view ident_range_avoids [OF assms(2) _ u(1)] u(2,3) by (fastforce simp: k_def)
  qed
  have "foldl unmatched_step ([], []) ts = arm_view (scan_tokens src s ts)" using view by simp
  then have "fst (foldl unmatched_step ([], []) ts) = map ob_at (drop (sk_brace_base k) (sc_braces (scan_tokens src s ts)))"
    "snd (foldl unmatched_step ([], []) ts) = map cl_at (sk_closers k)"
    by (simp_all only: arm_view_def k_def fst_conv snd_conv)
  then show ?thesis
    unfolding filter_filter by (intro filter_cong refl) (use no_else in \<open>auto simp: arm_blanks_at\<close>)
qed

section \<open>Files without a body\<close>

definition untouched :: "scan \<Rightarrow> bool" where
  "untouched s \<longleftrightarrow> sc_braces s = [] \<and> sc_blanks s = [] \<and> list_all (\<lambda>g. \<not> gr_in_body g) (sc_groups s)"

lemma untouched_upd [simp]:
  "untouched (upd_sink f s) \<longleftrightarrow> untouched s" "untouched (upd_arm g s) \<longleftrightarrow> untouched s"
  "untouched (with_root s) \<longleftrightarrow> untouched s" "untouched (sc_sinks_update h s) \<longleftrightarrow> untouched s"
  "untouched (sc_parens_update i s) \<longleftrightarrow> untouched s"
  by (auto simp: untouched_def upd_sink_def upd_arm_def Let_def with_root_def split: list.splits)

lemma untouched_token: "untouched s \<Longrightarrow> k \<noteq> Punct (CHR ''{'') \<Longrightarrow> untouched (scan_token k start e txt s)"
  by (auto simp: scan_token_def Let_def close_brace_token_def open_paren_token_def close_paren_token_def
      untouched_def [of "sc_braces_update _ _"] untouched_def [of s] split: kind.splits)

lemma untouched_start_arm: "untouched s \<Longrightarrow> start_arm d lit s = Some s' \<Longrightarrow> untouched s'"
  by (auto simp: start_arm_def untouched_def Let_def split: list.splits if_splits)

lemma untouched_end_arm: "untouched s \<Longrightarrow> end_arm e s = Some s' \<Longrightarrow> untouched s'"
  by (auto simp: end_arm_def untouched_def Let_def split: list.splits option.splits if_splits)

lemma untouched_resolve: "untouched s \<Longrightarrow> resolve r s = Some s' \<Longrightarrow> untouched s'"
  by (auto simp: resolve_def Let_def split_group_def untouched_def [of s]
      untouched_def [of "sc_groups_update _ _"] split: list.splits option.splits if_splits)

lemma untouched_push:
  "untouched s \<Longrightarrow> \<not> gr_in_body g \<Longrightarrow> untouched ((with_root s)\<lparr>sc_groups := g # sc_groups s\<rparr>)"
  by (simp add: untouched_def)

lemma untouched_directive:
  assumes "untouched s" and "scan_directive start e txt s = Some s'"
  shows "untouched s'"
proof -
  have "sc_braces s = []" using assms(1) by (simp add: untouched_def)
  then show ?thesis
    using assms
    by (auto simp: scan_directive_def Let_def last_opt_def split: option.splits directive_kind.splits if_splits bind_splits
        dest: untouched_end_arm untouched_start_arm [OF untouched_push, rotated 2]
        intro: untouched_resolve untouched_start_arm)
qed

lemma untouched_scan:
  assumes "untouched s" and "\<forall>t \<in> set ts. tk_kind t \<noteq> Punct (CHR ''{'')"
    and "scan_all chk n since src s ts = Some (Inr s')"
  shows "untouched s'"
  using assms
  by (induction ts arbitrary: n since s)
    (auto split: if_splits option.splits bind_splits dest: untouched_directive untouched_token)

lemma split_arms_stop_none: "select_split_arms (\<lambda>_. None) src \<noteq> Some (Inl r)"
proof -
  have "res \<noteq> Inl r" if "scan_all (\<lambda>_. None) 0 0 src scan_default (tokenize src) = Some res" for res
    using scan_all_stop [OF that] by (auto simp: ended_as_def first_stop_none)
  then show ?thesis
    by (auto simp: select_split_arms_def split: bind_splits sum.splits if_splits)
qed

section \<open>The copy of blanked conditions\<close>

abbreviation put_tokens :: "bytes \<Rightarrow> bytes \<Rightarrow> token list \<Rightarrow> bytes" where
  "put_tokens src \<equiv> foldl (\<lambda>out t. put out (tk_start t) (token_text t src))"

lemma put_token_source:
  assumes "source_or_blank src out" and "tk_start t < tk_end t \<and> tk_end t \<le> length src"
  shows "source_or_blank src (put out (tk_start t) (token_text t src))"
    and "put out (tk_start t) (token_text t src) ! i = out ! i \<or> tk_start t \<le> i \<and> i < tk_end t"
proof -
  show "source_or_blank src (put out (tk_start t) (token_text t src))"
    unfolding token_text_def using assms by (intro source_or_blank_put) auto
  show "put out (tk_start t) (token_text t src) ! i = out ! i \<or> tk_start t \<le> i \<and> i < tk_end t"
    using assms by (subst nth_put) (auto simp: token_text_def length_cut source_or_blank_def)
qed

lemma put_tokens_source:
  assumes "source_or_blank src out" and "\<And>t. t \<in> set ts \<Longrightarrow> tk_start t < tk_end t \<and> tk_end t \<le> length src"
  shows "source_or_blank src (put_tokens src out ts)
    \<and> (put_tokens src out ts ! i = out ! i \<or> (\<exists>t \<in> set ts. tk_start t \<le> i \<and> i < tk_end t))"
  using assms
proof (induction ts arbitrary: out)
  case (Cons t ts)
  note step = put_token_source [OF Cons.prems(1), of t]
  have t: "tk_start t < tk_end t \<and> tk_end t \<le> length src" using Cons.prems(2) by simp
  from Cons.IH [OF step(1) [OF t]] step(2) [OF t, of i] Cons.prems(2)
  show ?case by auto
qed simp

lemma blanked_conditions_shows:
  assumes "blanked_conditions src dead = Some out"
  shows "source_or_blank src out"
    and "i < length src \<Longrightarrow> out ! i \<noteq> CHR '' '' \<Longrightarrow> \<not> is_nl (src ! i) \<Longrightarrow>
      \<exists>t \<in> set (blanked_directives src dead). tk_start t \<le> i \<and> i < tk_end t"
proof -
  have out: "out = put_tokens src (blank src) (blanked_directives src dead)"
    using assms by (auto simp: blanked_conditions_def Let_def split: if_splits)
  have t: "tk_start t < tk_end t \<and> tk_end t \<le> length src" if "t \<in> set (blanked_directives src dead)" for t
    using that tokens_ok_mem [OF tokenize_ok] by (auto simp: blanked_directives_def)
  note put = put_tokens_source [OF source_or_blank_blank t]
  show "source_or_blank src out" unfolding out using put by blast
  show "\<exists>t \<in> set (blanked_directives src dead). tk_start t \<le> i \<and> i < tk_end t"
    if "i < length src" "out ! i \<noteq> CHR '' ''" "\<not> is_nl (src ! i)"
  proof -
    have "blank src ! i = CHR '' ''" using that by (simp add: blank_def)
    then show ?thesis using put [of "blanked_directives src dead" i] that(2) unfolding out by auto
  qed
qed

section \<open>Properties\<close>

text \<open>
  C13. Reducing split conditional groups never panics (every stack access finds its entry and every recorded range
  lies inside the file), and the copy it returns, if any, has the length, lines and columns of the original:
  each byte is the original one, or a blank where the original is no line break.
\<close>

theorem split_arms_keep_layout:
  "\<exists>res. select_split_arms chk src = Some res
     \<and> (\<forall>out. res = Inr (Some out) \<longrightarrow> source_or_blank src out \<and> same_layout src out)"
  using select_split_arms_cases [of chk src] source_or_blank_layout by blast

definition sample_split :: bytes where
  "sample_split = ''f(){'' @ [NL] @ ''#if A'' @ [NL] @ ''if(a){'' @ [NL] @ ''#else'' @ [NL] @ ''if(b){'' @ [NL]
     @ ''#endif'' @ [NL] @ ''}}''"

theorem split_arms_keep_layout_witness:
  "\<exists>out. select_split_arms (\<lambda>_. None) sample_split = Some (Inr (Some out))
     \<and> source_or_blank sample_split out \<and> out \<noteq> sample_split"
proof -
  have e: "select_split_arms (\<lambda>_. None) sample_split = Some (Inr (Some (''f(){'' @ [NL] @ ''     '' @ [NL]
      @ ''if(a){'' @ [NL] @ ''     '' @ [NL] @ ''if(b) '' @ [NL] @ ''      '' @ [NL] @ ''}}'')))"
    by code_simp
  have "source_or_blank sample_split (''f(){'' @ [NL] @ ''     '' @ [NL]
      @ ''if(a){'' @ [NL] @ ''     '' @ [NL] @ ''if(b) '' @ [NL] @ ''      '' @ [NL] @ ''}}'')"
    using split_arms_keep_layout [of "\<lambda>_. None" sample_split] e by simp
  then show ?thesis using e by (auto simp: sample_split_def)
qed

text \<open>
  The pass stops exactly when one of its checks (one per directive, and one per \<open>CHECK_EVERY\<close> other
  tokens) reports a stop; it then returns the reason of the first such check and no copy.
\<close>

theorem split_arms_stop:
  "select_split_arms chk src = Some (Inl r) \<longleftrightarrow>
     has_conditional_directive src \<and> first_stop chk 0 (checks_in 0 (tokenize src)) = Some r"
proof (cases "has_conditional_directive src")
  case True
  obtain res where res: "scan_all chk 0 0 src scan_default (tokenize src) = Some res"
    using scan_all_ok [OF tokenize_ok scan_ok_default, of src chk 0 0] by auto
  show ?thesis
    using scan_all_stop [OF res] res True
    by (cases res) (auto simp: ended_as_def select_split_arms_def split: option.splits)
qed (simp add: select_split_arms_def)

text \<open>
  What stays of a sandboxed arm is complete: scanning an arm without nested directives, the braces that are
  not among the ranges recorded for blanking are balanced, and never close more than they have opened.
\<close>

theorem sandboxed_arm_left_balanced:
  assumes "sc_sinks s = sink_new (length (sc_braces s)) np pr # ks" and "tokens_ok src p ts"
  defines "k \<equiv> hd (sc_sinks (scan_tokens src s ts))"
  shows "balanced (foldl depth_step depth_zero (map snd
     (filter (\<lambda>(q, _). \<not> blanked_at (arm_blanks k (drop (sk_brace_base k) (sc_braces (scan_tokens src s ts)))) q)
        (brace_events ts))))"
proof -
  obtain opens closes where u: "foldl unmatched_step ([], []) ts = (opens, closes)" by force
  let ?w = "filter (\<lambda>(q, _). q \<notin> set closes) (brace_events ts)"
  have "open_shape opens ?w" using unmatched_shape [OF assms(2) u] by simp
  moreover have "distinct (map fst ?w)"
    using brace_events_distinct [OF assms(2)] by (simp add: distinct_map_filter)
  ultimately show ?thesis
    unfolding k_def sandboxed_arm_events [OF assms(1,2)] u fst_conv snd_conv
    using open_shape_balanced [of opens ?w, unfolded balanced_events_def depth_of_def] by blast
qed

theorem sandboxed_arm_left_balanced_witness:
  "let s = scan_default\<lparr>sc_sinks := [sink_new 0 0 Boundary]\<rparr>; src = ''}else{a{}'';
       s' = scan_tokens src s (tokenize src); k = hd (sc_sinks s')
   in arm_blanks k (drop (sk_brace_base k) (sc_braces s')) = [(0, 1), (1, 5), (5, 6)]
      \<and> map snd (filter (\<lambda>(q, _). \<not> blanked_at [(0, 1), (1, 5), (5, 6)] q) (brace_events (tokenize src))) = [1, -1]
      \<and> balanced (foldl depth_step depth_zero [1, -1])"
proof -
  let ?s = "scan_default\<lparr>sc_sinks := [sink_new 0 0 Boundary]\<rparr>" and ?src = "''}else{a{}''"
  let ?s' = "scan_tokens ?src ?s (tokenize ?src)"
  have blanks: "arm_blanks (hd (sc_sinks ?s')) (drop (sk_brace_base (hd (sc_sinks ?s'))) (sc_braces ?s'))
      = [(0, 1), (1, 5), (5, 6)]" by code_simp
  have left: "map snd (filter (\<lambda>(q, _). \<not> blanked_at [(0, 1), (1, 5), (5, 6)] q) (brace_events (tokenize ?src))) = [1, -1]"
    by code_simp
  have "sc_sinks ?s = sink_new (length (sc_braces ?s)) 0 Boundary # []" by (simp add: scan_default_def)
  from sandboxed_arm_left_balanced [OF this tokenize_ok, of ?src, unfolded blanks left] blanks left
  show ?thesis unfolding Let_def by blast
qed

text \<open>
  A file without an opening brace has no function body: no group in it is reduced, whatever its arms are.
\<close>

theorem file_scope_untouched:
  assumes "\<forall>t \<in> set (tokenize src). tk_kind t \<noteq> Punct (CHR ''{'')"
  shows "\<exists>res. select_split_arms chk src = Some res \<and> (res = Inr None \<or> (\<exists>r. res = Inl r))"
proof (cases "has_conditional_directive src")
  case True
  obtain res where res: "scan_all chk 0 0 src scan_default (tokenize src) = Some res"
    using scan_all_ok [OF tokenize_ok scan_ok_default, of src chk 0 0] by auto
  have "untouched scan_default" by (simp add: untouched_def scan_default_def)
  from untouched_scan [OF this assms] res have "untouched s" if "res = Inr s" for s using that by blast
  then show ?thesis using True res by (cases res) (auto simp: select_split_arms_def untouched_def)
qed (simp add: select_split_arms_def)

theorem file_scope_untouched_witness:
  "select_split_arms (\<lambda>_. None) (''#if A'' @ [NL] @ '') else'' @ [NL] @ ''#endif'') = Some (Inr None)"
proof -
  have "\<forall>t \<in> set (tokenize (''#if A'' @ [NL] @ '') else'' @ [NL] @ ''#endif'')). tk_kind t \<noteq> Punct (CHR ''{'')"
    by code_simp
  from file_scope_untouched [OF this, of "\<lambda>_. None"] show ?thesis
    using split_arms_stop_none by fastforce
qed

text \<open>
  The copy of blanked conditions holds original bytes and blanks only, in the layout of the original, and
  shows nothing but conditional directives that the tree has no token for.
\<close>

theorem blanked_conditions_source:
  assumes "blanked_conditions src dead = Some out"
  shows "source_or_blank src out \<and> same_layout src out
    \<and> (\<forall>i < length src. out ! i \<noteq> CHR '' '' \<and> \<not> is_nl (src ! i) \<longrightarrow>
         (\<exists>t \<in> set (tokenize src). tk_start t \<le> i \<and> i < tk_end t \<and> tk_kind t = Directive
            \<and> \<not> has_directive_at dead (tk_start t) \<and> directive (token_text t src) \<noteq> None))"
  using blanked_conditions_shows [OF assms] source_or_blank_layout by (fastforce simp: blanked_directives_def)

theorem blanked_conditions_source_witness:
  "\<exists>out. blanked_conditions (''a;'' @ [NL] @ ''#if F(x)'' @ [NL] @ ''#endif'') \<lparr>dr_ranges = [], dr_directives = []\<rparr> = Some out
     \<and> source_or_blank (''a;'' @ [NL] @ ''#if F(x)'' @ [NL] @ ''#endif'') out"
proof -
  have e: "blanked_conditions (''a;'' @ [NL] @ ''#if F(x)'' @ [NL] @ ''#endif'') \<lparr>dr_ranges = [], dr_directives = []\<rparr>
      = Some (''  '' @ [NL] @ ''#if F(x)'' @ [NL] @ ''#endif'')" by code_simp
  from blanked_conditions_source [OF e] e show ?thesis by blast
qed

end
