(* ===== verification/Call_Path.thy ===== *)
theory Call_Path
  imports Handle "HOL-Library.Monad_Syntax"
begin

text \<open>
  The shortest call chain between two symbols, \<open>crates/graph/src/call_path.rs\<close>: a breadth-first walk
  over resolved callees with a depth bound, a bound on visited symbols and a bound on examined
  call sites. What the index answers is an argument of the walk: the rows of a
  file range, the definitions a reference or a name resolves to, whether the resolver has met one
  of its own caps after the \<open>n\<close>-th expansion, and the definitions an endpoint names. Each answer may be
  an error, which includes a stop that a checkpoint reports before the query.
\<close>

section \<open>Requests, reports and the index\<close>

record call_path_request =
  rq_from :: string
  rq_to :: string
  rq_max_depth :: nat

record call_path_step =
  st_handle :: string
  st_name :: string
  st_qualified_name :: string
  st_file_path :: string
  st_line_start :: u32
  st_call_line :: "u32 option"

record call_path_report =
  rp_found :: bool
  rp_steps :: "call_path_step list"
  rp_length :: nat
  rp_note :: "string option"
  rp_bounded :: bool
  rp_counts_floor :: bool

datatype endpoint = Found "symbol list" | Missing string

record 'e call_index =
  ci_endpoint :: "string \<Rightarrow> 'e + endpoint"
  ci_references :: "string \<Rightarrow> u32 \<Rightarrow> u32 \<Rightarrow> 'e + reference list"
  ci_resolve_reference :: "reference \<Rightarrow> 'e + symbol list"
  ci_resolve_symbols :: "string \<Rightarrow> string \<Rightarrow> 'e + symbol list"
  ci_capped :: "nat \<Rightarrow> bool"

type_synonym symbol_key = "string \<times> string \<times> u32"

definition is_call_edge :: "reference_kind \<Rightarrow> bool" where
  "is_call_edge k \<longleftrightarrow> k \<in> {RK_Call, RK_Instantiation, RK_RouteHandler}"

definition MAX_VISITED :: nat where "MAX_VISITED = 4000"

definition MAX_REFS_PER_SYMBOL :: nat where "MAX_REFS_PER_SYMBOL = 200"

definition key_of :: "symbol \<Rightarrow> symbol_key" where
  "key_of s = (sym_file_path s, sym_qualified_name s, sym_line_start s)"

definition is_python_path :: "string \<Rightarrow> bool" where
  "is_python_path p \<longleftrightarrow> ends_with ''.py'' p \<or> ends_with ''.pyi'' p"

definition step_of :: "symbol \<Rightarrow> u32 option \<Rightarrow> call_path_step" where
  "step_of s call_line =
     \<lparr>st_handle = handle_to_string (symbol_handle s), st_name = sym_name s,
      st_qualified_name = sym_qualified_name s, st_file_path = sym_file_path s,
      st_line_start = sym_line_start s, st_call_line = call_line\<rparr>"

definition unfound :: "string \<Rightarrow> bool \<Rightarrow> call_path_report" where
  "unfound note bounded =
     \<lparr>rp_found = False, rp_steps = [], rp_length = 0, rp_note = Some note, rp_bounded = bounded,
      rp_counts_floor = True\<rparr>"

section \<open>Callees\<close>

type_synonym callees = "(symbol \<times> u32) list"

text \<open>Definitions not seen before are appended, each with the line of the call site.\<close>

fun add_defs :: "u32 \<Rightarrow> symbol list \<Rightarrow> callees \<Rightarrow> symbol_key list \<Rightarrow> callees \<times> symbol_key list" where
  "add_defs line [] out seen = (out, seen)"
| "add_defs line (d # ds) out seen =
     (if key_of d \<in> set seen then add_defs line ds out seen
      else add_defs line ds (out @ [(d, line)]) (seen @ [key_of d]))"

definition other_owner :: "symbol \<Rightarrow> reference \<Rightarrow> bool" where
  "other_owner caller r \<longleftrightarrow> (case ref_from_symbol r of Some owner \<Rightarrow> owner \<noteq> sym_qualified_name caller | None \<Rightarrow> False)"

text \<open>\<open>cache\<close> holds the names of the calling file resolved so far; the second result is whether the cap on call sites was met.\<close>

fun callees_loop ::
  "('e, 'x) call_index_scheme \<Rightarrow> symbol \<Rightarrow> reference list \<Rightarrow> callees \<Rightarrow> symbol_key list
   \<Rightarrow> (string \<rightharpoonup> symbol list) \<Rightarrow> nat \<Rightarrow> 'e + (callees \<times> bool)" where
  "callees_loop db caller [] out seen cache examined = Inr (out, False)"
| "callees_loop db caller (r # rs) out seen cache examined =
     (if \<not> is_call_edge (ref_kind r) \<or> other_owner caller r
      then callees_loop db caller rs out seen cache examined
      else if examined + 1 > MAX_REFS_PER_SYMBOL then Inr (out, True)
      else if is_python_path (ref_from_file r)
      then (case ci_resolve_reference db r of
              Inl e \<Rightarrow> Inl e
            | Inr defs \<Rightarrow>
                let (out, seen) = add_defs (ref_line r) defs out seen
                in callees_loop db caller rs out seen cache (examined + 1))
      else (case (case cache (ref_to_name r) of
                    Some defs \<Rightarrow> Inr defs
                  | None \<Rightarrow> ci_resolve_symbols db (sym_file_path caller) (ref_to_name r)) of
              Inl e \<Rightarrow> Inl e
            | Inr defs \<Rightarrow>
                let (out, seen) = add_defs (ref_line r) (filter (\<lambda>d. key_of d \<noteq> key_of caller) defs) out seen
                in callees_loop db caller rs out seen (cache(ref_to_name r \<mapsto> defs)) (examined + 1)))"

definition callees_of :: "('e, 'x) call_index_scheme \<Rightarrow> symbol \<Rightarrow> 'e + (callees \<times> bool)" where
  "callees_of db caller =
     (case ci_references db (sym_file_path caller) (sym_line_start caller) (sym_line_end caller) of
        Inl e \<Rightarrow> Inl e
      | Inr refs \<Rightarrow> callees_loop db caller refs [] [] Map.empty 0)"

section \<open>The walk\<close>

type_synonym parents = "symbol_key \<rightharpoonup> symbol \<times> u32"

text \<open>The chain of parents from a symbol to an origin, the origin last.\<close>

partial_function (option) reconstruct_loop ::
  "parents \<Rightarrow> symbol_key list \<Rightarrow> symbol \<Rightarrow> (symbol \<times> u32 option) list option" where
  "reconstruct_loop parents origin_keys cur =
     (let line = map_option snd (parents (key_of cur)) in
      if key_of cur \<in> set origin_keys then Some [(cur, line)]
      else case parents (key_of cur) of
             None \<Rightarrow> Some [(cur, line)]
           | Some (parent, _) \<Rightarrow>
               do { rest \<leftarrow> reconstruct_loop parents origin_keys parent; Some ((cur, line) # rest) })"

declare reconstruct_loop.simps [code]

definition reconstruct :: "symbol \<Rightarrow> parents \<Rightarrow> symbol_key list \<Rightarrow> call_path_step list option" where
  "reconstruct target parents origin_keys =
     map_option (\<lambda>chain. map (\<lambda>(s, line). step_of s line) (rev chain)) (reconstruct_loop parents origin_keys target)"

datatype walk_end =
    Hit symbol parents bool
  | Exhausted bool

record walk =
  wk_queue :: "(symbol \<times> nat) list"
  wk_visited :: "symbol_key list"
  wk_parents :: parents

text \<open>The loop over the callees of one symbol: a target ends it, anything new is queued.\<close>

fun visit_callees ::
  "symbol_key list \<Rightarrow> symbol \<Rightarrow> nat \<Rightarrow> callees \<Rightarrow> walk \<Rightarrow> (symbol \<times> parents) + walk" where
  "visit_callees targets caller depth [] w = Inr w"
| "visit_callees targets caller depth ((d, line) # cs) w =
     (if key_of d \<in> set targets then Inl (d, (wk_parents w)(key_of d \<mapsto> (caller, line)))
      else if key_of d \<in> set (wk_visited w) then visit_callees targets caller depth cs w
      else visit_callees targets caller depth cs
             \<lparr>wk_queue = wk_queue w @ [(d, depth + 1)], wk_visited = wk_visited w @ [key_of d],
              wk_parents = (wk_parents w)(key_of d \<mapsto> (caller, line))\<rparr>)"

lemma visit_callees_grows:
  "visit_callees targets caller depth cs w = Inr w' \<Longrightarrow>
   \<exists>q. wk_queue w' = wk_queue w @ q \<and> length (wk_visited w') = length (wk_visited w) + length q"
proof (induction cs arbitrary: w)
  case (Cons c cs)
  obtain d line where c: "c = (d, line)" by force
  from Cons.prems Cons.IH show ?case by (fastforce simp: c split: if_splits)
qed simp

text \<open>Every expansion either queues something, which the bound on visited symbols allows only finitely often, or shortens the queue.\<close>

function walk_loop ::
  "('e, 'x) call_index_scheme \<Rightarrow> nat \<Rightarrow> symbol_key list \<Rightarrow> nat \<Rightarrow> bool \<Rightarrow> walk \<Rightarrow> 'e + walk_end" where
  "walk_loop db max_depth targets n bounded w =
     (case wk_queue w of
        [] \<Rightarrow> Inr (Exhausted bounded)
      | (caller, depth) # rest \<Rightarrow>
          if depth \<ge> max_depth then walk_loop db max_depth targets n True (w\<lparr>wk_queue := rest\<rparr>)
          else if length (wk_visited w) \<ge> MAX_VISITED then Inr (Exhausted True)
          else (case callees_of db caller of
                  Inl e \<Rightarrow> Inl e
                | Inr (cs, capped) \<Rightarrow>
                    let bounded' = (bounded \<or> capped \<or> ci_capped db n) in
                    (case visit_callees targets caller depth cs (w\<lparr>wk_queue := rest\<rparr>) of
                       Inl (target, parents) \<Rightarrow> Inr (Hit target parents bounded')
                     | Inr w' \<Rightarrow> walk_loop db max_depth targets (n + 1) bounded' w')))"
  by pat_completeness auto

termination
proof (relation "measures [\<lambda>(_, _, _, _, _, w). MAX_VISITED - length (wk_visited w), \<lambda>(_, _, _, _, _, w). length (wk_queue w)]")
  fix db :: "('e, 'x) call_index_scheme" and max_depth targets n bounded w caller depth rest x cs capped w' bounded'
  assume w: "wk_queue w = x # rest" and lt: "\<not> MAX_VISITED \<le> length (wk_visited w)"
    and v: "visit_callees targets caller depth cs (w\<lparr>wk_queue := rest\<rparr>) = Inr w'"
  obtain q where "wk_queue w' = rest @ q" "length (wk_visited w') = length (wk_visited w) + length q"
    using visit_callees_grows [OF v] by auto
  then show "((db, max_depth, targets, n + 1, bounded', w'), (db, max_depth, targets, n, bounded, w))
    \<in> measures [\<lambda>(_, _, _, _, _, w). MAX_VISITED - length (wk_visited w), \<lambda>(_, _, _, _, _, w). length (wk_queue w)]"
    using w lt by (cases q) auto
qed auto

declare walk_loop.simps [simp del]

text \<open>The loop over the origins: the first that is a target ends it.\<close>

fun visit_origins :: "symbol_key list \<Rightarrow> symbol list \<Rightarrow> walk \<Rightarrow> symbol + walk" where
  "visit_origins targets [] w = Inr w"
| "visit_origins targets (s # ss) w =
     (if key_of s \<in> set targets then Inl s
      else if key_of s \<in> set (wk_visited w) then visit_origins targets ss w
      else visit_origins targets ss
             (w\<lparr>wk_queue := wk_queue w @ [(s, 0)], wk_visited := wk_visited w @ [key_of s]\<rparr>))"

definition unfound_note :: "call_path_request \<Rightarrow> bool \<Rightarrow> string" where
  "unfound_note req bounded =
     (if bounded
      then ''no call chain within '' @ show_nat (rq_max_depth req) @ '' hop'' @ (if rq_max_depth req = 1 then '''' else ''s'')
           @ '' via resolved name-based edges (search stopped at a bound, so an omitted path may exist)''
      else [CHR 0x27] @ rq_from req @ [CHR 0x27] @ '' does not reach '' @ [CHR 0x27] @ rq_to req @ [CHR 0x27]
           @ '' through any resolved name-based call edge in the index; ''
           @ ''dynamic dispatch, reflection, and callbacks leave no edge, so this is not proof no path exists'')"

definition trace_call_path :: "('e, 'x) call_index_scheme \<Rightarrow> call_path_request \<Rightarrow> ('e + call_path_report) option" where
  "trace_call_path db req =
     (case ci_endpoint db (rq_from req) of
        Inl e \<Rightarrow> Some (Inl e)
      | Inr (Missing note) \<Rightarrow> Some (Inr (unfound note False))
      | Inr (Found origins) \<Rightarrow>
          (case ci_endpoint db (rq_to req) of
             Inl e \<Rightarrow> Some (Inl e)
           | Inr (Missing note) \<Rightarrow> Some (Inr (unfound note False))
           | Inr (Found targets) \<Rightarrow>
               let tkeys = map key_of targets in
               (case visit_origins tkeys origins \<lparr>wk_queue = [], wk_visited = [], wk_parents = Map.empty\<rparr> of
                  Inl s \<Rightarrow> Some (Inr \<lparr>rp_found = True, rp_steps = [step_of s None], rp_length = 0,
                     rp_note = Some ''origin and target are the same symbol'', rp_bounded = False, rp_counts_floor = True\<rparr>)
                | Inr w \<Rightarrow>
                    (case walk_loop db (rq_max_depth req) tkeys 0 False w of
                       Inl e \<Rightarrow> Some (Inl e)
                     | Inr (Exhausted bounded) \<Rightarrow> Some (Inr (unfound (unfound_note req bounded) bounded))
                     | Inr (Hit target parents bounded) \<Rightarrow>
                         map_option (\<lambda>steps. Inr
                           \<lparr>rp_found = True, rp_steps = steps, rp_length = length steps - 1,
                            rp_note = (if bounded then Some ''A call chain was found, but a resolution bound may have hidden a shorter chain.'' else None),
                            rp_bounded = bounded, rp_counts_floor = True\<rparr>)
                           (reconstruct target parents (map key_of origins))))))"

section \<open>Call chains\<close>

definition call_edges :: "('e, 'x) call_index_scheme \<Rightarrow> (symbol \<times> symbol) set" where
  "call_edges db = {(s, t). \<exists>cs capped line. callees_of db s = Inr (cs, capped) \<and> (t, line) \<in> set cs}"

text \<open>The symbols that \<open>n\<close> calls lead to from an origin.\<close>

definition called_in :: "('e, 'x) call_index_scheme \<Rightarrow> symbol list \<Rightarrow> nat \<Rightarrow> symbol set" where
  "called_in db origins n = (call_edges db ^^ n) `` set origins"

definition called :: "('e, 'x) call_index_scheme \<Rightarrow> symbol list \<Rightarrow> symbol set" where
  "called db origins = (call_edges db)\<^sup>* `` set origins"

fun call_chain :: "('e, 'x) call_index_scheme \<Rightarrow> (symbol \<times> u32 option) list \<Rightarrow> bool" where
  "call_chain db ((s, l) # (t, m) # rest) \<longleftrightarrow>
     (\<exists>line cs capped. m = Some line \<and> callees_of db s = Inr (cs, capped) \<and> (t, line) \<in> set cs)
     \<and> call_chain db ((t, m) # rest)"
| "call_chain db _ \<longleftrightarrow> True"

inductive chain :: "('e, 'x) call_index_scheme \<Rightarrow> symbol list \<Rightarrow> parents \<Rightarrow> symbol \<Rightarrow> nat \<Rightarrow> bool"
  for db origins parents where
  origin: "s \<in> set origins \<Longrightarrow> parents (key_of s) = None \<Longrightarrow> chain db origins parents s 0"
| call: "key_of t \<notin> key_of ` set origins \<Longrightarrow> parents (key_of t) = Some (s, line) \<Longrightarrow>
    callees_of db s = Inr (cs, capped) \<Longrightarrow> (t, line) \<in> set cs \<Longrightarrow> chain db origins parents s n \<Longrightarrow>
    chain db origins parents t (Suc n)"

lemma called_in_0: "called_in db origins 0 = set origins"
  by (auto simp: called_in_def)

lemma called_in_Suc: "called_in db origins (Suc n) = call_edges db `` called_in db origins n"
  by (auto simp: called_in_def)

lemma called_in_called: "t \<in> called_in db origins n \<Longrightarrow> t \<in> called db origins"
  by (auto simp: called_in_def called_def intro: relpow_imp_rtrancl)

lemma called_iff: "t \<in> called db origins \<longleftrightarrow> (\<exists>n. t \<in> called_in db origins n)"
  by (auto simp: called_in_def called_def Image_iff rtrancl_power)

lemma called_step: "s \<in> called db origins \<Longrightarrow> (s, t) \<in> call_edges db \<Longrightarrow> t \<in> called db origins"
  by (auto simp: called_def intro: rtrancl_into_rtrancl)

lemma chain_called_in: "chain db origins parents s n \<Longrightarrow> s \<in> called_in db origins n"
  by (induction rule: chain.induct) (auto simp: called_in_0 called_in_Suc call_edges_def)

lemma chain_mono:
  "chain db origins P s n \<Longrightarrow> P \<subseteq>\<^sub>m P' \<Longrightarrow> key_of ` set origins \<inter> dom P' = {} \<Longrightarrow> chain db origins P' s n"
proof (induction rule: chain.induct)
  case (origin s)
  then show ?case by (blast intro: chain.origin)
next
  case (call t s line cs capped n)
  have "P' (key_of t) = Some (s, line)" using call.hyps(2) call.prems(1) by (metis domI map_le_def)
  then show ?case using call by (blast intro: chain.call)
qed

lemma call_chain_snoc:
  "call_chain db ch \<Longrightarrow> ch \<noteq> [] \<Longrightarrow> callees_of db (fst (last ch)) = Inr (cs, capped) \<Longrightarrow> (t, line) \<in> set cs \<Longrightarrow>
   call_chain db (ch @ [(t, Some line)])"
proof (induction db ch rule: call_chain.induct)
  case (1 db s l t m rest)
  then show ?case by (cases rest) auto
qed auto

lemma reconstruct_loop_chain:
  "chain db origins P s n \<Longrightarrow> key_of ` set origins \<inter> dom P = {} \<Longrightarrow>
   \<exists>ch. reconstruct_loop P (map key_of origins) s = Some ch \<and> length ch = Suc n \<and> fst (hd ch) = s
     \<and> call_chain db (rev ch) \<and> (\<exists>s\<^sub>0 \<in> set origins. hd (rev ch) = (s\<^sub>0, None))"
proof (induction rule: chain.induct)
  case (origin s)
  then show ?case by (subst reconstruct_loop.simps) (auto simp: Let_def)
next
  case (call t s line cs capped n)
  then obtain ch where ch: "reconstruct_loop P (map key_of origins) s = Some ch" "length ch = Suc n"
    "fst (hd ch) = s" "call_chain db (rev ch)" "\<exists>s\<^sub>0 \<in> set origins. hd (rev ch) = (s\<^sub>0, None)" by blast
  have ne: "rev ch \<noteq> []" using ch(2) by auto
  have "reconstruct_loop P (map key_of origins) t = Some ((t, Some line) # ch)"
    using call.hyps ch(1) by (subst reconstruct_loop.simps) (auto simp: Let_def)
  moreover have "call_chain db (rev ((t, Some line) # ch))"
    using call_chain_snoc [OF ch(4) ne] call.hyps(3,4) ch(3) ne by (simp add: last_rev)
  moreover have "hd (rev ((t, Some line) # ch)) = hd (rev ch)" using ne by simp
  ultimately show ?case using ch(2,5) by auto
qed

section \<open>The invariant of the walk\<close>

definition walk_ok :: "('e, 'x) call_index_scheme \<Rightarrow> symbol list \<Rightarrow> symbol_key list \<Rightarrow> walk \<Rightarrow> bool" where
  "walk_ok db origins targets w \<longleftrightarrow>
     (\<forall>(s, d) \<in> set (wk_queue w). chain db origins (wk_parents w) s d)
     \<and> set (wk_visited w) = key_of ` set origins \<union> dom (wk_parents w)
     \<and> key_of ` set origins \<inter> dom (wk_parents w) = {} \<and> set (wk_visited w) \<inter> set targets = {}"

lemma walk_ok_pop: "walk_ok db origins targets w \<Longrightarrow> wk_queue w = x # rest \<Longrightarrow> walk_ok db origins targets (w\<lparr>wk_queue := rest\<rparr>)"
  by (auto simp: walk_ok_def)

lemma chain_fresh:
  assumes "walk_ok db origins targets w" and "chain db origins (wk_parents w) s n"
    and "key_of t \<notin> set (wk_visited w)" and "callees_of db s = Inr (cs, capped)" and "(t, line) \<in> set cs"
  defines "P \<equiv> (wk_parents w)(key_of t \<mapsto> (s, line))"
  shows "chain db origins P t (Suc n)" and "chain db origins (wk_parents w) s' m \<Longrightarrow> chain db origins P s' m"
    and "key_of ` set origins \<inter> dom P = {}"
proof -
  have le: "wk_parents w \<subseteq>\<^sub>m P"
    using assms(1,3) by (auto simp: P_def walk_ok_def map_le_def)
  show dj: "key_of ` set origins \<inter> dom P = {}"
    using assms(1,3) by (auto simp: P_def walk_ok_def)
  show "chain db origins P s' m" if "chain db origins (wk_parents w) s' m"
    using chain_mono [OF that le dj] .
  have "key_of t \<notin> key_of ` set origins" using assms(1,3) by (auto simp: walk_ok_def)
  then show "chain db origins P t (Suc n)"
    using chain_mono [OF assms(2) le dj] assms(4,5) by (auto intro!: chain.call [of t _ _ s line] simp: P_def)
qed

lemma visit_callees_ok:
  assumes "walk_ok db origins targets w" and "chain db origins (wk_parents w) s n"
    and "callees_of db s = Inr (cs0, capped)" and "set cs \<subseteq> set cs0"
  shows "case visit_callees targets s n cs w of
           Inl (t, P) \<Rightarrow> key_of t \<in> set targets \<and> chain db origins P t (Suc n) \<and> key_of ` set origins \<inter> dom P = {}
         | Inr w' \<Rightarrow> walk_ok db origins targets w'"
  using assms
proof (induction cs arbitrary: w)
  case (Cons c cs)
  obtain t line where c: "c = (t, line)" by force
  have t: "(t, line) \<in> set cs0" using Cons.prems(4) by (simp add: c)
  have fresh: "key_of t \<notin> set (wk_visited w)" if "key_of t \<in> set targets"
    using Cons.prems(1) that by (auto simp: walk_ok_def)
  note ch = chain_fresh [OF Cons.prems(1,2) _ Cons.prems(3) t]
  consider "key_of t \<in> set targets" | "key_of t \<notin> set targets" "key_of t \<in> set (wk_visited w)"
    | "key_of t \<notin> set targets" "key_of t \<notin> set (wk_visited w)" by blast
  then show ?case
  proof cases
    case 1
    then show ?thesis using ch(1,3) [OF fresh [OF 1]] by (simp add: c)
  next
    case 2
    then show ?thesis using Cons by (simp add: c)
  next
    case 3
    let ?w = "\<lparr>wk_queue = wk_queue w @ [(t, n + 1)], wk_visited = wk_visited w @ [key_of t],
        wk_parents = (wk_parents w)(key_of t \<mapsto> (s, line))\<rparr>"
    have "chain db origins (wk_parents ?w) a b" if "(a, b) \<in> set (wk_queue w)" for a b
      using ch(2) [OF 3(2), of a b] Cons.prems(1) that by (auto simp: walk_ok_def)
    then have "walk_ok db origins targets ?w"
      using Cons.prems(1) ch(1,3) [OF 3(2)] 3 by (auto simp: walk_ok_def)
    moreover have "chain db origins (wk_parents ?w) s n" using ch(2) [OF 3(2), of s n] Cons.prems(2) by simp
    ultimately have "case visit_callees targets s n cs ?w of
           Inl (t, P) \<Rightarrow> key_of t \<in> set targets \<and> chain db origins P t (Suc n) \<and> key_of ` set origins \<inter> dom P = {}
         | Inr w' \<Rightarrow> walk_ok db origins targets w'"
      by (rule Cons.IH [OF _ _ Cons.prems(3)]) (use Cons.prems(4) in simp)
    then show ?thesis using 3 by (simp add: c)
  qed
qed simp

lemma visit_callees_new:
  "visit_callees targets s n cs w = Inr w' \<Longrightarrow>
   \<exists>q. wk_queue w' = wk_queue w @ q \<and> set (wk_visited w') = set (wk_visited w) \<union> (key_of \<circ> fst) ` set cs
     \<and> (\<forall>(t, d) \<in> set q. d = Suc n \<and> t \<in> fst ` set cs)
     \<and> set (wk_visited w') \<subseteq> set (wk_visited w) \<union> (key_of \<circ> fst) ` set q"
proof (induction cs arbitrary: w)
  case (Cons c cs)
  obtain t line where c: "c = (t, line)" by force
  show ?case
  proof (cases "key_of t \<in> set (wk_visited w)")
    case True
    have "visit_callees targets s n cs w = Inr w'" using Cons.prems True by (simp add: c split: if_splits)
    from Cons.IH [OF this] True show ?thesis by (auto simp: c)
  next
    case False
    let ?w = "\<lparr>wk_queue = wk_queue w @ [(t, n + 1)], wk_visited = wk_visited w @ [key_of t],
        wk_parents = (wk_parents w)(key_of t \<mapsto> (s, line))\<rparr>"
    have "visit_callees targets s n cs ?w = Inr w'" using Cons.prems False by (simp add: c split: if_splits)
    from Cons.IH [OF this] obtain q where q: "wk_queue w' = wk_queue ?w @ q"
      "set (wk_visited w') = set (wk_visited ?w) \<union> (key_of \<circ> fst) ` set cs"
      "\<forall>(t, d) \<in> set q. d = Suc n \<and> t \<in> fst ` set cs"
      "set (wk_visited w') \<subseteq> set (wk_visited ?w) \<union> (key_of \<circ> fst) ` set q" by blast
    show ?thesis
      by (rule exI [of _ "(t, Suc n) # q"]) (use q in \<open>auto simp: c\<close>)
  qed
qed simp

text \<open>A symbol is expanded when all its callees have been visited.\<close>

definition expanded :: "('e, 'x) call_index_scheme \<Rightarrow> symbol_key set \<Rightarrow> symbol \<Rightarrow> bool" where
  "expanded db V s \<longleftrightarrow> (\<exists>cs capped. callees_of db s = Inr (cs, capped) \<and> (key_of \<circ> fst) ` set cs \<subseteq> V)"

text \<open>
  The level order of the queue: depth \<open>d\<close>, then depth \<open>d + 1\<close>; what is at most \<open>d\<close> calls away is visited,
  and expanded unless it is queued at depth \<open>d\<close>; what is visited is expanded or queued.
\<close>

definition frontier :: "('e, 'x) call_index_scheme \<Rightarrow> symbol list \<Rightarrow> symbol_key set \<Rightarrow> (symbol \<times> nat) list \<Rightarrow> nat \<Rightarrow> bool" where
  "frontier db origins V queue d \<longleftrightarrow>
     (\<exists>q\<^sub>1 q\<^sub>2. queue = q\<^sub>1 @ q\<^sub>2 \<and> (\<forall>x \<in> set q\<^sub>1. snd x = d) \<and> (\<forall>x \<in> set q\<^sub>2. snd x = Suc d) \<and> (q\<^sub>1 = [] \<longrightarrow> q\<^sub>2 = [])
        \<and> (\<forall>n \<le> d. \<forall>t \<in> called_in db origins n. key_of t \<in> V \<and> (expanded db V t \<or> t \<in> fst ` set q\<^sub>1)))
     \<and> (\<forall>t \<in> called db origins. key_of t \<in> V \<longrightarrow> expanded db V t \<or> t \<in> fst ` set queue)"

lemma frontierI:
  assumes "queue = q\<^sub>1 @ q\<^sub>2" and "\<forall>x \<in> set q\<^sub>1. snd x = d" and "\<forall>x \<in> set q\<^sub>2. snd x = Suc d" and "q\<^sub>1 = [] \<longrightarrow> q\<^sub>2 = []"
    and "\<And>n t. n \<le> d \<Longrightarrow> t \<in> called_in db origins n \<Longrightarrow> key_of t \<in> V \<and> (expanded db V t \<or> t \<in> fst ` set q\<^sub>1)"
    and "\<And>t. t \<in> called db origins \<Longrightarrow> key_of t \<in> V \<Longrightarrow> expanded db V t \<or> t \<in> fst ` set queue"
  shows "frontier db origins V queue d"
  using assms unfolding frontier_def by blast

lemma expanded_mono: "expanded db V s \<Longrightarrow> V \<subseteq> V' \<Longrightarrow> expanded db V' s"
  unfolding expanded_def by blast

lemma frontier_head:
  assumes "frontier db origins V ((s, m) # rest) d"
  shows "m = d" and "\<forall>x \<in> set rest. d \<le> snd x"
proof -
  obtain q1 q2 where q: "(s, m) # rest = q1 @ q2" "\<forall>x \<in> set q1. snd x = d" "\<forall>x \<in> set q2. snd x = Suc d" "q1 = [] \<longrightarrow> q2 = []"
    using assms unfolding frontier_def by blast
  then obtain q1' where "q1 = (s, m) # q1'" "rest = q1' @ q2" by (cases q1) auto
  then show "m = d" and "\<forall>x \<in> set rest. d \<le> snd x" using q by auto
qed

lemma frontier_step:
  assumes f: "frontier db origins V ((s, d) # rest) d" and inj: "inj_on key_of (called db origins)"
    and s: "s \<in> called db origins" and cs: "callees_of db s = Inr (cs, capped)"
    and V': "V' = V \<union> (key_of \<circ> fst) ` set cs"
    and q: "\<forall>(t, m) \<in> set q. m = Suc d \<and> t \<in> fst ` set cs" and new: "V' \<subseteq> V \<union> (key_of \<circ> fst) ` set q"
  shows "\<exists>d'. frontier db origins V' (rest @ q) d'"
proof -
  obtain q1 q2 where qs: "(s, d) # rest = q1 @ q2" "\<forall>x \<in> set q1. snd x = d" "\<forall>x \<in> set q2. snd x = Suc d" "q1 = [] \<longrightarrow> q2 = []"
    and near: "\<And>n t. n \<le> d \<Longrightarrow> t \<in> called_in db origins n \<Longrightarrow> key_of t \<in> V \<and> (expanded db V t \<or> t \<in> fst ` set q1)"
    and closed: "\<And>t. t \<in> called db origins \<Longrightarrow> key_of t \<in> V \<Longrightarrow> expanded db V t \<or> t \<in> fst ` set ((s, d) # rest)"
    using f unfolding frontier_def by blast
  obtain q1' where q1': "q1 = (s, d) # q1'" and rest: "rest = q1' @ q2" using qs by (cases q1) auto
  have sub: "V \<subseteq> V'" using V' by blast
  have s_exp: "expanded db V' s" using cs V' unfolding expanded_def by blast
  have near': "key_of t \<in> V' \<and> (expanded db V' t \<or> t \<in> fst ` set q1')" if "n \<le> d" "t \<in> called_in db origins n" for n t
    using near [OF that] s_exp expanded_mono [OF _ sub] sub by (auto simp: q1')
  have closed': "expanded db V' t \<or> t \<in> fst ` set (rest @ q)" if t: "t \<in> called db origins" "key_of t \<in> V'" for t
  proof (cases "key_of t \<in> V")
    case True
    then show ?thesis using closed [OF t(1) True] s_exp expanded_mono [OF _ sub] by auto
  next
    case False
    then obtain u m where u: "(u, m) \<in> set q" "key_of u = key_of t" using new t(2) by auto
    then have "(s, u) \<in> call_edges db" using q cs by (force simp: call_edges_def)
    then have "u = t" using inj_onD [OF inj u(2)] called_step [OF s] t(1) by blast
    then show ?thesis using u(1) by force
  qed
  show ?thesis
  proof (cases "q1' = []")
    case False
    have "frontier db origins V' (rest @ q) d"
    proof (rule frontierI [OF _ _ _ _ near' closed'])
      show "rest @ q = q1' @ q2 @ q" using rest by simp
      show "\<forall>x \<in> set (q2 @ q). snd x = Suc d" using qs(3) q by auto
    qed (use False qs(2) q1' in auto)
    then show ?thesis ..
  next
    case True
    have far: "key_of t \<in> V' \<and> (expanded db V' t \<or> t \<in> fst ` set (q2 @ q))"
      if t: "n \<le> Suc d" "t \<in> called_in db origins n" for n t
    proof (cases "n \<le> d")
      case le: True
      then show ?thesis using near' [OF le t(2)] True by simp
    next
      case False
      then have "n = Suc d" using t(1) by simp
      then obtain u where u: "u \<in> called_in db origins d" "(u, t) \<in> call_edges db"
        using t(2) by (auto simp: called_in_Suc)
      have "expanded db V' u" using near' [OF order_refl u(1)] True by simp
      then have "key_of t \<in> V'" using u(2) by (force simp: expanded_def call_edges_def)
      then show ?thesis using closed' [OF called_in_called [OF t(2)]] rest True by simp
    qed
    have "frontier db origins V' (rest @ q) (Suc d)"
    proof (rule frontierI [OF _ _ _ _ far closed'])
      show "rest @ q = (q2 @ q) @ []" using rest True by simp
      show "\<forall>x \<in> set (q2 @ q). snd x = Suc d" using qs(3) q by auto
    qed auto
    then show ?thesis ..
  qed
qed

lemma walk_loop_too_deep:
  "\<forall>x \<in> set (wk_queue w). max_depth \<le> snd x \<Longrightarrow>
   walk_loop db max_depth targets n bounded w = Inr (Exhausted (bounded \<or> wk_queue w \<noteq> []))"
proof (induction "length (wk_queue w)" arbitrary: w bounded)
  case 0
  then show ?case by (subst walk_loop.simps) simp
next
  case (Suc k)
  obtain s m rest where q: "wk_queue w = (s, m) # rest" using Suc.hyps(2) by (metis length_Suc_conv surj_pair)
  have "walk_loop db max_depth targets n bounded w = walk_loop db max_depth targets n True (w\<lparr>wk_queue := rest\<rparr>)"
    using Suc.prems q by (subst walk_loop.simps) simp
  also have "\<dots> = Inr (Exhausted True)" using Suc.hyps(1) [of "w\<lparr>wk_queue := rest\<rparr>" True] Suc.hyps(2) Suc.prems q by simp
  finally show ?case using q by simp
qed

text \<open>What the walk delivers from a state that satisfies its invariants.\<close>

definition walk_result :: "('e, 'x) call_index_scheme \<Rightarrow> symbol list \<Rightarrow> symbol_key list \<Rightarrow> walk_end \<Rightarrow> bool" where
  "walk_result db origins targets res \<longleftrightarrow>
     (case res of
        Hit t P bounded \<Rightarrow> \<exists>n. key_of t \<in> set targets \<and> chain db origins P t n \<and> key_of ` set origins \<inter> dom P = {}
          \<and> (inj_on key_of (called db origins) \<longrightarrow> (\<forall>m < n. key_of ` called_in db origins m \<inter> set targets = {}))
      | Exhausted bounded \<Rightarrow>
          inj_on key_of (called db origins) \<and> \<not> bounded \<longrightarrow> key_of ` called db origins \<inter> set targets = {})"

lemma frontier_empty:
  assumes "frontier db origins V [] d" and "key_of ` set origins \<subseteq> V"
  shows "key_of ` called db origins \<subseteq> V"
proof -
  have "key_of t \<in> V" if "t \<in> called_in db origins m" for m t
    using that
  proof (induction m arbitrary: t)
    case (Suc m)
    then obtain u where u: "u \<in> called_in db origins m" "(u, t) \<in> call_edges db" by (auto simp: called_in_Suc)
    have "expanded db V u" using assms(1) Suc.IH [OF u(1)] called_in_called [OF u(1)] by (simp add: frontier_def)
    then show ?case using u(2) by (force simp: expanded_def call_edges_def)
  qed (use assms(2) in \<open>auto simp: called_in_0\<close>)
  then show ?thesis by (auto simp: called_iff)
qed

lemma frontier_near:
  assumes "frontier db origins V ((s, m) # rest) d" and "n \<le> m" and "t \<in> called_in db origins n"
  shows "key_of t \<in> V"
  using assms frontier_head(1) [OF assms(1)] unfolding frontier_def by blast

lemma walk_loop_result:
  assumes "walk_ok db origins targets w"
    and "inj_on key_of (called db origins) \<Longrightarrow> \<exists>d. frontier db origins (set (wk_visited w)) (wk_queue w) d"
    and "walk_loop db max_depth targets n bounded w = Inr res"
  shows "walk_result db origins targets res"
  using assms
proof (induction db max_depth targets n bounded w rule: walk_loop.induct)
  case (1 db max_depth targets n bounded w)
  note run = "1.prems"(3) [unfolded walk_loop.simps [of db max_depth targets n bounded w]]
  show ?case
  proof (cases "wk_queue w")
    case Nil
    have "key_of ` called db origins \<inter> set targets = {}" if inj: "inj_on key_of (called db origins)"
    proof -
      obtain d where "frontier db origins (set (wk_visited w)) [] d" using "1.prems"(2) [OF inj] Nil by auto
      then have "key_of ` called db origins \<subseteq> set (wk_visited w)"
        using "1.prems"(1) by (intro frontier_empty) (auto simp: walk_ok_def)
      moreover have "set (wk_visited w) \<inter> set targets = {}" using "1.prems"(1) unfolding walk_ok_def by (elim conjE)
      ultimately show ?thesis by blast
    qed
    then show ?thesis using run Nil by (auto simp: walk_result_def)
  next
    case (Cons x rest)
    obtain s m where x: "x = (s, m)" by force
    note q = Cons [unfolded x]
    show ?thesis
    proof (cases "max_depth \<le> m")
      case True
      show ?thesis
      proof (cases "inj_on key_of (called db origins)")
        case inj: True
        then have "\<forall>x \<in> set (wk_queue w). max_depth \<le> snd x"
          using "1.prems"(2) True frontier_head [of db origins _ s m rest] by (fastforce simp: q)
        then have "res = Exhausted True" using walk_loop_too_deep [of w max_depth db targets n bounded] "1.prems"(3) q by simp
        then show ?thesis by (simp add: walk_result_def)
      next
        case False
        show ?thesis
          using "1.IH"(1) [OF q refl True walk_ok_pop [OF "1.prems"(1) q]] False run True by (simp add: q)
      qed
    next
      case deep: False
      show ?thesis
      proof (cases "MAX_VISITED \<le> length (wk_visited w)")
        case True
        then have "res = Exhausted True" using run deep by (simp add: q)
        then show ?thesis by (simp add: walk_result_def)
      next
        case room: False
        have run': "(case callees_of db s of Inl e \<Rightarrow> Inl e | Inr (cs, capped) \<Rightarrow>
            let bounded' = (bounded \<or> capped \<or> ci_capped db n) in
            (case visit_callees targets s m cs (w\<lparr>wk_queue := rest\<rparr>) of
               Inl (target, parents) \<Rightarrow> Inr (Hit target parents bounded')
             | Inr w' \<Rightarrow> walk_loop db max_depth targets (n + 1) bounded' w')) = Inr res"
          using run deep room by (simp add: q)
        then obtain cs capped where cs: "callees_of db s = Inr (cs, capped)" by (auto split: sum.splits)
        have s: "chain db origins (wk_parents w) s m" using "1.prems"(1) by (auto simp: walk_ok_def q)
        note visit = visit_callees_ok [OF walk_ok_pop [OF "1.prems"(1) q] _ cs order_refl, simplified, OF s]
        show ?thesis
        proof (cases "visit_callees targets s m cs (w\<lparr>wk_queue := rest\<rparr>)")
          case (Inl tp)
          obtain t P where tp: "tp = (t, P)" by force
          have res: "res = Hit t P (bounded \<or> capped \<or> ci_capped db n)"
            using run' cs Inl by (simp add: tp)
          have "\<forall>k < Suc m. key_of ` called_in db origins k \<inter> set targets = {}" if "inj_on key_of (called db origins)"
            using "1.prems"(2) [OF that] frontier_near [of db origins _ s m rest] "1.prems"(1)
            by (fastforce simp: q walk_ok_def less_Suc_eq_le)
          then show ?thesis using visit by (auto simp: Inl tp res walk_result_def)
        next
          case (Inr w')
          have ok: "walk_ok db origins targets w'" using visit by (simp add: Inr)
          obtain nq where nq: "wk_queue w' = rest @ nq" "set (wk_visited w') = set (wk_visited w) \<union> (key_of \<circ> fst) ` set cs"
            "\<forall>(t, d) \<in> set nq. d = Suc m \<and> t \<in> fst ` set cs"
            "set (wk_visited w') \<subseteq> set (wk_visited w) \<union> (key_of \<circ> fst) ` set nq"
            using visit_callees_new [OF Inr] by auto
          have "\<exists>d. frontier db origins (set (wk_visited w')) (wk_queue w') d" if inj: "inj_on key_of (called db origins)"
          proof -
            obtain d where f: "frontier db origins (set (wk_visited w)) ((s, m) # rest) d"
              using "1.prems"(2) [OF inj] by (auto simp: q)
            have "d = m" using frontier_head(1) [OF f] by simp
            from frontier_step [OF f [unfolded this] inj _ cs nq(2-4)] chain_called_in [OF s] called_in_called
            show ?thesis unfolding nq(1) by blast
          qed
          moreover have "walk_loop db max_depth targets (n + 1) (bounded \<or> capped \<or> ci_capped db n) w' = Inr res"
            using run' cs Inr by simp
          ultimately show ?thesis
            using "1.IH"(2) [OF q refl deep room cs refl refl Inr ok] by blast
        qed
      qed
    qed
  qed
qed

lemma visit_origins_spec:
  "visit_origins targets ss w = Inr w' \<Longrightarrow>
   \<exists>q. wk_queue w' = wk_queue w @ q \<and> wk_parents w' = wk_parents w \<and> (\<forall>(s, d) \<in> set q. d = 0 \<and> s \<in> set ss)
     \<and> set (wk_visited w') = set (wk_visited w) \<union> key_of ` set ss
     \<and> set (wk_visited w') \<subseteq> set (wk_visited w) \<union> (key_of \<circ> fst) ` set q
     \<and> key_of ` set ss \<inter> set targets = {}"
proof (induction ss arbitrary: w)
  case (Cons s ss)
  have t: "key_of s \<notin> set targets" using Cons.prems by (auto split: if_splits)
  show ?case
  proof (cases "key_of s \<in> set (wk_visited w)")
    case True
    then have "visit_origins targets ss w = Inr w'" using Cons.prems t by simp
    from Cons.IH [OF this] True t show ?thesis by auto
  next
    case False
    let ?w = "w\<lparr>wk_queue := wk_queue w @ [(s, 0)], wk_visited := wk_visited w @ [key_of s]\<rparr>"
    have "visit_origins targets ss ?w = Inr w'" using Cons.prems t False by simp
    from Cons.IH [OF this] obtain q where q: "wk_queue w' = wk_queue ?w @ q" "wk_parents w' = wk_parents ?w"
      "\<forall>(s, d) \<in> set q. d = 0 \<and> s \<in> set ss" "set (wk_visited w') = set (wk_visited ?w) \<union> key_of ` set ss"
      "set (wk_visited w') \<subseteq> set (wk_visited ?w) \<union> (key_of \<circ> fst) ` set q" "key_of ` set ss \<inter> set targets = {}" by blast
    show ?thesis by (rule exI [of _ "(s, 0) # q"]) (use q t in auto)
  qed
qed simp

lemma visit_origins_Inl: "visit_origins targets ss w = Inl s \<Longrightarrow> s \<in> set ss \<and> key_of s \<in> set targets"
  by (induction ss arbitrary: w) (auto split: if_splits)

abbreviation start_walk :: walk where
  "start_walk \<equiv> \<lparr>wk_queue = [], wk_visited = [], wk_parents = Map.empty\<rparr>"

lemma origins_walk:
  assumes "visit_origins targets origins start_walk = Inr w"
  shows "walk_ok db origins targets w"
    and "inj_on key_of (called db origins) \<Longrightarrow> \<exists>d. frontier db origins (set (wk_visited w)) (wk_queue w) d"
proof -
  from visit_origins_spec [OF assms] have q: "wk_parents w = Map.empty" "\<forall>(s, d) \<in> set (wk_queue w). d = 0 \<and> s \<in> set origins"
    "set (wk_visited w) = key_of ` set origins" "key_of ` set origins \<subseteq> (key_of \<circ> fst) ` set (wk_queue w)"
    "key_of ` set origins \<inter> set targets = {}" by auto
  show "walk_ok db origins targets w"
    using q by (auto simp: walk_ok_def intro: chain.origin)
  have origins: "set origins \<subseteq> called db origins" by (auto simp: called_def)
  have queued: "t \<in> fst ` set (wk_queue w)"
    if inj: "inj_on key_of (called db origins)" and t: "t \<in> called db origins" "key_of t \<in> set (wk_visited w)" for t
  proof -
    have "key_of t \<in> (key_of \<circ> fst) ` set (wk_queue w)" using subsetD [OF q(4)] t(2) unfolding q(3) .
    then obtain s d where s: "(s, d) \<in> set (wk_queue w)" "key_of s = key_of t" by (metis comp_apply imageE prod.collapse)
    then have "s \<in> called db origins" using q(2) origins by auto
    then have "s = t" using inj_onD [OF inj s(2)] t(1) by simp
    then show ?thesis using s(1) by force
  qed
  show "\<exists>d. frontier db origins (set (wk_visited w)) (wk_queue w) d" if inj: "inj_on key_of (called db origins)"
  proof
    show "frontier db origins (set (wk_visited w)) (wk_queue w) 0"
    proof (rule frontierI [of _ "wk_queue w" "[]"])
      show "key_of t \<in> set (wk_visited w) \<and> (expanded db (set (wk_visited w)) t \<or> t \<in> fst ` set (wk_queue w))"
        if "n \<le> 0" "t \<in> called_in db origins n" for n t
        using that q(3) queued [OF inj called_in_called [OF that(2)]] by (simp add: called_in_0)
    qed (use q(2) queued [OF inj] in auto)
  qed
qed

text \<open>The report of a finished trace, for endpoints that both name definitions.\<close>

lemma trace_call_path_cases:
  assumes "ci_endpoint db (rq_from req) = Inr (Found origins)" and "ci_endpoint db (rq_to req) = Inr (Found targets)"
  obtains (error) e where "trace_call_path db req = Some (Inl e)"
  | (same) s rep where "s \<in> set origins" "key_of s \<in> key_of ` set targets" "trace_call_path db req = Some (Inr rep)"
      "rp_found rep" "rp_steps rep = [step_of s None]" "rp_length rep = 0"
  | (none) rep where "trace_call_path db req = Some (Inr rep)" "\<not> rp_found rep"
      "walk_result db origins (map key_of targets) (Exhausted (rp_bounded rep))"
  | (hit) t P rep ch where "trace_call_path db req = Some (Inr rep)" "rp_found rep"
      "walk_result db origins (map key_of targets) (Hit t P (rp_bounded rep))"
      "reconstruct_loop P (map key_of origins) t = Some ch" "rp_steps rep = map (\<lambda>(s, l). step_of s l) (rev ch)"
      "rp_length rep = length ch - 1"
proof (cases "visit_origins (map key_of targets) origins start_walk")
  case (Inl s)
  show ?thesis
    by (rule same [of s "\<lparr>rp_found = True, rp_steps = [step_of s None], rp_length = 0,
         rp_note = Some ''origin and target are the same symbol'', rp_bounded = False, rp_counts_floor = True\<rparr>"])
      (use visit_origins_Inl [OF Inl] Inl assms in \<open>auto simp: trace_call_path_def\<close>)
next
  case (Inr w)
  note start = origins_walk [OF Inr]
  show ?thesis
  proof (cases "walk_loop db (rq_max_depth req) (map key_of targets) 0 False w")
    case (Inl e)
    then show ?thesis using error Inr assms by (simp add: trace_call_path_def)
  next
    case res: (Inr res)
    note result = walk_loop_result [OF start res]
    show ?thesis
    proof (cases res)
      case (Exhausted bounded)
      then show ?thesis
        using none [of "unfound (unfound_note req bounded) bounded"] result Inr res assms
        by (simp add: trace_call_path_def unfound_def)
    next
      case (Hit t P bounded)
      obtain n where "chain db origins P t n" "key_of ` set origins \<inter> dom P = {}"
        using result unfolding Hit walk_result_def by auto
      from reconstruct_loop_chain [OF this] obtain ch where ch: "reconstruct_loop P (map key_of origins) t = Some ch" by blast
      show ?thesis
        using hit [of _ t P ch] result Inr res assms ch
        by (simp add: trace_call_path_def Hit reconstruct_def)
    qed
  qed
qed

lemma hit_chain:
  assumes "walk_result db origins targets (Hit t P bounded)" and "reconstruct_loop P (map key_of origins) t = Some ch"
  shows "ch \<noteq> []" and "call_chain db (rev ch)" and "key_of (fst (last (rev ch))) \<in> set targets"
    and "fst (hd (rev ch)) \<in> set origins" and "snd (hd (rev ch)) = None"
    and "inj_on key_of (called db origins) \<Longrightarrow> m < length ch - 1 \<Longrightarrow> key_of ` called_in db origins m \<inter> set targets = {}"
proof -
  obtain n where t: "key_of t \<in> set targets" "chain db origins P t n" "key_of ` set origins \<inter> dom P = {}"
    "inj_on key_of (called db origins) \<longrightarrow> (\<forall>m < n. key_of ` called_in db origins m \<inter> set targets = {})"
    using assms(1) by (auto simp: walk_result_def)
  have ch: "length ch = Suc n" "fst (hd ch) = t" "call_chain db (rev ch)" "\<exists>s\<^sub>0 \<in> set origins. hd (rev ch) = (s\<^sub>0, None)"
    using reconstruct_loop_chain [OF t(2,3)] assms(2) by auto
  then show "ch \<noteq> []" and "call_chain db (rev ch)" and "fst (hd (rev ch)) \<in> set origins" and "snd (hd (rev ch)) = None"
    by auto
  then show "key_of (fst (last (rev ch))) \<in> set targets" using t(1) ch(2) by (simp add: last_rev)
  show "key_of ` called_in db origins m \<inter> set targets = {}" if "inj_on key_of (called db origins)" "m < length ch - 1"
    using t(4) that ch(1) by simp
qed

section \<open>Properties\<close>

text \<open>
  C35. The trace always ends, and a chain it reports is real: it starts at an origin, ends at a target,
  every step is called by the one before it on the reported line, and the length is the number of calls.
\<close>

theorem call_path_sound:
  "\<exists>res. trace_call_path db req = Some res \<and>
     (\<forall>rep. res = Inr rep \<and> rp_found rep \<longrightarrow>
        (\<exists>origins targets ch. ci_endpoint db (rq_from req) = Inr (Found origins)
           \<and> ci_endpoint db (rq_to req) = Inr (Found targets)
           \<and> rp_steps rep = map (\<lambda>(s, line). step_of s line) ch \<and> rp_length rep = length ch - 1
           \<and> ch \<noteq> [] \<and> fst (hd ch) \<in> set origins \<and> snd (hd ch) = None
           \<and> key_of (fst (last ch)) \<in> key_of ` set targets \<and> call_chain db ch))"
proof (cases "ci_endpoint db (rq_from req)")
  case (Inr fe)
  show ?thesis
  proof (cases "ci_endpoint db (rq_to req)")
    case to: (Inr te)
    show ?thesis
    proof (cases "\<exists>origins targets. fe = Found origins \<and> te = Found targets")
      case True
      then obtain origins targets where ends: "ci_endpoint db (rq_from req) = Inr (Found origins)"
        "ci_endpoint db (rq_to req) = Inr (Found targets)" using Inr to by blast
      from ends show ?thesis
      proof (cases rule: trace_call_path_cases)
        case (same s rep)
        then show ?thesis
          using ends by (intro exI [of _ "Inr rep"] conjI allI impI exI [of _ origins] exI [of _ targets] exI [of _ "[(s, None)]"]) auto
      next
        case (hit t P rep ch)
        note chain = hit_chain [OF hit(3,4)]
        show ?thesis
          using ends hit chain(1-5)
          by (intro exI [of _ "Inr rep"] conjI allI impI exI [of _ origins] exI [of _ targets] exI [of _ "rev ch"]) auto
      qed (auto simp: ends)
    next
      case False
      then show ?thesis using Inr to by (cases fe; cases te) (auto simp: trace_call_path_def unfound_def)
    qed
  qed (use Inr in \<open>cases fe; auto simp: trace_call_path_def unfound_def\<close>)
qed (simp add: trace_call_path_def)

text \<open>
  C5. A reported chain is a shortest one: when a key names one definition, no target is reached from an origin by fewer calls than
  the reported length, over the callees the index resolves.
\<close>

theorem call_path_shortest:
  assumes "ci_endpoint db (rq_from req) = Inr (Found origins)" and "ci_endpoint db (rq_to req) = Inr (Found targets)"
    and "inj_on key_of (called db origins)"
    and "trace_call_path db req = Some (Inr rep)" and "rp_found rep" and "m < rp_length rep"
  shows "key_of ` called_in db origins m \<inter> key_of ` set targets = {}"
  using assms(1,2)
proof (cases rule: trace_call_path_cases)
  case (hit t P rep' ch)
  then show ?thesis using hit_chain(6) [OF hit(3,4) assms(3), of m] assms(4,6) by simp
qed (use assms in auto)


subsection \<open>A sample index\<close>

definition sample_symbol :: "string \<Rightarrow> u32 \<Rightarrow> symbol" where
  "sample_symbol name line =
     \<lparr>sym_name = name, sym_qualified_name = name, sym_kind = SK_Function, sym_file_path = ''m.rs'',
      sym_line_start = line, sym_line_end = line, sym_col_start = 0, sym_col_end = 0, sym_rationale = [],
      sym_visibility = None, sym_signature = None, sym_is_test = False, sym_overloaded = False\<rparr>"

definition sample_call :: "u32 \<Rightarrow> string \<Rightarrow> reference" where
  "sample_call line name =
     \<lparr>ref_from_file = ''m.rs'', ref_from_symbol = None, ref_to_name = name, ref_kind = RK_Call, ref_line = line,
      ref_col = 0, ref_lazy = False, ref_is_test = False, ref_to = None, ref_from_line = None\<rparr>"

text \<open>\<open>a\<close> calls \<open>b\<close>, which calls \<open>c\<close> and \<open>a\<close>; nothing calls \<open>d\<close>.\<close>

definition sample_index :: "string call_index" where
  "sample_index =
     \<lparr>ci_endpoint = (\<lambda>n. Inr (Found [sample_symbol n (if n = ''a'' then 1 else if n = ''b'' then 2 else if n = ''c'' then 3 else 4)])),
      ci_references = (\<lambda>f l e. Inr (if l = 1 then [sample_call 1 ''b''] else if l = 2 then [sample_call 2 ''c'', sample_call 2 ''a''] else [])),
      ci_resolve_reference = (\<lambda>r. Inr []),
      ci_resolve_symbols = (\<lambda>f n. Inr [sample_symbol n (if n = ''a'' then 1 else if n = ''b'' then 2 else if n = ''c'' then 3 else 4)]),
      ci_capped = (\<lambda>n. False)\<rparr>"

abbreviation sample_request :: "string \<Rightarrow> call_path_request" where
  "sample_request target \<equiv> \<lparr>rq_from = ''a'', rq_to = target, rq_max_depth = 6\<rparr>"

abbreviation sample_callers :: "symbol list" where
  "sample_callers \<equiv> [sample_symbol ''a'' 1, sample_symbol ''b'' 2, sample_symbol ''c'' 3]"

lemma sample_callees:
  "callees_of sample_index (sample_symbol ''a'' 1) = Inr ([(sample_symbol ''b'' 2, 1)], False)"
  "callees_of sample_index (sample_symbol ''b'' 2) = Inr ([(sample_symbol ''c'' 3, 2), (sample_symbol ''a'' 1, 2)], False)"
  "callees_of sample_index (sample_symbol ''c'' 3) = Inr ([], False)"
  by code_simp+

lemma sample_called: "called sample_index [sample_symbol ''a'' 1] \<subseteq> set sample_callers"
proof -
  have "call_edges sample_index `` set sample_callers \<subseteq> set sample_callers"
    by (auto simp: call_edges_def sample_callees)
  then have "(call_edges sample_index)\<^sup>* `` set sample_callers = set sample_callers" by (rule Image_closed_trancl)
  then show ?thesis unfolding called_def by auto
qed

lemma sample_keys: "inj_on key_of (called sample_index [sample_symbol ''a'' 1])"
proof (rule inj_on_subset [OF _ sample_called])
  show "inj_on key_of (set sample_callers)"
    by (auto simp: inj_on_def key_of_def sample_symbol_def)
qed

lemma sample_endpoints:
  "ci_endpoint sample_index (rq_from (sample_request t)) = Inr (Found [sample_symbol ''a'' 1])"
  "ci_endpoint sample_index (rq_to (sample_request ''c'')) = Inr (Found [sample_symbol ''c'' 3])"
  "ci_endpoint sample_index (rq_to (sample_request ''d'')) = Inr (Found [sample_symbol ''d'' 4])"
  by (simp_all add: sample_index_def)

definition sample_report :: call_path_report where
  "sample_report =
     \<lparr>rp_found = True, rp_steps = [step_of (sample_symbol ''a'' 1) None, step_of (sample_symbol ''b'' 2) (Some 1),
        step_of (sample_symbol ''c'' 3) (Some 2)], rp_length = 2, rp_note = None, rp_bounded = False, rp_counts_floor = True\<rparr>"

lemma sample_trace: "trace_call_path sample_index (sample_request ''c'') = Some (Inr sample_report)"
  by code_simp

lemma sample_no_trace:
  "trace_call_path sample_index (sample_request ''d'') = Some (Inr (unfound (unfound_note (sample_request ''d'') False) False))"
  by code_simp

theorem call_path_sound_witness:
  "trace_call_path sample_index (sample_request ''c'') = Some (Inr sample_report)
   \<and> (\<exists>ch. rp_steps sample_report = map (\<lambda>(s, line). step_of s line) ch \<and> call_chain sample_index ch)"
proof -
  have found: "rp_found sample_report" by (simp add: sample_report_def)
  from call_path_sound [of sample_index "sample_request ''c''"] sample_trace found
  have "\<exists>ch. rp_steps sample_report = map (\<lambda>(s, line). step_of s line) ch \<and> call_chain sample_index ch"
    by (metis (no_types, lifting) option.inject)
  with sample_trace show ?thesis by blast
qed

theorem call_path_shortest_witness:
  "key_of ` called_in sample_index [sample_symbol ''a'' 1] 1 \<inter> key_of ` set [sample_symbol ''c'' 3] = {}"
  by (rule call_path_shortest [OF sample_endpoints(1,2) sample_keys sample_trace]) (simp_all add: sample_report_def)


end
