(* ===== verification/Scc.thy ===== *)
theory Scc
  imports Work "HOL-Library.Monad_Syntax"
begin

text \<open>
  Strongly connected components of the file import graph, \<open>crates/graph/src/scc.rs\<close>: Tarjan's
  algorithm with an explicit stack of suspended visits. The stack of nodes and the stack of visits
  have their top first here; arrays are lists over node numbers. The work control is consulted once
  per loop iteration, and once per node of a component; a stop abandons the result. \<open>None\<close> is a panic, and
  also the value of a loop that would not end. Indices are \<open>i32\<close> in the source, far above the number of
  files of a project, and integers here.
\<close>

section \<open>Node numbers and adjacency\<close>

definition intern :: "string list \<Rightarrow> string \<Rightarrow> string list" where
  "intern nodes n = (if n \<in> set nodes then nodes else nodes @ [n])"

definition nodes_of :: "(string \<times> string) list \<Rightarrow> string list" where
  "nodes_of edges = foldl (\<lambda>nodes (a, b). intern (intern nodes a) b) [] edges"

fun idx_of :: "string list \<Rightarrow> string \<Rightarrow> nat option" where
  "idx_of [] a = None"
| "idx_of (n # ns) a = (if n = a then Some 0 else map_option Suc (idx_of ns a))"

fun adjacency :: "string list \<Rightarrow> (string \<times> string) list \<Rightarrow> nat list list \<Rightarrow> nat list list option" where
  "adjacency nodes [] adj = Some adj"
| "adjacency nodes ((a, b) # edges) adj =
     (case (idx_of nodes a, idx_of nodes b) of
        (Some u, Some v) \<Rightarrow> adjacency nodes edges (adj[u := adj ! u @ [v]])
      | _ \<Rightarrow> None)"

section \<open>The search\<close>

record tarjan =
  tj_counter :: int
  tj_index :: "int list"
  tj_lowlink :: "int list"
  tj_on_stack :: "bool list"
  tj_stack :: "nat list"
  tj_work :: "(nat \<times> nat) list"
  tj_components :: "nat list list"

abbreviation UNVISITED :: int where "UNVISITED \<equiv> - 1"

definition tarjan_init :: "nat \<Rightarrow> tarjan" where
  "tarjan_init n =
     \<lparr>tj_counter = 0, tj_index = replicate n UNVISITED, tj_lowlink = replicate n 0,
      tj_on_stack = replicate n False, tj_stack = [], tj_work = [], tj_components = []\<rparr>"

definition discover :: "nat \<Rightarrow> tarjan \<Rightarrow> tarjan" where
  "discover v s =
     s\<lparr>tj_index := (tj_index s)[v := tj_counter s], tj_lowlink := (tj_lowlink s)[v := tj_counter s],
       tj_counter := tj_counter s + 1, tj_stack := v # tj_stack s, tj_on_stack := (tj_on_stack s)[v := True],
       tj_work := (v, 0) # tj_work s\<rparr>"

fun pop_until :: "nat \<Rightarrow> nat list \<Rightarrow> (nat list \<times> nat list) option" where
  "pop_until v [] = None"
| "pop_until v (w # ws) =
     (if w = v then Some ([w], ws) else map_option (\<lambda>(c, rest). (w # c, rest)) (pop_until v ws))"

text \<open>An exhausted visit: emit the component it roots, if any, and return to the parent. The number is that of the checks in the pop loop.\<close>

definition emit :: "nat \<Rightarrow> tarjan \<Rightarrow> (tarjan \<times> nat) option" where
  "emit v s =
     (if tj_lowlink s ! v = tj_index s ! v
      then map_option (\<lambda>(c, rest).
             (s\<lparr>tj_stack := rest, tj_on_stack := foldl (\<lambda>os w. os[w := False]) (tj_on_stack s) c,
                tj_components := tj_components s @ [c]\<rparr>, length c)) (pop_until v (tj_stack s))
      else Some (s, 0))"

definition return_to_parent :: "nat \<Rightarrow> tarjan \<Rightarrow> tarjan" where
  "return_to_parent v s =
     (case tl (tj_work s) of
        [] \<Rightarrow> s\<lparr>tj_work := []\<rparr>
      | (p, i) # ws \<Rightarrow>
          s\<lparr>tj_work := (p, i) # ws,
            tj_lowlink := (tj_lowlink s)[p := min (tj_lowlink s ! p) (tj_lowlink s ! v)]\<rparr>)"

definition visit_edge :: "nat \<Rightarrow> nat \<Rightarrow> nat \<Rightarrow> tarjan \<Rightarrow> tarjan" where
  "visit_edge v i w s =
     (let s = s\<lparr>tj_work := (v, i + 1) # tl (tj_work s)\<rparr>
      in if tj_index s ! w = UNVISITED then discover w s
         else if tj_on_stack s ! w
         then s\<lparr>tj_lowlink := (tj_lowlink s)[v := min (tj_lowlink s ! v) (tj_index s ! w)]\<rparr>
         else s)"

definition tarjan_step :: "nat list list \<Rightarrow> nat \<Rightarrow> nat \<Rightarrow> tarjan \<Rightarrow> (tarjan \<times> nat) option" where
  "tarjan_step adj v i s =
     (if i < length (adj ! v) then Some (visit_edge v i (adj ! v ! i) s, 0)
      else map_option (\<lambda>(s, k). (return_to_parent v s, k)) (emit v s))"

partial_function (option) tarjan_loop ::
  "checks \<Rightarrow> nat list list \<Rightarrow> nat \<Rightarrow> tarjan \<Rightarrow> (stop_reason + tarjan \<times> nat) option" where
  "tarjan_loop chk adj n s =
     (case tj_work s of
        [] \<Rightarrow> Some (Inr (s, n))
      | (v, i) # _ \<Rightarrow>
          (case chk n of
             Some r \<Rightarrow> Some (Inl r)
           | None \<Rightarrow> do {
               (s, k) \<leftarrow> tarjan_step adj v i s;
               (case first_stop chk (n + 1) k of
                  Some r \<Rightarrow> Some (Inl r)
                | None \<Rightarrow> tarjan_loop chk adj (n + 1 + k) s) }))"

declare tarjan_loop.simps [code]

fun tarjan_starts ::
  "checks \<Rightarrow> nat list list \<Rightarrow> nat \<Rightarrow> nat list \<Rightarrow> tarjan \<Rightarrow> (stop_reason + tarjan) option" where
  "tarjan_starts chk adj n [] s = Some (Inr s)"
| "tarjan_starts chk adj n (start # starts) s =
     (case chk n of
        Some r \<Rightarrow> Some (Inl r)
      | None \<Rightarrow>
          if tj_index s ! start \<noteq> UNVISITED then tarjan_starts chk adj (n + 1) starts s
          else do {
            res \<leftarrow> tarjan_loop chk adj (n + 1) (discover start s);
            (case res of
               Inl r \<Rightarrow> Some (Inl r)
             | Inr (s, m) \<Rightarrow> tarjan_starts chk adj m starts s) })"

definition tarjan_scc :: "checks \<Rightarrow> (string \<times> string) list \<Rightarrow> (stop_reason + string list list) option" where
  "tarjan_scc chk edges =
     (case first_stop chk 0 (1 + 2 * length edges) of
        Some r \<Rightarrow> Some (Inl r)
      | None \<Rightarrow>
          let nodes = nodes_of edges; n = length nodes in do {
            adj \<leftarrow> adjacency nodes edges (replicate n []);
            res \<leftarrow> tarjan_starts chk adj (1 + 2 * length edges) [0..<n] (tarjan_init n);
            (case res of
               Inl r \<Rightarrow> Some (Inl r)
             | Inr s \<Rightarrow> Some (Inr (map (map ((!) nodes)) (tj_components s)))) })"

section \<open>The invariant of the search\<close>

text \<open>
  Arrays are read as functions here. \<open>st\<close> is the stack of nodes, \<open>wk\<close> the stack of visits, whose nodes are
  \<^emph>\<open>open\<close>; \<open>dn\<close> are the nodes of the components emitted so far.
\<close>

definition graph_of :: "nat list list \<Rightarrow> (nat \<times> nat) set" where
  "graph_of adj = {(v, w). v < length adj \<and> w \<in> set (adj ! v)}"

definition adj_ok :: "nat list list \<Rightarrow> bool" where
  "adj_ok adj \<longleftrightarrow> (\<forall>v < length adj. set (adj ! v) \<subseteq> {..<length adj})"

text \<open>The edges followed so far out of nodes on the stack.\<close>

definition followed :: "nat list list \<Rightarrow> nat list \<Rightarrow> (nat \<times> nat) list \<Rightarrow> (nat \<times> nat) set" where
  "followed adj st wk =
     {(v, w). v \<in> set st \<and> v \<notin> fst ` set wk \<and> w \<in> set (adj ! v)} \<union> {(v, w). \<exists>i. (v, i) \<in> set wk \<and> w \<in> set (take i (adj ! v))}"

text \<open>The open node in whose subtree a stack node lies: the latest one discovered no later than the node.\<close>

definition owner :: "(nat \<Rightarrow> int) \<Rightarrow> nat set \<Rightarrow> nat \<Rightarrow> nat \<Rightarrow> bool" where
  "owner idx opened x g \<longleftrightarrow> g \<in> opened \<and> idx g \<le> idx x \<and> (\<forall>h \<in> opened. idx h \<le> idx x \<longrightarrow> idx h \<le> idx g)"

inductive search_inv ::
  "nat list list \<Rightarrow> int \<Rightarrow> (nat \<Rightarrow> int) \<Rightarrow> (nat \<Rightarrow> int) \<Rightarrow> nat list \<Rightarrow> (nat \<times> nat) list \<Rightarrow> nat set \<Rightarrow> bool"
  for adj c idx low st wk dn where
  search_invI:
  "0 \<le> c \<Longrightarrow> sorted_wrt (\<lambda>x y. idx y < idx x) st \<Longrightarrow> (\<And>v. v \<in> set st \<Longrightarrow> 0 \<le> idx v \<and> idx v < c) \<Longrightarrow>
   (\<And>v. v < length adj \<Longrightarrow> (idx v \<noteq> UNVISITED) = (v \<in> set st \<union> dn)) \<Longrightarrow>
   set st \<inter> dn = {} \<Longrightarrow> set st \<union> dn \<subseteq> {..<length adj} \<Longrightarrow>
   sorted_wrt (\<lambda>x y. idx (fst y) < idx (fst x)) wk \<Longrightarrow> fst ` set wk \<subseteq> set st \<Longrightarrow>
   graph_of adj `` dn \<subseteq> dn \<Longrightarrow> (\<And>x y. (x, y) \<in> followed adj st wk \<Longrightarrow> y \<in> set st \<union> dn) \<Longrightarrow>
   (\<And>v. v \<in> set st \<Longrightarrow> low v \<le> idx v) \<Longrightarrow>
   (\<And>v. v \<in> set st \<Longrightarrow> \<exists>x \<in> set st. idx x = low v \<and> (v, x) \<in> (graph_of adj)\<^sup>*) \<Longrightarrow>
   (\<And>v. v \<in> set st \<Longrightarrow> v \<notin> fst ` set wk \<Longrightarrow> low v < idx v) \<Longrightarrow>
   (\<And>g x. g \<in> fst ` set wk \<Longrightarrow> x \<in> set st \<Longrightarrow> idx g \<le> idx x \<Longrightarrow> (g, x) \<in> (graph_of adj)\<^sup>*) \<Longrightarrow>
   (\<And>x y g. (x, y) \<in> followed adj st wk \<Longrightarrow> y \<in> set st \<Longrightarrow> owner idx (fst ` set wk) x g \<Longrightarrow> low g \<le> idx y) \<Longrightarrow>
   search_inv adj c idx low st wk dn"

lemma search_invD:
  assumes "search_inv adj c idx low st wk dn"
  shows "0 \<le> c" "sorted_wrt (\<lambda>x y. idx y < idx x) st" "v \<in> set st \<Longrightarrow> 0 \<le> idx v \<and> idx v < c"
    and "v < length adj \<Longrightarrow> (idx v \<noteq> UNVISITED) = (v \<in> set st \<union> dn)" "set st \<inter> dn = {}" "set st \<union> dn \<subseteq> {..<length adj}"
    and "sorted_wrt (\<lambda>x y. idx (fst y) < idx (fst x)) wk" "fst ` set wk \<subseteq> set st"
    and "graph_of adj `` dn \<subseteq> dn" "(x, y) \<in> followed adj st wk \<Longrightarrow> y \<in> set st \<union> dn"
    and "v \<in> set st \<Longrightarrow> low v \<le> idx v" "v \<in> set st \<Longrightarrow> \<exists>x \<in> set st. idx x = low v \<and> (v, x) \<in> (graph_of adj)\<^sup>*"
    and "v \<in> set st \<Longrightarrow> v \<notin> fst ` set wk \<Longrightarrow> low v < idx v"
    and "g \<in> fst ` set wk \<Longrightarrow> x \<in> set st \<Longrightarrow> idx g \<le> idx x \<Longrightarrow> (g, x) \<in> (graph_of adj)\<^sup>*"
    and "(x, y) \<in> followed adj st wk \<Longrightarrow> y \<in> set st \<Longrightarrow> owner idx (fst ` set wk) x g \<Longrightarrow> low g \<le> idx y"
  by (rule search_inv.cases [OF assms], assumption | rule search_inv.cases [OF assms], iprover)+

text \<open>On the stack the index identifies a node, and the top visit has the greatest one among the open nodes.\<close>

lemma stack_idx_inj:
  assumes "sorted_wrt (\<lambda>x y. idx y < idx x) st" and "x \<in> set st" "y \<in> set st" "(idx x :: int) = idx y"
  shows "x = y"
  using assms by (induction st) auto

lemma top_open:
  assumes "search_inv adj c idx low st ((v, i) # ws) dn"
  shows "v \<in> set st" "v < length adj" "g \<in> fst ` set ws \<Longrightarrow> idx g < idx v" "v \<notin> fst ` set ws"
    "g \<in> fst ` set ((v, i) # ws) \<Longrightarrow> idx g \<le> idx v"
  using search_invD(6-8) [OF assms] by auto

lemma stack_reaches_open:
  assumes "search_inv adj c idx low st wk dn" and "x \<in> set st"
  shows "\<exists>g \<in> fst ` set wk. idx g \<le> idx x \<and> (x, g) \<in> (graph_of adj)\<^sup>*"
  using assms(2)
proof (induction "nat (idx x)" arbitrary: x rule: less_induct)
  case less
  show ?case
  proof (cases "x \<in> fst ` set wk")
    case False
    have "low x < idx x" using search_invD(13) [OF assms(1) less.prems False] .
    moreover obtain y where y: "y \<in> set st" "idx y = low x" "(x, y) \<in> (graph_of adj)\<^sup>*"
      using search_invD(12) [OF assms(1) less.prems] by blast
    ultimately obtain g where "g \<in> fst ` set wk" "idx g \<le> idx y" "(y, g) \<in> (graph_of adj)\<^sup>*"
      using less.hyps [of y] search_invD(3) [OF assms(1) y(1)] by auto
    then show ?thesis using y \<open>low x < idx x\<close> by (intro bexI [of _ g]) auto
  qed auto
qed

lemma followed_top:
  assumes "i < length (adj ! v)" and "v \<in> set st" and "v \<notin> fst ` set ws"
  shows "followed adj st ((v, Suc i) # ws) = insert (v, adj ! v ! i) (followed adj st ((v, i) # ws))"
  using assms by (auto simp: followed_def take_Suc_conv_app_nth)

lemma followed_close:
  assumes "length (adj ! v) \<le> i" and "v \<in> set st" and "v \<notin> fst ` set ws"
  shows "followed adj st ws = followed adj st ((v, i) # ws)"
  using assms by (auto simp: followed_def)

lemma followed_fst: "fst ` set wk \<subseteq> set st \<Longrightarrow> (x, y) \<in> followed adj st wk \<Longrightarrow> x \<in> set st"
  by (auto simp: followed_def)

subsection \<open>Following an edge\<close>

lemma inv_discover:
  assumes inv: "search_inv adj c idx low st ((v, i) # ws) dn" and adj: "adj_ok adj"
    and i: "i < length (adj ! v)" and w: "w = adj ! v ! i" "idx w = UNVISITED"
  shows "search_inv adj (c + 1) (idx(w := c)) (low(w := c)) (w # st) ((w, 0) # (v, Suc i) # ws) dn"
proof -
  note D = search_invD [OF inv] and top = top_open [OF inv]
  have edge: "(v, w) \<in> graph_of adj" using i w(1) top(2) by (auto simp: graph_of_def)
  have wn: "w < length adj" using edge adj by (auto simp: graph_of_def adj_ok_def)
  have fresh: "w \<notin> set st" "w \<notin> dn" using D(4) [OF wn] w(2) by auto
  have keep: "(idx(w := c)) x = idx x" "(low(w := c)) x = low x" if "x \<in> set st" for x using that fresh(1) by auto
  have open_st: "g \<in> set st" if "g \<in> fst ` set ((v, Suc i) # ws)" for g using that D(8) by auto
  have followed': "followed adj (w # st) ((w, 0) # (v, Suc i) # ws) = insert (v, w) (followed adj st ((v, i) # ws))"
    using followed_top [OF i top(1,4)] w(1) fresh(1) D(8) by (auto simp: followed_def)
  have to_v: "(g, v) \<in> (graph_of adj)\<^sup>*" if "g \<in> fst ` set ((v, i) # ws)" for g
    using D(14) [OF that top(1) top(5) [OF that]] .
  show ?thesis
  proof (rule search_invI)
    show "sorted_wrt (\<lambda>x y. (idx(w := c)) y < (idx(w := c)) x) (w # st)"
    proof -
      have "sorted_wrt (\<lambda>x y. (idx(w := c)) y < (idx(w := c)) x) st"
        by (rule sorted_wrt_mono_rel [OF _ D(2)]) (use keep(1) in auto)
      then show ?thesis using D(3) keep(1) by auto
    qed
    show "sorted_wrt (\<lambda>x y. (idx(w := c)) (fst y) < (idx(w := c)) (fst x)) ((w, 0) # (v, Suc i) # ws)"
    proof -
      have "sorted_wrt (\<lambda>x y. (idx(w := c)) (fst y) < (idx(w := c)) (fst x)) ws"
      proof (rule sorted_wrt_mono_rel)
        show "sorted_wrt (\<lambda>x y. idx (fst y) < idx (fst x)) ws" using D(7) by simp
        show "(idx(w := c)) (fst y) < (idx(w := c)) (fst x)"
          if "x \<in> set ws" "y \<in> set ws" "idx (fst y) < idx (fst x)" for x y
        proof -
          have "fst x \<in> set st" "fst y \<in> set st" using that D(8) by auto
          then show ?thesis using keep(1) that(3) by simp
        qed
      qed
      moreover have "\<forall>x \<in> set ws. (idx(w := c)) (fst x) < (idx(w := c)) v"
      proof
        fix x assume x: "x \<in> set ws"
        then have "fst x \<in> set st" using D(8) by auto
        then show "(idx(w := c)) (fst x) < (idx(w := c)) v" using keep(1) top(1) top(3) [of "fst x"] x by simp
      qed
      moreover have "\<forall>x \<in> set ((v, Suc i) # ws). (idx(w := c)) (fst x) < (idx(w := c)) w"
      proof
        fix x assume "x \<in> set ((v, Suc i) # ws)"
        then have "fst x \<in> set st" using open_st by auto
        then show "(idx(w := c)) (fst x) < (idx(w := c)) w" using keep(1) D(3) by simp
      qed
      ultimately show ?thesis by (simp del: fun_upd_apply)
    qed
    show "(idx(w := c)) u \<noteq> UNVISITED \<longleftrightarrow> u \<in> set (w # st) \<union> dn" if "u < length adj" for u
      using D(1) D(4) [OF that] by auto
    show "y \<in> set (w # st) \<union> dn" if "(x, y) \<in> followed adj (w # st) ((w, 0) # (v, Suc i) # ws)" for x y
      using that D(10) [of x y] unfolding followed' by auto
    show "\<exists>x \<in> set (w # st). (idx(w := c)) x = (low(w := c)) u \<and> (u, x) \<in> (graph_of adj)\<^sup>*" if "u \<in> set (w # st)" for u
      using that D(12) [of u] keep by (cases "u = w") force+
    show "(g, x) \<in> (graph_of adj)\<^sup>*"
      if "g \<in> fst ` set ((w, 0) # (v, Suc i) # ws)" "x \<in> set (w # st)" "(idx(w := c)) g \<le> (idx(w := c)) x" for g x
    proof (cases "x = w")
      case True
      then show ?thesis using that(1) rtrancl_into_rtrancl [OF to_v edge] by (cases "g = w") auto
    next
      case False
      then have x: "x \<in> set st" using that(2) by simp
      then have "g \<noteq> w" using that(3) D(3) [OF x] False by auto
      then show ?thesis using D(14) [of g x] that(1,3) x False by auto
    qed
    show "(low(w := c)) g \<le> (idx(w := c)) y"
      if f: "(x, y) \<in> followed adj (w # st) ((w, 0) # (v, Suc i) # ws)" and y: "y \<in> set (w # st)"
        and o: "owner (idx(w := c)) (fst ` set ((w, 0) # (v, Suc i) # ws)) x g" for x y g
    proof -
      have x: "x \<in> set st" using f followed_fst [OF D(8)] top(1) unfolding followed' by auto
      then have "g \<noteq> w" using o D(3) [OF x] keep(1) [OF x] by (auto simp: owner_def)
      then have g: "g \<in> set st" using o open_st by (auto simp: owner_def)
      show ?thesis
      proof (cases "y = w")
        case True
        then show ?thesis using keep [OF g] D(11) [OF g] D(3) [OF g] by simp
      next
        case False
        have "(x, y) \<in> followed adj st ((v, i) # ws)" using f False unfolding followed' by auto
        moreover have "owner idx (fst ` set ((v, i) # ws)) x g"
          using o \<open>g \<noteq> w\<close> keep(1) [OF x] keep(1) [OF g] keep(1) open_st by (auto simp: owner_def)
        ultimately have "low g \<le> idx y" using D(15) [of x y g] y False by simp
        then show ?thesis using keep [OF g] False by simp
      qed
    qed
    show "(low(w := c)) u < (idx(w := c)) u" if "u \<in> set (w # st)" "u \<notin> fst ` set ((w, 0) # (v, Suc i) # ws)" for u
      using that D(13) [of u] keep by auto
    show "(low(w := c)) u \<le> (idx(w := c)) u" if "u \<in> set (w # st)" for u using that D(11) [of u] keep by auto
    show "0 \<le> (idx(w := c)) u \<and> (idx(w := c)) u < c + 1" if "u \<in> set (w # st)" for u
      using that D(1) D(3) [of u] keep(1) [of u] by auto
  qed (use D(1,5,6,8,9) fresh wn in auto)
qed

lemma inv_back_edge:
  assumes inv: "search_inv adj c idx low st ((v, i) # ws) dn"
    and i: "i < length (adj ! v)" and w: "w = adj ! v ! i" "w \<in> set st"
  shows "search_inv adj c idx (low(v := min (low v) (idx w))) st ((v, Suc i) # ws) dn"
proof -
  note D = search_invD [OF inv] and top = top_open [OF inv]
  let ?low = "low(v := min (low v) (idx w))"
  have edge: "(v, w) \<in> graph_of adj" using i w(1) top(2) by (auto simp: graph_of_def)
  have followed': "followed adj st ((v, Suc i) # ws) = insert (v, w) (followed adj st ((v, i) # ws))"
    using followed_top [OF i top(1,4)] w(1) by simp
  have le: "?low x \<le> low x" for x by simp
  show ?thesis
  proof (rule search_invI)
    show "y \<in> set st \<union> dn" if "(x, y) \<in> followed adj st ((v, Suc i) # ws)" for x y
      using that D(10) [of x y] w(2) unfolding followed' by auto
    show "?low u \<le> idx u" if "u \<in> set st" for u using D(11) [OF that] le [of u] by linarith
    show "\<exists>x \<in> set st. idx x = ?low u \<and> (u, x) \<in> (graph_of adj)\<^sup>*" if "u \<in> set st" for u
      using D(12) [OF that] w(2) edge by (cases "u = v") (auto simp: min_def)
    show "?low u < idx u" if "u \<in> set st" "u \<notin> fst ` set ((v, Suc i) # ws)" for u
      using D(13) [of u] that by auto
    show "?low g \<le> idx y"
      if f: "(x, y) \<in> followed adj st ((v, Suc i) # ws)" and y: "y \<in> set st"
        and o: "owner idx (fst ` set ((v, Suc i) # ws)) x g" for x y g
    proof (cases "(x, y) = (v, w)")
      case True
      have "idx v \<le> idx g" using o True by (auto simp: owner_def)
      moreover have "g \<in> fst ` set ((v, i) # ws)" using o by (auto simp: owner_def)
      ultimately have "g = v" using top(3) [of g] by fastforce
      then show ?thesis using True by simp
    next
      case False
      have "low g \<le> idx y" using D(15) [of x y g] f y o False unfolding followed' by auto
      then show ?thesis using le [of g] by linarith
    qed
  qed (use D in auto)
qed

lemma inv_done_edge:
  assumes inv: "search_inv adj c idx low st ((v, i) # ws) dn"
    and i: "i < length (adj ! v)" and w: "adj ! v ! i \<in> dn"
  shows "search_inv adj c idx low st ((v, Suc i) # ws) dn"
proof -
  note D = search_invD [OF inv] and top = top_open [OF inv]
  note followed' = followed_top [OF i top(1,4)]
  show ?thesis
  proof (rule search_invI)
    show "y \<in> set st \<union> dn" if "(x, y) \<in> followed adj st ((v, Suc i) # ws)" for x y
      using that D(10) [of x y] w unfolding followed' by auto
    show "low g \<le> idx y"
      if "(x, y) \<in> followed adj st ((v, Suc i) # ws)" "y \<in> set st" "owner idx (fst ` set ((v, Suc i) # ws)) x g" for x y g
      using D(15) [of x y g] that w D(5) unfolding followed' by auto
    show "low u < idx u" if "u \<in> set st" "u \<notin> fst ` set ((v, Suc i) # ws)" for u
      using D(13) [of u] that by auto
  qed (use D in auto)
qed

subsection \<open>Leaving a node\<close>

text \<open>Below a node that is not a root there is a parent, whose subtree takes over.\<close>

lemma inv_leave:
  assumes inv: "search_inv adj c idx low st ((v, i) # ws) dn"
    and i: "length (adj ! v) \<le> i" and low: "low v \<noteq> idx v"
  shows "\<exists>p j ws'. ws = (p, j) # ws' \<and> search_inv adj c idx (low(p := min (low p) (low v))) st ws dn"
proof -
  note D = search_invD [OF inv] and top = top_open [OF inv]
  have less: "low v < idx v" using D(11) [OF top(1)] low by linarith
  obtain x where x: "x \<in> set st" "idx x = low v" "(v, x) \<in> (graph_of adj)\<^sup>*" using D(12) [OF top(1)] by blast
  obtain g where "g \<in> fst ` set ((v, i) # ws)" "idx g \<le> idx x" using stack_reaches_open [OF inv x(1)] by blast
  then have "g \<in> fst ` set ws" using x(2) less by auto
  then obtain p j ws' where ws: "ws = (p, j) # ws'" by (cases ws) auto
  have p: "p \<in> set st" "idx p < idx v" "p \<noteq> v" using D(8) top(3) [of p] by (auto simp: ws)
  have p_top: "idx g \<le> idx p" if "g \<in> fst ` set ws" for g using that D(7) by (auto simp: ws)
  let ?low = "low(p := min (low p) (low v))"
  note followed' = followed_close [OF i top(1,4)]
  have le: "?low u \<le> low u" for u by simp
  have pv: "(p, v) \<in> (graph_of adj)\<^sup>*" using D(14) [of p v] p(2) top(1) by (simp add: ws)
  have "search_inv adj c idx ?low st ws dn"
  proof (rule search_invI)
    show "y \<in> set st \<union> dn" if "(x, y) \<in> followed adj st ws" for x y
      using that D(10) [of x y] unfolding followed' by auto
    show "?low u \<le> idx u" if "u \<in> set st" for u using D(11) [OF that] le [of u] by linarith
    show "\<exists>x \<in> set st. idx x = ?low u \<and> (u, x) \<in> (graph_of adj)\<^sup>*" if "u \<in> set st" for u
    proof (cases "u = p \<and> low v < low p")
      case True
      then show ?thesis using x pv by (intro bexI [of _ x]) auto
    next
      case False
      then have "?low u = low u" by (auto simp: min_def)
      then show ?thesis using D(12) [OF that] by simp
    qed
    show "?low u < idx u" if "u \<in> set st" "u \<notin> fst ` set ws" for u
      using that D(13) [of u] less le [of u] by (cases "u = v") auto
    show "?low g \<le> idx y"
      if f: "(x, y) \<in> followed adj st ws" and y: "y \<in> set st" and o: "owner idx (fst ` set ws) x g" for x y g
    proof (cases "idx v \<le> idx x")
      case True
      have "owner idx (fst ` set ((v, i) # ws)) x v" using True top(3) by (fastforce simp: owner_def)
      then have "low v \<le> idx y" using D(15) [of x y v] f y unfolding followed' by simp
      moreover have "idx p \<le> idx g" "g \<in> fst ` set ws" using o True p(2) by (auto simp: owner_def ws)
      then have "g = p" using p_top [of g] stack_idx_inj [OF D(2), of g p] p(1) D(8) by fastforce
      ultimately show ?thesis by simp
    next
      case False
      then have "owner idx (fst ` set ((v, i) # ws)) x g" using o by (auto simp: owner_def)
      then have "low g \<le> idx y" using D(15) [of x y g] f y unfolding followed' by simp
      then show ?thesis using le [of g] by linarith
    qed
  qed (use D in auto)
  then show ?thesis using ws by blast
qed

text \<open>The nodes above a root on the stack are its component.\<close>

definition scc_class :: "(nat \<times> nat) set \<Rightarrow> nat set \<Rightarrow> bool" where
  "scc_class G S \<longleftrightarrow> S \<noteq> {} \<and> (\<forall>x \<in> S. \<forall>y. y \<in> S \<longleftrightarrow> (x, y) \<in> G\<^sup>* \<and> (y, x) \<in> G\<^sup>*)"

lemma closed_rtrancl: "G `` A \<subseteq> A \<Longrightarrow> x \<in> A \<Longrightarrow> (x, y) \<in> G\<^sup>* \<Longrightarrow> y \<in> A"
  by (metis Image_closed_trancl ImageI)

lemma root_segment:
  assumes inv: "search_inv adj c idx low st ((v, i) # ws) dn" and adj: "adj_ok adj"
    and i: "length (adj ! v) \<le> i" and low: "low v = idx v"
  defines "S \<equiv> {x \<in> set st. idx v \<le> idx x}"
  shows "graph_of adj `` S \<subseteq> S \<union> dn" and "scc_class (graph_of adj) S"
proof -
  note D = search_invD [OF inv] and top = top_open [OF inv]
  have own: "owner idx (fst ` set ((v, i) # ws)) x v" if "x \<in> S" for x
    using that top(3) by (fastforce simp: owner_def S_def)
  have fol: "(x, y) \<in> followed adj st ((v, i) # ws)" if "x \<in> S" "(x, y) \<in> graph_of adj" for x y
  proof -
    have "x \<notin> fst ` set ws" using that(1) top(3) by (fastforce simp: S_def)
    then have "(x, y) \<in> followed adj st ws" using that by (auto simp: followed_def graph_of_def S_def)
    then show ?thesis using followed_close [OF i top(1,4)] by simp
  qed
  show closed: "graph_of adj `` S \<subseteq> S \<union> dn"
  proof
    fix y assume "y \<in> graph_of adj `` S"
    then obtain x where x: "x \<in> S" "(x, y) \<in> graph_of adj" by blast
    show "y \<in> S \<union> dn"
    proof (cases "y \<in> set st")
      case True
      then have "idx v \<le> idx y" using D(15) [OF fol [OF x] True own [OF x(1)]] low by simp
      then show ?thesis using True by (simp add: S_def)
    next
      case False
      then show ?thesis using D(10) [OF fol [OF x]] by simp
    qed
  qed
  have vS: "v \<in> S" using top(1) by (simp add: S_def)
  have from_v: "(v, x) \<in> (graph_of adj)\<^sup>*" if "x \<in> S" for x using D(14) [of v x] that by (simp add: S_def)
  have to_v: "(x, v) \<in> (graph_of adj)\<^sup>*" if x: "x \<in> S" for x
  proof -
    obtain g where g: "g \<in> fst ` set ((v, i) # ws)" "(x, g) \<in> (graph_of adj)\<^sup>*"
      using stack_reaches_open [OF inv, of x] x by (auto simp: S_def)
    have "(g, v) \<in> (graph_of adj)\<^sup>*" using D(14) [OF g(1) top(1) top(5) [OF g(1)]] .
    then show ?thesis using g(2) by simp
  qed
  have "graph_of adj `` (S \<union> dn) \<subseteq> S \<union> dn" using closed D(9) by blast
  then have down: "y \<in> S \<union> dn" if "x \<in> S" "(x, y) \<in> (graph_of adj)\<^sup>*" for x y
    using closed_rtrancl [of "graph_of adj" "S \<union> dn" x y] that by blast
  have sep: "y \<notin> dn" if "x \<in> S" "(y, x) \<in> (graph_of adj)\<^sup>*" for x y
    using closed_rtrancl [OF D(9), of y x] that D(5) by (auto simp: S_def)
  show "scc_class (graph_of adj) S"
    unfolding scc_class_def
  proof (intro conjI ballI allI iffI)
    show "S \<noteq> {}" using vS by blast
    show "(x, y) \<in> (graph_of adj)\<^sup>*" "(y, x) \<in> (graph_of adj)\<^sup>*" if "x \<in> S" "y \<in> S" for x y
      using rtrancl_trans [OF to_v from_v] that by blast+
    show "y \<in> S" if "x \<in> S" "(x, y) \<in> (graph_of adj)\<^sup>* \<and> (y, x) \<in> (graph_of adj)\<^sup>*" for x y
      using down [OF that(1), of y] sep [OF that(1), of y] that(2) by blast
  qed
qed

lemma inv_emit:
  assumes inv: "search_inv adj c idx low st ((v, i) # ws) dn" and adj: "adj_ok adj"
    and i: "length (adj ! v) \<le> i" and low: "low v = idx v"
    and st: "st = cs @ rest" and cs: "set cs = {x \<in> set st. idx v \<le> idx x}"
  shows "search_inv adj c idx low rest ws (dn \<union> set cs)"
proof -
  note D = search_invD [OF inv] and top = top_open [OF inv]
  have closed: "graph_of adj `` set cs \<subseteq> set cs \<union> dn" using root_segment(1) [OF inv adj i low] cs by simp
  have dist: "set cs \<inter> set rest = {}"
    using D(2) unfolding st by (auto simp: sorted_wrt_append)
  have parts: "set st = set cs \<union> set rest" using st by simp
  have segment: "x \<in> set cs \<longleftrightarrow> x \<in> set st \<and> idx v \<le> idx x" for x using cs by simp
  have below: "idx x < idx v" "x \<in> set st" if "x \<in> set rest" for x
  proof -
    show st: "x \<in> set st" using that parts by blast
    have "x \<notin> set cs" using that dist by blast
    then show "idx x < idx v" using segment [of x] st by linarith
  qed
  have rest: "x \<in> set rest" if "x \<in> set st" "idx x < idx v" for x
  proof -
    have "x \<notin> set cs" using segment [of x] that(2) by linarith
    then show ?thesis using that(1) parts by blast
  qed
  have sub: "followed adj rest ws \<subseteq> followed adj st ((v, i) # ws)" "(x, y) \<in> followed adj rest ws \<Longrightarrow> x \<in> set rest" for x y
  proof -
    have ws: "fst ` set ws \<subseteq> set rest" using top(3) D(8) rest by fastforce
    show "x \<in> set rest" if "(x, y) \<in> followed adj rest ws" using followed_fst [OF ws that] .
    show "followed adj rest ws \<subseteq> followed adj st ((v, i) # ws)"
      using below by (fastforce simp: followed_def)
  qed
  show ?thesis
  proof (rule search_invI)
    show "sorted_wrt (\<lambda>x y. idx y < idx x) rest" using D(2) st by (simp add: sorted_wrt_append)
    show "y \<in> set rest \<union> (dn \<union> set cs)" if "(x, y) \<in> followed adj rest ws" for x y
      using that sub(1) D(10) [of x y] parts by auto
    show "\<exists>x \<in> set rest. idx x = low u \<and> (u, x) \<in> (graph_of adj)\<^sup>*" if u: "u \<in> set rest" for u
    proof -
      obtain x where x: "x \<in> set st" "idx x = low u" "(u, x) \<in> (graph_of adj)\<^sup>*" using D(12) below(2) [OF u] by blast
      then show ?thesis using rest [of x] D(11) [of u] below [OF u] by (intro bexI [of _ x]) auto
    qed
    show "low g \<le> idx y" if f: "(x, y) \<in> followed adj rest ws" and y: "y \<in> set rest" and o: "owner idx (fst ` set ws) x g" for x y g
    proof -
      have "owner idx (fst ` set ((v, i) # ws)) x g" using o below(1) [OF sub(2) [OF f]] by (auto simp: owner_def)
      then show ?thesis using D(15) [of x y g] f sub(1) below(2) [OF y] by auto
    qed
    show "fst ` set ws \<subseteq> set rest" using top(3) D(8) rest by fastforce
    show "graph_of adj `` (dn \<union> set cs) \<subseteq> dn \<union> set cs" using closed D(9) by blast
    show "(idx u \<noteq> UNVISITED) = (u \<in> set rest \<union> (dn \<union> set cs))" if "u < length adj" for u
      using D(4) [OF that] parts by blast
    show "low u < idx u" if "u \<in> set rest" "u \<notin> fst ` set ws" for u
      using D(13) [of u] that below [OF that(1)] by auto
  qed (use D below parts dist in auto)
qed

section \<open>States of the search\<close>

definition tarjan_ok :: "nat list list \<Rightarrow> tarjan \<Rightarrow> bool" where
  "tarjan_ok adj s \<longleftrightarrow>
     length (tj_index s) = length adj \<and> length (tj_lowlink s) = length adj \<and> length (tj_on_stack s) = length adj
     \<and> (\<forall>v < length adj. tj_on_stack s ! v \<longleftrightarrow> v \<in> set (tj_stack s))
     \<and> search_inv adj (tj_counter s) ((!) (tj_index s)) ((!) (tj_lowlink s)) (tj_stack s) (tj_work s) (set (concat (tj_components s)))
     \<and> (\<forall>c \<in> set (tj_components s). scc_class (graph_of adj) (set c)) \<and> distinct (concat (tj_components s))"

definition unvisited :: "nat list list \<Rightarrow> tarjan \<Rightarrow> nat set" where
  "unvisited adj s = {v. v < length adj \<and> tj_index s ! v = UNVISITED}"

definition pending_edges :: "nat list list \<Rightarrow> tarjan \<Rightarrow> nat" where
  "pending_edges adj s = sum_list (map (\<lambda>(v, i). Suc (length (adj ! v) - i)) (tj_work s))"

lemma nth_update_fun: "w < length xs \<Longrightarrow> (!) (xs[w := c]) = ((!) xs)(w := c)"
  by (auto simp: fun_eq_iff nth_list_update)

lemma pop_until_sorted:
  "v \<in> set st \<Longrightarrow> sorted_wrt (\<lambda>x y. (idx y :: int) < idx x) st \<Longrightarrow>
   \<exists>c rest. pop_until v st = Some (c, rest) \<and> st = c @ rest \<and> set c = {x \<in> set st. idx v \<le> idx x}"
proof (induction st)
  case (Cons w st)
  show ?case
  proof (cases "w = v")
    case True
    then have "{x \<in> set (w # st). idx v \<le> idx x} = {v}" using Cons.prems(2) by fastforce
    then show ?thesis using True by simp
  next
    case False
    have v: "v \<in> set st" and sorted: "sorted_wrt (\<lambda>x y. idx y < idx x) st" using Cons.prems False by auto
    from Cons.IH [OF v sorted] obtain c rest
      where c: "pop_until v st = Some (c, rest)" "st = c @ rest" "set c = {x \<in> set st. idx v \<le> idx x}" by blast
    have "idx v \<le> idx w" using Cons.prems False by auto
    then have "set (w # c) = {x \<in> set (w # st). idx v \<le> idx x}" using c(3) by auto
    moreover have "pop_until v (w # st) = Some (w # c, rest)" using c(1) False by simp
    moreover have "w # st = (w # c) @ rest" using c(2) by simp
    ultimately show ?thesis by blast
  qed
qed simp

lemma nth_cleared: "v < length os \<Longrightarrow> os[a := False] ! v \<longleftrightarrow> os ! v \<and> v \<noteq> a"
  by (cases "a = v") auto

lemma clear_on_stack:
  "length (foldl (\<lambda>os w. os[w := False]) os c) = length os"
  "v < length os \<Longrightarrow> foldl (\<lambda>os w. os[w := False]) os c ! v \<longleftrightarrow> os ! v \<and> v \<notin> set c"
  by (induction c arbitrary: os) (auto simp: nth_cleared)

lemma stack_distinct: "sorted_wrt (\<lambda>x y. (idx y :: int) < idx x) st \<Longrightarrow> distinct st"
  by (induction st) auto

lemma unvisited_less:
  assumes "w \<in> unvisited adj s" and "tj_index s' = (tj_index s)[w := c]" and "c \<noteq> UNVISITED" and "length (tj_index s) = length adj"
  shows "card (unvisited adj s') < card (unvisited adj s)"
proof (rule psubset_card_mono)
  show "finite (unvisited adj s)" by (simp add: unvisited_def)
  show "unvisited adj s' \<subset> unvisited adj s"
    using assms by (auto simp: unvisited_def nth_list_update split: if_splits)
qed

lemma visit_edge_ok:
  assumes ok: "tarjan_ok adj s" and adj: "adj_ok adj" and wk: "tj_work s = (v, i) # ws" and i: "i < length (adj ! v)"
  defines "s' \<equiv> visit_edge v i (adj ! v ! i) s"
  shows "tarjan_ok adj s'" and "unvisited adj s' \<subseteq> unvisited adj s"
    and "(s', s) \<in> measures [\<lambda>s. card (unvisited adj s), pending_edges adj]"
proof -
  let ?w = "adj ! v ! i"
  have inv: "search_inv adj (tj_counter s) ((!) (tj_index s)) ((!) (tj_lowlink s)) (tj_stack s) ((v, i) # ws) (set (concat (tj_components s)))"
    and len: "length (tj_index s) = length adj" "length (tj_lowlink s) = length adj" "length (tj_on_stack s) = length adj"
    and os: "\<And>v. v < length adj \<Longrightarrow> tj_on_stack s ! v \<longleftrightarrow> v \<in> set (tj_stack s)"
    and comps: "\<forall>c \<in> set (tj_components s). scc_class (graph_of adj) (set c)" "distinct (concat (tj_components s))"
    using ok wk unfolding tarjan_ok_def by auto
  note D = search_invD [OF inv] and top = top_open [OF inv]
  have w: "?w < length adj" using adj top(2) nth_mem [OF i] unfolding adj_ok_def by blast
  consider "tj_index s ! ?w = UNVISITED" | "tj_index s ! ?w \<noteq> UNVISITED" "?w \<in> set (tj_stack s)"
    | "tj_index s ! ?w \<noteq> UNVISITED" "?w \<notin> set (tj_stack s)" "?w \<in> set (concat (tj_components s))"
    using D(4) [OF w] by blast
  then have "tarjan_ok adj s' \<and> unvisited adj s' \<subseteq> unvisited adj s
      \<and> (s', s) \<in> measures [\<lambda>s. card (unvisited adj s), pending_edges adj]"
  proof cases
    case 1
    have s': "s' = discover ?w (s\<lparr>tj_work := (v, Suc i) # ws\<rparr>)" using 1 wk by (simp add: s'_def visit_edge_def)
    have "search_inv adj (tj_counter s') ((!) (tj_index s')) ((!) (tj_lowlink s')) (tj_stack s') (tj_work s') (set (concat (tj_components s')))"
      using inv_discover [OF inv adj i refl 1] len w by (simp add: s' discover_def nth_update_fun)
    then have "tarjan_ok adj s'"
      using len os comps w by (auto simp: tarjan_ok_def s' discover_def nth_list_update)
    moreover have idx: "tj_index s' = (tj_index s)[?w := tj_counter s]" by (simp add: s' discover_def)
    then have "card (unvisited adj s') < card (unvisited adj s)"
      using unvisited_less [of ?w adj s s' "tj_counter s"] 1 w len(1) D(1) by (simp add: unvisited_def)
    moreover have "unvisited adj s' \<subseteq> unvisited adj s"
      using idx 1 len(1) w by (auto simp: unvisited_def nth_list_update split: if_splits)
    ultimately show ?thesis by simp
  next
    case 2
    have s': "s' = s\<lparr>tj_work := (v, Suc i) # ws, tj_lowlink := (tj_lowlink s)[v := min (tj_lowlink s ! v) (tj_index s ! ?w)]\<rparr>"
      using 2 wk os [OF w] by (simp add: s'_def visit_edge_def)
    have "tarjan_ok adj s'"
      using inv_back_edge [OF inv i refl 2(2)] len os comps top(2) by (simp add: tarjan_ok_def s' nth_update_fun)
    then show ?thesis using i by (simp add: s' unvisited_def pending_edges_def wk)
  next
    case 3
    have s': "s' = s\<lparr>tj_work := (v, Suc i) # ws\<rparr>"
      using 3 wk os [OF w] by (simp add: s'_def visit_edge_def)
    have "tarjan_ok adj s'"
      using inv_done_edge [OF inv i 3(3)] len os comps by (simp add: tarjan_ok_def s')
    then show ?thesis using i by (simp add: s' unvisited_def pending_edges_def wk)
  qed
  then show "tarjan_ok adj s'" and "unvisited adj s' \<subseteq> unvisited adj s"
    and "(s', s) \<in> measures [\<lambda>s. card (unvisited adj s), pending_edges adj]" by blast+
qed

lemma leave_ok:
  assumes ok: "tarjan_ok adj s" and adj: "adj_ok adj" and wk: "tj_work s = (v, i) # ws" and i: "length (adj ! v) \<le> i"
  shows "\<exists>s\<^sub>1 k. emit v s = Some (s\<^sub>1, k) \<and> tarjan_ok adj (return_to_parent v s\<^sub>1)
    \<and> tj_index (return_to_parent v s\<^sub>1) = tj_index s
    \<and> tj_work (return_to_parent v s\<^sub>1) = ws"
proof -
  have inv: "search_inv adj (tj_counter s) ((!) (tj_index s)) ((!) (tj_lowlink s)) (tj_stack s) ((v, i) # ws) (set (concat (tj_components s)))"
    and len: "length (tj_index s) = length adj" "length (tj_lowlink s) = length adj" "length (tj_on_stack s) = length adj"
    and os: "\<And>v. v < length adj \<Longrightarrow> tj_on_stack s ! v \<longleftrightarrow> v \<in> set (tj_stack s)"
    and comps: "\<forall>c \<in> set (tj_components s). scc_class (graph_of adj) (set c)" "distinct (concat (tj_components s))"
    using ok wk unfolding tarjan_ok_def by auto
  note D = search_invD [OF inv] and top = top_open [OF inv]
  show ?thesis
  proof (cases "tj_lowlink s ! v = tj_index s ! v")
    case False
    obtain p j ws' where p: "ws = (p, j) # ws'"
      "search_inv adj (tj_counter s) ((!) (tj_index s)) (((!) (tj_lowlink s))(p := min (tj_lowlink s ! p) (tj_lowlink s ! v)))
         (tj_stack s) ws (set (concat (tj_components s)))"
      using inv_leave [OF inv i False] by blast
    have pn: "p < length adj" using D(6,8) by (auto simp: p(1))
    let ?s = "return_to_parent v s"
    have s': "?s = s\<lparr>tj_work := ws, tj_lowlink := (tj_lowlink s)[p := min (tj_lowlink s ! p) (tj_lowlink s ! v)]\<rparr>"
      by (simp add: return_to_parent_def wk p(1))
    have "tarjan_ok adj ?s" using p(2) len os comps pn by (simp add: tarjan_ok_def s' nth_update_fun)
    then show ?thesis using False by (simp add: emit_def s')
  next
    case True
    obtain c rest where c: "pop_until v (tj_stack s) = Some (c, rest)" "tj_stack s = c @ rest"
      "set c = {x \<in> set (tj_stack s). tj_index s ! v \<le> tj_index s ! x}"
      using pop_until_sorted [OF top(1) D(2)] by blast
    define s1 where "s1 = s\<lparr>tj_stack := rest, tj_on_stack := foldl (\<lambda>os w. os[w := False]) (tj_on_stack s) c,
        tj_components := tj_components s @ [c]\<rparr>"
    have e: "emit v s = Some (s1, length c)" using True c(1) by (simp add: emit_def s1_def)
    have keep: "(tj_lowlink s)[p := min (tj_lowlink s ! p) (tj_lowlink s ! v)] = tj_lowlink s" if "p \<in> fst ` set ws" for p
    proof -
      have "p \<in> set (tj_stack s)" using that D(8) by auto
      then have "tj_lowlink s ! p < tj_lowlink s ! v" using D(11) [of p] top(3) [OF that] True by simp
      then show ?thesis by (simp add: min_def)
    qed
    have s': "return_to_parent v s1 = s1\<lparr>tj_work := ws\<rparr>"
      using keep by (cases ws) (auto simp: return_to_parent_def s1_def wk)
    have "search_inv adj (tj_counter s) ((!) (tj_index s)) ((!) (tj_lowlink s)) rest ws (set (concat (tj_components s)) \<union> set c)"
      by (rule inv_emit [OF inv adj i True c(2,3)])
    moreover have "scc_class (graph_of adj) (set c)" using root_segment(2) [OF inv adj i True] c(3) by simp
    moreover have dist: "distinct c" "set c \<inter> set rest = {}" "set c \<inter> set (concat (tj_components s)) = {}"
      using stack_distinct [OF D(2)] D(5) unfolding c(2) by auto
    moreover have "foldl (\<lambda>os w. os[w := False]) (tj_on_stack s) c ! u \<longleftrightarrow> u \<in> set rest" if "u < length adj" for u
      using os [OF that] that len(3) dist(2) unfolding c(2) by (auto simp: clear_on_stack)
    ultimately have "tarjan_ok adj (s1\<lparr>tj_work := ws\<rparr>)"
      using len comps unfolding tarjan_ok_def s1_def by (simp add: clear_on_stack(1) Un_commute Int_commute)
    moreover have "tj_index s1 = tj_index s" by (simp add: s1_def)
    ultimately show ?thesis using e by (intro exI [of _ s1] exI [of _ "length c"]) (simp add: s')
  qed
qed

lemma tarjan_step_ok:
  assumes "tarjan_ok adj s" and "adj_ok adj" and "tj_work s = (v, i) # ws"
  shows "\<exists>s' k. tarjan_step adj v i s = Some (s', k) \<and> tarjan_ok adj s' \<and> unvisited adj s' \<subseteq> unvisited adj s
    \<and> (s', s) \<in> measures [\<lambda>s. card (unvisited adj s), pending_edges adj]"
proof (cases "i < length (adj ! v)")
  case True
  then show ?thesis using visit_edge_ok [OF assms True] by (simp add: tarjan_step_def)
next
  case False
  then obtain s1 k where s1: "emit v s = Some (s1, k)" "tarjan_ok adj (return_to_parent v s1)"
    "tj_index (return_to_parent v s1) = tj_index s" "tj_work (return_to_parent v s1) = ws"
    using leave_ok [OF assms] by auto
  then show ?thesis
    using False assms(3) by (simp add: tarjan_step_def unvisited_def pending_edges_def)
qed

text \<open>A run that is never stopped ends with an empty stack of visits; otherwise the first stop is reported.\<close>

lemma tarjan_loop_ok:
  assumes "tarjan_ok adj s" and "adj_ok adj"
  shows "\<exists>res. tarjan_loop chk adj n s = Some res \<and>
    (case res of
       Inl r \<Rightarrow> stops chk n r
     | Inr (s', n') \<Rightarrow> tarjan_ok adj s' \<and> tj_work s' = [] \<and> unvisited adj s' \<subseteq> unvisited adj s \<and> clear chk n n')"
  using assms(1)
proof (induction s arbitrary: n rule: wf_induct_rule [OF wf_measures [of "[\<lambda>s. card (unvisited adj s), pending_edges adj]"]])
  case (1 s)
  show ?case
  proof (cases "tj_work s")
    case Nil
    then show ?thesis using "1.prems" by (subst tarjan_loop.simps) simp
  next
    case (Cons vi ws)
    obtain v i where vi: "vi = (v, i)" by force
    note wk = Cons [unfolded vi]
    obtain s' k where step: "tarjan_step adj v i s = Some (s', k)" "tarjan_ok adj s'" "unvisited adj s' \<subseteq> unvisited adj s"
      "(s', s) \<in> measures [\<lambda>s. card (unvisited adj s), pending_edges adj]"
      using tarjan_step_ok [OF "1.prems" assms(2) wk] by blast
    show ?thesis
    proof (cases "first_stop chk n (Suc k)")
      case (Some r)
      then have "tarjan_loop chk adj n s = Some (Inl r)"
        using step(1) wk by (subst tarjan_loop.simps) (auto split: option.splits)
      then show ?thesis using stopsI [OF Some] by simp
    next
      case None
      then have eq: "tarjan_loop chk adj n s = tarjan_loop chk adj (n + 1 + k) s'"
        using step(1) wk by (subst tarjan_loop.simps) (auto split: option.splits)
      have clr: "clear chk n (n + 1 + k)" using clearI [OF None] by simp
      obtain res where res: "tarjan_loop chk adj (n + 1 + k) s' = Some res"
        "case res of Inl r \<Rightarrow> stops chk (n + 1 + k) r
         | Inr (s'', n') \<Rightarrow> tarjan_ok adj s'' \<and> tj_work s'' = [] \<and> unvisited adj s'' \<subseteq> unvisited adj s' \<and> clear chk (n + 1 + k) n'"
        using "1.IH" [OF step(4) step(2)] by blast
      show ?thesis
      proof (cases res)
        case (Inl r)
        then show ?thesis using res stops_later [OF clr] by (simp add: eq)
      next
        case (Inr x)
        then show ?thesis using res step(3) clear_trans [OF clr] by (cases x) (auto simp: eq)
      qed
    qed
  qed
qed

lemma discover_ok:
  assumes ok: "tarjan_ok adj s" and wk: "tj_work s = []" and v: "v < length adj" "tj_index s ! v = UNVISITED"
  shows "tarjan_ok adj (discover v s)"
proof -
  have inv: "search_inv adj (tj_counter s) ((!) (tj_index s)) ((!) (tj_lowlink s)) (tj_stack s) [] (set (concat (tj_components s)))"
    using ok wk unfolding tarjan_ok_def by auto
  note D = search_invD [OF inv]
  have st: "tj_stack s = []" using stack_reaches_open [OF inv] by (cases "tj_stack s") auto
  have "v \<notin> set (concat (tj_components s))" using D(4) [OF v(1)] v(2) by auto
  then have "search_inv adj (tj_counter s + 1) (((!) (tj_index s))(v := tj_counter s)) (((!) (tj_lowlink s))(v := tj_counter s))
      [v] [(v, 0)] (set (concat (tj_components s)))"
    using D(1,4,6,9) v st by (intro search_invI) (auto simp: followed_def owner_def)
  then show ?thesis
    using ok v(1) st by (auto simp: tarjan_ok_def discover_def wk nth_update_fun nth_list_update)
qed

lemma discover_unvisited:
  "length (tj_index s) = length adj \<Longrightarrow> 0 \<le> tj_counter s \<Longrightarrow> v < length adj \<Longrightarrow> unvisited adj (discover v s) = unvisited adj s - {v}"
  by (auto simp: unvisited_def discover_def nth_list_update)

lemma tarjan_starts_ok:
  assumes "tarjan_ok adj s" and "adj_ok adj" and "tj_work s = []" and "set starts \<subseteq> {..<length adj}"
  shows "\<exists>res. tarjan_starts chk adj n starts s = Some res \<and>
    (case res of
       Inl r \<Rightarrow> stops chk n r
     | Inr s' \<Rightarrow> tarjan_ok adj s' \<and> tj_work s' = [] \<and> unvisited adj s' \<subseteq> unvisited adj s - set starts)"
  using assms
proof (induction starts arbitrary: n s)
  case (Cons start starts)
  have start: "start < length adj" "set starts \<subseteq> {..<length adj}" using Cons.prems(4) by auto
  show ?case
  proof (cases "chk n")
    case (Some r)
    then show ?thesis using stops_now by simp
  next
    case None
    have clr: "clear chk n (n + 1)" using clearI [of chk n "Suc 0"] None by simp
    show ?thesis
    proof (cases "tj_index s ! start = UNVISITED")
      case False
      obtain res where res: "tarjan_starts chk adj (n + 1) starts s = Some res"
        "case res of Inl r \<Rightarrow> stops chk (n + 1) r
         | Inr s' \<Rightarrow> tarjan_ok adj s' \<and> tj_work s' = [] \<and> unvisited adj s' \<subseteq> unvisited adj s - set starts"
        using Cons.IH [OF Cons.prems(1-3) start(2)] by blast
      have "start \<notin> unvisited adj s" using False by (simp add: unvisited_def)
      then show ?thesis using res None False stops_later [OF clr] by (cases res) auto
    next
      case True
      let ?s = "discover start s"
      have ok: "tarjan_ok adj ?s" by (rule discover_ok [OF Cons.prems(1,3) start(1) True])
      obtain res1 where res1: "tarjan_loop chk adj (n + 1) ?s = Some res1"
        "case res1 of Inl r \<Rightarrow> stops chk (n + 1) r
         | Inr (s', n') \<Rightarrow> tarjan_ok adj s' \<and> tj_work s' = [] \<and> unvisited adj s' \<subseteq> unvisited adj ?s \<and> clear chk (n + 1) n'"
        using tarjan_loop_ok [OF ok Cons.prems(2), of chk "n + 1"] by blast
      show ?thesis
      proof (cases res1)
        case (Inl r)
        then show ?thesis using res1 None True stops_later [OF clr] by simp
      next
        case (Inr sn)
        obtain s1 n1 where sn: "sn = (s1, n1)" by force
        have s1: "tarjan_ok adj s1" "tj_work s1 = []" "unvisited adj s1 \<subseteq> unvisited adj ?s" "clear chk (n + 1) n1"
          using res1(2) by (auto simp: Inr sn)
        obtain res where res: "tarjan_starts chk adj n1 starts s1 = Some res"
          "case res of Inl r \<Rightarrow> stops chk n1 r
           | Inr s' \<Rightarrow> tarjan_ok adj s' \<and> tj_work s' = [] \<and> unvisited adj s' \<subseteq> unvisited adj s1 - set starts"
          using Cons.IH [OF s1(1) Cons.prems(2) s1(2) start(2)] by blast
        have "0 \<le> tj_counter s" "length (tj_index s) = length adj"
          using Cons.prems(1) search_invD(1) by (auto simp: tarjan_ok_def)
        then have "unvisited adj s1 \<subseteq> unvisited adj s - {start}" using s1(3) start(1) by (simp add: discover_unvisited)
        then show ?thesis
          using res res1(1) None True stops_later [OF clear_trans [OF clr s1(4)]] by (cases res) (auto simp: Inr sn)
      qed
    qed
  qed
qed simp

section \<open>From names to numbers\<close>

lemma intern_set: "set (intern nodes a) = insert a (set nodes)" "distinct nodes \<Longrightarrow> distinct (intern nodes a)"
  by (auto simp: intern_def)

lemma nodes_of_spec:
  "distinct (nodes_of edges)" "set (nodes_of edges) = Domain (set edges) \<union> Range (set edges)"
proof -
  have "distinct nodes \<Longrightarrow> distinct (foldl (\<lambda>nodes (a, b). intern (intern nodes a) b) nodes edges)
      \<and> set (foldl (\<lambda>nodes (a, b). intern (intern nodes a) b) nodes edges) = set nodes \<union> Domain (set edges) \<union> Range (set edges)" for nodes
    by (induction edges arbitrary: nodes) (auto simp: intern_set)
  from this [of "[]"] show "distinct (nodes_of edges)" "set (nodes_of edges) = Domain (set edges) \<union> Range (set edges)"
    by (auto simp: nodes_of_def)
qed

lemma idx_of_Some: "idx_of nodes a = Some u \<Longrightarrow> u < length nodes \<and> nodes ! u = a"
  by (induction nodes arbitrary: u) (auto split: if_splits)

lemma idx_of_mem: "a \<in> set nodes \<Longrightarrow> \<exists>u. idx_of nodes a = Some u"
  by (induction nodes) auto

lemma idx_of_nth: "distinct nodes \<Longrightarrow> u < length nodes \<Longrightarrow> idx_of nodes (nodes ! u) = Some u"
  using idx_of_mem [of "nodes ! u" nodes] idx_of_Some [of nodes "nodes ! u"] nth_eq_iff_index_eq by fastforce

definition numbered :: "string list \<Rightarrow> (string \<times> string) list \<Rightarrow> (nat \<times> nat) set" where
  "numbered nodes edges = {(u, v). \<exists>(a, b) \<in> set edges. idx_of nodes a = Some u \<and> idx_of nodes b = Some v}"

lemma adjacency_spec:
  assumes "\<forall>(a, b) \<in> set edges. a \<in> set nodes \<and> b \<in> set nodes" and "length adj = length nodes"
  shows "\<exists>adj'. adjacency nodes edges adj = Some adj' \<and> length adj' = length nodes
    \<and> (\<forall>u < length nodes. set (adj' ! u) = set (adj ! u) \<union> numbered nodes edges `` {u})"
  using assms
proof (induction edges arbitrary: adj)
  case (Cons e edges)
  obtain a b where e: "e = (a, b)" by force
  obtain u v where uv: "idx_of nodes a = Some u" "idx_of nodes b = Some v"
    using Cons.prems(1) idx_of_mem by (fastforce simp: e)
  let ?adj = "adj[u := adj ! u @ [v]]"
  obtain adj' where adj': "adjacency nodes edges ?adj = Some adj'" "length adj' = length nodes"
    "\<forall>x < length nodes. set (adj' ! x) = set (?adj ! x) \<union> numbered nodes edges `` {x}"
    using Cons.IH [of ?adj] Cons.prems by auto
  have "numbered nodes (e # edges) `` {x} = (if x = u then {v} else {}) \<union> numbered nodes edges `` {x}" for x
    using uv by (auto simp: numbered_def e)
  moreover have "set (?adj ! x) = set (adj ! x) \<union> (if x = u then {v} else {})" if "x < length nodes" for x
    using that Cons.prems(2) by (auto simp: nth_list_update)
  ultimately show ?case using adj' uv by (intro exI [of _ adj']) (auto simp: e)
qed (simp add: numbered_def)

lemma numbered_reach:
  assumes d: "distinct nodes" and edges: "\<forall>(a, b) \<in> set edges. a \<in> set nodes \<and> b \<in> set nodes" and u: "u < length nodes"
  shows "v < length nodes \<Longrightarrow> (u, v) \<in> (numbered nodes edges)\<^sup>* \<longleftrightarrow> (nodes ! u, nodes ! v) \<in> (set edges)\<^sup>*"
    and "(nodes ! u, b) \<in> (set edges)\<^sup>* \<Longrightarrow> \<exists>v < length nodes. nodes ! v = b \<and> (u, v) \<in> (numbered nodes edges)\<^sup>*"
proof -
  have up: "(nodes ! u, nodes ! v) \<in> (set edges)\<^sup>*" if "(u, v) \<in> (numbered nodes edges)\<^sup>*" for v
    using that
  proof (induction rule: rtrancl_induct)
    case (step v w)
    have "(nodes ! v, nodes ! w) \<in> set edges" using step(2) by (auto simp: numbered_def dest!: idx_of_Some)
    then show ?case using step.IH by simp
  qed simp
  show down: "\<exists>v < length nodes. nodes ! v = b \<and> (u, v) \<in> (numbered nodes edges)\<^sup>*" if "(nodes ! u, b) \<in> (set edges)\<^sup>*" for b
    using that
  proof (induction rule: rtrancl_induct)
    case base
    then show ?case using u by blast
  next
    case (step b c)
    then obtain v where v: "v < length nodes" "nodes ! v = b" "(u, v) \<in> (numbered nodes edges)\<^sup>*" by blast
    obtain w where w: "idx_of nodes c = Some w" using step(2) edges idx_of_mem by fastforce
    have "(v, w) \<in> numbered nodes edges" using step(2) w idx_of_nth [OF d v(1)] v(2) by (auto simp: numbered_def)
    then have "(u, w) \<in> (numbered nodes edges)\<^sup>*" using v(3) by (rule rtrancl_into_rtrancl [rotated])
    then show ?case using idx_of_Some [OF w] by blast
  qed
  show "(u, v) \<in> (numbered nodes edges)\<^sup>* \<longleftrightarrow> (nodes ! u, nodes ! v) \<in> (set edges)\<^sup>*" if "v < length nodes"
    using up [of v] down [of "nodes ! v"] that nth_eq_iff_index_eq [OF d] by blast
qed

lemma tarjan_init_ok: "tarjan_ok adj (tarjan_init (length adj))"
  by (auto simp: tarjan_ok_def tarjan_init_def followed_def intro!: search_invI)

definition import_scc :: "(string \<times> string) set \<Rightarrow> string list list \<Rightarrow> bool" where
  "import_scc E comps \<longleftrightarrow>
     distinct (concat comps) \<and> set (concat comps) = Domain E \<union> Range E \<and> [] \<notin> set comps
     \<and> (\<forall>c \<in> set comps. \<forall>a \<in> set c. \<forall>b. b \<in> set c \<longleftrightarrow> (a, b) \<in> E\<^sup>* \<and> (b, a) \<in> E\<^sup>*)"

lemma scc_names:
  assumes d: "distinct nodes" and nodes: "set nodes = Domain (set edges) \<union> Range (set edges)"
    and ok: "tarjan_ok adj s" and len: "length adj = length nodes" and graph: "graph_of adj = numbered nodes edges"
    and finished: "tj_work s = []" "unvisited adj s = {}"
  shows "import_scc (set edges) (map (map ((!) nodes)) (tj_components s))"
proof -
  let ?comps = "tj_components s" and ?name = "(!) nodes"
  have inv: "search_inv adj (tj_counter s) ((!) (tj_index s)) ((!) (tj_lowlink s)) (tj_stack s) [] (set (concat ?comps))"
    and cls: "\<forall>c \<in> set ?comps. scc_class (graph_of adj) (set c)" and dist: "distinct (concat ?comps)"
    using ok finished(1) unfolding tarjan_ok_def by auto
  note D = search_invD [OF inv]
  have st: "tj_stack s = []" using stack_reaches_open [OF inv] by (cases "tj_stack s") auto
  have all: "set (concat ?comps) = {..<length nodes}"
    using D(4,6) finished(2) st len by (auto simp: unvisited_def)
  have inj: "inj_on ?name {..<length nodes}" using d by (auto simp: inj_on_def nth_eq_iff_index_eq)
  have names: "concat (map (map ?name) ?comps) = map ?name (concat ?comps)" by (simp add: map_concat)
  have ends: "\<forall>(a, b) \<in> set edges. a \<in> set nodes \<and> b \<in> set nodes" using nodes by auto
  have classes: "b \<in> ?name ` set c \<longleftrightarrow> (a, b) \<in> (set edges)\<^sup>* \<and> (b, a) \<in> (set edges)\<^sup>*"
    if c: "c \<in> set ?comps" and a: "a \<in> ?name ` set c" for c a b
  proof -
    obtain u where u: "u \<in> set c" "a = nodes ! u" using a by blast
    have in_range: "x < length nodes" if "x \<in> set c" for x using that c all by auto
    have same: "x \<in> set c \<longleftrightarrow> (u, x) \<in> (numbered nodes edges)\<^sup>* \<and> (x, u) \<in> (numbered nodes edges)\<^sup>*" for x
      using cls c u(1) unfolding scc_class_def graph by blast
    show ?thesis
    proof
      assume "b \<in> ?name ` set c"
      then obtain x where x: "x \<in> set c" "b = nodes ! x" by blast
      then show "(a, b) \<in> (set edges)\<^sup>* \<and> (b, a) \<in> (set edges)\<^sup>*"
        using same [of x] numbered_reach(1) [OF d ends in_range [OF u(1)] in_range [OF x(1)]]
          numbered_reach(1) [OF d ends in_range [OF x(1)] in_range [OF u(1)]] u(2) by simp
    next
      assume b: "(a, b) \<in> (set edges)\<^sup>* \<and> (b, a) \<in> (set edges)\<^sup>*"
      then obtain x where x: "x < length nodes" "nodes ! x = b" "(u, x) \<in> (numbered nodes edges)\<^sup>*"
        using numbered_reach(2) [OF d ends in_range [OF u(1)], of b] u(2) by blast
      then have "(x, u) \<in> (numbered nodes edges)\<^sup>*"
        using numbered_reach(1) [OF d ends x(1) in_range [OF u(1)]] b u(2) by simp
      then show "b \<in> ?name ` set c" using same [of x] x by blast
    qed
  qed
  have "distinct (concat (map (map ?name) ?comps))"
    unfolding names distinct_map using dist inj all by simp
  moreover have "set (concat (map (map ?name) ?comps)) = Domain (set edges) \<union> Range (set edges)"
  proof -
    have "?name ` {..<length nodes} = set nodes" by (auto simp: in_set_conv_nth)
    then show ?thesis unfolding names set_map all nodes .
  qed
  moreover have "[] \<notin> set (map (map ?name) ?comps)" using cls by (auto simp: scc_class_def)
  moreover have "b \<in> set c \<longleftrightarrow> (a, b) \<in> (set edges)\<^sup>* \<and> (b, a) \<in> (set edges)\<^sup>*"
    if "c \<in> set (map (map ?name) ?comps)" "a \<in> set c" for c a b
  proof -
    obtain c' where "c' \<in> set ?comps" "c = map ?name c'" using \<open>c \<in> set (map (map ?name) ?comps)\<close> by auto
    then show ?thesis using classes [of c' a b] \<open>a \<in> set c\<close> by simp
  qed
  ultimately show ?thesis unfolding import_scc_def by blast
qed

lemma tarjan_scc_cases:
  "\<exists>res. tarjan_scc chk edges = Some res
     \<and> (case res of Inl r \<Rightarrow> stops chk 0 r | Inr comps \<Rightarrow> import_scc (set edges) comps)"
proof (cases "first_stop chk 0 (1 + 2 * length edges)")
  case (Some r)
  then show ?thesis using stopsI [OF Some] by (simp add: tarjan_scc_def)
next
  case None
  let ?nodes = "nodes_of edges" and ?m = "1 + 2 * length edges"
  have clr: "clear chk 0 ?m" using clearI [OF None] by simp
  have ends: "\<forall>(a, b) \<in> set edges. a \<in> set ?nodes \<and> b \<in> set ?nodes" by (auto simp: nodes_of_spec(2))
  obtain adj where adj: "adjacency ?nodes edges (replicate (length ?nodes) []) = Some adj" "length adj = length ?nodes"
    "\<forall>u < length ?nodes. set (adj ! u) = numbered ?nodes edges `` {u}"
    using adjacency_spec [OF ends, of "replicate (length ?nodes) []"] by auto
  have graph: "graph_of adj = numbered ?nodes edges"
    using adj(2,3) by (auto simp: graph_of_def numbered_def dest: idx_of_Some)
  have ok: "adj_ok adj"
    using adj(2,3) by (auto simp: adj_ok_def numbered_def dest: idx_of_Some)
  have work: "tj_work (tarjan_init (length adj)) = []" by (simp add: tarjan_init_def)
  have sub: "set [0..<length adj] \<subseteq> {..<length adj}" by auto
  obtain res where res: "tarjan_starts chk adj ?m [0..<length adj] (tarjan_init (length adj)) = Some res"
    "case res of Inl r \<Rightarrow> stops chk ?m r
     | Inr s \<Rightarrow> tarjan_ok adj s \<and> tj_work s = [] \<and> unvisited adj s \<subseteq> unvisited adj (tarjan_init (length adj)) - set [0..<length adj]"
    using tarjan_starts_ok [OF tarjan_init_ok ok work sub, of chk ?m] by blast
  show ?thesis
  proof (cases res)
    case (Inl r)
    then show ?thesis using res None adj(1,2) stops_later [OF clr] by (simp add: tarjan_scc_def)
  next
    case (Inr s)
    have "unvisited adj s \<subseteq> {0..<length adj} - {0..<length adj}" using res(2) Inr by (auto simp: unvisited_def)
    then have "import_scc (set edges) (map (map ((!) ?nodes)) (tj_components s))"
      using scc_names [OF nodes_of_spec _ adj(2) graph] res(2) Inr by simp
    then show ?thesis using res None adj(1,2) Inr by (simp add: tarjan_scc_def)
  qed
qed

section \<open>Properties\<close>

text \<open>
  C2. The components are exactly the strongly connected components of the import graph: they partition the files of the
  graph, and two files share one exactly when each imports the other, directly or through others.
\<close>

theorem tarjan_scc_correct:
  assumes "tarjan_scc chk edges = Some (Inr comps)"
  shows "distinct (concat comps) \<and> set (concat comps) = Domain (set edges) \<union> Range (set edges) \<and> [] \<notin> set comps
    \<and> (\<forall>c \<in> set comps. \<forall>a \<in> set c. \<forall>b. b \<in> set c \<longleftrightarrow> (a, b) \<in> (set edges)\<^sup>* \<and> (b, a) \<in> (set edges)\<^sup>*)"
  using tarjan_scc_cases [of chk edges] assms by (simp add: import_scc_def)

abbreviation sample_imports :: "(string \<times> string) list" where
  "sample_imports \<equiv> [(''a'', ''b''), (''b'', ''c''), (''c'', ''a''), (''c'', ''d'')]"

theorem tarjan_scc_correct_witness:
  "tarjan_scc (\<lambda>_. None) sample_imports = Some (Inr [[''d''], [''c'', ''b'', ''a'']])
   \<and> (''b'', ''a'') \<in> (set sample_imports)\<^sup>*"
proof -
  have run: "tarjan_scc (\<lambda>_. None) sample_imports = Some (Inr [[''d''], [''c'', ''b'', ''a'']])" by code_simp
  have "\<forall>c \<in> set [[''d''], [''c'', ''b'', ''a'']]. \<forall>a \<in> set c. \<forall>b.
      b \<in> set c \<longleftrightarrow> (a, b) \<in> (set sample_imports)\<^sup>* \<and> (b, a) \<in> (set sample_imports)\<^sup>*"
    using tarjan_scc_correct [OF run] by (elim conjE)
  then have "(''b'', ''a'') \<in> (set sample_imports)\<^sup>*" by (metis list.set_intros)
  with run show ?thesis by blast
qed


end
