(* ===== verification/Overview_Cache.thy ===== *)
theory Overview_Cache
  imports Work "HOL-Library.Monad_Syntax" "HOL-Library.Multiset"
begin

text \<open>
  The daemon's cache of complete risk rankings, \<open>crates/cli/src/mcp/overview_cache.rs\<close>: one entry per
  project with the last stable ranking, at most one current computation (\<open>Flight\<close>) that any number of
  requests wait for, and bounds on projects and on cached bytes. A definition is one critical section of
  the cache's lock; requests and producers interleave between them as steps of a transition
  system. Shared \<open>Arc<Flight>\<close> objects live in a store under their id, and the strong count of a project's
  observer slot is the number of clones held outside the cache. An unsigned subtraction that would
  underflow is \<open>None\<close>. Rankings and errors are type parameters, and the allocated size of a ranking is an argument.
\<close>

section \<open>State\<close>

definition MAX_PROJECTS :: nat where "MAX_PROJECTS = 32"

definition MAX_PAYLOAD :: nat where "MAX_PAYLOAD = 2 * 1024 * 1024"

type_synonym project = string

record generation =
  gn_identity :: "nat \<times> nat"
  gn_epoch :: nat
  gn_version :: int
  gn_config :: "string option"
  gn_recurrence :: bool

record 'r cached_ranking =
  cr_ranking :: 'r
  cr_generation :: generation
  cr_stable :: bool

record 'r ready =
  rd_ranking :: 'r
  rd_generation :: generation
  rd_bytes :: nat

record ('e, 'r) flight =
  fl_generation :: generation
  fl_stop :: "stop_reason option"
  fl_waiters :: nat
  fl_abandoned :: bool
  fl_result :: "('e + 'r cached_ranking) option"
  fl_retired :: bool

record 'r entry =
  en_clones :: nat
  en_ready :: "'r ready option"
  en_flight :: "nat option"
  en_touched :: nat

record ('e, 'r) overview =
  ov_projects :: "(project \<times> 'r entry) list"
  ov_sequence :: nat
  ov_bytes :: nat
  ov_retired :: nat
  ov_flights :: "(nat \<times> ('e, 'r) flight) list"

definition overview_default :: "('e, 'r) overview" where
  "overview_default = \<lparr>ov_projects = [], ov_sequence = 0, ov_bytes = 0, ov_retired = 0, ov_flights = []\<rparr>"

definition checked_sub :: "nat \<Rightarrow> nat \<Rightarrow> nat option" where
  "checked_sub a b = (if b \<le> a then Some (a - b) else None)"

definition ready_bytes :: "'r entry \<Rightarrow> nat" where
  "ready_bytes e = (case en_ready e of None \<Rightarrow> 0 | Some r \<Rightarrow> rd_bytes r)"

definition set_entry :: "project \<Rightarrow> 'r entry \<Rightarrow> ('e, 'r) overview \<Rightarrow> ('e, 'r) overview" where
  "set_entry p e ov = ov\<lparr>ov_projects := hm_insert p e (ov_projects ov)\<rparr>"

definition set_flight :: "nat \<Rightarrow> ('e, 'r) flight \<Rightarrow> ('e, 'r) overview \<Rightarrow> ('e, 'r) overview" where
  "set_flight i f ov = ov\<lparr>ov_flights := hm_insert i f (ov_flights ov)\<rparr>"

text \<open>\<open>min_by_key(|(_, entry)| entry.touched)\<close>\<close>

fun min_touched :: "(project \<times> 'r entry) list \<Rightarrow> (project \<times> 'r entry) option" where
  "min_touched [] = None"
| "min_touched (x # xs) =
     (case min_touched xs of
        None \<Rightarrow> Some x
      | Some y \<Rightarrow> if en_touched (snd x) \<le> en_touched (snd y) then Some x else Some y)"

section \<open>Slots\<close>

text \<open>\<open>OverviewCache::slot\<close>; the flag is false when the cache is saturated.\<close>

definition new_entry :: "nat \<Rightarrow> 'r entry" where
  "new_entry sequence = \<lparr>en_clones = 1, en_ready = None, en_flight = None, en_touched = sequence\<rparr>"

definition evictable :: "project \<times> 'r entry \<Rightarrow> bool" where
  "evictable x \<longleftrightarrow> en_flight (snd x) = None \<and> en_clones (snd x) = 0"

definition slot :: "project \<Rightarrow> ('e, 'r) overview \<Rightarrow> (bool \<times> ('e, 'r) overview) option" where
  "slot p ov0 =
     (let sequence = ov_sequence ov0 + 1; ov = ov0\<lparr>ov_sequence := sequence\<rparr> in
      case hm_get (ov_projects ov) p of
        Some e \<Rightarrow> Some (True, set_entry p (e\<lparr>en_touched := sequence, en_clones := en_clones e + 1\<rparr>) ov)
      | None \<Rightarrow>
          if length (ov_projects ov) \<ge> MAX_PROJECTS
          then (case min_touched (filter evictable (ov_projects ov)) of
                  None \<Rightarrow> Some (False, ov)
                | Some (victim, e) \<Rightarrow> do {
                    bytes \<leftarrow> checked_sub (ov_bytes ov) (ready_bytes e);
                    Some (True, set_entry p (new_entry sequence)
                      (ov\<lparr>ov_projects := hm_remove victim (ov_projects ov), ov_bytes := bytes\<rparr>)) })
          else Some (True, set_entry p (new_entry sequence) ov))"

text \<open>Dropping a clone of a slot.\<close>

definition release :: "project \<Rightarrow> ('e, 'r) overview \<Rightarrow> ('e, 'r) overview" where
  "release p ov =
     (case hm_get (ov_projects ov) p of
        None \<Rightarrow> ov
      | Some e \<Rightarrow> set_entry p (e\<lparr>en_clones := en_clones e - 1\<rparr>) ov)"

section \<open>Requests\<close>

datatype 'r looked =
    Disappeared
  | Ready_Hit "'r cached_ranking"
  | Join nat bool

text \<open>The critical section of \<open>OverviewCache::get\<close>: a hit, a place in the current flight, or a flight of its own.\<close>

definition new_flight :: "generation \<Rightarrow> ('e, 'r) flight" where
  "new_flight g =
     \<lparr>fl_generation = g, fl_stop = None, fl_waiters = 1, fl_abandoned = False, fl_result = None, fl_retired = False\<rparr>"

definition joinable :: "generation \<Rightarrow> ('e, 'r) overview \<Rightarrow> 'r entry \<Rightarrow> (nat \<times> ('e, 'r) flight) option" where
  "joinable g ov e =
     (case en_flight e of
        None \<Rightarrow> None
      | Some i \<Rightarrow>
          (case hm_get (ov_flights ov) i of
             None \<Rightarrow> None
           | Some f \<Rightarrow> if fl_generation f = g \<and> \<not> fl_abandoned f then Some (i, f) else None))"

definition retire_previous :: "'r entry \<Rightarrow> ('e, 'r) overview \<Rightarrow> ('e, 'r) overview" where
  "retire_previous e ov =
     (case en_flight e of
        None \<Rightarrow> ov
      | Some i \<Rightarrow>
          (case hm_get (ov_flights ov) i of
             None \<Rightarrow> ov
           | Some f \<Rightarrow> (set_flight i (f\<lparr>fl_retired := True\<rparr>) ov)\<lparr>ov_retired := ov_retired ov + 1\<rparr>))"

definition join_flight ::
  "nat \<Rightarrow> project \<Rightarrow> generation \<Rightarrow> 'r entry \<Rightarrow> ('e, 'r) overview \<Rightarrow> 'r looked \<times> ('e, 'r) overview" where
  "join_flight i p g e ov =
     (case joinable g ov e of
        Some (j, f) \<Rightarrow> (Join j False, set_flight j (f\<lparr>fl_waiters := fl_waiters f + 1\<rparr>) ov)
      | None \<Rightarrow>
          (Join i True,
           set_entry p (e\<lparr>en_flight := Some i\<rparr>) (set_flight i (new_flight g) (retire_previous e ov))))"

definition look_up :: "project \<Rightarrow> generation \<Rightarrow> ('e, 'r) overview \<Rightarrow> 'r looked \<times> ('e, 'r) overview" where
  "look_up p g ov0 =
     (let i = ov_sequence ov0 + 1; ov = ov0\<lparr>ov_sequence := i\<rparr> in
      case hm_get (ov_projects ov) p of
        None \<Rightarrow> (Disappeared, ov)
      | Some e \<Rightarrow>
          (case en_ready e of
             Some r \<Rightarrow>
               if rd_generation r = g
               then (Ready_Hit \<lparr>cr_ranking = rd_ranking r, cr_generation = g, cr_stable = True\<rparr>, ov)
               else join_flight i p g e ov
           | None \<Rightarrow> join_flight i p g e ov))"

text \<open>\<open>Drop for WaiterGuard\<close>; the flag says whether the flight's control is cancelled afterwards.\<close>

definition is_current :: "project \<Rightarrow> nat \<Rightarrow> ('e, 'r) overview \<Rightarrow> bool" where
  "is_current p i ov =
     (case hm_get (ov_projects ov) p of None \<Rightarrow> False | Some e \<Rightarrow> en_flight e = Some i)"

definition clear_flight :: "project \<Rightarrow> nat \<Rightarrow> ('e, 'r) overview \<Rightarrow> ('e, 'r) overview" where
  "clear_flight p i ov =
     (case hm_get (ov_projects ov) p of
        None \<Rightarrow> ov
      | Some e \<Rightarrow> if en_flight e = Some i then set_entry p (e\<lparr>en_flight := None\<rparr>) ov else ov)"

definition abandon :: "project \<Rightarrow> nat \<Rightarrow> ('e, 'r) flight \<Rightarrow> ('e, 'r) overview \<Rightarrow> ('e, 'r) overview" where
  "abandon p i f ov =
     clear_flight p i
       ((set_flight i (f\<lparr>fl_abandoned := True, fl_retired := True\<rparr>) ov)
          \<lparr>ov_retired := (if fl_retired f then ov_retired ov else ov_retired ov + 1)\<rparr>)"

definition drop_waiter :: "project \<Rightarrow> nat \<Rightarrow> ('e, 'r) overview \<Rightarrow> (bool \<times> ('e, 'r) overview) option" where
  "drop_waiter p i ov = do {
     f0 \<leftarrow> hm_get (ov_flights ov) i;
     w \<leftarrow> checked_sub (fl_waiters f0) 1;
     let f = f0\<lparr>fl_waiters := w\<rparr>;
     if w = 0 \<and> fl_result f = None
     then Some (True, abandon p i f ov)
     else Some (False, set_flight i f ov) }"

section \<open>Producers\<close>

text \<open>\<open>WorkControl::cancel\<close> on the control of a flight: the first reason stays.\<close>

definition stop_flight :: "nat \<Rightarrow> stop_reason \<Rightarrow> ('e, 'r) overview \<Rightarrow> ('e, 'r) overview" where
  "stop_flight i why ov =
     (case hm_get (ov_flights ov) i of
        None \<Rightarrow> ov
      | Some f \<Rightarrow> if fl_stop f = None then set_flight i (f\<lparr>fl_stop := Some why\<rparr>) ov else ov)"

text \<open>\<open>OverviewCache::complete\<close>, with its eviction loop.\<close>

definition take_ready :: "project \<Rightarrow> ('e, 'r) overview \<Rightarrow> ('e, 'r) overview option" where
  "take_ready p ov =
     (case hm_get (ov_projects ov) p of
        None \<Rightarrow> Some ov
      | Some e \<Rightarrow> do {
          bytes \<leftarrow> checked_sub (ov_bytes ov) (ready_bytes e);
          Some ((set_entry p (e\<lparr>en_ready := None\<rparr>) ov)\<lparr>ov_bytes := bytes\<rparr>) })"

definition has_ready :: "project \<times> 'r entry \<Rightarrow> bool" where
  "has_ready x \<longleftrightarrow> en_ready (snd x) \<noteq> None"

lemma min_touched_mem: "min_touched xs = Some x \<Longrightarrow> x \<in> set xs"
  by (induction xs arbitrary: x) (auto split: option.splits if_splits)

lemma min_touched_None_iff [simp]: "min_touched xs = None \<longleftrightarrow> xs = []"
  by (cases xs) (auto split: option.splits)

lemma min_touched_least: "min_touched xs = Some x \<Longrightarrow> y \<in> set xs \<Longrightarrow> en_touched (snd x) \<le> en_touched (snd y)"
  by (induction xs arbitrary: x) (fastforce split: option.splits if_splits)+

lemma count_if_hm_remove_le: "count_if P (hm_remove k m) \<le> count_if P m"
  by (induction m) (auto simp: hm_remove_def)

lemma count_if_hm_remove_less:
  assumes "(k, v) \<in> set m" "P (k, v)"
  shows "count_if P (hm_remove k m) < count_if P m"
  using assms
proof (induction m)
  case (Cons x m)
  have "count_if P (hm_remove k m) \<le> count_if P m" by (rule count_if_hm_remove_le)
  then show ?case using Cons by (auto simp: hm_remove_def split: if_splits)
qed simp

lemma take_ready_fewer:
  assumes "take_ready p ov = Some ov'" and "(p, e) \<in> set (filter has_ready (ov_projects ov))"
  shows "count_if has_ready (ov_projects ov') < count_if has_ready (ov_projects ov)"
proof -
  have "hm_get (ov_projects ov) p \<noteq> None" using assms(2) by (fastforce dest: weak_map_of_SomeI)
  then obtain e' where "hm_get (ov_projects ov) p = Some e'" by blast
  then have "ov_projects ov' = hm_insert p (e'\<lparr>en_ready := None\<rparr>) (ov_projects ov)"
    using assms(1) by (auto simp: take_ready_def set_entry_def split: bind_splits)
  moreover have "count_if has_ready (hm_remove p (ov_projects ov)) < count_if has_ready (ov_projects ov)"
    using assms(2) by (intro count_if_hm_remove_less [of p e]) auto
  ultimately show ?thesis by (simp add: hm_insert_eq has_ready_def)
qed

function make_room :: "nat \<Rightarrow> ('e, 'r) overview \<Rightarrow> ('e, 'r) overview option" where
  "make_room bytes ov =
     (if ov_bytes ov + bytes > MAX_PAYLOAD
      then (case min_touched (filter has_ready (ov_projects ov)) of
              None \<Rightarrow> Some ov
            | Some (victim, _) \<Rightarrow>
                (case take_ready victim ov of
                   None \<Rightarrow> None
                 | Some ov' \<Rightarrow> make_room bytes ov'))
      else Some ov)"
  by pat_completeness auto
termination
  by (relation "measure (\<lambda>(_, ov). count_if has_ready (ov_projects ov))")
    (auto dest!: min_touched_mem intro: take_ready_fewer)

declare make_room.simps [simp del]

definition store_ready :: "project \<Rightarrow> nat \<Rightarrow> 'r cached_ranking \<Rightarrow> ('e, 'r) overview \<Rightarrow> ('e, 'r) overview option" where
  "store_ready p bytes c ov0 = do {
     ov1 \<leftarrow> take_ready p ov0;
     ov \<leftarrow> make_room bytes ov1;
     Some (case hm_get (ov_projects ov) p of
             None \<Rightarrow> ov
           | Some e \<Rightarrow>
               (set_entry p (e\<lparr>en_ready := Some \<lparr>rd_ranking = cr_ranking c, rd_generation = cr_generation c,
                                               rd_bytes = bytes\<rparr>\<rparr>) ov)
                 \<lparr>ov_bytes := ov_bytes ov + bytes\<rparr>) }"

definition settle :: "('e, 'r) flight \<Rightarrow> ('e, 'r) overview \<Rightarrow> ('e, 'r) overview option" where
  "settle f ov =
     (if fl_retired f
      then do { n \<leftarrow> checked_sub (ov_retired ov) 1; Some (ov\<lparr>ov_retired := n\<rparr>) }
      else Some ov)"

definition publish ::
  "('r \<Rightarrow> nat) \<Rightarrow> project \<Rightarrow> nat \<Rightarrow> ('e, 'r) flight \<Rightarrow> 'e + 'r cached_ranking \<Rightarrow> ('e, 'r) overview
    \<Rightarrow> ('e, 'r) overview option" where
  "publish ranking_bytes p i f outcome ov =
     (case outcome of
        Inl _ \<Rightarrow> Some ov
      | Inr c \<Rightarrow>
          if \<not> fl_abandoned f \<and> fl_stop f = None \<and> cr_stable c \<and> is_current p i ov
             \<and> ranking_bytes (cr_ranking c) \<le> MAX_PAYLOAD
          then store_ready p (ranking_bytes (cr_ranking c)) c ov
          else Some ov)"

definition complete ::
  "('r \<Rightarrow> nat) \<Rightarrow> project \<Rightarrow> nat \<Rightarrow> 'e + 'r cached_ranking \<Rightarrow> ('e, 'r) overview \<Rightarrow> ('e, 'r) overview option" where
  "complete ranking_bytes p i outcome ov0 = do {
     f \<leftarrow> hm_get (ov_flights ov0) i;
     ov1 \<leftarrow> settle f ov0;
     ov \<leftarrow> publish ranking_bytes p i f outcome ov1;
     Some (clear_flight p i (set_flight i (f\<lparr>fl_retired := False, fl_result := Some outcome\<rparr>) ov)) }"

section \<open>Interleavings\<close>

text \<open>
  The tasks that hold something of the cache: a request or a probe that took a slot, a request that waits for a
  flight (with its slot unless the producer took it over), the producer of a flight (with or after
  its slot), and a cancellation that the last waiter still has to deliver.
\<close>

datatype task =
    Probing project
  | Waiting project nat bool
  | Producing project nat bool
  | Cancelling nat

fun holds :: "project \<Rightarrow> task \<Rightarrow> bool" where
  "holds p (Probing q) \<longleftrightarrow> p = q"
| "holds p (Waiting q _ h) \<longleftrightarrow> h \<and> p = q"
| "holds p (Producing q _ h) \<longleftrightarrow> h \<and> p = q"
| "holds p (Cancelling _) \<longleftrightarrow> False"

fun waits :: "nat \<Rightarrow> task \<Rightarrow> bool" where
  "waits i (Waiting _ j _) \<longleftrightarrow> i = j"
| "waits _ _ \<longleftrightarrow> False"

fun produces :: "nat \<Rightarrow> task \<Rightarrow> bool" where
  "produces i (Producing _ j _) \<longleftrightarrow> i = j"
| "produces _ _ \<longleftrightarrow> False"

definition release_if :: "bool \<Rightarrow> project \<Rightarrow> ('e, 'r) overview \<Rightarrow> ('e, 'r) overview" where
  "release_if h p ov = (if h then release p ov else ov)"

inductive cache_step ::
  "('r \<Rightarrow> nat) \<Rightarrow> ('e, 'r) overview \<times> task multiset \<Rightarrow> ('e, 'r) overview \<times> task multiset \<Rightarrow> bool"
  for ranking_bytes where
  ask: "slot p ov = Some (True, ov') \<Longrightarrow> cache_step ranking_bytes (ov, T) (ov', add_mset (Probing p) T)"
| saturated: "slot p ov = Some (False, ov') \<Longrightarrow> cache_step ranking_bytes (ov, T) (ov', T)"
| leave: "cache_step ranking_bytes (ov, add_mset (Probing p) T) (release p ov, T)"
| hit: "look_up p g ov = (Ready_Hit c, ov') \<Longrightarrow>
    cache_step ranking_bytes (ov, add_mset (Probing p) T) (release p ov', T)"
| shared: "look_up p g ov = (Join i False, ov') \<Longrightarrow>
    cache_step ranking_bytes (ov, add_mset (Probing p) T) (ov', add_mset (Waiting p i True) T)"
| owner: "look_up p g ov = (Join i True, ov') \<Longrightarrow>
    cache_step ranking_bytes (ov, add_mset (Probing p) T)
      (ov', add_mset (Waiting p i False) (add_mset (Producing p i True) T))"
| gone: "look_up p g ov = (Disappeared, ov') \<Longrightarrow>
    cache_step ranking_bytes (ov, add_mset (Probing p) T) (ov', T)"
| answered: "drop_waiter p i ov = Some (False, ov') \<Longrightarrow>
    cache_step ranking_bytes (ov, add_mset (Waiting p i h) T) (release_if h p ov', T)"
| abandoned: "drop_waiter p i ov = Some (True, ov') \<Longrightarrow>
    cache_step ranking_bytes (ov, add_mset (Waiting p i h) T) (release_if h p ov', add_mset (Cancelling i) T)"
| cancel: "cache_step ranking_bytes (ov, add_mset (Cancelling i) T) (stop_flight i NoConsumers ov, T)"
| stop: "cache_step ranking_bytes (ov, T) (stop_flight i why ov, T)"
| let_go: "cache_step ranking_bytes (ov, add_mset (Producing p i True) T)
    (release p ov, add_mset (Producing p i False) T)"
| finish: "complete ranking_bytes p i outcome ov = Some ov' \<Longrightarrow>
    cache_step ranking_bytes (ov, add_mset (Producing p i False) T) (ov', T)"

section \<open>Invariant\<close>

definition stored :: "(project \<times> 'r entry) list \<Rightarrow> nat" where
  "stored m = sum_list (map (\<lambda>x. ready_bytes (snd x)) m)"

definition retired_flight :: "nat \<times> ('e, 'r) flight \<Rightarrow> bool" where
  "retired_flight x \<longleftrightarrow> fl_retired (snd x)"

text \<open>The bounds and counters of the cache itself.\<close>

definition stock :: "('e, 'r) overview \<Rightarrow> bool" where
  "stock ov \<longleftrightarrow>
     hm_ok (ov_projects ov) \<and> length (ov_projects ov) \<le> MAX_PROJECTS
     \<and> ov_bytes ov = stored (ov_projects ov) \<and> ov_bytes ov \<le> MAX_PAYLOAD"

definition shape :: "('e, 'r) overview \<Rightarrow> bool" where
  "shape ov \<longleftrightarrow>
     stock ov \<and> hm_ok (ov_flights ov) \<and> (\<forall>i f. hm_get (ov_flights ov) i = Some f \<longrightarrow> i \<le> ov_sequence ov)
     \<and> ov_retired ov = count_if retired_flight (ov_flights ov)"

text \<open>What entries and flights say about the tasks.\<close>

definition live :: "('e, 'r) flight \<Rightarrow> bool" where
  "live f \<longleftrightarrow> \<not> fl_retired f \<and> \<not> fl_abandoned f \<and> fl_result f = None"

definition links :: "(project \<Rightarrow> 'r entry option) \<Rightarrow> (nat \<Rightarrow> ('e, 'r) flight option) \<Rightarrow> task multiset \<Rightarrow> bool" where
  "links pr fl T \<longleftrightarrow>
     (\<forall>p. size (filter_mset (holds p) T) = (case pr p of None \<Rightarrow> 0 | Some e \<Rightarrow> en_clones e))
     \<and> (\<forall>i. size (filter_mset (waits i) T) = (case fl i of None \<Rightarrow> 0 | Some f \<Rightarrow> fl_waiters f))
     \<and> (\<forall>i. size (filter_mset (produces i) T) =
          (case fl i of None \<Rightarrow> 0 | Some f \<Rightarrow> of_bool (fl_result f = None)))
     \<and> (\<forall>p e i. pr p = Some e \<longrightarrow> en_flight e = Some i \<longrightarrow>
          (\<exists>f h. fl i = Some f \<and> live f \<and> Producing p i h \<in># T))
     \<and> (\<forall>p i h f. Producing p i h \<in># T \<longrightarrow> fl i = Some f \<longrightarrow> \<not> fl_retired f \<longrightarrow>
          (\<exists>e. pr p = Some e \<and> en_flight e = Some i))
     \<and> (\<forall>p q i h k. Waiting p i h \<in># T \<longrightarrow> Producing q i k \<in># T \<longrightarrow> p = q)
     \<and> (\<forall>i f. fl i = Some f \<longrightarrow> fl_retired f \<longrightarrow> fl_result f = None)
     \<and> (\<forall>i f. fl i = Some f \<longrightarrow> fl_abandoned f \<longrightarrow> fl_waiters f = 0)"

lemma linksI:
  assumes "\<And>p. size (filter_mset (holds p) T) = (case pr p of None \<Rightarrow> 0 | Some e \<Rightarrow> en_clones e)"
    and "\<And>i. size (filter_mset (waits i) T) = (case fl i of None \<Rightarrow> 0 | Some f \<Rightarrow> fl_waiters f)"
    and "\<And>i. size (filter_mset (produces i) T) =
          (case fl i of None \<Rightarrow> 0 | Some f \<Rightarrow> of_bool (fl_result f = None))"
    and "\<And>p e i. pr p = Some e \<Longrightarrow> en_flight e = Some i \<Longrightarrow>
          \<exists>f h. fl i = Some f \<and> live f \<and> Producing p i h \<in># T"
    and "\<And>p i h f. Producing p i h \<in># T \<Longrightarrow> fl i = Some f \<Longrightarrow> \<not> fl_retired f \<Longrightarrow>
          \<exists>e. pr p = Some e \<and> en_flight e = Some i"
    and "\<And>p q i h k. Waiting p i h \<in># T \<Longrightarrow> Producing q i k \<in># T \<Longrightarrow> p = q"
    and "\<And>i f. fl i = Some f \<Longrightarrow> fl_retired f \<Longrightarrow> fl_result f = None"
    and "\<And>i f. fl i = Some f \<Longrightarrow> fl_abandoned f \<Longrightarrow> fl_waiters f = 0"
  shows "links pr fl T"
  unfolding links_def using assms by (intro conjI allI impI) assumption+

lemma linksD:
  assumes "links pr fl T"
  shows holds_count: "size (filter_mset (holds p) T) = (case pr p of None \<Rightarrow> 0 | Some e \<Rightarrow> en_clones e)"
    and waits_count: "size (filter_mset (waits i) T) = (case fl i of None \<Rightarrow> 0 | Some f \<Rightarrow> fl_waiters f)"
    and produces_count: "size (filter_mset (produces i) T) =
          (case fl i of None \<Rightarrow> 0 | Some f \<Rightarrow> of_bool (fl_result f = None))"
    and current_live: "pr p = Some e \<Longrightarrow> en_flight e = Some i \<Longrightarrow>
          \<exists>f h. fl i = Some f \<and> live f \<and> Producing p i h \<in># T"
    and producer_current: "Producing p i h \<in># T \<Longrightarrow> fl i = Some f \<Longrightarrow> \<not> fl_retired f \<Longrightarrow>
          \<exists>e. pr p = Some e \<and> en_flight e = Some i"
    and same_project: "Waiting p i h \<in># T \<Longrightarrow> Producing q i k \<in># T \<Longrightarrow> p = q"
    and retired_unfinished: "fl i = Some f \<Longrightarrow> fl_retired f \<Longrightarrow> fl_result f = None"
    and abandoned_unwaited: "fl i = Some f \<Longrightarrow> fl_abandoned f \<Longrightarrow> fl_waiters f = 0"
  using assms unfolding links_def by blast+

lemma size_filter_mset_pos: "t \<in># T \<Longrightarrow> P t \<Longrightarrow> 0 < size (filter_mset P T)"
  by (auto dest!: multi_member_split)

lemma holder_entry:
  assumes "links pr fl T" "t \<in># T" "holds p t"
  shows "\<exists>e. pr p = Some e \<and> 0 < en_clones e"
  using size_filter_mset_pos [of t T "holds p", OF assms(2,3)] unfolding holds_count [OF assms(1)]
  by (auto split: option.splits)

lemma waiter_flight:
  assumes "links pr fl T" "Waiting p i h \<in># T"
  shows "\<exists>f. fl i = Some f \<and> 0 < fl_waiters f"
  using size_filter_mset_pos [of _ T "waits i", OF assms(2)] unfolding waits_count [OF assms(1)]
  by (auto split: option.splits)

lemma producer_flight:
  assumes "links pr fl T" "Producing p i h \<in># T"
  shows "\<exists>f. fl i = Some f \<and> fl_result f = None"
  using size_filter_mset_pos [of _ T "produces i", OF assms(2)] unfolding produces_count [OF assms(1)]
  by (auto split: option.splits)

text \<open>A task that takes or drops a slot, all else unchanged.\<close>

lemma links_entry:
  assumes L: "links pr fl T" and e: "pr p = Some e" and f': "en_flight e' = en_flight e"
    and own: "size (filter_mset (holds p) T') = en_clones e'"
    and others: "\<And>q. q \<noteq> p \<Longrightarrow> filter_mset (holds q) T' = filter_mset (holds q) T"
    and w: "\<And>i. filter_mset (waits i) T' = filter_mset (waits i) T"
    and pd: "\<And>i. size (filter_mset (produces i) T') = size (filter_mset (produces i) T)"
    and pm: "\<And>q i. (\<exists>h. Producing q i h \<in># T') = (\<exists>h. Producing q i h \<in># T)"
  shows "links (pr(p \<mapsto> e')) fl T'"
proof (rule linksI)
  fix q
  show "size (filter_mset (holds q) T') = (case (pr(p \<mapsto> e')) q of None \<Rightarrow> 0 | Some e \<Rightarrow> en_clones e)"
    using own others [of q] holds_count [OF L, of q] by auto
next
  fix i
  show "size (filter_mset (waits i) T') = (case fl i of None \<Rightarrow> 0 | Some f \<Rightarrow> fl_waiters f)"
    and "size (filter_mset (produces i) T') = (case fl i of None \<Rightarrow> 0 | Some f \<Rightarrow> of_bool (fl_result f = None))"
    using w waits_count [OF L, of i] pd produces_count [OF L, of i] by auto
next
  fix q a i assume a: "(pr(p \<mapsto> e')) q = Some a" "en_flight a = Some i"
  then obtain b where "pr q = Some b" "en_flight b = Some i" using e f' by (auto split: if_splits)
  then show "\<exists>f h. fl i = Some f \<and> live f \<and> Producing q i h \<in># T'"
    using current_live [OF L, of q b i] pm [of q i] by blast
next
  fix q i h f assume "Producing q i h \<in># T'" "fl i = Some f" "\<not> fl_retired f"
  then show "\<exists>a. (pr(p \<mapsto> e')) q = Some a \<and> en_flight a = Some i"
    using producer_current [OF L, of q i _ f] e f' pm [of q i] by (cases "q = p") fastforce+
next
  fix q r i h k assume W: "Waiting q i h \<in># T'" and P: "Producing r i k \<in># T'"
  have "Waiting q i h \<in># filter_mset (waits i) T'" using W by simp
  then have "Waiting q i h \<in># T" unfolding w by simp
  then show "q = r" using same_project [OF L, of q i h r] P pm by blast
qed (use L retired_unfinished abandoned_unwaited in blast)+

lemma links_slot_new:
  assumes L: "links pr fl T" and p: "pr p = None"
  shows "links (pr(p \<mapsto> new_entry s)) fl (add_mset (Probing p) T)"
proof (rule linksI)
  fix q
  show "size (filter_mset (holds q) (add_mset (Probing p) T)) =
      (case (pr(p \<mapsto> new_entry s)) q of None \<Rightarrow> 0 | Some e \<Rightarrow> en_clones e)"
    using holds_count [OF L, of q] p by (auto simp: new_entry_def)
next
  fix i
  show "size (filter_mset (waits i) (add_mset (Probing p) T)) = (case fl i of None \<Rightarrow> 0 | Some f \<Rightarrow> fl_waiters f)"
    and "size (filter_mset (produces i) (add_mset (Probing p) T)) =
      (case fl i of None \<Rightarrow> 0 | Some f \<Rightarrow> of_bool (fl_result f = None))"
    using waits_count [OF L, of i] produces_count [OF L, of i] by auto
next
  fix q a i assume "(pr(p \<mapsto> new_entry s)) q = Some a" "en_flight a = Some i"
  then show "\<exists>f h. fl i = Some f \<and> live f \<and> Producing q i h \<in># add_mset (Probing p) T"
    using current_live [OF L, of q a i] by (auto simp: new_entry_def split: if_splits)
next
  fix q i h f assume "Producing q i h \<in># add_mset (Probing p) T" "fl i = Some f" "\<not> fl_retired f"
  then show "\<exists>a. (pr(p \<mapsto> new_entry s)) q = Some a \<and> en_flight a = Some i"
    using producer_current [OF L, of q i h f] p by auto
qed (use L same_project retired_unfinished abandoned_unwaited in auto)

lemma links_evict:
  assumes L: "links pr fl T" and v: "pr v = Some e" "en_flight e = None" "en_clones e = 0"
  shows "links (pr(v := None)) fl T"
proof (rule linksI)
  fix q
  show "size (filter_mset (holds q) T) = (case (pr(v := None)) q of None \<Rightarrow> 0 | Some e \<Rightarrow> en_clones e)"
    using holds_count [OF L, of q] v by auto
next
  fix q i h f assume P: "Producing q i h \<in># T" "fl i = Some f" "\<not> fl_retired f"
  then show "\<exists>a. (pr(v := None)) q = Some a \<and> en_flight a = Some i"
    using producer_current [OF L P] v by auto
next
  fix q a i assume "(pr(v := None)) q = Some a" "en_flight a = Some i"
  then show "\<exists>f h. fl i = Some f \<and> live f \<and> Producing q i h \<in># T"
    using current_live [OF L, of q a i] by (auto split: if_splits)
qed (use linksD [OF L] in blast)+

lemma producer_unique:
  assumes L: "links pr fl T" and "Producing p i h \<in># T" "Producing q i k \<in># T"
  shows "p = q \<and> h = k"
proof (rule ccontr)
  assume ne: "\<not> (p = q \<and> h = k)"
  obtain T' where T': "T = add_mset (Producing p i h) T'" using assms(2) by (auto dest: multi_member_split)
  then obtain T'' where T'': "T' = add_mset (Producing q i k) T''"
    using assms(3) ne by (auto dest: multi_member_split)
  then show False using produces_count [OF L, of i] unfolding T' by (auto split: option.splits if_splits simp: of_bool_def)
qed

lemma current_unique:
  "links pr fl T \<Longrightarrow> pr p = Some a \<Longrightarrow> en_flight a = Some i \<Longrightarrow> pr q = Some b \<Longrightarrow> en_flight b = Some i \<Longrightarrow> p = q"
  by (metis current_live producer_unique)

text \<open>A flight's flags change while its entry, if it is current, follows.\<close>

lemma links_flight:
  assumes L: "links pr fl T" and f: "fl i = Some f"
    and same: "fl_waiters f' = fl_waiters f" "fl_result f' = fl_result f"
    and ret: "fl_retired f \<Longrightarrow> fl_retired f'" "fl_retired f' \<Longrightarrow> fl_result f' = None"
    and ab: "fl_abandoned f' \<Longrightarrow> fl_waiters f' = 0"
    and cur: "\<And>q a. pr q = Some a \<Longrightarrow> en_flight a = Some i \<Longrightarrow> live f'"
  shows "links pr (fl(i \<mapsto> f')) T"
proof (rule linksI)
  fix j
  show "size (filter_mset (waits j) T) = (case (fl(i \<mapsto> f')) j of None \<Rightarrow> 0 | Some f \<Rightarrow> fl_waiters f)"
    and "size (filter_mset (produces j) T) =
      (case (fl(i \<mapsto> f')) j of None \<Rightarrow> 0 | Some f \<Rightarrow> of_bool (fl_result f = None))"
    using waits_count [OF L, of j] produces_count [OF L, of j] f same by auto
next
  fix q a j assume "pr q = Some a" "en_flight a = Some j"
  then show "\<exists>f h. (fl(i \<mapsto> f')) j = Some f \<and> live f \<and> Producing q j h \<in># T"
    using current_live [OF L, of q a j] cur by auto
next
  fix q j h g assume "Producing q j h \<in># T" "(fl(i \<mapsto> f')) j = Some g" "\<not> fl_retired g"
  then show "\<exists>e. pr q = Some e \<and> en_flight e = Some j"
    using producer_current [OF L, of q j h] f ret(1) by (auto split: if_splits)
next
  fix j g assume "(fl(i \<mapsto> f')) j = Some g" "fl_retired g"
  then show "fl_result g = None" using retired_unfinished [OF L] ret by (auto split: if_splits)
next
  fix j g assume "(fl(i \<mapsto> f')) j = Some g" "fl_abandoned g"
  then show "fl_waiters g = 0" using abandoned_unwaited [OF L] ab by (auto split: if_splits)
qed (use linksD [OF L] in blast)+

lemma links_detach:
  assumes L: "links pr fl T" and e: "pr p = Some e" "en_flight e = Some i" and f: "fl i = Some f"
    and same: "fl_waiters f' = fl_waiters f" "fl_result f' = fl_result f"
    and ret: "fl_retired f'" and ab: "fl_abandoned f' \<Longrightarrow> fl_waiters f' = 0"
  shows "links (pr(p \<mapsto> e\<lparr>en_flight := None\<rparr>)) (fl(i \<mapsto> f')) T"
proof (rule linksI)
  fix q
  show "size (filter_mset (holds q) T) =
      (case (pr(p \<mapsto> e\<lparr>en_flight := None\<rparr>)) q of None \<Rightarrow> 0 | Some e \<Rightarrow> en_clones e)"
    using holds_count [OF L, of q] e by auto
next
  fix j
  show "size (filter_mset (waits j) T) = (case (fl(i \<mapsto> f')) j of None \<Rightarrow> 0 | Some f \<Rightarrow> fl_waiters f)"
    and "size (filter_mset (produces j) T) =
      (case (fl(i \<mapsto> f')) j of None \<Rightarrow> 0 | Some f \<Rightarrow> of_bool (fl_result f = None))"
    using waits_count [OF L, of j] produces_count [OF L, of j] f same by auto
next
  fix q a j assume a: "(pr(p \<mapsto> e\<lparr>en_flight := None\<rparr>)) q = Some a" "en_flight a = Some j"
  then have "q \<noteq> p" "pr q = Some a" by (auto split: if_splits)
  then show "\<exists>f h. (fl(i \<mapsto> f')) j = Some f \<and> live f \<and> Producing q j h \<in># T"
    using current_live [OF L, of q a j] a(2) current_unique [OF L, of q a j p e] e by auto
next
  fix q j h g assume P: "Producing q j h \<in># T" "(fl(i \<mapsto> f')) j = Some g" "\<not> fl_retired g"
  then have "j \<noteq> i" "fl j = Some g" using ret by (auto split: if_splits)
  then show "\<exists>a. (pr(p \<mapsto> e\<lparr>en_flight := None\<rparr>)) q = Some a \<and> en_flight a = Some j"
    using producer_current [OF L P(1), of g] P(3) e by auto
next
  fix j g assume "(fl(i \<mapsto> f')) j = Some g" "fl_retired g"
  then show "fl_result g = None"
    using retired_unfinished [OF L, of j g] same f current_live [OF L e] by (auto simp: live_def split: if_splits)
next
  fix j g assume "(fl(i \<mapsto> f')) j = Some g" "fl_abandoned g"
  then show "fl_waiters g = 0" using abandoned_unwaited [OF L] ab by (auto split: if_splits)
qed (use linksD [OF L] in blast)+

text \<open>A request that joins the current flight, and one that starts a flight.\<close>

lemma links_share:
  assumes L: "links pr fl (add_mset (Probing p) T)" and e: "pr p = Some e" "en_flight e = Some i"
    and f: "fl i = Some f"
  shows "links pr (fl(i \<mapsto> f\<lparr>fl_waiters := fl_waiters f + 1\<rparr>)) (add_mset (Waiting p i True) T)"
proof (rule linksI)
  obtain h where liv: "live f" and P: "Producing p i h \<in># T" using current_live [OF L e] f by auto
  let ?f = "f\<lparr>fl_waiters := fl_waiters f + 1\<rparr>"
  { fix q
    show "size (filter_mset (holds q) (add_mset (Waiting p i True) T)) =
        (case pr q of None \<Rightarrow> 0 | Some e \<Rightarrow> en_clones e)"
      using holds_count [OF L, of q] by (auto split: if_splits) }
  { fix j
    show "size (filter_mset (waits j) (add_mset (Waiting p i True) T)) =
        (case (fl(i \<mapsto> ?f)) j of None \<Rightarrow> 0 | Some f \<Rightarrow> fl_waiters f)"
      and "size (filter_mset (produces j) (add_mset (Waiting p i True) T)) =
        (case (fl(i \<mapsto> ?f)) j of None \<Rightarrow> 0 | Some f \<Rightarrow> of_bool (fl_result f = None))"
      using waits_count [OF L, of j] produces_count [OF L, of j] f by auto }
  { fix q a j assume "pr q = Some a" "en_flight a = Some j"
    then show "\<exists>f h. (fl(i \<mapsto> ?f)) j = Some f \<and> live f \<and> Producing q j h \<in># add_mset (Waiting p i True) T"
      using current_live [OF L, of q a j] f by (auto simp: live_def) }
  { fix q j h g assume "Producing q j h \<in># add_mset (Waiting p i True) T" "(fl(i \<mapsto> ?f)) j = Some g" "\<not> fl_retired g"
    then show "\<exists>e. pr q = Some e \<and> en_flight e = Some j"
      using producer_current [OF L, of q j h] f by (auto split: if_splits) }
  { fix q r j k l assume "Waiting q j k \<in># add_mset (Waiting p i True) T" "Producing r j l \<in># add_mset (Waiting p i True) T"
    then show "q = r" using same_project [OF L, of q j k r l] producer_unique [OF L, of p i h r l] P by auto }
  { fix j g assume "(fl(i \<mapsto> ?f)) j = Some g" "fl_retired g"
    then show "fl_result g = None" using retired_unfinished [OF L] liv by (auto simp: live_def split: if_splits) }
  { fix j g assume "(fl(i \<mapsto> ?f)) j = Some g" "fl_abandoned g"
    then show "fl_waiters g = 0" using abandoned_unwaited [OF L] liv by (auto simp: live_def split: if_splits) }
qed

lemma links_start:
  assumes L: "links pr fl (add_mset (Probing p) T)" and e: "pr p = Some e" "en_flight e = None" and i: "fl i = None"
  shows "links (pr(p \<mapsto> e\<lparr>en_flight := Some i\<rparr>)) (fl(i \<mapsto> new_flight g))
    (add_mset (Waiting p i False) (add_mset (Producing p i True) T))" (is "links ?pr ?fl ?T")
proof (rule linksI)
  have noT: "Producing q i h \<notin># T" "Waiting q i h \<notin># T" for q h
    using producer_flight [OF L, of q i h] waiter_flight [OF L, of q i h] i by auto
  { fix q
    show "size (filter_mset (holds q) ?T) = (case ?pr q of None \<Rightarrow> 0 | Some e \<Rightarrow> en_clones e)"
      using holds_count [OF L, of q] e by (auto split: if_splits) }
  { fix j
    show "size (filter_mset (waits j) ?T) = (case ?fl j of None \<Rightarrow> 0 | Some f \<Rightarrow> fl_waiters f)"
      and "size (filter_mset (produces j) ?T) = (case ?fl j of None \<Rightarrow> 0 | Some f \<Rightarrow> of_bool (fl_result f = None))"
      using waits_count [OF L, of j] produces_count [OF L, of j] i by (auto simp: new_flight_def) }
  { fix q a j assume "?pr q = Some a" "en_flight a = Some j"
    then show "\<exists>f h. ?fl j = Some f \<and> live f \<and> Producing q j h \<in># ?T"
      using current_live [OF L, of q a j] i by (auto simp: live_def new_flight_def split: if_splits) }
  { fix q j h f assume "Producing q j h \<in># ?T" "?fl j = Some f" "\<not> fl_retired f"
    then show "\<exists>e. ?pr q = Some e \<and> en_flight e = Some j"
      using producer_current [OF L, of q j h f] noT e by (auto split: if_splits) }
  { fix q r j k l assume "Waiting q j k \<in># ?T" "Producing r j l \<in># ?T"
    then show "q = r" using same_project [OF L, of q j k r l] noT by auto }
  { fix j f assume "?fl j = Some f" "fl_retired f"
    then show "fl_result f = None" using retired_unfinished [OF L] by (auto simp: new_flight_def split: if_splits) }
  { fix j f assume "?fl j = Some f" "fl_abandoned f"
    then show "fl_waiters f = 0" using abandoned_unwaited [OF L] by (auto simp: new_flight_def split: if_splits) }
qed

text \<open>A waiter that leaves, keeping its slot for a moment, and a producer that ends.\<close>

definition freed :: "bool \<Rightarrow> project \<Rightarrow> task multiset" where
  "freed h p = (if h then {#Probing p#} else {#})"

lemma links_unwait:
  assumes L: "links pr fl (add_mset (Waiting p i h) T)" and f: "fl i = Some f"
  shows "links pr (fl(i \<mapsto> f\<lparr>fl_waiters := fl_waiters f - 1\<rparr>)) (freed h p + T)" (is "links _ ?fl ?T")
proof (rule linksI)
  have w: "fl_waiters f > 0" "size (filter_mset (waits i) T) = fl_waiters f - 1"
    using waits_count [OF L, of i] f by auto
  { fix q
    show "size (filter_mset (holds q) ?T) = (case pr q of None \<Rightarrow> 0 | Some e \<Rightarrow> en_clones e)"
      using holds_count [OF L, of q] by (auto simp: freed_def split: if_splits) }
  { fix j
    show "size (filter_mset (waits j) ?T) = (case ?fl j of None \<Rightarrow> 0 | Some f \<Rightarrow> fl_waiters f)"
      and "size (filter_mset (produces j) ?T) = (case ?fl j of None \<Rightarrow> 0 | Some f \<Rightarrow> of_bool (fl_result f = None))"
      using waits_count [OF L, of j] produces_count [OF L, of j] f w by (auto simp: freed_def) }
  { fix q a j assume "pr q = Some a" "en_flight a = Some j"
    then show "\<exists>f h. ?fl j = Some f \<and> live f \<and> Producing q j h \<in># ?T"
      using current_live [OF L, of q a j] f by (auto simp: live_def) }
  { fix q j k g assume "Producing q j k \<in># ?T" "?fl j = Some g" "\<not> fl_retired g"
    then show "\<exists>e. pr q = Some e \<and> en_flight e = Some j"
      using producer_current [OF L, of q j k] f by (auto simp: freed_def split: if_splits) }
  { fix q r j k l assume "Waiting q j k \<in># ?T" "Producing r j l \<in># ?T"
    then show "q = r" using same_project [OF L, of q j k r l] by (auto simp: freed_def split: if_splits) }
  { fix j g assume "?fl j = Some g" "fl_retired g"
    then show "fl_result g = None" using retired_unfinished [OF L] f by (auto split: if_splits) }
  { fix j g assume "?fl j = Some g" "fl_abandoned g"
    then show "fl_waiters g = 0" using abandoned_unwaited [OF L] f by (auto split: if_splits) }
qed

lemma links_finish:
  assumes L: "links pr fl (add_mset (Producing p i False) T)" and f: "fl i = Some f"
    and pr': "pr' = (case pr p of None \<Rightarrow> pr
                | Some e \<Rightarrow> if en_flight e = Some i then pr(p \<mapsto> e\<lparr>en_flight := None\<rparr>) else pr)"
  shows "links pr' (fl(i \<mapsto> f\<lparr>fl_retired := False, fl_result := Some outcome\<rparr>)) T" (is "links _ ?fl _")
proof (rule linksI)
  have res: "fl_result f = None" using producer_flight [OF L, of p i False] f by auto
  have none: "Producing q i h \<notin># T" for q h
    using produces_count [OF L, of i] f res by fastforce
  have cur: "q = p" if "pr q = Some a" "en_flight a = Some i" for q a
    using current_live [OF L that] none by auto
  { fix q
    show "size (filter_mset (holds q) T) = (case pr' q of None \<Rightarrow> 0 | Some e \<Rightarrow> en_clones e)"
      using holds_count [OF L, of q] unfolding pr' by (auto split: option.splits if_splits) }
  { fix j
    show "size (filter_mset (waits j) T) = (case ?fl j of None \<Rightarrow> 0 | Some f \<Rightarrow> fl_waiters f)"
      using waits_count [OF L, of j] f by auto
    show "size (filter_mset (produces j) T) = (case ?fl j of None \<Rightarrow> 0 | Some f \<Rightarrow> of_bool (fl_result f = None))"
    proof (cases "j = i")
      case True then show ?thesis using none by (auto simp: filter_mset_eq_conv elim!: produces.elims)
    next
      case False then show ?thesis using produces_count [OF L, of j] by simp
    qed }
  { fix q a j assume a: "pr' q = Some a" "en_flight a = Some j"
    then have "j \<noteq> i" "pr q = Some a" using cur [of q a] unfolding pr' by (auto split: option.splits if_splits)
    then show "\<exists>f h. ?fl j = Some f \<and> live f \<and> Producing q j h \<in># T"
      using current_live [OF L, of q a j] a by auto }
  { fix q j k g assume P: "Producing q j k \<in># T" "?fl j = Some g" "\<not> fl_retired g"
    then have "j \<noteq> i" using none by blast
    then show "\<exists>e. pr' q = Some e \<and> en_flight e = Some j"
      using producer_current [OF L, of q j k g] P unfolding pr' by (auto split: option.splits if_splits) }
  { fix q r j k l assume "Waiting q j k \<in># T" "Producing r j l \<in># T"
    then show "q = r" using same_project [OF L, of q j k r l] by auto }
  { fix j g assume "?fl j = Some g" "fl_retired g"
    then show "fl_result g = None" using retired_unfinished [OF L] by (auto split: if_splits) }
  { fix j g assume "?fl j = Some g" "fl_abandoned g"
    then show "fl_waiters g = 0" using abandoned_unwaited [OF L] f by (auto split: if_splits) }
qed

text \<open>Ready rankings and touch times do not matter to the links.\<close>

definition skel :: "(project \<Rightarrow> 'r entry option) \<Rightarrow> project \<Rightarrow> (nat \<times> nat option) option" where
  "skel pr p = map_option (\<lambda>e. (en_clones e, en_flight e)) (pr p)"

lemma skel_Some: "skel pr' = skel pr \<Longrightarrow> pr p = Some e \<Longrightarrow>
    \<exists>e'. pr' p = Some e' \<and> en_clones e' = en_clones e \<and> en_flight e' = en_flight e"
  by (drule fun_cong [of _ _ p]) (auto simp: skel_def)

lemma links_skel:
  assumes L: "links pr fl T" and sk: "skel pr' = skel pr"
  shows "links pr' fl T"
proof (rule linksI)
  fix q
  show "size (filter_mset (holds q) T) = (case pr' q of None \<Rightarrow> 0 | Some e \<Rightarrow> en_clones e)"
    using holds_count [OF L, of q] fun_cong [OF sk, of q] by (auto simp: skel_def split: option.splits)
next
  fix q a j assume "pr' q = Some a" "en_flight a = Some j"
  then show "\<exists>f h. fl j = Some f \<and> live f \<and> Producing q j h \<in># T"
    using skel_Some [OF sk [symmetric], of q a] current_live [OF L, of q _ j] by auto
next
  fix q j k g assume "Producing q j k \<in># T" "fl j = Some g" "\<not> fl_retired g"
  then show "\<exists>e. pr' q = Some e \<and> en_flight e = Some j"
    using producer_current [OF L, of q j k g] skel_Some [OF sk, of q] by fastforce
qed (use linksD [OF L] in blast)+

section \<open>The bounds under each operation\<close>

lemma stored_insert:
  assumes "hm_ok m" "hm_get m p = Some e"
  shows "stored (hm_insert p e' m) + ready_bytes e = stored m + ready_bytes e'"
    and "ready_bytes e \<le> stored m"
    and "stored (hm_remove p m) + ready_bytes e = stored m"
    and "length (hm_insert p e' m) = length m"
proof -
  have key: "stored (hm_remove p m) + ready_bytes e = stored m \<and> Suc (length (hm_remove p m)) = length m"
    using assms
  proof (induction m)
    case (Cons x m)
    show ?case
    proof (cases "fst x = p")
      case True
      then have "hm_get m p = None" using Cons.prems(1) by (auto simp: hm_ok_def map_of_eq_None_iff)
      then have "hm_remove p m = m" by (rule count_if_remove_absent)
      then show ?thesis using Cons.prems True by (cases x) (simp add: stored_def hm_remove_def)
    next
      case False
      then show ?thesis using Cons by (cases x) (auto simp: stored_def hm_remove_def hm_ok_def)
    qed
  qed simp
  then show "stored (hm_insert p e' m) + ready_bytes e = stored m + ready_bytes e'"
    and "ready_bytes e \<le> stored m" and "stored (hm_remove p m) + ready_bytes e = stored m"
    and "length (hm_insert p e' m) = length m"
    by (auto simp: hm_insert_eq stored_def)
qed

lemma stored_fresh: "hm_get m p = None \<Longrightarrow> stored (hm_insert p e m) = stored m + ready_bytes e"
  by (simp add: hm_insert_eq count_if_remove_absent stored_def)

lemma shapeD:
  assumes "shape ov"
  shows "hm_ok (ov_projects ov)" "length (ov_projects ov) \<le> MAX_PROJECTS" "ov_bytes ov = stored (ov_projects ov)"
    "ov_bytes ov \<le> MAX_PAYLOAD" "hm_ok (ov_flights ov)"
    "hm_get (ov_flights ov) i = Some f \<Longrightarrow> i \<le> ov_sequence ov"
    "ov_retired ov = count_if retired_flight (ov_flights ov)"
  using assms unfolding shape_def stock_def by blast+

lemma stockD:
  assumes "stock ov"
  shows "hm_ok (ov_projects ov)" "length (ov_projects ov) \<le> MAX_PROJECTS" "ov_bytes ov = stored (ov_projects ov)"
    "ov_bytes ov \<le> MAX_PAYLOAD"
  using assms unfolding stock_def by blast+

lemma shape_tick: "shape ov \<Longrightarrow> shape (ov\<lparr>ov_sequence := ov_sequence ov + 1\<rparr>)"
  by (auto simp: shape_def stock_def dest: le_SucI)

lemma shape_set_entry:
  assumes "shape ov" "hm_get (ov_projects ov) p = Some e" "en_ready e' = en_ready e"
  shows "shape (set_entry p e' ov)"
proof -
  have "ready_bytes e' = ready_bytes e" using assms(3) by (simp add: ready_bytes_def)
  then have "stored (hm_insert p e' (ov_projects ov)) = stored (ov_projects ov)"
    "length (hm_insert p e' (ov_projects ov)) = length (ov_projects ov)"
    using stored_insert(1,4) [OF shapeD(1) [OF assms(1)] assms(2), of e'] by auto
  then show ?thesis using assms(1) by (auto simp: shape_def stock_def set_entry_def)
qed

lemma retired_insert:
  assumes "hm_ok m" "hm_get m i = Some f"
  shows "count_if retired_flight (hm_insert i f' m) + of_bool (fl_retired f) =
    count_if retired_flight m + of_bool (fl_retired f')"
  using count_if_remove [OF assms, of retired_flight] by (simp add: hm_insert_eq retired_flight_def)

lemma shape_set_flight:
  assumes "shape ov" "hm_get (ov_flights ov) i = Some f"
    and "n + of_bool (fl_retired f) = ov_retired ov + of_bool (fl_retired f')"
  shows "shape ((set_flight i f' ov)\<lparr>ov_retired := n\<rparr>)"
  using retired_insert [OF shapeD(5) [OF assms(1)] assms(2), of f'] assms
  by (auto simp: shape_def stock_def set_flight_def)

lemma shape_same_flight:
  assumes "shape ov" "hm_get (ov_flights ov) i = Some f" "fl_retired f' = fl_retired f"
  shows "shape (set_flight i f' ov)"
proof -
  have "(set_flight i f' ov)\<lparr>ov_retired := ov_retired ov\<rparr> = set_flight i f' ov" by (simp add: set_flight_def)
  then show ?thesis using shape_set_flight [OF assms(1,2), of "ov_retired ov" f'] assms(3) by simp
qed

lemma shape_new_flight:
  assumes "shape ov" "hm_get (ov_flights ov) i = None" "i \<le> ov_sequence ov" "\<not> fl_retired f"
  shows "shape (set_flight i f ov)"
  using assms count_if_insert_fresh [OF assms(2), of retired_flight f]
  by (auto simp: shape_def stock_def set_flight_def retired_flight_def split: if_splits)

lemma shape_clear_flight: "shape ov \<Longrightarrow> shape (clear_flight p i ov)"
  by (auto simp: clear_flight_def split: option.splits intro: shape_set_entry)

lemma shape_release: "shape ov \<Longrightarrow> shape (release p ov)"
  by (auto simp: release_def split: option.splits intro: shape_set_entry)

lemma take_ready_stock:
  assumes "stock ov"
  shows "\<exists>ov'. take_ready p ov = Some ov' \<and> stock ov' \<and> ov_flights ov' = ov_flights ov
    \<and> ov_sequence ov' = ov_sequence ov \<and> ov_retired ov' = ov_retired ov
    \<and> skel (hm_get (ov_projects ov')) = skel (hm_get (ov_projects ov))
    \<and> (\<forall>e. hm_get (ov_projects ov') p = Some e \<longrightarrow> en_ready e = None)"
proof (cases "hm_get (ov_projects ov) p")
  case None
  then show ?thesis using assms by (auto simp: take_ready_def)
next
  case (Some e)
  note st = stored_insert(1,4) [OF stockD(1) [OF assms] Some, of "e\<lparr>en_ready := None\<rparr>"]
    stored_insert(2) [OF stockD(1) [OF assms] Some]
  have "checked_sub (ov_bytes ov) (ready_bytes e) = Some (ov_bytes ov - ready_bytes e)"
    using st(3) stockD(3) [OF assms] by (simp add: checked_sub_def)
  then show ?thesis using Some st assms
    by (auto simp: take_ready_def stock_def set_entry_def skel_def ready_bytes_def fun_eq_iff)
qed

lemma take_ready_keeps:
  assumes "take_ready v ov = Some ov'" "hm_get (ov_projects ov) p = Some e" "en_ready e = None"
  shows "\<exists>e'. hm_get (ov_projects ov') p = Some e' \<and> en_ready e' = None"
  using assms by (auto simp: take_ready_def set_entry_def split: option.splits bind_splits)

lemma no_ready_stored: "filter has_ready m = [] \<Longrightarrow> stored m = 0"
  by (induction m) (auto simp: stored_def has_ready_def ready_bytes_def split: if_splits)

lemma make_room_stock:
  assumes "stock ov" "hm_get (ov_projects ov) p = Some e" "en_ready e = None" "bytes \<le> MAX_PAYLOAD"
  shows "\<exists>ov' e'. make_room bytes ov = Some ov' \<and> stock ov' \<and> ov_flights ov' = ov_flights ov
    \<and> ov_sequence ov' = ov_sequence ov \<and> ov_retired ov' = ov_retired ov
    \<and> skel (hm_get (ov_projects ov')) = skel (hm_get (ov_projects ov))
    \<and> hm_get (ov_projects ov') p = Some e' \<and> en_ready e' = None \<and> ov_bytes ov' + bytes \<le> MAX_PAYLOAD"
  using assms
proof (induction bytes ov arbitrary: e rule: make_room.induct)
  case (1 bytes ov)
  show ?case
  proof (cases "ov_bytes ov + bytes > MAX_PAYLOAD")
    case False
    then show ?thesis using "1.prems" by (simp add: make_room.simps)
  next
    case over: True
    then have "filter has_ready (ov_projects ov) \<noteq> []"
      using no_ready_stored stockD(3) [OF "1.prems"(1)] "1.prems"(4) by fastforce
    then obtain v x where v: "min_touched (filter has_ready (ov_projects ov)) = Some (v, x)"
      by (metis min_touched_None_iff option.exhaust prod.exhaust)
    obtain ov1 where t: "take_ready v ov = Some ov1" "stock ov1" "ov_flights ov1 = ov_flights ov"
      "ov_sequence ov1 = ov_sequence ov" "ov_retired ov1 = ov_retired ov"
      "skel (hm_get (ov_projects ov1)) = skel (hm_get (ov_projects ov))"
      using take_ready_stock [OF "1.prems"(1), of v] by blast
    obtain e1 where e1: "hm_get (ov_projects ov1) p = Some e1" "en_ready e1 = None"
      using take_ready_keeps [OF t(1) "1.prems"(2,3)] by blast
    have "make_room bytes ov = make_room bytes ov1" using over v t(1) by (simp add: make_room.simps [of bytes ov])
    then show ?thesis using "1.IH" [OF over v refl t(1) t(2) e1 "1.prems"(4)] t by simp
  qed
qed

lemma store_ready_stock:
  assumes "stock ov" "hm_get (ov_projects ov) p = Some e" "bytes \<le> MAX_PAYLOAD"
  shows "\<exists>ov' e'. store_ready p bytes c ov = Some ov' \<and> stock ov' \<and> ov_flights ov' = ov_flights ov
    \<and> ov_sequence ov' = ov_sequence ov \<and> ov_retired ov' = ov_retired ov
    \<and> skel (hm_get (ov_projects ov')) = skel (hm_get (ov_projects ov))
    \<and> hm_get (ov_projects ov') p = Some e'
    \<and> en_ready e' = Some \<lparr>rd_ranking = cr_ranking c, rd_generation = cr_generation c, rd_bytes = bytes\<rparr>"
proof -
  obtain ov1 where t: "take_ready p ov = Some ov1" "stock ov1" "ov_flights ov1 = ov_flights ov"
    "ov_sequence ov1 = ov_sequence ov" "ov_retired ov1 = ov_retired ov"
    "skel (hm_get (ov_projects ov1)) = skel (hm_get (ov_projects ov))"
    "\<forall>e. hm_get (ov_projects ov1) p = Some e \<longrightarrow> en_ready e = None"
    using take_ready_stock [OF assms(1), of p] by blast
  obtain e1 where e1: "hm_get (ov_projects ov1) p = Some e1" using skel_Some [OF t(6) assms(2)] by blast
  obtain ov2 e2 where r: "make_room bytes ov1 = Some ov2" "stock ov2" "ov_flights ov2 = ov_flights ov1"
    "ov_sequence ov2 = ov_sequence ov1" "ov_retired ov2 = ov_retired ov1"
    "skel (hm_get (ov_projects ov2)) = skel (hm_get (ov_projects ov1))"
    "hm_get (ov_projects ov2) p = Some e2" "en_ready e2 = None" "ov_bytes ov2 + bytes \<le> MAX_PAYLOAD"
    using make_room_stock [OF t(2) e1 t(7) [rule_format, OF e1] assms(3)] by (elim exE conjE)
  let ?e = "e2\<lparr>en_ready := Some \<lparr>rd_ranking = cr_ranking c, rd_generation = cr_generation c, rd_bytes = bytes\<rparr>\<rparr>"
  let ?ov = "(set_entry p ?e ov2)\<lparr>ov_bytes := ov_bytes ov2 + bytes\<rparr>"
  have st: "stored (hm_insert p ?e (ov_projects ov2)) = stored (ov_projects ov2) + bytes"
    "length (hm_insert p ?e (ov_projects ov2)) = length (ov_projects ov2)"
    using stored_insert(1,4) [OF stockD(1) [OF r(2)] r(7), of ?e] r(8) by (auto simp: ready_bytes_def)
  have "stock ?ov" using r(2,9) st by (auto simp: stock_def set_entry_def)
  moreover have "skel (hm_get (ov_projects ?ov)) = skel (hm_get (ov_projects ov2))"
    using r(7) by (auto simp: skel_def set_entry_def fun_eq_iff)
  moreover have "store_ready p bytes c ov = Some ?ov" using t(1) r(1,7) by (simp add: store_ready_def)
  ultimately show ?thesis using t r by (simp add: set_entry_def)
qed

section \<open>Every step keeps the invariant\<close>

definition good :: "('e, 'r) overview \<times> task multiset \<Rightarrow> bool" where
  "good s \<longleftrightarrow> shape (fst s) \<and> links (hm_get (ov_projects (fst s))) (hm_get (ov_flights (fst s))) (snd s)"

lemma goodI: "shape ov \<Longrightarrow> links (hm_get (ov_projects ov)) (hm_get (ov_flights ov)) T \<Longrightarrow> good (ov, T)"
  by (simp add: good_def)

lemma goodD:
  assumes "good (ov, T)"
  shows good_shape: "shape ov" and good_links: "links (hm_get (ov_projects ov)) (hm_get (ov_flights ov)) T"
  using assms by (auto simp: good_def)

lemma set_entry_sels [simp]:
  "ov_projects (set_entry p e ov) = hm_insert p e (ov_projects ov)"
  "ov_flights (set_entry p e ov) = ov_flights ov"
  "ov_sequence (set_entry p e ov) = ov_sequence ov" "ov_bytes (set_entry p e ov) = ov_bytes ov"
  "ov_retired (set_entry p e ov) = ov_retired ov"
  by (simp_all add: set_entry_def)

lemma set_flight_sels [simp]:
  "ov_projects (set_flight i f ov) = ov_projects ov"
  "ov_flights (set_flight i f ov) = hm_insert i f (ov_flights ov)"
  "ov_sequence (set_flight i f ov) = ov_sequence ov" "ov_bytes (set_flight i f ov) = ov_bytes ov"
  "ov_retired (set_flight i f ov) = ov_retired ov"
  by (simp_all add: set_flight_def)

lemma links_cancelling [simp]: "links pr fl (add_mset (Cancelling i) T) = links pr fl T"
  by (simp add: links_def)

lemma good_cancelling [simp]: "good (ov, add_mset (Cancelling i) T) = good (ov, T)"
  by (simp add: good_def)

lemma good_tick: "good (ov, T) \<Longrightarrow> good (ov\<lparr>ov_sequence := ov_sequence ov + 1\<rparr>, T)"
  by (simp add: good_def shape_tick del: One_nat_def)

lemma good_evict:
  assumes g: "good (ov, T)" and v: "hm_get (ov_projects ov) v = Some e" "evictable (v, e)"
  shows "\<exists>bytes. checked_sub (ov_bytes ov) (ready_bytes e) = Some bytes
    \<and> good (ov\<lparr>ov_projects := hm_remove v (ov_projects ov), ov_bytes := bytes\<rparr>, T)
    \<and> length (hm_remove v (ov_projects ov)) < MAX_PROJECTS"
proof -
  note st = stored_insert(2,3) [OF shapeD(1) [OF good_shape [OF g]] v(1)]
  have len: "length (hm_remove v (ov_projects ov)) < length (ov_projects ov)"
    using count_if_remove [OF shapeD(1) [OF good_shape [OF g]] v(1), of "\<lambda>_. True"] by (simp add: count_if_def)
  have sub: "checked_sub (ov_bytes ov) (ready_bytes e) = Some (ov_bytes ov - ready_bytes e)"
    using st shapeD(3) [OF good_shape [OF g]] by (simp add: checked_sub_def)
  have "shape (ov\<lparr>ov_projects := hm_remove v (ov_projects ov), ov_bytes := ov_bytes ov - ready_bytes e\<rparr>)"
    using good_shape [OF g] st len by (auto simp: shape_def stock_def)
  then show ?thesis using sub len shapeD(2) [OF good_shape [OF g]] links_evict [OF good_links [OF g] v(1)] v(2)
    by (auto simp: good_def evictable_def)
qed

lemma good_slot_new:
  assumes g: "good (ov, T)" and p: "hm_get (ov_projects ov) p = None" and len: "length (ov_projects ov) < MAX_PROJECTS"
  shows "good (set_entry p (new_entry s) ov, add_mset (Probing p) T)"
proof (rule goodI)
  show "shape (set_entry p (new_entry s) ov)"
    using good_shape [OF g] len stored_fresh [OF p, of "new_entry s"] length_hm_insert_fresh [OF p, of "new_entry s"]
    by (auto simp: shape_def stock_def new_entry_def ready_bytes_def)
qed (use links_slot_new [OF good_links [OF g] p] in simp)

lemma slot_ok:
  assumes g0: "good (ov0, T)"
  shows "\<exists>b ov'. slot p ov0 = Some (b, ov') \<and> good (ov', if b then add_mset (Probing p) T else T)"
proof -
  let ?ov = "ov0\<lparr>ov_sequence := ov_sequence ov0 + 1\<rparr>"
  have g: "good (?ov, T)" using good_tick [OF g0] .
  show ?thesis
  proof (cases "hm_get (ov_projects ?ov) p")
    case (Some e)
    let ?e = "e\<lparr>en_touched := ov_sequence ov0 + 1, en_clones := en_clones e + 1\<rparr>"
    have "good (set_entry p ?e ?ov, add_mset (Probing p) T)"
    proof (rule goodI)
      show "shape (set_entry p ?e ?ov)" using shape_set_entry [OF good_shape [OF g] Some] by simp
      show "links (hm_get (ov_projects (set_entry p ?e ?ov))) (hm_get (ov_flights (set_entry p ?e ?ov)))
          (add_mset (Probing p) T)"
        unfolding set_entry_sels hm_get_insert
        by (rule links_entry [OF good_links [OF g] Some])
          (use holds_count [OF good_links [OF g], of p] Some in auto)
    qed
    then show ?thesis using Some by (auto simp: slot_def Let_def)
  next
    case None
    show ?thesis
    proof (cases "length (ov_projects ?ov) \<ge> MAX_PROJECTS")
      case False
      then show ?thesis using good_slot_new [OF g None] None by (auto simp: slot_def Let_def)
    next
      case full: True
      show ?thesis
      proof (cases "min_touched (filter evictable (ov_projects ?ov))")
        case no: None
        then show ?thesis using g None full by (auto simp: slot_def Let_def)
      next
        case (Some x)
        then obtain v e where x: "x = (v, e)" by (cases x)
        have v: "(v, e) \<in> set (ov_projects ?ov)" "evictable (v, e)" using min_touched_mem [OF Some] x by auto
        then have ve: "hm_get (ov_projects ?ov) v = Some e" using hm_mem_get [OF shapeD(1) [OF good_shape [OF g]]] by blast
        obtain bytes where b: "checked_sub (ov_bytes ?ov) (ready_bytes e) = Some bytes"
          and ge: "good (?ov\<lparr>ov_projects := hm_remove v (ov_projects ?ov), ov_bytes := bytes\<rparr>, T)"
          and len: "length (hm_remove v (ov_projects ?ov)) < MAX_PROJECTS"
          using good_evict [OF g ve v(2)] by blast
        show ?thesis using good_slot_new [OF ge] None len full Some x b by (auto simp: slot_def Let_def)
      qed
    qed
  qed
qed

lemma release_ok:
  assumes g: "good (ov, add_mset (Probing p) T)"
  shows "good (release p ov, T)"
proof -
  obtain e where e: "hm_get (ov_projects ov) p = Some e" "0 < en_clones e"
    using holder_entry [OF good_links [OF g], of "Probing p" p] by auto
  have "links ((hm_get (ov_projects ov))(p \<mapsto> e\<lparr>en_clones := en_clones e - 1\<rparr>)) (hm_get (ov_flights ov)) T"
    by (rule links_entry [OF good_links [OF g] e(1)]) (use holds_count [OF good_links [OF g], of p] e in auto)
  then show ?thesis using shape_release [OF good_shape [OF g], of p] e by (auto simp: good_def release_def)
qed

lemma let_go_ok:
  assumes g: "good (ov, add_mset (Producing p i True) T)"
  shows "good (release p ov, add_mset (Producing p i False) T)"
proof -
  obtain e where e: "hm_get (ov_projects ov) p = Some e" "0 < en_clones e"
    using holder_entry [OF good_links [OF g], of "Producing p i True" p] by auto
  have "links ((hm_get (ov_projects ov))(p \<mapsto> e\<lparr>en_clones := en_clones e - 1\<rparr>)) (hm_get (ov_flights ov))
      (add_mset (Producing p i False) T)"
    by (rule links_entry [OF good_links [OF g] e(1)]) (use holds_count [OF good_links [OF g], of p] e in auto)
  then show ?thesis using shape_release [OF good_shape [OF g], of p] e by (auto simp: good_def release_def)
qed

lemma release_if_ok: "good (ov, freed h p + T) \<Longrightarrow> good (release_if h p ov, T)"
  by (auto simp: freed_def release_if_def intro: release_ok split: if_splits)

lemma joinable_Some:
  "joinable g ov e = Some (j, f) \<longleftrightarrow>
     en_flight e = Some j \<and> hm_get (ov_flights ov) j = Some f \<and> fl_generation f = g \<and> \<not> fl_abandoned f"
  by (auto simp: joinable_def split: option.splits)

lemma good_retire_previous:
  assumes g: "good (ov, T)" and e: "hm_get (ov_projects ov) p = Some e"
  shows "good (set_entry p (e\<lparr>en_flight := None\<rparr>) (retire_previous e ov), T)"
    and "ov_projects (retire_previous e ov) = ov_projects ov" "ov_sequence (retire_previous e ov) = ov_sequence ov"
    and "hm_get (ov_flights ov) i = None \<Longrightarrow> hm_get (ov_flights (retire_previous e ov)) i = None"
proof -
  show "good (set_entry p (e\<lparr>en_flight := None\<rparr>) (retire_previous e ov), T)"
  proof (cases "en_flight e")
    case None
    have "links ((hm_get (ov_projects ov))(p \<mapsto> e\<lparr>en_flight := None\<rparr>)) (hm_get (ov_flights ov)) T"
      by (rule links_skel [OF good_links [OF g]]) (use None e in \<open>auto simp: skel_def fun_eq_iff\<close>)
    then show ?thesis using None g e shape_set_entry [OF good_shape [OF g] e]
      by (simp add: retire_previous_def good_def)
  next
    case (Some j)
    then obtain f where f: "hm_get (ov_flights ov) j = Some f" "live f"
      using current_live [OF good_links [OF g] e] by blast
    let ?ov = "(set_flight j (f\<lparr>fl_retired := True\<rparr>) ov)\<lparr>ov_retired := ov_retired ov + 1\<rparr>"
    have "shape ?ov" by (rule shape_set_flight [OF good_shape [OF g] f(1)]) (use f(2) in \<open>simp add: live_def\<close>)
    then have "shape (set_entry p (e\<lparr>en_flight := None\<rparr>) ?ov)" using e by (auto intro: shape_set_entry)
    moreover have "links ((hm_get (ov_projects ov))(p \<mapsto> e\<lparr>en_flight := None\<rparr>))
        ((hm_get (ov_flights ov))(j \<mapsto> f\<lparr>fl_retired := True\<rparr>)) T"
      by (rule links_detach [OF good_links [OF g] e Some f(1)]) (use f(2) in \<open>simp_all add: live_def\<close>)
    ultimately show ?thesis using Some f(1) by (simp add: retire_previous_def good_def)
  qed
qed (auto simp: retire_previous_def split: option.splits)

lemma join_flight_ok:
  assumes g: "good (ov, add_mset (Probing p) T)" and e: "hm_get (ov_projects ov) p = Some e"
    and i: "hm_get (ov_flights ov) i = None" "i \<le> ov_sequence ov"
  obtains j ov' where "join_flight i p g0 e ov = (Join j False, ov')" "good (ov', add_mset (Waiting p j True) T)"
  | ov' where "join_flight i p g0 e ov = (Join i True, ov')"
      "good (ov', add_mset (Waiting p i False) (add_mset (Producing p i True) T))"
proof (cases "joinable g0 ov e")
  case (Some x)
  obtain j f where x: "x = (j, f)" by (cases x)
  then have f: "en_flight e = Some j" "hm_get (ov_flights ov) j = Some f" using Some by (auto simp: joinable_Some)
  let ?ov = "set_flight j (f\<lparr>fl_waiters := fl_waiters f + 1\<rparr>) ov"
  have "good (?ov, add_mset (Waiting p j True) T)"
    using shape_same_flight [OF good_shape [OF g] f(2)] links_share [OF good_links [OF g] e f]
    by (simp add: good_def)
  then show ?thesis using that(1) Some x by (simp add: join_flight_def)
next
  case None
  let ?r = "set_entry p (e\<lparr>en_flight := None\<rparr>) (retire_previous e ov)"
  let ?ov = "set_entry p (e\<lparr>en_flight := Some i\<rparr>) (set_flight i (new_flight g0) (retire_previous e ov))"
  note r = good_retire_previous [OF g e]
  note ri = r(4) [OF i(1)]
  have sh: "shape (retire_previous e ov)"
    using shape_set_entry [OF good_shape [OF r(1)], of p "e\<lparr>en_flight := None\<rparr>" e] good_shape [OF g]
    by (auto simp: retire_previous_def live_def split: option.splits intro!: shape_set_flight
        dest: current_live [OF good_links [OF g] e])
  have "shape (set_flight i (new_flight g0) (retire_previous e ov))"
    using shape_new_flight [OF sh ri] i r(3) by (simp add: new_flight_def)
  then have "shape ?ov" using e r(2) by (auto intro: shape_set_entry)
  moreover have "links ((hm_get (ov_projects ?r))(p \<mapsto> e\<lparr>en_flight := None, en_flight := Some i\<rparr>))
      ((hm_get (ov_flights ?r))(i \<mapsto> new_flight g0)) (add_mset (Waiting p i False) (add_mset (Producing p i True) T))"
    by (rule links_start [OF good_links [OF r(1)]]) (use ri in auto)
  ultimately have "good (?ov, add_mset (Waiting p i False) (add_mset (Producing p i True) T))"
    by (simp add: good_def)
  then show ?thesis using that(2) None by (simp add: join_flight_def)
qed

lemma look_up_ok:
  assumes g0: "good (ov, add_mset (Probing p) T)"
  obtains c ov' where "look_up p g ov = (Ready_Hit c, ov')" "cr_generation c = g" "good (ov', add_mset (Probing p) T)"
  | j ov' where "look_up p g ov = (Join j False, ov')" "good (ov', add_mset (Waiting p j True) T)"
  | i ov' where "look_up p g ov = (Join i True, ov')"
      "good (ov', add_mset (Waiting p i False) (add_mset (Producing p i True) T))"
proof -
  let ?i = "ov_sequence ov + 1" and ?ov = "ov\<lparr>ov_sequence := ov_sequence ov + 1\<rparr>"
  have g1: "good (?ov, add_mset (Probing p) T)" using good_tick [OF g0] .
  obtain e where e: "hm_get (ov_projects ov) p = Some e"
    using holder_entry [OF good_links [OF g0], of "Probing p" p] by auto
  then have e': "hm_get (ov_projects ?ov) p = Some e" by simp
  have fresh: "hm_get (ov_flights ?ov) ?i = None"
    using shapeD(6) [OF good_shape [OF g0], of ?i] by (cases "hm_get (ov_flights ov) ?i") auto
  have seq: "?i \<le> ov_sequence ?ov" by simp
  show ?thesis
  proof (cases "\<exists>r. en_ready e = Some r \<and> rd_generation r = g")
    case True
    then show ?thesis using that(1) e g1 by (auto simp: look_up_def Let_def)
  next
    case False
    then have l: "look_up p g ov = join_flight ?i p g e ?ov"
      using e by (auto simp: look_up_def Let_def split: option.splits)
    show ?thesis
      by (rule join_flight_ok [OF g1 e' fresh seq, of g]) (use that(2,3) l in auto)
  qed
qed

lemma hm_get_clear_flight:
  "hm_get (ov_projects (clear_flight p i ov)) =
     (case hm_get (ov_projects ov) p of None \<Rightarrow> hm_get (ov_projects ov)
      | Some e \<Rightarrow> if en_flight e = Some i then (hm_get (ov_projects ov))(p \<mapsto> e\<lparr>en_flight := None\<rparr>)
                  else hm_get (ov_projects ov))"
  "ov_flights (clear_flight p i ov) = ov_flights ov"
  by (auto simp: clear_flight_def split: option.splits)

lemma abandon_ok:
  assumes g: "good (ov, T)" and f: "hm_get (ov_flights ov) i = Some f" "fl_waiters f = 0" "fl_result f = None"
    and cur: "\<And>q a. hm_get (ov_projects ov) q = Some a \<Longrightarrow> en_flight a = Some i \<Longrightarrow> q = p"
  shows "good (abandon p i f ov, T)"
proof (rule goodI)
  let ?f = "f\<lparr>fl_abandoned := True, fl_retired := True\<rparr>"
  show "shape (abandon p i f ov)"
    unfolding abandon_def
    by (intro shape_clear_flight shape_set_flight [OF good_shape [OF g] f(1)]) simp
  let ?pr = "hm_get (ov_projects ov)" and ?fl = "(hm_get (ov_flights ov))(i \<mapsto> ?f)"
  show "links (hm_get (ov_projects (abandon p i f ov))) (hm_get (ov_flights (abandon p i f ov))) T"
  proof (cases "\<exists>e. ?pr p = Some e \<and> en_flight e = Some i")
    case True
    then obtain e where e: "?pr p = Some e" "en_flight e = Some i" by blast
    have "links (?pr(p \<mapsto> e\<lparr>en_flight := None\<rparr>)) ?fl T"
      by (rule links_detach [OF good_links [OF g] e f(1)]) (simp_all add: f)
    then show ?thesis using e by (simp add: abandon_def hm_get_clear_flight)
  next
    case False
    have "links ?pr ?fl T"
      by (rule links_flight [OF good_links [OF g] f(1)]) (use f cur False in auto)
    then show ?thesis using False by (auto simp: abandon_def hm_get_clear_flight split: option.splits)
  qed
qed

lemma drop_waiter_ok:
  assumes g: "good (ov, add_mset (Waiting p i h) T)"
  obtains b ov' where "drop_waiter p i ov = Some (b, ov')" "good (ov', freed h p + T)"
proof -
  obtain f where f: "hm_get (ov_flights ov) i = Some f" "0 < fl_waiters f"
    using waiter_flight [OF good_links [OF g], of p i h] by auto
  let ?f = "f\<lparr>fl_waiters := fl_waiters f - 1\<rparr>"
  let ?ov = "set_flight i ?f ov"
  have g': "good (?ov, freed h p + T)"
    using shape_same_flight [OF good_shape [OF g] f(1)] links_unwait [OF good_links [OF g] f(1)]
    by (simp add: good_def)
  have sub: "checked_sub (fl_waiters f) 1 = Some (fl_waiters f - 1)" using f by (simp add: checked_sub_def)
  show ?thesis
  proof (cases "fl_waiters f - 1 = 0 \<and> fl_result f = None")
    case False
    then show ?thesis using that [of False ?ov] g' f sub by (auto simp: drop_waiter_def)
  next
    case True
    have cur: "q = p" if q: "hm_get (ov_projects ?ov) q = Some a" "en_flight a = Some i" for q a
    proof -
      obtain k where "Producing q i k \<in># add_mset (Waiting p i h) T"
        using current_live [OF good_links [OF g], of q a i] q unfolding set_flight_sels by blast
      then show ?thesis using same_project [OF good_links [OF g], of p i h q k] by simp
    qed
    have "good (abandon p i ?f ?ov, freed h p + T)"
      by (rule abandon_ok [OF g' _ _ _ cur]) (use True in auto)
    moreover have "abandon p i ?f ?ov = abandon p i ?f ov"
      by (simp add: abandon_def set_flight_def hm_insert_def)
    ultimately show ?thesis using that [of True "abandon p i ?f ov"] True f sub by (simp add: drop_waiter_def)
  qed
qed

lemma stop_flight_ok:
  assumes g: "good (ov, T)"
  shows "good (stop_flight i why ov, T)"
proof (cases "hm_get (ov_flights ov) i")
  case (Some f)
  let ?f = "f\<lparr>fl_stop := Some why\<rparr>"
  have cur: "live ?f" if "hm_get (ov_projects ov) q = Some a" "en_flight a = Some i" for q a
    using current_live [OF good_links [OF g] that] Some by (auto simp: live_def)
  have "links (hm_get (ov_projects ov)) ((hm_get (ov_flights ov))(i \<mapsto> ?f)) T"
    by (rule links_flight [OF good_links [OF g] Some _ _ _ _ _ cur])
      (use linksD(7,8) [OF good_links [OF g] Some] in auto)
  then show ?thesis using Some g shape_same_flight [OF good_shape [OF g] Some, of ?f]
    by (simp add: stop_flight_def good_def)
qed (use g in \<open>simp add: stop_flight_def\<close>)

text \<open>Publishing a ranking touches only the stored rankings.\<close>

lemma publish_stock:
  assumes "stock ov"
  shows "\<exists>ov'. publish ranking_bytes p i f outcome ov = Some ov' \<and> stock ov' \<and> ov_flights ov' = ov_flights ov
    \<and> ov_retired ov' = ov_retired ov \<and> ov_sequence ov' = ov_sequence ov
    \<and> skel (hm_get (ov_projects ov')) = skel (hm_get (ov_projects ov))"
proof (cases "publish ranking_bytes p i f outcome ov = Some ov")
  case True
  then show ?thesis using assms by blast
next
  case False
  then obtain c where c: "publish ranking_bytes p i f outcome ov = store_ready p (ranking_bytes (cr_ranking c)) c ov"
      "is_current p i ov" "ranking_bytes (cr_ranking c) \<le> MAX_PAYLOAD"
    by (auto simp: publish_def split: sum.splits if_splits)
  then obtain e where "hm_get (ov_projects ov) p = Some e" by (auto simp: is_current_def split: option.splits)
  then show ?thesis using store_ready_stock [OF assms, of p e _ c] c by fastforce
qed

lemma complete_ok:
  assumes g: "good (ov, add_mset (Producing p i False) T)"
  obtains ov' where "complete ranking_bytes p i outcome ov = Some ov'" "good (ov', T)"
proof -
  obtain f where f: "hm_get (ov_flights ov) i = Some f" "fl_result f = None"
    using producer_flight [OF good_links [OF g], of p i False] by auto
  let ?f = "f\<lparr>fl_retired := False, fl_result := Some outcome\<rparr>"
  have pos: "fl_retired f \<Longrightarrow> 1 \<le> ov_retired ov"
    using retired_insert [OF shapeD(5) [OF good_shape [OF g]] f(1), of ?f] shapeD(7) [OF good_shape [OF g]] by auto
  let ?n = "if fl_retired f then ov_retired ov - 1 else ov_retired ov"
  let ?ov = "ov\<lparr>ov_retired := ?n\<rparr>"
  have settle: "settle f ov = Some ?ov" using pos by (simp add: settle_def checked_sub_def)
  let ?ov1 = "(set_flight i ?f ov)\<lparr>ov_retired := ?n\<rparr>"
  have sh1: "shape ?ov1" by (rule shape_set_flight [OF good_shape [OF g] f(1)]) (use pos in auto)
  have "stock ?ov" using good_shape [OF g] by (simp add: shape_def stock_def)
  from publish_stock [OF this, of ranking_bytes p i f outcome]
  obtain ov2 where p2: "publish ranking_bytes p i f outcome ?ov = Some ov2" "stock ov2"
      "ov_flights ov2 = ov_flights ov" "skel (hm_get (ov_projects ov2)) = skel (hm_get (ov_projects ov))"
      "ov_retired ov2 = ?n" "ov_sequence ov2 = ov_sequence ov"
    by auto
  have sh2: "shape (set_flight i ?f ov2)"
    using sh1 p2 unfolding shape_def by (auto simp: stock_def)
  have "links (hm_get (ov_projects ov2)) (hm_get (ov_flights ov2)) (add_mset (Producing p i False) T)"
    using links_skel [OF good_links [OF g] p2(4)] p2(3) by simp
  then have "links (hm_get (ov_projects (clear_flight p i (set_flight i ?f ov2))))
      (hm_get (ov_flights (clear_flight p i (set_flight i ?f ov2)))) T"
    unfolding hm_get_clear_flight set_flight_sels hm_get_insert
    by (rule links_finish) (use f p2(3) in auto)
  then have "good (clear_flight p i (set_flight i ?f ov2), T)"
    using shape_clear_flight [OF sh2] by (simp add: good_def)
  then show ?thesis using that f settle p2(1) by (simp add: complete_def)
qed

lemma good_default: "good (overview_default, {#})"
  by (simp add: good_def shape_def stock_def overview_default_def links_def stored_def)

lemma cache_step_good: "cache_step ranking_bytes s t \<Longrightarrow> good s \<Longrightarrow> good t"
proof (induction rule: cache_step.induct)
  case (ask p ov ov' T)
  then show ?case using slot_ok [of ov T p] by auto
next
  case (saturated p ov ov' T)
  then show ?case using slot_ok [of ov T p] by auto
next
  case (leave ov p T)
  then show ?case by (rule release_ok)
next
  case (hit p g ov c ov' T)
  show ?case by (rule look_up_ok [OF hit.prems, of g]) (use hit.hyps in \<open>auto intro: release_ok\<close>)
next
  case (shared p g ov i ov' T)
  show ?case by (rule look_up_ok [OF shared.prems, of g]) (use shared.hyps in auto)
next
  case (owner p g ov i ov' T)
  show ?case by (rule look_up_ok [OF owner.prems, of g]) (use owner.hyps in auto)
next
  case (gone p g ov ov' T)
  show ?case by (rule look_up_ok [OF gone.prems, of g]) (use gone.hyps in auto)
next
  case (answered p i ov ov' h T)
  show ?case by (rule drop_waiter_ok [OF answered.prems]) (use answered.hyps in \<open>auto intro: release_if_ok\<close>)
next
  case (abandoned p i ov ov' h T)
  show ?case by (rule drop_waiter_ok [OF abandoned.prems]) (use abandoned.hyps in \<open>auto intro: release_if_ok\<close>)
next
  case (cancel ov i T)
  then show ?case by (auto intro: stop_flight_ok)
next
  case (stop ov T i why)
  then show ?case by (auto intro: stop_flight_ok)
next
  case (let_go ov p i T)
  then show ?case by (rule let_go_ok)
next
  case (finish p i outcome ov ov' T)
  show ?case by (rule complete_ok [OF finish.prems, of ranking_bytes outcome]) (use finish.hyps in auto)
qed

interpretation cache: transition_system "\<lambda>s. s = (overview_default, {#})" "cache_step ranking_bytes" good
  for ranking_bytes :: "'r \<Rightarrow> nat"
  by unfold_locales (auto simp: good_default intro: cache_step_good)

definition cache_reachable :: "('r \<Rightarrow> nat) \<Rightarrow> ('e, 'r) overview \<times> task multiset \<Rightarrow> bool" where
  "cache_reachable ranking_bytes s \<longleftrightarrow> (cache_step ranking_bytes)\<^sup>*\<^sup>* (overview_default, {#}) s"

lemma reachable_good: "cache_reachable ranking_bytes s \<Longrightarrow> good s"
  unfolding cache_reachable_def by (rule cache.reachable_inv [OF refl])

lemma reachable_start: "cache_reachable ranking_bytes (overview_default, {#})"
  by (simp add: cache_reachable_def)

lemma reachable_step: "cache_reachable ranking_bytes s \<Longrightarrow> cache_step ranking_bytes s t \<Longrightarrow> cache_reachable ranking_bytes t"
  unfolding cache_reachable_def by (rule rtranclp.rtrancl_into_rtrancl)

text \<open>What a completed flight leaves in the cache.\<close>

lemma complete_publishes:
  assumes g: "good (ov, add_mset (Producing p i False) T)" and f: "hm_get (ov_flights ov) i = Some f"
    and ok: "\<not> fl_retired f" "fl_stop f = None" "cr_stable c" "ranking_bytes (cr_ranking c) \<le> MAX_PAYLOAD"
    and ov': "complete ranking_bytes p i (Inr c) ov = Some ov'"
  shows "fst (look_up p (cr_generation c) ov') = Ready_Hit c"
proof -
  obtain e where e: "hm_get (ov_projects ov) p = Some e" "en_flight e = Some i"
    using producer_current [OF good_links [OF g], of p i False f] f ok(1) by auto
  have "live f" using current_live [OF good_links [OF g] e] f by auto
  then have "complete ranking_bytes p i (Inr c) ov =
      store_ready p (ranking_bytes (cr_ranking c)) c ov \<bind>
        (\<lambda>ov. Some (clear_flight p i (set_flight i (f\<lparr>fl_retired := False, fl_result := Some (Inr c)\<rparr>) ov)))"
    using e f ok by (simp add: complete_def settle_def publish_def is_current_def live_def)
  moreover obtain ov2 e2 where s2: "store_ready p (ranking_bytes (cr_ranking c)) c ov = Some ov2"
      "hm_get (ov_projects ov2) p = Some e2"
      "en_ready e2 = Some \<lparr>rd_ranking = cr_ranking c, rd_generation = cr_generation c,
                           rd_bytes = ranking_bytes (cr_ranking c)\<rparr>"
    using store_ready_stock [OF _ e(1) ok(4), of c] good_shape [OF g] unfolding shape_def by blast
  ultimately have "ov' = clear_flight p i (set_flight i (f\<lparr>fl_retired := False, fl_result := Some (Inr c)\<rparr>) ov2)"
    using ov' by simp
  then have "\<exists>e3. hm_get (ov_projects ov') p = Some e3 \<and> en_ready e3 = en_ready e2"
    using s2 by (auto simp: hm_get_clear_flight)
  then show ?thesis using s2(3) ok(3) by (cases c) (auto simp: look_up_def Let_def)
qed

text \<open>A sample run: one project, a request that computes the ranking and a second one that shares the flight.\<close>

definition sample_generation :: generation where
  "sample_generation =
     \<lparr>gn_identity = (1, 7), gn_epoch = 1, gn_version = 3, gn_config = None, gn_recurrence = False\<rparr>"

definition sample_ranking :: "nat cached_ranking" where
  "sample_ranking = \<lparr>cr_ranking = 40, cr_generation = sample_generation, cr_stable = True\<rparr>"

definition sample_asked :: "(string, nat) overview" where
  "sample_asked = snd (the (slot ''p'' (snd (the (slot ''p'' overview_default)))))"

definition sample_flying :: "(string, nat) overview" where
  "sample_flying = release ''p'' (snd (look_up ''p'' sample_generation (snd (look_up ''p'' sample_generation sample_asked))))"

lemma sample_run:
  "slot ''p'' overview_default = Some (True, snd (the (slot ''p'' overview_default)))"
  "slot ''p'' (snd (the (slot ''p'' overview_default))) = Some (True, sample_asked)"
  "look_up ''p'' sample_generation sample_asked = (Join 3 True, snd (look_up ''p'' sample_generation sample_asked))"
  "look_up ''p'' sample_generation (snd (look_up ''p'' sample_generation sample_asked)) =
     (Join 3 False, snd (look_up ''p'' sample_generation (snd (look_up ''p'' sample_generation sample_asked))))"
  by (simp_all add: slot_def Let_def overview_default_def sample_asked_def MAX_PROJECTS_def set_entry_def hm_insert_def
      new_entry_def look_up_def join_flight_def joinable_def retire_previous_def set_flight_def new_flight_def)

lemma sample_flying_reachable:
  "cache_reachable (\<lambda>n. n) (sample_flying, {#Producing ''p'' 3 False, Waiting ''p'' 3 True, Waiting ''p'' 3 False#})"
proof -
  note st = reachable_step [of "\<lambda>n. n"]
  have "cache_reachable (\<lambda>n. n) (sample_asked, {#Probing ''p'', Probing ''p''#})"
    by (rule st [OF st [OF reachable_start ask [OF sample_run(1)]] ask [OF sample_run(2)]])
  from st [OF this owner [OF sample_run(3)]]
  have "cache_reachable (\<lambda>n. n) (snd (look_up ''p'' sample_generation sample_asked),
      {#Probing ''p'', Producing ''p'' 3 True, Waiting ''p'' 3 False#})"
    by (simp add: add_mset_commute)
  from st [OF this shared [OF sample_run(4)]]
  have "cache_reachable (\<lambda>n. n)
     (snd (look_up ''p'' sample_generation (snd (look_up ''p'' sample_generation sample_asked))),
      {#Producing ''p'' 3 True, Waiting ''p'' 3 True, Waiting ''p'' 3 False#})"
    by (simp add: add_mset_commute)
  from st [OF this let_go] show ?thesis by (simp add: sample_flying_def)
qed

section \<open>Properties\<close>

text \<open>
  C12. However requests, probes, producers and cancellations interleave, the cache keeps at most 32 projects, each
  once; its byte counter is the sum of the sizes of the rankings it stores and stays within two mebibytes; the number of clones
  of a project's slot is exactly the number of tasks that hold it; and the gauge of retired flights counts the retired flights, each
  of which is still being computed.
\<close>

theorem overview_cache_bounded:
  assumes "cache_reachable ranking_bytes (ov, T)"
  shows "length (ov_projects ov) \<le> MAX_PROJECTS \<and> distinct (map fst (ov_projects ov))
    \<and> ov_bytes ov = (\<Sum>(p, e) \<leftarrow> ov_projects ov. ready_bytes e) \<and> ov_bytes ov \<le> MAX_PAYLOAD
    \<and> (\<forall>p e. hm_get (ov_projects ov) p = Some e \<longrightarrow> en_clones e = size (filter_mset (holds p) T))
    \<and> ov_retired ov = count_if (\<lambda>(i, f). fl_retired f) (ov_flights ov)
    \<and> (\<forall>i f. hm_get (ov_flights ov) i = Some f \<longrightarrow> fl_retired f \<longrightarrow> fl_result f = None)"
proof -
  have g: "good (ov, T)" using reachable_good [OF assms] .
  note sh = shapeD [OF good_shape [OF g]]
  have "ov_bytes ov = (\<Sum>(p, e) \<leftarrow> ov_projects ov. ready_bytes e)"
    unfolding sh(3) stored_def by (rule arg_cong [of _ _ sum_list], rule map_cong) auto
  moreover have "ov_retired ov = count_if (\<lambda>(i, f). fl_retired f) (ov_flights ov)"
    unfolding sh(7) by (rule count_if_cong) (auto simp: retired_flight_def)
  moreover have "distinct (map fst (ov_projects ov))" using sh(1) by (simp add: hm_ok_def)
  moreover have "\<forall>p e. hm_get (ov_projects ov) p = Some e \<longrightarrow> en_clones e = size (filter_mset (holds p) T)"
    by (auto simp: holds_count [OF good_links [OF g]])
  ultimately show ?thesis using sh(2,4) retired_unfinished [OF good_links [OF g]] by blast
qed

theorem overview_cache_bounded_witness:
  "length (ov_projects sample_flying) \<le> MAX_PROJECTS \<and> ov_bytes sample_flying \<le> MAX_PAYLOAD"
  using overview_cache_bounded [OF sample_flying_reachable] by blast

text \<open>
  C3. Two producers of one project whose flights are not retired are the same producer: a ranking is computed once
  however many requests ask for it. And no request waits in vain: its flight has an answer, or
  it has a producer, of the same project.
\<close>

theorem single_flight:
  assumes "cache_reachable ranking_bytes (ov, T)"
  shows "(Producing p i h \<in># T \<longrightarrow> Producing p j k \<in># T
      \<longrightarrow> (\<exists>f. hm_get (ov_flights ov) i = Some f \<and> \<not> fl_retired f)
      \<longrightarrow> (\<exists>f. hm_get (ov_flights ov) j = Some f \<and> \<not> fl_retired f)
      \<longrightarrow> i = j \<and> h = k)
    \<and> (Waiting p i h \<in># T \<longrightarrow> (\<exists>f. hm_get (ov_flights ov) i = Some f
      \<and> (fl_result f \<noteq> None \<or> (\<exists>k. Producing p i k \<in># T))))"
proof -
  have g: "good (ov, T)" using reachable_good [OF assms] .
  note L = good_links [OF g]
  have "i = j \<and> h = k"
    if "Producing p i h \<in># T" "Producing p j k \<in># T"
      "hm_get (ov_flights ov) i = Some f" "\<not> fl_retired f" "hm_get (ov_flights ov) j = Some f'" "\<not> fl_retired f'" for f f'
  proof -
    have "i = j" using producer_current [OF L that(1,3,4)] producer_current [OF L that(2,5,6)] by auto
    then show ?thesis using producer_unique [OF L that(1), of p k] that(2) by simp
  qed
  moreover have "fl_result f \<noteq> None \<or> (\<exists>k. Producing p i k \<in># T)"
    if w: "Waiting p i h \<in># T" and f: "hm_get (ov_flights ov) i = Some f" for f
  proof (cases "fl_result f")
    case None
    then have "size (filter_mset (produces i) T) = 1" using produces_count [OF L, of i] f by simp
    then have "filter_mset (produces i) T \<noteq> {#}" by (metis size_empty zero_neq_one)
    then obtain t where "t \<in># T" "produces i t" by auto
    then obtain q k where "Producing q i k \<in># T" by (auto elim!: produces.elims)
    then show ?thesis using same_project [OF L w, of q k] by auto
  qed simp
  ultimately show ?thesis using waiter_flight [OF L, of p i h] by blast
qed

theorem single_flight_witness:
  "\<exists>f. hm_get (ov_flights sample_flying) 3 = Some f
     \<and> (fl_result f \<noteq> None \<or> (\<exists>k. Producing ''p'' 3 k \<in># {#Producing ''p'' 3 False, Waiting ''p'' 3 True, Waiting ''p'' 3 False#}))"
  using single_flight [OF sample_flying_reachable, of "''p''" 3 True] by auto

text \<open>
  In a reachable state no counter of the cache can underflow and no project disappears under a request that asked for
  it: taking a slot, leaving a flight and completing one always succeed, and looking a project up after taking its slot gives a ranking of
  the generation asked for, or a flight.
\<close>

theorem overview_never_underflows:
  assumes "cache_reachable ranking_bytes (ov, T)"
  shows "slot p ov \<noteq> None
    \<and> (Waiting p i h \<in># T \<longrightarrow> drop_waiter p i ov \<noteq> None)
    \<and> (Producing p i False \<in># T \<longrightarrow> complete ranking_bytes p i outcome ov \<noteq> None)
    \<and> (Probing p \<in># T \<longrightarrow>
        (\<exists>c. fst (look_up p g ov) = Ready_Hit c \<and> cr_generation c = g) \<or> (\<exists>j b. fst (look_up p g ov) = Join j b))"
proof -
  have g: "good (ov, T)" using reachable_good [OF assms] .
  have "drop_waiter p i ov \<noteq> None" if "Waiting p i h \<in># T"
  proof -
    obtain T' where "T = add_mset (Waiting p i h) T'" using multi_member_split \<open>Waiting p i h \<in># T\<close> by metis
    then show ?thesis using g by (auto elim: drop_waiter_ok)
  qed
  moreover have "complete ranking_bytes p i outcome ov \<noteq> None" if "Producing p i False \<in># T"
  proof -
    obtain T' where "T = add_mset (Producing p i False) T'" using multi_member_split \<open>Producing p i False \<in># T\<close> by metis
    then have "good (ov, add_mset (Producing p i False) T')" using g by simp
    then show ?thesis by (rule complete_ok [of _ _ _ _ ranking_bytes outcome]) simp
  qed
  moreover have "(\<exists>c. fst (look_up p g ov) = Ready_Hit c \<and> cr_generation c = g) \<or> (\<exists>j b. fst (look_up p g ov) = Join j b)"
    if "Probing p \<in># T"
  proof -
    obtain T' where "T = add_mset (Probing p) T'" using multi_member_split \<open>Probing p \<in># T\<close> by metis
    then have "good (ov, add_mset (Probing p) T')" using g by simp
    then show ?thesis by (rule look_up_ok [of _ _ _ g]) auto
  qed
  ultimately show ?thesis using slot_ok [OF g, of p] by auto
qed

theorem overview_never_underflows_witness:
  "drop_waiter ''p'' 3 sample_flying \<noteq> None \<and> complete (\<lambda>n. n) ''p'' 3 (Inr sample_ranking) sample_flying \<noteq> None"
  using overview_never_underflows [OF sample_flying_reachable, of "''p''" 3 True "Inr sample_ranking"] by auto

text \<open>
  When the producer of a flight that was neither retired nor stopped completes with a stable ranking of at most two
  mebibytes, the next request for that generation is answered with exactly that ranking.
\<close>

theorem completed_ranking_served:
  assumes "cache_reachable ranking_bytes (ov, add_mset (Producing p i False) T)"
    and "hm_get (ov_flights ov) i = Some f" "\<not> fl_retired f" "fl_stop f = None"
    and "cr_stable c" "ranking_bytes (cr_ranking c) \<le> MAX_PAYLOAD"
  shows "\<exists>ov'. complete ranking_bytes p i (Inr c) ov = Some ov' \<and> fst (look_up p (cr_generation c) ov') = Ready_Hit c"
  using complete_ok [OF reachable_good [OF assms(1)], of ranking_bytes "Inr c"]
    complete_publishes [of ov p i T f c ranking_bytes, OF reachable_good [OF assms(1)] assms(2-)] by metis

theorem completed_ranking_served_witness:
  "\<exists>ov'. complete (\<lambda>n. n) ''p'' 3 (Inr sample_ranking) sample_flying = Some ov'
     \<and> fst (look_up ''p'' (cr_generation sample_ranking) ov') = Ready_Hit sample_ranking"
proof -
  have "hm_get (ov_flights sample_flying) 3 = Some ((new_flight sample_generation)\<lparr>fl_waiters := 2\<rparr>)"
    by (simp add: slot_def Let_def overview_default_def sample_asked_def MAX_PROJECTS_def set_entry_def hm_insert_def
      new_entry_def look_up_def join_flight_def joinable_def retire_previous_def set_flight_def new_flight_def
      sample_flying_def release_def)
  then show ?thesis
    using completed_ranking_served [OF sample_flying_reachable, of _ sample_ranking]
    by (simp add: new_flight_def sample_ranking_def MAX_PAYLOAD_def)
qed

end
