(* ===== verification/Rust_Text.thy ===== *)
theory Rust_Text
  imports Rust_Prelude
begin

text \<open>
  The text and path operations of the standard library that several components call: \<open>Path\<close> on a Unix host, on
  the text of a path, and the operations of \<open>str\<close> that depend on Unicode white space, on UTF-8 bytes.
\<close>

section \<open>Paths\<close>

type_synonym path = string

text \<open>
  \<open>Path::components\<close> without the root and without the \<open>.\<close> components, which neither the file name of a path
  nor the check for \<open>..\<close> depends on.
\<close>

definition components :: "path \<Rightarrow> string list" where
  "components p = filter (\<lambda>c. c \<noteq> [] \<and> c \<noteq> ''.'') (split_on CHR ''/'' p)"

definition file_name :: "path \<Rightarrow> string option" where
  "file_name p =
     (let cs = components p in if cs = [] \<or> last cs = ''..'' then None else Some (last cs))"

definition extension :: "path \<Rightarrow> string option" where
  "extension p =
     (case file_name p of
        None \<Rightarrow> None
      | Some name \<Rightarrow>
          (case rsplit_once CHR ''.'' name of
             None \<Rightarrow> None
           | Some (stem, ext) \<Rightarrow> if stem = [] then None else Some ext))"

definition file_stem :: "path \<Rightarrow> string option" where
  "file_stem p =
     map_option
       (\<lambda>name. case rsplit_once CHR ''.'' name of
                  None \<Rightarrow> name
                | Some (stem, ext) \<Rightarrow> if stem = [] then name else stem)
       (file_name p)"

definition is_absolute :: "path \<Rightarrow> bool" where
  "is_absolute p = starts_with ''/'' p"

section \<open>White space\<close>

text \<open>The length of the Unicode white-space character a text starts with, or 0.\<close>

definition lead_ws :: "string \<Rightarrow> nat" where
  "lead_ws s =
     (case map of_char (take 3 s) :: nat list of
        [] \<Rightarrow> 0
      | a # r \<Rightarrow>
          if (9 \<le> a \<and> a \<le> 13) \<or> a = 32 then 1
          else (case r of
                  [] \<Rightarrow> 0
                | b # r' \<Rightarrow>
                    if a = 0xC2 \<and> (b = 0x85 \<or> b = 0xA0) then 2
                    else (case r' of
                            [] \<Rightarrow> 0
                          | c # _ \<Rightarrow>
                              if (a = 0xE1 \<and> b = 0x9A \<and> c = 0x80)
                                 \<or> (a = 0xE2 \<and> b = 0x80 \<and> ((0x80 \<le> c \<and> c \<le> 0x8A) \<or> c = 0xA8 \<or> c = 0xA9 \<or> c = 0xAF))
                                 \<or> (a = 0xE2 \<and> b = 0x81 \<and> c = 0x9F)
                                 \<or> (a = 0xE3 \<and> b = 0x80 \<and> c = 0x80)
                              then 3 else 0)))"

function str_trim_start :: "string \<Rightarrow> string" where
  "str_trim_start s = (if s = [] \<or> lead_ws s = 0 then s else str_trim_start (drop (lead_ws s) s))"
  by auto
termination by (relation "measure length") auto

declare str_trim_start.simps [simp del]

text \<open>The length of the white-space character a text ends with, or 0.\<close>

definition trail_ws :: "string \<Rightarrow> nat" where
  "trail_ws s =
     (case find (\<lambda>k. k \<le> length s \<and> lead_ws (drop (length s - k) s) = k) [1, 2, 3] of
        None \<Rightarrow> 0
      | Some k \<Rightarrow> k)"

function str_trim_end :: "string \<Rightarrow> string" where
  "str_trim_end s = (if s = [] \<or> trail_ws s = 0 then s else str_trim_end (take (length s - trail_ws s) s))"
  by auto
termination by (relation "measure length") auto

declare str_trim_end.simps [simp del]

definition str_trim :: "string \<Rightarrow> string" where
  "str_trim s = str_trim_end (str_trim_start s)"

text \<open>\<open>split_whitespace\<close>: the words between runs of white space; \<open>cur\<close> is the word being read.\<close>

function split_words :: "string \<Rightarrow> string \<Rightarrow> string list" where
  "split_words cur s =
     (if s = [] then (if cur = [] then [] else [cur])
      else if lead_ws s = 0 then split_words (cur @ [hd s]) (tl s)
      else (if cur = [] then [] else [cur]) @ split_words [] (drop (lead_ws s) s))"
  by pat_completeness auto
termination by (relation "measure (length \<circ> snd)") auto

declare split_words.simps [simp del]

definition split_whitespace :: "string \<Rightarrow> string list" where
  "split_whitespace s = split_words [] s"

text \<open>\<open>trim_matches\<close> with a set of ASCII characters.\<close>

definition trim_matches :: "char set \<Rightarrow> string \<Rightarrow> string" where
  "trim_matches cs s = rev (dropWhile (\<lambda>c. c \<in> cs) (rev (dropWhile (\<lambda>c. c \<in> cs) s)))"

text \<open>\<open>str::lines\<close>: the parts between line feeds, without the empty part after a last one and without the
  carriage return before each.\<close>

definition str_lines :: "string \<Rightarrow> string list" where
  "str_lines s =
     (let parts = split_on CHR 0x0A s;
          parts = (if last parts = [] then butlast parts else parts)
      in map (\<lambda>l. case strip_suffix [CHR 0x0D] l of None \<Rightarrow> l | Some t \<Rightarrow> t) parts)"

text \<open>\<open>str::replace\<close> of one character.\<close>

definition replace_char :: "char \<Rightarrow> string \<Rightarrow> string \<Rightarrow> string" where
  "replace_char c by_text s = concat (map (\<lambda>x. if x = c then by_text else [x]) s)"

text \<open>\<open>str::split\<close> on a set of characters, \<open>str::contains\<close> of a text, and \<open>join\<close> with a text.\<close>

fun split_any :: "char set \<Rightarrow> string \<Rightarrow> string list" where
  "split_any cs [] = [[]]"
| "split_any cs (x # xs) =
     (if x \<in> cs then [] # split_any cs xs
      else (case split_any cs xs of [] \<Rightarrow> [[x]] | y # ys \<Rightarrow> (x # y) # ys))"

fun contains_text :: "string \<Rightarrow> string \<Rightarrow> bool" where
  "contains_text t [] = (t = [])"
| "contains_text t (c # s) = (starts_with t (c # s) \<or> contains_text t s)"

fun join_text :: "string \<Rightarrow> string list \<Rightarrow> string" where
  "join_text sep [] = []"
| "join_text sep [p] = p"
| "join_text sep (p # q # ps) = p @ sep @ join_text sep (q # ps)"

definition contains_any :: "char list \<Rightarrow> string \<Rightarrow> bool" where
  "contains_any cs s = list_ex (\<lambda>c. c \<in> set cs) s"

section \<open>UTF-8\<close>

text \<open>What \<open>String::from_utf8\<close> accepts: no overlong form, no surrogate, nothing above U+10FFFF.\<close>

definition utf8_cont :: "nat \<Rightarrow> bool" where
  "utf8_cont b \<longleftrightarrow> 0x80 \<le> b \<and> b \<le> 0xBF"

fun utf8_bytes :: "nat list \<Rightarrow> bool" where
  "utf8_bytes [] = True"
| "utf8_bytes (a # s) =
     (if a < 0x80 then utf8_bytes s
      else if 0xC2 \<le> a \<and> a \<le> 0xDF then
        (case s of b # s' \<Rightarrow> utf8_cont b \<and> utf8_bytes s' | _ \<Rightarrow> False)
      else if 0xE0 \<le> a \<and> a \<le> 0xEF then
        (case s of
           b # c # s' \<Rightarrow>
             utf8_cont b \<and> (a = 0xE0 \<longrightarrow> 0xA0 \<le> b) \<and> (a = 0xED \<longrightarrow> b \<le> 0x9F) \<and> utf8_cont c \<and> utf8_bytes s'
         | _ \<Rightarrow> False)
      else if 0xF0 \<le> a \<and> a \<le> 0xF4 then
        (case s of
           b # c # d # s' \<Rightarrow>
             utf8_cont b \<and> (a = 0xF0 \<longrightarrow> 0x90 \<le> b) \<and> (a = 0xF4 \<longrightarrow> b \<le> 0x8F) \<and> utf8_cont c \<and> utf8_cont d
             \<and> utf8_bytes s'
         | _ \<Rightarrow> False)
      else False)"

definition from_utf8 :: "string \<Rightarrow> string option" where
  "from_utf8 s = (if utf8_bytes (map of_char s) then Some s else None)"

section \<open>Directories of a path\<close>

definition parent_dir :: "string \<Rightarrow> string" where
  "parent_dir p = (case rsplit_once CHR ''/'' p of None \<Rightarrow> [] | Some (d, _) \<Rightarrow> d)"

lemma parent_dir_shorter: "p \<noteq> [] \<Longrightarrow> length (parent_dir p) < length p"
  by (auto simp: parent_dir_def rsplit_once_Some_iff split: option.splits)

section \<open>Sorted lists\<close>

text \<open>\<open>sort\<close> followed by \<open>dedup\<close>, on which consecutive duplicates are dropped.\<close>

fun dedup :: "'a list \<Rightarrow> 'a list" where
  "dedup [] = []"
| "dedup [x] = [x]"
| "dedup (x # y # r) = (if x = y then dedup (y # r) else x # dedup (y # r))"

lemma set_dedup [simp]: "set (dedup xs) = set xs"
  by (induction xs rule: dedup.induct) auto

lemma sorted_dedup: "sorted xs \<Longrightarrow> sorted_wrt (<) (dedup xs)"
proof (induction xs rule: dedup.induct)
  case (3 x y r)
  show ?case
  proof (cases "x = y")
    case False
    then have "\<forall>z \<in> set (y # r). x < z" using "3.prems" by fastforce
    then have "\<forall>z \<in> set (dedup (y # r)). x < z" by simp
    then show ?thesis using 3 False by simp
  qed (use 3 in simp)
qed auto

lemma dedup_sort: "sorted_wrt (<) (dedup (sort xs))" "set (dedup (sort xs)) = set xs"
  by (simp_all add: sorted_dedup)

text \<open>\<open>map.entry(k).or_default()\<close> of a \<open>BTreeMap\<close> whose values are lists, and the push it is followed by.\<close>

definition btree_push :: "'k::linorder \<Rightarrow> 'v \<Rightarrow> ('k \<times> 'v list) list \<Rightarrow> ('k \<times> 'v list) list" where
  "btree_push k v m = btree_insert k ((case map_of m k of None \<Rightarrow> [] | Some vs \<Rightarrow> vs) @ [v]) m"

definition btree_touch :: "'k::linorder \<Rightarrow> ('k \<times> 'v list) list \<Rightarrow> ('k \<times> 'v list) list" where
  "btree_touch k m = (case map_of m k of None \<Rightarrow> btree_insert k [] m | Some _ \<Rightarrow> m)"

lemma btree_ok_Nil [simp]: "btree_ok []"
  by (simp add: btree_ok_def)

lemma btree_ok_push [simp]: "btree_ok m \<Longrightarrow> btree_ok (btree_push k v m)"
  by (simp add: btree_push_def)

lemma btree_ok_touch [simp]: "btree_ok m \<Longrightarrow> btree_ok (btree_touch k m)"
  by (simp add: btree_touch_def split: option.splits)

lemma map_of_btree_push: "map_of (btree_push k v m) = (map_of m)(k \<mapsto> (case map_of m k of None \<Rightarrow> [] | Some vs \<Rightarrow> vs) @ [v])"
  by (simp add: btree_push_def)

lemma map_of_btree_touch:
  "map_of (btree_touch k m) = (map_of m)(k \<mapsto> (case map_of m k of None \<Rightarrow> [] | Some vs \<Rightarrow> vs))"
  by (auto simp: btree_touch_def split: option.splits)

text \<open>Pushing every element of a list below the key it has, if it has one, groups the list by key.\<close>

definition push_key :: "('a \<Rightarrow> 'k::linorder option) \<Rightarrow> 'a \<Rightarrow> ('k \<times> 'a list) list \<Rightarrow> ('k \<times> 'a list) list" where
  "push_key key x m = (case key x of None \<Rightarrow> m | Some k \<Rightarrow> btree_push k x m)"

abbreviation btree_list :: "('k \<times> 'v list) list \<Rightarrow> 'k \<Rightarrow> 'v list" where
  "btree_list m k \<equiv> (case map_of m k of None \<Rightarrow> [] | Some vs \<Rightarrow> vs)"

lemma btree_ok_push_keys [simp]: "btree_ok m \<Longrightarrow> btree_ok (fold (push_key key) xs m)"
  by (induction xs arbitrary: m) (auto simp: push_key_def split: option.split)

lemma push_keys_list: "btree_list (fold (push_key key) xs m) k = btree_list m k @ filter (\<lambda>x. key x = Some k) xs"
proof (induction xs arbitrary: m)
  case (Cons x xs)
  then show ?case by (cases "key x") (auto simp: push_key_def map_of_btree_push)
qed simp

lemma push_keys_keys:
  "map_of (fold (push_key key) xs m) k = None \<longleftrightarrow> map_of m k = None \<and> (\<forall>x \<in> set xs. key x \<noteq> Some k)"
proof (induction xs arbitrary: m)
  case (Cons x xs)
  then show ?case by (cases "key x") (auto simp: push_key_def map_of_btree_push)
qed simp

lemma btree_mem_iff: "btree_ok m \<Longrightarrow> (k, v) \<in> set m \<longleftrightarrow> map_of m k = Some v"
  using btree_ok_distinct [of m] by simp

lemma push_keys_mem:
  "(k, vs) \<in> set (fold (push_key key) xs []) \<longleftrightarrow> vs = filter (\<lambda>x. key x = Some k) xs \<and> vs \<noteq> []"
proof -
  have ok: "btree_ok (fold (push_key key) xs [])" by simp
  have l: "btree_list (fold (push_key key) xs []) k = filter (\<lambda>x. key x = Some k) xs"
    by (simp add: push_keys_list)
  have n: "map_of (fold (push_key key) xs []) k = None \<longleftrightarrow> filter (\<lambda>x. key x = Some k) xs = []"
    by (simp add: push_keys_keys filter_empty_conv)
  show ?thesis unfolding btree_mem_iff [OF ok] using l n
    by (cases "map_of (fold (push_key key) xs []) k") auto
qed

end
