(* ===== verification/Watch_Index.thy ===== *)
theory Watch_Index
  imports Protocol_Types Rust_Text
begin

text \<open>
  The indexing work that the file watcher runs, \<open>crates/cli/src/statewatcher.rs\<close>: which files are sources
  (\<open>crates/parser/src/detect.rs\<close>), the re-index of one saved file, the purge of vanished files, the
  semantic batch and the bulk pass, each reduced to the outcome on which the watcher's queues
  depend. What the file system, the index lock and SQLite answer is an argument; the rows of the two
  indexes are the lists of the paths they hold. A path is its text, relative to the project root, with one
  slash between components.
\<close>

section \<open>Languages\<close>

definition is_unambiguous_cpp_extension :: "string \<Rightarrow> bool" where
  "is_unambiguous_cpp_extension ext \<longleftrightarrow>
     ext \<in> set [''cpp'', ''cc'', ''cxx'', ''c++'', ''cppm'', ''ixx'', ''hpp'', ''hh'', ''hxx'', ''h++'', ''tpp'', ''ipp'']"

definition detect_language_with_dialect :: "path \<Rightarrow> bool \<Rightarrow> language option" where
  "detect_language_with_dialect p header_is_cpp =
     (case extension p of
        None \<Rightarrow> None
      | Some ext \<Rightarrow>
          if ext = ''php'' then Some Lang_Php
          else if ext = ''py'' \<or> ext = ''pyi'' then Some Lang_Python
          else if ext = ''c'' then Some Lang_C
          else if ext = ''h'' then Some (if header_is_cpp then Lang_Cpp else Lang_C)
          else if ext = ''cu'' \<or> ext = ''cuh'' then Some Lang_Cpp
          else if is_unambiguous_cpp_extension ext then Some Lang_Cpp
          else if ext = ''java'' then Some Lang_Java
          else if ext = ''rs'' then Some Lang_Rust
          else if ext \<in> set [''js'', ''mjs'', ''cjs'', ''jsx''] then Some Lang_JavaScript
          else if ext \<in> set [''ts'', ''tsx'', ''mts'', ''cts''] then Some Lang_TypeScript
          else if ext = ''go'' then Some Lang_Go
          else None)"

definition detect_language :: "path \<Rightarrow> language option" where
  "detect_language p = detect_language_with_dialect p False"

definition is_source_file :: "path \<Rightarrow> bool" where
  "is_source_file rel \<longleftrightarrow> detect_language rel \<noteq> None"

definition is_cpp_evidence :: "path \<Rightarrow> bool" where
  "is_cpp_evidence p = (case extension p of None \<Rightarrow> False | Some e \<Rightarrow> is_unambiguous_cpp_extension e)"

definition header_context_changed :: "path \<Rightarrow> bool" where
  "header_context_changed p \<longleftrightarrow> extension p = Some ''h'' \<or> is_cpp_evidence p"

text \<open>\<open>relevant_watch_path\<close>, on a path already relative to the root.\<close>

definition relevant_watch_path :: "path \<Rightarrow> bool" where
  "relevant_watch_path rel \<longleftrightarrow>
     file_name rel = Some ''.gitignore'' \<or> \<not> list_ex (\<lambda>c. starts_with ''.'' c) (components rel)"

section \<open>Outcomes\<close>

datatype work_outcome = Done | Skipped | Failed

datatype lock_answer = Acquired | AlreadyHeld | Lock_Error

datatype sqlite_code = DatabaseBusy | DatabaseLocked | DiskFull | OperationInterrupted | Other_Code nat

text \<open>An error with the SQLite code its chain carries, if any, and its message in lower case.\<close>

record db_error =
  de_code :: "sqlite_code option"
  de_message :: string

fun contains_str :: "string \<Rightarrow> string \<Rightarrow> bool" where
  "contains_str p [] \<longleftrightarrow> p = []"
| "contains_str p (c # s) \<longleftrightarrow> starts_with p (c # s) \<or> contains_str p s"

definition is_retryable_db_error :: "db_error \<Rightarrow> bool" where
  "is_retryable_db_error e =
     (case de_code e of
        Some c \<Rightarrow> c \<in> {DatabaseBusy, DatabaseLocked, DiskFull, OperationInterrupted}
      | None \<Rightarrow> contains_str ''is locked'' (de_message e) \<or> contains_str ''busy'' (de_message e))"

definition after_error :: "db_error \<Rightarrow> work_outcome" where
  "after_error e = (if is_retryable_db_error e then Skipped else Failed)"

section \<open>Purging vanished files\<close>

text \<open>
  The rows of the structural and of the semantic index, by path. \<open>None\<close> for the database is a database
  file that does not exist.
\<close>

record index_rows =
  ix_structural :: "path list"
  ix_semantic :: "path list"

text \<open>
  \<open>remove_files_with_source\<close> deletes all rows in one batch and then refreshes Java boundaries, so that it may
  also fail after the rows are gone.
\<close>

datatype remove_answer = Removed | Removed_Then db_error | Not_Removed db_error

record purge_answers =
  pa_open :: bool
  pa_remove :: remove_answer
  pa_open_semantic :: bool
  pa_remove_semantic :: "db_error option"

definition without :: "path list \<Rightarrow> path list \<Rightarrow> path list" where
  "without rows paths = filter (\<lambda>p. p \<notin> set paths) rows"

definition purge_index_rows ::
  "purge_answers \<Rightarrow> path list \<Rightarrow> index_rows option \<Rightarrow> work_outcome \<times> index_rows option" where
  "purge_index_rows a paths db =
     (case db of
        None \<Rightarrow> (Done, None)
      | Some rows \<Rightarrow>
          if \<not> pa_open a then (Failed, db)
          else (case pa_remove a of
                  Not_Removed e \<Rightarrow> (after_error e, db)
                | Removed_Then e \<Rightarrow> (after_error e, Some (rows\<lparr>ix_structural := without (ix_structural rows) paths\<rparr>))
                | Removed \<Rightarrow>
                    let rows1 = rows\<lparr>ix_structural := without (ix_structural rows) paths\<rparr> in
                    if \<not> pa_open_semantic a then (Failed, Some rows1)
                    else (case pa_remove_semantic a of
                            Some e \<Rightarrow> (after_error e, Some rows1)
                          | None \<Rightarrow> (Done, Some (rows1\<lparr>ix_semantic := without (ix_semantic rows1) paths\<rparr>)))))"

definition purge_one_locked ::
  "lock_answer \<Rightarrow> purge_answers \<Rightarrow> path \<Rightarrow> index_rows option \<Rightarrow> work_outcome \<times> index_rows option" where
  "purge_one_locked lock a rel db =
     (case lock of
        Acquired \<Rightarrow> purge_index_rows a [rel] db
      | AlreadyHeld \<Rightarrow> (Skipped, db)
      | Lock_Error \<Rightarrow> (Failed, db))"

definition under_prefix :: "path \<Rightarrow> path \<Rightarrow> bool" where
  "under_prefix p pre \<longleftrightarrow> p = pre \<or> (starts_with pre p \<and> starts_with ''/'' (drop (length pre) p))"

text \<open>The database answers \<open>all_file_paths\<close> unless it cannot be opened or read (\<open>readable\<close>).\<close>

definition expand_removed_prefixes :: "bool \<Rightarrow> path list \<Rightarrow> index_rows option \<Rightarrow> path list option" where
  "expand_removed_prefixes readable prefixes db =
     (case db of
        None \<Rightarrow> Some []
      | Some rows \<Rightarrow>
          if readable then Some (filter (\<lambda>p. list_ex (under_prefix p) prefixes) (ix_structural rows)) else None)"

fun add_candidates :: "path list \<Rightarrow> path list \<Rightarrow> path list" where
  "add_candidates candidates [] = candidates"
| "add_candidates candidates (p # ps) =
     add_candidates (if p \<in> set candidates then candidates else candidates @ [p]) ps"

definition handle_removals ::
  "lock_answer \<Rightarrow> bool \<Rightarrow> purge_answers \<Rightarrow> (path \<Rightarrow> bool) \<Rightarrow> path list \<Rightarrow> path list \<Rightarrow> index_rows option
    \<Rightarrow> work_outcome \<times> index_rows option" where
  "handle_removals lock readable a exists paths prefixes db =
     (if paths = [] \<and> prefixes = [] then (Done, db)
      else (case lock of
              AlreadyHeld \<Rightarrow> (Skipped, db)
            | Lock_Error \<Rightarrow> (Failed, db)
            | Acquired \<Rightarrow>
                (case (if prefixes = [] then Some []
                       else expand_removed_prefixes readable prefixes db) of
                   None \<Rightarrow> (Failed, db)
                 | Some expanded \<Rightarrow>
                     let to_remove = filter (\<lambda>p. \<not> exists p) (add_candidates paths expanded) in
                     if to_remove = [] then (Done, db) else purge_index_rows a to_remove db)))"

section \<open>One saved file\<close>

datatype read_answer = Source bool string | Too_Large | Not_Found | Read_Error

text \<open>
  What \<open>reindex_one_with\<close> learns from outside: the file (\<open>Source is_empty hash\<close>), whether discovery routes a header
  to C++ (\<open>None\<close> when discovery fails), the two freshness checks, whether the stored language of a header
  agrees, the lock, the database, \<open>index_files\<close> (its failed and indexed counts) and the stored hash.
\<close>

record reindex_answers =
  ra_read :: read_answer
  ra_purge_lock :: lock_answer
  ra_purge :: purge_answers
  ra_dialect :: "bool option"
  ra_semantic_fresh :: bool
  ra_structural_fresh :: bool
  ra_language_agrees :: "language \<Rightarrow> bool"
  ra_lock :: lock_answer
  ra_open :: bool
  ra_index :: "db_error + (nat \<times> nat)"
  ra_hash :: "db_error + string option"

text \<open>The \<open>FileInfo\<close> handed to the semantic batch: its language and content hash.\<close>

type_synonym stale_info = "(language \<times> string) option"

definition index_saved ::
  "reindex_answers \<Rightarrow> bool \<Rightarrow> language \<Rightarrow> stale_info \<Rightarrow> work_outcome \<times> stale_info" where
  "index_saved a semantic_enabled lang stale =
     (case ra_lock a of
        AlreadyHeld \<Rightarrow> (Skipped, None)
      | Lock_Error \<Rightarrow> (Failed, None)
      | Acquired \<Rightarrow>
          if \<not> ra_open a then (Failed, None)
          else (case ra_index a of
                  Inl e \<Rightarrow> (after_error e, None)
                | Inr (files_failed, files_indexed) \<Rightarrow>
                    if files_failed > 0 then (Failed, None)
                    else if files_indexed > 0 \<and> semantic_enabled
                    then (case ra_hash a of
                            Inr (Some hash) \<Rightarrow> (Done, Some (lang, hash))
                          | Inr None \<Rightarrow> (Failed, None)
                          | Inl e \<Rightarrow> (after_error e, None))
                    else (Done, stale)))"

definition reindex_one ::
  "reindex_answers \<Rightarrow> path \<Rightarrow> bool \<Rightarrow> bool \<Rightarrow> index_rows option \<Rightarrow> (work_outcome \<times> stale_info) \<times> index_rows option" where
  "reindex_one a rel semantic_enabled header_is_cpp db =
     (let purge = (case purge_one_locked (ra_purge_lock a) (ra_purge a) rel db of (w, db') \<Rightarrow> ((w, None), db')) in
      case ra_read a of
        Too_Large \<Rightarrow> ((Failed, None), db)
      | Not_Found \<Rightarrow> purge
      | Read_Error \<Rightarrow> ((Failed, None), db)
      | Source is_empty hash \<Rightarrow>
          if is_empty then purge
          else (case (if header_is_cpp \<and> extension rel = Some ''h'' then ra_dialect a else Some False) of
                  None \<Rightarrow> ((Failed, None), db)
                | Some dialect \<Rightarrow>
                    (case detect_language_with_dialect rel dialect of
                       None \<Rightarrow> ((Done, None), db)
                     | Some lang \<Rightarrow>
                         let stale = (if semantic_enabled \<and> \<not> ra_semantic_fresh a then Some (lang, hash) else None) in
                         if ra_structural_fresh a \<and> (\<not> ends_with ''.h'' rel \<or> ra_language_agrees a lang)
                         then ((Done, stale), db)
                         else (index_saved a semantic_enabled lang stale, db))))"

section \<open>Semantic batch and bulk pass\<close>

datatype embedder_lookup = Disabled | Loaded | LoadFailed

record batch_answers =
  ba_embedder :: embedder_lookup
  ba_lock :: lock_answer
  ba_open :: bool
  ba_fingerprint :: bool
  ba_index :: "db_error + path list"

text \<open>A batch returns the paths whose rows remain stale, or the outcome of a batch that did not run.\<close>

definition semantic_batch_outcome :: "db_error + path list \<Rightarrow> work_outcome + path list" where
  "semantic_batch_outcome r = (case r of Inr failed_paths \<Rightarrow> Inr failed_paths | Inl e \<Rightarrow> Inl (after_error e))"

definition semantic_reindex_batch :: "batch_answers \<Rightarrow> work_outcome + path list" where
  "semantic_reindex_batch a =
     (if ba_embedder a \<noteq> Loaded then Inl Failed
      else (case ba_lock a of
              AlreadyHeld \<Rightarrow> Inl Skipped
            | Lock_Error \<Rightarrow> Inl Failed
            | Acquired \<Rightarrow>
                if \<not> ba_open a then Inl Failed
                else if \<not> ba_fingerprint a then Inl Failed
                else semantic_batch_outcome (ba_index a)))"

record bulk_answers =
  bk_lock :: lock_answer
  bk_open :: bool
  bk_structural :: "nat option"
  bk_embedder :: embedder_lookup
  bk_open_semantic :: bool
  bk_fingerprint :: bool
  bk_semantic :: "nat option"

text \<open>The counts are \<open>files_failed\<close>; \<open>None\<close> is an error of the pass.\<close>

definition run_bulk_incremental :: "bulk_answers \<Rightarrow> work_outcome" where
  "run_bulk_incremental a =
     (case bk_lock a of
        AlreadyHeld \<Rightarrow> Skipped
      | Lock_Error \<Rightarrow> Failed
      | Acquired \<Rightarrow>
          if \<not> bk_open a then Failed
          else if bk_structural a \<noteq> Some 0 then Failed
          else (case bk_embedder a of
                  Disabled \<Rightarrow> Done
                | LoadFailed \<Rightarrow> Failed
                | Loaded \<Rightarrow>
                    if \<not> bk_open_semantic a then Failed
                    else if \<not> bk_fingerprint a then Failed
                    else if bk_semantic a \<noteq> Some 0 then Failed
                    else Done))"

section \<open>Lemmas\<close>

lemma set_add_candidates [simp]: "set (add_candidates cs ps) = set cs \<union> set ps"
  by (induction cs ps rule: add_candidates.induct) auto

lemma without_filter: "without rows (filter P ps) = filter (\<lambda>p. \<not> (p \<in> set ps \<and> P p)) rows"
  by (simp add: without_def)

lemma under_prefix_iff: "under_prefix p pre \<longleftrightarrow> p = pre \<or> (\<exists>rest. p = pre @ ''/'' @ rest)"
proof -
  have "starts_with ''/'' t \<longleftrightarrow> (\<exists>rest. t = ''/'' @ rest)" for t by (simp add: starts_with_iff)
  then show ?thesis by (fastforce simp: under_prefix_def starts_with_iff)
qed

text \<open>Purging touches no other path, whatever goes wrong.\<close>

lemma purge_keeps_others:
  assumes "purge_index_rows a paths (Some rows) = (w, db)"
  obtains rows' where "db = Some rows'"
    "\<And>p. p \<notin> set paths \<Longrightarrow> p \<in> set (ix_structural rows') \<longleftrightarrow> p \<in> set (ix_structural rows)"
    "\<And>p. p \<notin> set paths \<Longrightarrow> p \<in> set (ix_semantic rows') \<longleftrightarrow> p \<in> set (ix_semantic rows)"
  using assms by (auto simp: purge_index_rows_def Let_def without_def split: if_splits remove_answer.splits option.splits)

lemma purge_done:
  assumes "purge_index_rows a paths (Some rows) = (Done, db)"
  shows "db = Some \<lparr>ix_structural = without (ix_structural rows) paths, ix_semantic = without (ix_semantic rows) paths\<rparr>"
  using assms
  by (cases rows) (auto simp: purge_index_rows_def Let_def after_error_def split: if_splits remove_answer.splits option.splits)

section \<open>Properties\<close>

text \<open>The purge of the vanished candidates, when the lock is held and the prefixes are expanded.\<close>

lemma purge_candidates_exact:
  fixes prefixes paths
  defines "below \<equiv> \<lambda>p. list_ex (under_prefix p) prefixes"
  assumes pu: "purge_index_rows a (filter (\<lambda>p. \<not> exists p) (add_candidates paths (filter below (ix_structural rows)))) (Some rows)
    = (w, db)"
  shows "\<exists>rows'. db = Some rows'
    \<and> (\<forall>p. exists p \<or> p \<notin> set paths \<and> \<not> below p \<longrightarrow>
         (p \<in> set (ix_structural rows') \<longleftrightarrow> p \<in> set (ix_structural rows))
         \<and> (p \<in> set (ix_semantic rows') \<longleftrightarrow> p \<in> set (ix_semantic rows)))
    \<and> (w = Done \<longrightarrow> (\<forall>p. \<not> exists p \<and> (p \<in> set paths \<or> below p) \<longrightarrow> p \<notin> set (ix_structural rows')))"
proof -
  define to_remove where "to_remove = filter (\<lambda>p. \<not> exists p) (add_candidates paths (filter below (ix_structural rows)))"
  note pu = pu [folded to_remove_def]
  obtain rows' where r: "db = Some rows'"
    "\<And>p. p \<notin> set to_remove \<Longrightarrow> p \<in> set (ix_structural rows') \<longleftrightarrow> p \<in> set (ix_structural rows)"
    "\<And>p. p \<notin> set to_remove \<Longrightarrow> p \<in> set (ix_semantic rows') \<longleftrightarrow> p \<in> set (ix_semantic rows)"
    using purge_keeps_others [OF pu] by blast
  have "w = Done \<Longrightarrow> p \<notin> set (ix_structural rows')" if "\<not> exists p" "p \<in> set paths \<or> below p" for p
    using purge_done [of a to_remove rows db] pu r(1) that by (auto simp: without_def to_remove_def)
  moreover have "p \<notin> set to_remove" if "exists p \<or> (p \<notin> set paths \<and> \<not> below p)" for p
    using that by (auto simp: to_remove_def)
  ultimately show ?thesis using r by blast
qed


definition sample_purge :: purge_answers where
  "sample_purge = \<lparr>pa_open = True, pa_remove = Removed, pa_open_semantic = True, pa_remove_semantic = None\<rparr>"

definition sample_rows :: index_rows where
  "sample_rows = \<lparr>ix_structural = [''src/a.rs'', ''src2/a.rs'', ''src/b.rs''], ix_semantic = [''src/a.rs'']\<rparr>"


text \<open>
  A re-index that does not end with \<open>Done\<close> leaves nothing for the semantic batch, so the whole file is retried; one
  that reports \<open>Done\<close> for a file that still has content found its structural rows fresh or wrote them without a
  failure, and hands the file to the semantic batch unless its semantic rows were fresh (or the
  watcher embeds nothing).
\<close>

theorem reindex_done_is_current:
  assumes "reindex_one a rel semantic_enabled header_is_cpp db = ((w, stale), db')"
    and "ra_read a = Source False hash" and "is_source_file rel"
  shows "(w \<noteq> Done \<longrightarrow> stale = None)
    \<and> (w = Done \<longrightarrow> (ra_structural_fresh a \<or> (\<exists>n. ra_index a = Inr (0, n)))
         \<and> (semantic_enabled \<longrightarrow> stale \<noteq> None \<or> ra_semantic_fresh a))
    \<and> (stale \<noteq> None \<longrightarrow> semantic_enabled)"
proof -
  have det: "detect_language_with_dialect rel d = None \<longleftrightarrow> False" for d
    using assms(3) by (auto simp: is_source_file_def detect_language_def detect_language_with_dialect_def
        split: option.splits if_splits)
  from assms(1,2) show ?thesis
    by (auto simp: det reindex_one_def index_saved_def Let_def after_error_def
        split: if_splits option.splits lock_answer.splits sum.splits prod.splits)
qed

definition sample_reindex :: reindex_answers where
  "sample_reindex = \<lparr>ra_read = Source False ''h1'', ra_purge_lock = Acquired, ra_purge = sample_purge, ra_dialect = None,
     ra_semantic_fresh = False, ra_structural_fresh = False, ra_language_agrees = (\<lambda>_. True), ra_lock = Acquired,
     ra_open = True, ra_index = Inr (0, 1), ra_hash = Inr (Some ''h2'')\<rparr>"

theorem reindex_done_is_current_witness:
  "\<exists>stale. reindex_one sample_reindex ''src/a.rs'' True False None = ((Done, stale), None) \<and> stale \<noteq> None"
proof -
  have run: "reindex_one sample_reindex ''src/a.rs'' True False None = ((Done, Some (Lang_Rust, ''h2'')), None)"
    by code_simp
  have "ra_read sample_reindex = Source False ''h1''" "is_source_file ''src/a.rs''" by (simp_all add: sample_reindex_def, code_simp)
  from reindex_done_is_current [OF run this] show ?thesis using run by (simp add: sample_reindex_def)
qed

end
