(* ===== verification/Watcher.thy ===== *)
theory Watcher
  imports Watch_Index
begin

text \<open>
  The file watcher's loop, \<open>crates/cli/src/statewatcher.rs\<close>: the admission of file-system events to a bounded queue, and
  one turn of \<open>run_statewatcher_with_admission\<close> as a function of the state and of what the world answers
  during the turn. Instants and durations are milliseconds; \<open>w_now w n i\<close> is the reading of the clock at call site
  \<open>n\<close> in the \<open>i\<close>-th pass of the loop around it. Hash maps and sets are lists of their entries.
\<close>

section \<open>Constants and backoff\<close>

definition MIN_DEBOUNCE_MS :: nat where "MIN_DEBOUNCE_MS = 1000"
definition BACKPRESSURE_MAX_DEFER :: nat where "BACKPRESSURE_MAX_DEFER = 15 * 60 * 1000"
definition BATCH_THRESHOLD :: nat where "BATCH_THRESHOLD = 10"
definition BATCH_WINDOW :: nat where "BATCH_WINDOW = 3000"
definition EVENT_QUEUE_CAPACITY :: nat where "EVENT_QUEUE_CAPACITY = 256"
definition EVENT_PATH_LIMIT :: nat where "EVENT_PATH_LIMIT = 64"
definition EVENT_PATH_BYTES :: nat where "EVENT_PATH_BYTES = 64 * 1024"
definition PENDING_PATH_LIMIT :: nat where "PENDING_PATH_LIMIT = 4096"
definition PENDING_PATH_BYTES :: nat where "PENDING_PATH_BYTES = 4 * 1024 * 1024"
definition BULK_COOLDOWN :: nat where "BULK_COOLDOWN = 3000"
definition MAX_REMOVAL_FAILURES :: nat where "MAX_REMOVAL_FAILURES = 10"
definition MAX_WORK_RETRIES :: nat where "MAX_WORK_RETRIES = 5"
definition PARKED_RETRY_INTERVAL :: nat where "PARKED_RETRY_INTERVAL = 30 * 60 * 1000"
definition MAX_WORK_RETRY_EXTRA :: nat where "MAX_WORK_RETRY_EXTRA = 600 * 1000"

definition floor_debounce_ms :: "nat \<Rightarrow> nat" where
  "floor_debounce_ms ms = max ms MIN_DEBOUNCE_MS"

text \<open>\<open>u32\<close> powers and products saturate; the cap on the delay lies far below \<open>Duration::MAX\<close>.\<close>

definition work_retry_extra_delay :: "nat \<Rightarrow> nat \<Rightarrow> nat" where
  "work_retry_extra_delay attempt debounce =
     (let factor = min (2 ^ (attempt - 1)) (2 ^ 32 - 1) - 1 in min (debounce * factor) MAX_WORK_RETRY_EXTRA)"

section \<open>Event admission\<close>

datatype event_kind = Create | Modify_Name | Modify_Other | Remove | Other_Kind

record watch_event =
  ev_kind :: event_kind
  ev_paths :: "string list"

datatype notification = Notify_Error | Notify bool watch_event

record admission =
  ad_queue :: "watch_event list"
  ad_lost :: bool

definition path_bytes :: "string list \<Rightarrow> nat" where
  "path_bytes paths = sum_list (map length paths)"

text \<open>\<open>capacity\<close> is the allocated size of a cloned path.\<close>

definition admit :: "(string \<Rightarrow> nat) \<Rightarrow> notification \<Rightarrow> admission \<Rightarrow> admission" where
  "admit capacity n a =
     (case n of
        Notify_Error \<Rightarrow> a\<lparr>ad_lost := True\<rparr>
      | Notify rescan e \<Rightarrow>
          if rescan then a\<lparr>ad_lost := True\<rparr>
          else if ev_kind e = Other_Kind then a
          else if length (ev_paths e) > EVENT_PATH_LIMIT \<or> path_bytes (ev_paths e) > EVENT_PATH_BYTES
          then a\<lparr>ad_lost := True\<rparr>
          else if sum_list (map capacity (ev_paths e)) > EVENT_PATH_BYTES
            \<or> length (ad_queue a) \<ge> EVENT_QUEUE_CAPACITY
          then a\<lparr>ad_lost := True\<rparr>
          else a\<lparr>ad_queue := ad_queue a @ [e]\<rparr>)"

definition strip_root :: "string \<Rightarrow> string \<Rightarrow> path option" where
  "strip_root root p = (if p = root then Some [] else strip_prefix (root @ ''/'') p)"

definition relevant :: "string \<Rightarrow> string \<Rightarrow> bool" where
  "relevant root p = (case strip_root root p of None \<Rightarrow> False | Some rel \<Rightarrow> relevant_watch_path rel)"

text \<open>The callback of \<open>event_watcher\<close>.\<close>

definition notified :: "string \<Rightarrow> (string \<Rightarrow> nat) \<Rightarrow> notification \<Rightarrow> admission \<Rightarrow> admission" where
  "notified root capacity n a =
     (case n of
        Notify False e \<Rightarrow>
          (let paths = filter (relevant root) (ev_paths e) in
           if paths = [] then a else admit capacity (Notify False (e\<lparr>ev_paths := paths\<rparr>)) a)
      | _ \<Rightarrow> admit capacity n a)"

fun exceeds_budget :: "nat \<Rightarrow> nat \<Rightarrow> nat list \<Rightarrow> bool" where
  "exceeds_budget index bytes [] = False"
| "exceeds_budget index bytes (n # ns) =
     (index \<ge> PENDING_PATH_LIMIT \<or> bytes + n > PENDING_PATH_BYTES \<or> exceeds_budget (index + 1) (bytes + n) ns)"

definition pending_work_exceeds_budget :: "nat list \<Rightarrow> bool" where
  "pending_work_exceeds_budget lengths = exceeds_budget 0 0 lengths"

section \<open>Filter refresh\<close>

record filter_refresh =
  rf_reload :: bool
  rf_reconciling :: bool
  rf_failures :: nat
  rf_retry_at :: "nat option"

definition refresh_default :: filter_refresh where
  "refresh_default = \<lparr>rf_reload = False, rf_reconciling = False, rf_failures = 0, rf_retry_at = None\<rparr>"

definition unwrap_or :: "'a option \<Rightarrow> 'a \<Rightarrow> 'a" where
  "unwrap_or x d = (case x of None \<Rightarrow> d | Some v \<Rightarrow> v)"

definition refresh_request :: "nat \<Rightarrow> filter_refresh \<Rightarrow> filter_refresh" where
  "refresh_request now r =
     (let r1 = r\<lparr>rf_reload := True\<rparr> in
      if rf_failures r1 = 0 then r1\<lparr>rf_retry_at := Some (max (unwrap_or (rf_retry_at r1) now) now)\<rparr> else r1)"

definition refresh_pending :: "filter_refresh \<Rightarrow> bool" where
  "refresh_pending r \<longleftrightarrow> rf_reload r \<or> rf_reconciling r"

definition refresh_parked :: "filter_refresh \<Rightarrow> bool" where
  "refresh_parked r \<longleftrightarrow> rf_failures r > MAX_WORK_RETRIES"

definition refresh_due :: "nat \<Rightarrow> filter_refresh \<Rightarrow> bool" where
  "refresh_due now r \<longleftrightarrow>
     refresh_pending r \<and> (case rf_retry_at r of None \<Rightarrow> True | Some at \<Rightarrow> now \<ge> at)"

definition refresh_failed :: "nat \<Rightarrow> nat \<Rightarrow> filter_refresh \<Rightarrow> filter_refresh" where
  "refresh_failed now debounce r =
     (let failures = min (rf_failures r + 1) (2 ^ 32 - 1);
          base = max debounce 1000;
          delay = (if failures > MAX_WORK_RETRIES then PARKED_RETRY_INTERVAL
                   else base + work_retry_extra_delay failures base)
      in r\<lparr>rf_failures := failures, rf_retry_at := Some (now + delay)\<rparr>)"

section \<open>State, configuration and world\<close>

record 'f config =
  cf_root :: string
  cf_debounce :: nat
  cf_idle_timeout :: nat
  cf_semantic :: bool
  cf_backpressure :: bool
  cf_ignored :: "'f \<Rightarrow> path \<Rightarrow> bool \<Rightarrow> bool"

record 'f watch =
  wa_admission :: admission
  wa_pending :: "(path \<times> nat) list"
  wa_removed_paths :: "path list"
  wa_removed_prefixes :: "path list"
  wa_batch_times :: "nat list"
  wa_indexing :: "path list"
  wa_recheck :: "path list"
  wa_retries :: "(path \<times> nat) list"
  wa_parked :: "(path \<times> nat) list"
  wa_status :: "(nat \<times> bool \<times> bool \<times> bool) option"
  wa_bulk_retry_at :: "nat option"
  wa_startup_failures :: "nat option"
  wa_startup_reconciled :: bool
  wa_cooldown_until :: "nat option"
  wa_removal_retry_at :: "nat option"
  wa_removal_fails :: nat
  wa_last_activity :: nat
  wa_header_is_cpp :: bool
  wa_deferred_since :: "nat option"
  wa_refresh :: filter_refresh
  wa_filter :: 'f

datatype dir_scan = Files "path list" | OverThreshold

text \<open>
  \<open>w_rows\<close> and \<open>w_load\<close> answer the index's rows and the reason for backpressure at the numbered question of the turn;
  \<open>w_filter\<close> is the filter of a successful replacement of the watch registrations; \<open>w_lost\<close> says that the
  notifier lost events while the turn ran.
\<close>

record 'f world =
  w_now :: "nat \<Rightarrow> nat \<Rightarrow> nat"
  w_exists :: "path \<Rightarrow> bool"
  w_is_dir :: "path \<Rightarrow> bool"
  w_scan :: "path \<Rightarrow> dir_scan"
  w_has_content :: "path \<Rightarrow> bool"
  w_recheck :: "path \<Rightarrow> bool"
  w_rows :: "nat \<Rightarrow> index_rows option"
  w_readable :: "nat \<Rightarrow> bool"
  w_load :: "nat \<Rightarrow> string option"
  w_bulk :: bulk_answers
  w_removal_lock :: lock_answer
  w_purge :: purge_answers
  w_reindex :: "path \<Rightarrow> reindex_answers"
  w_batch :: batch_answers
  w_filter :: "'f option"
  w_status_written :: "nat \<Rightarrow> bool"
  w_shutdown :: bool
  w_disabled :: bool
  w_lost :: bool

definition header_dialect_is_cpp :: "bool \<Rightarrow> index_rows option \<Rightarrow> bool" where
  "header_dialect_is_cpp readable db =
     (case db of
        None \<Rightarrow> False
      | Some rows \<Rightarrow> readable \<and> list_ex is_cpp_evidence (ix_structural rows))"

definition removed_paths_may_unflip_header :: "bool \<Rightarrow> path list \<Rightarrow> bool" where
  "removed_paths_may_unflip_header header_is_cpp paths \<longleftrightarrow> header_is_cpp \<and> list_ex is_cpp_evidence paths"

text \<open>\<open>publish_status\<close>: the status file is written only when it changes.\<close>

definition publish_status ::
  "bool \<Rightarrow> nat \<times> bool \<times> bool \<times> bool \<Rightarrow> (nat \<times> bool \<times> bool \<times> bool) option
    \<Rightarrow> (nat \<times> bool \<times> bool \<times> bool) option" where
  "publish_status ok next written = (if written = Some next then written else if ok then Some next else written)"

section \<open>Outcomes and queues\<close>

definition bulk_cooldown_after :: "work_outcome \<Rightarrow> nat \<Rightarrow> nat option" where
  "bulk_cooldown_after w now = (if w = Done then Some (now + BULK_COOLDOWN) else None)"

definition in_bulk_cooldown :: "nat option \<Rightarrow> nat \<Rightarrow> bool" where
  "in_bulk_cooldown until now = (case until of None \<Rightarrow> False | Some u \<Rightarrow> now < u)"

definition apply_bulk_outcome :: "work_outcome \<Rightarrow> nat \<Rightarrow> nat \<Rightarrow> nat option \<Rightarrow> 'f watch \<Rightarrow> 'f watch" where
  "apply_bulk_outcome w now debounce cooldown_until s =
     (case w of
        Done \<Rightarrow> s\<lparr>wa_pending := [], wa_removed_paths := [], wa_bulk_retry_at := None\<rparr>
      | Skipped \<Rightarrow>
          (let retry_at = (case cooldown_until of None \<Rightarrow> now + debounce | Some cd \<Rightarrow> max (now + debounce) cd);
               stamp = retry_at - debounce
           in s\<lparr>wa_pending := map (\<lambda>(p, _). (p, stamp)) (wa_pending s), wa_bulk_retry_at := Some retry_at\<rparr>)
      | Failed \<Rightarrow> s\<lparr>wa_bulk_retry_at := None\<rparr>)"

definition schedule_watch_error_catchup :: "nat \<Rightarrow> nat \<Rightarrow> 'f watch \<Rightarrow> 'f watch" where
  "schedule_watch_error_catchup now debounce s = apply_bulk_outcome Skipped now debounce (wa_cooldown_until s) s"

definition startup_outcome :: "work_outcome \<Rightarrow> nat option \<Rightarrow> work_outcome \<times> nat option" where
  "startup_outcome w failures =
     (case failures of
        None \<Rightarrow> (w, None)
      | Some count \<Rightarrow>
          (case w of
             Done \<Rightarrow> (w, None)
           | Failed \<Rightarrow> if count + 1 < 3 then (Skipped, Some (count + 1)) else (w, None)
           | Skipped \<Rightarrow> (w, Some count)))"

definition apply_removal_outcome :: "work_outcome \<Rightarrow> nat \<Rightarrow> nat \<Rightarrow> 'f watch \<Rightarrow> 'f watch" where
  "apply_removal_outcome w now debounce s =
     (case w of
        Done \<Rightarrow> s\<lparr>wa_removed_paths := [], wa_removed_prefixes := [], wa_removal_fails := 0, wa_removal_retry_at := None\<rparr>
      | Skipped \<Rightarrow> s\<lparr>wa_removal_retry_at := Some (now + debounce)\<rparr>
      | Failed \<Rightarrow>
          if wa_removal_fails s + 1 \<ge> MAX_REMOVAL_FAILURES
          then s\<lparr>wa_removed_paths := [], wa_removed_prefixes := [], wa_removal_fails := 0, wa_removal_retry_at := None\<rparr>
          else s\<lparr>wa_removal_fails := wa_removal_fails s + 1, wa_removal_retry_at := Some (now + debounce)\<rparr>)"

text \<open>Backpressure: the answer and the start of the streak.\<close>

definition should_defer :: "string option \<Rightarrow> nat \<Rightarrow> nat option \<Rightarrow> bool \<times> nat option" where
  "should_defer reason now deferred_since =
     (case reason of
        None \<Rightarrow> (False, None)
      | Some _ \<Rightarrow>
          (let since = unwrap_or deferred_since now in
           if now - since \<ge> BACKPRESSURE_MAX_DEFER then (False, None) else (True, Some since)))"

definition run_bulk_guarded :: "'f config \<Rightarrow> 'f world \<Rightarrow> 'f watch \<Rightarrow> work_outcome \<times> 'f watch" where
  "run_bulk_guarded cf w s =
     (let (defer, since) = (if cf_backpressure cf then should_defer (w_load w 0) (w_now w 10 0) (wa_deferred_since s)
                            else (False, wa_deferred_since s));
          s1 = s\<lparr>wa_deferred_since := since\<rparr>
      in if defer then (Skipped, s1)
         else (let outcome = run_bulk_incremental (w_bulk w) in
               (outcome, if outcome = Done then s1\<lparr>wa_retries := [], wa_parked := []\<rparr> else s1)))"

text \<open>Failed work is queued again with backoff; exhausted paths are returned for parking.\<close>

fun requeue_failed_work ::
  "nat \<Rightarrow> nat \<Rightarrow> path list \<Rightarrow> (path \<times> nat) list \<times> (path \<times> nat) list
    \<Rightarrow> path list \<times> (path \<times> nat) list \<times> (path \<times> nat) list" where
  "requeue_failed_work debounce now [] (pending, retries) = ([], pending, retries)"
| "requeue_failed_work debounce now (p # ps) (pending, retries) =
     (let attempt = unwrap_or (hm_get retries p) 0 + 1 in
      if attempt > MAX_WORK_RETRIES
      then (let (abandoned, rest) = requeue_failed_work debounce now ps (hm_remove p pending, hm_remove p retries)
            in (p # abandoned, rest))
      else requeue_failed_work debounce now ps
             (hm_insert p (now + work_retry_extra_delay attempt debounce) pending, hm_insert p attempt retries))"

definition park :: "nat \<Rightarrow> path list \<Rightarrow> (path \<times> nat) list \<Rightarrow> (path \<times> nat) list" where
  "park now paths parked = fold (\<lambda>p m. hm_insert p now m) paths parked"

definition fail_work :: "nat \<Rightarrow> nat \<Rightarrow> path list \<Rightarrow> 'f watch \<Rightarrow> 'f watch" where
  "fail_work debounce now paths s =
     (case requeue_failed_work debounce now paths (wa_pending s, wa_retries s) of (abandoned, pending, retries) \<Rightarrow>
        s\<lparr>wa_pending := pending, wa_retries := retries, wa_parked := park now abandoned (wa_parked s)\<rparr>)"

definition settle_work :: "path \<Rightarrow> 'f watch \<Rightarrow> 'f watch" where
  "settle_work p s = s\<lparr>wa_retries := hm_remove p (wa_retries s), wa_parked := hm_remove p (wa_parked s)\<rparr>"

text \<open>The first loop of \<open>apply_semantic_outcome\<close> splits the batch; the failed paths are requeued after it.\<close>

fun semantic_each :: "work_outcome + path list \<Rightarrow> nat \<Rightarrow> path list \<Rightarrow> 'f watch \<Rightarrow> path list \<times> 'f watch" where
  "semantic_each outcome now [] s = ([], s)"
| "semantic_each outcome now (p # ps) s =
     (case outcome of
        Inr failed_paths \<Rightarrow>
          if p \<notin> set failed_paths then semantic_each outcome now ps (settle_work p s)
          else (let (failed, s') = semantic_each outcome now ps s in (p # failed, s'))
      | Inl Skipped \<Rightarrow> semantic_each outcome now ps (s\<lparr>wa_pending := hm_insert p now (wa_pending s)\<rparr>)
      | Inl _ \<Rightarrow> (let (failed, s') = semantic_each outcome now ps s in (p # failed, s')))"

definition apply_semantic_outcome ::
  "work_outcome + path list \<Rightarrow> path list \<Rightarrow> nat \<Rightarrow> nat \<Rightarrow> 'f watch \<Rightarrow> 'f watch" where
  "apply_semantic_outcome outcome paths debounce now s =
     (case semantic_each outcome now paths s of (failed, s') \<Rightarrow> fail_work debounce now failed s')"

definition revive_due_parked :: "nat \<Rightarrow> 'f watch \<Rightarrow> 'f watch" where
  "revive_due_parked now s =
     (let due = map fst (filter (\<lambda>(p, since). now - since \<ge> PARKED_RETRY_INTERVAL) (wa_parked s)) in
      s\<lparr>wa_parked := filter (\<lambda>(p, since). \<not> now - since \<ge> PARKED_RETRY_INTERVAL) (wa_parked s),
        wa_retries := fold hm_remove due (wa_retries s),
        wa_pending := fold (\<lambda>p m. hm_insert p now m) due (wa_pending s)\<rparr>)"

section \<open>Draining saved files\<close>

definition compute_ready :: "nat \<Rightarrow> nat \<Rightarrow> (path \<times> nat) list \<Rightarrow> path list" where
  "compute_ready now debounce pending = map fst (filter (\<lambda>(p, t). now - t \<ge> debounce) pending)"

text \<open>
  One pass of the loop of \<open>process_ready\<close>: the state, the files left for the semantic batch and whether the header
  dialect has to be derived again.
\<close>

definition after_reindex ::
  "'f world \<Rightarrow> nat \<Rightarrow> path \<Rightarrow> bool \<Rightarrow> stale_info \<Rightarrow> 'f watch \<times> path list \<times> bool \<Rightarrow> 'f watch \<times> path list \<times> bool" where
  "after_reindex w i p header_is_cpp stale acc =
     (case acc of (s, todo, rederive) \<Rightarrow>
        (let (s1, todo1) = (case stale of Some _ \<Rightarrow> (s, todo @ [p]) | None \<Rightarrow> (settle_work p s, todo));
             rederive1 = (rederive \<or> (header_is_cpp \<and> is_cpp_evidence p \<and> \<not> w_has_content w p));
             s2 = (if p \<in> set (wa_recheck s1)
                   then (let s' = s1\<lparr>wa_recheck := removeAll p (wa_recheck s1)\<rparr> in
                         if w_recheck w p then s'\<lparr>wa_pending := hm_insert p (w_now w 21 i) (wa_pending s')\<rparr> else s')
                   else s1)
         in (s2, todo1, rederive1)))"

definition process_one ::
  "'f config \<Rightarrow> 'f world \<Rightarrow> bool \<Rightarrow> nat \<Rightarrow> path \<Rightarrow> 'f watch \<times> path list \<times> bool \<Rightarrow> 'f watch \<times> path list \<times> bool" where
  "process_one cf w header_is_cpp i p acc =
     (case acc of (s0, todo, rederive) \<Rightarrow>
        (let s = s0\<lparr>wa_pending := hm_remove p (wa_pending s0)\<rparr> in
         if cf_ignored cf (wa_filter s) p False then (settle_work p s, todo, rederive)
         else if p \<in> set (wa_indexing s) then (s\<lparr>wa_recheck := List.insert p (wa_recheck s)\<rparr>, todo, rederive)
         else (case fst (reindex_one (w_reindex w p) p (cf_semantic cf) header_is_cpp (w_rows w 0)) of
                 (Failed, _) \<Rightarrow> (fail_work (cf_debounce cf) (w_now w 20 i) [p] s, todo, rederive)
               | (Skipped, _) \<Rightarrow> (s\<lparr>wa_pending := hm_insert p (w_now w 22 i) (wa_pending s)\<rparr>, todo, rederive)
               | (Done, stale) \<Rightarrow> after_reindex w i p header_is_cpp stale (s, todo, rederive))))"

fun process_each ::
  "'f config \<Rightarrow> 'f world \<Rightarrow> bool \<Rightarrow> nat \<Rightarrow> path list \<Rightarrow> 'f watch \<times> path list \<times> bool \<Rightarrow> 'f watch \<times> path list \<times> bool" where
  "process_each cf w header_is_cpp i [] acc = acc"
| "process_each cf w header_is_cpp i (p # ps) acc =
     process_each cf w header_is_cpp (i + 1) ps (process_one cf w header_is_cpp i p acc)"

definition process_ready :: "'f config \<Rightarrow> 'f world \<Rightarrow> bool \<Rightarrow> path list \<Rightarrow> 'f watch \<Rightarrow> bool \<times> 'f watch" where
  "process_ready cf w header_is_cpp ready s =
     (case process_each cf w header_is_cpp 0 ready (s, [], False) of (s', todo, rederive) \<Rightarrow>
        (rederive,
         if todo = [] then s'
         else apply_semantic_outcome (semantic_reindex_batch (w_batch w)) todo (cf_debounce cf) (w_now w 23 0) s'))"

definition drain_pending :: "'f config \<Rightarrow> 'f world \<Rightarrow> 'f watch \<Rightarrow> bool \<times> 'f watch" where
  "drain_pending cf w s =
     (let ready = compute_ready (w_now w 24 0) (cf_debounce cf) (wa_pending s) in
      if ready = [] then (False, s)
      else (let (defer, since) = (if cf_backpressure cf
                                  then should_defer (w_load w 1) (w_now w 25 0) (wa_deferred_since s)
                                  else (False, wa_deferred_since s));
                s1 = s\<lparr>wa_deferred_since := since\<rparr>
            in if defer
               then (False, s1\<lparr>wa_pending := fold (\<lambda>p m. hm_insert p (w_now w 26 0) m) ready (wa_pending s1)\<rparr>)
               else process_ready cf w (wa_header_is_cpp s1) ready s1))"

definition drain_pending_force :: "'f config \<Rightarrow> 'f world \<Rightarrow> 'f watch \<Rightarrow> 'f watch" where
  "drain_pending_force cf w s = snd (process_ready cf w (wa_header_is_cpp s) (map fst (wa_pending s)) s)"

section \<open>Events\<close>

definition is_content_kind :: "event_kind \<Rightarrow> bool" where
  "is_content_kind k \<longleftrightarrow> k \<noteq> Other_Kind"

definition is_dir_adoption_kind :: "event_kind \<Rightarrow> bool" where
  "is_dir_adoption_kind k \<longleftrightarrow> k = Create \<or> k = Modify_Name"

definition delayed_retry :: "nat option \<Rightarrow> nat \<Rightarrow> nat option" where
  "delayed_retry cooldown_until at = Some (case cooldown_until of None \<Rightarrow> at | Some until \<Rightarrow> max until at)"

definition push_batch_time :: "nat \<Rightarrow> nat list \<Rightarrow> nat list" where
  "push_batch_time t ts = (if length ts < BATCH_THRESHOLD then ts @ [t] else ts)"

definition adopt_file :: "nat \<Rightarrow> path \<Rightarrow> 'f watch \<Rightarrow> 'f watch" where
  "adopt_file now rel s =
     (let s1 = s\<lparr>wa_removed_paths := removeAll rel (wa_removed_paths s)\<rparr> in
      if hm_get (wa_pending s1) rel = None
      then s1\<lparr>wa_pending := hm_insert rel now (wa_pending s1), wa_batch_times := push_batch_time now (wa_batch_times s1)\<rparr>
      else s1)"

definition adopt_dir :: "'f config \<Rightarrow> 'f world \<Rightarrow> nat \<Rightarrow> path \<Rightarrow> 'f watch \<Rightarrow> 'f watch" where
  "adopt_dir cf w i rel s =
     (let s1 = (if cf_ignored cf (wa_filter s) rel True then s
                else s\<lparr>wa_refresh := refresh_request (w_now w 3 i) (wa_refresh s), wa_bulk_retry_at := Some (w_now w 4 i)\<rparr>)
      in case (if cf_ignored cf (wa_filter s) rel True then Files [] else w_scan w rel) of
           Files files \<Rightarrow> fold (adopt_file (w_now w 5 i)) files s1
         | OverThreshold \<Rightarrow> schedule_watch_error_catchup (w_now w 5 i) (cf_debounce cf) s1)"

definition note_vanished :: "'f config \<Rightarrow> 'f world \<Rightarrow> nat \<Rightarrow> event_kind \<Rightarrow> path \<Rightarrow> 'f watch \<Rightarrow> 'f watch" where
  "note_vanished cf w i kind rel s =
     (if (kind = Remove \<or> kind = Modify_Name) \<and> rel \<noteq> [] \<and> \<not> w_exists w rel \<and> \<not> cf_ignored cf (wa_filter s) rel True
      then s\<lparr>wa_removed_prefixes := (if rel \<in> set (wa_removed_prefixes s) then wa_removed_prefixes s
                                     else wa_removed_prefixes s @ [rel]),
             wa_bulk_retry_at := delayed_retry (wa_cooldown_until s) (w_now w 6 i + cf_debounce cf)\<rparr>
      else s)"

definition note_source :: "'f config \<Rightarrow> 'f world \<Rightarrow> nat \<Rightarrow> event_kind \<Rightarrow> path \<Rightarrow> 'f watch \<Rightarrow> 'f watch" where
  "note_source cf w i kind rel s =
     (let s1 = (if is_content_kind kind \<and> header_context_changed rel
                then s\<lparr>wa_bulk_retry_at := delayed_retry (wa_cooldown_until s) (w_now w 7 i + cf_debounce cf)\<rparr>
                else s)
      in if kind = Create \<or> kind = Modify_Name \<or> kind = Modify_Other
         then s1\<lparr>wa_header_is_cpp := (wa_header_is_cpp s1 \<or> is_cpp_evidence rel),
                 wa_removed_paths := removeAll rel (wa_removed_paths s1),
                 wa_pending := hm_insert rel (w_now w 8 i) (wa_pending s1),
                 wa_batch_times := push_batch_time (w_now w 9 i) (wa_batch_times s1)\<rparr>
         else if kind = Remove then s1\<lparr>wa_removed_paths := wa_removed_paths s1 @ [rel]\<rparr>
         else s1)"

definition handle_event_path :: "'f config \<Rightarrow> 'f world \<Rightarrow> event_kind \<Rightarrow> nat \<Rightarrow> string \<Rightarrow> 'f watch \<Rightarrow> 'f watch" where
  "handle_event_path cf w kind i p s =
     (case strip_root (cf_root cf) p of
        None \<Rightarrow> s
      | Some rel \<Rightarrow>
          if file_name p = Some ''.gitignore'' \<and> is_content_kind kind
          then s\<lparr>wa_refresh := refresh_request (w_now w 1 i) (wa_refresh s), wa_bulk_retry_at := Some (w_now w 2 i)\<rparr>
          else if w_is_dir w rel \<and> is_dir_adoption_kind kind then adopt_dir cf w i rel s
          else (let s1 = note_vanished cf w i kind rel s in
                if \<not> is_source_file rel then s1
                else if cf_ignored cf (wa_filter s1) rel False then s1
                else note_source cf w i kind rel s1))"

fun handle_event_paths :: "'f config \<Rightarrow> 'f world \<Rightarrow> event_kind \<Rightarrow> nat \<Rightarrow> string list \<Rightarrow> 'f watch \<Rightarrow> 'f watch" where
  "handle_event_paths cf w kind i [] s = s"
| "handle_event_paths cf w kind i (p # ps) s = handle_event_paths cf w kind (i + 1) ps (handle_event_path cf w kind i p s)"

section \<open>A turn of the loop\<close>

text \<open>
  What a bulk pass leaves, for a burst of events and for a scheduled pass alike; \<open>k\<close> numbers its clock readings and its question
  for the index's rows.
\<close>

definition finish_bulk :: "'f config \<Rightarrow> 'f world \<Rightarrow> nat \<Rightarrow> work_outcome \<Rightarrow> 'f watch \<Rightarrow> 'f watch" where
  "finish_bulk cf w k outcome s =
     (let s1 = s\<lparr>wa_cooldown_until := bulk_cooldown_after outcome (w_now w 11 k)\<rparr>;
          s2 = (if outcome = Done
                then s1\<lparr>wa_startup_reconciled := True, wa_header_is_cpp := header_dialect_is_cpp (w_readable w k) (w_rows w k),
                        wa_removed_prefixes := []\<rparr>
                else s1)
      in apply_bulk_outcome outcome (w_now w 12 k) (cf_debounce cf) (wa_cooldown_until s2) s2)"

definition run_startup :: "work_outcome \<Rightarrow> 'f watch \<Rightarrow> work_outcome \<times> 'f watch" where
  "run_startup raw s =
     (case startup_outcome raw (wa_startup_failures s) of (outcome, failures) \<Rightarrow>
        (outcome, s\<lparr>wa_startup_failures := failures\<rparr>))"

text \<open>The top of the loop: too much queued work, or lost events, become the obligation of a full reconciliation.\<close>

definition tracked_lengths :: "'f watch \<Rightarrow> nat list" where
  "tracked_lengths s =
     map length (map fst (wa_pending s) @ wa_indexing s @ wa_recheck s @ map fst (wa_retries s) @ map fst (wa_parked s)
       @ wa_removed_paths s @ wa_removed_prefixes s)"

definition shed_overload :: "'f watch \<Rightarrow> 'f watch" where
  "shed_overload s =
     (if pending_work_exceeds_budget (tracked_lengths s)
      then s\<lparr>wa_pending := [], wa_removed_paths := [], wa_removed_prefixes := [], wa_recheck := [], wa_retries := [],
             wa_parked := [], wa_batch_times := [], wa_admission := (wa_admission s)\<lparr>ad_lost := True\<rparr>\<rparr>
      else s)"

definition note_loss :: "'f world \<Rightarrow> 'f watch \<Rightarrow> 'f watch" where
  "note_loss w s =
     (if ad_lost (wa_admission s)
      then (let r = refresh_request (w_now w 30 0) (wa_refresh s) in
            s\<lparr>wa_admission := (wa_admission s)\<lparr>ad_lost := False\<rparr>,
              wa_refresh := r\<lparr>rf_retry_at := Some (max (unwrap_or (rf_retry_at r) (w_now w 31 0))
                                                       (unwrap_or (wa_cooldown_until s) (w_now w 32 0)))\<rparr>\<rparr>)
      else s)"

text \<open>
  The \<open>Ok(event)\<close> branch; the flag says that the turn ends here. The queue is never disconnected, since the loop itself keeps a
  sender.
\<close>

definition handle_burst :: "'f config \<Rightarrow> 'f world \<Rightarrow> 'f watch \<Rightarrow> 'f watch" where
  "handle_burst cf w s0 =
     (let s = s0\<lparr>wa_batch_times := []\<rparr> in
      if in_bulk_cooldown (wa_cooldown_until s) (w_now w 33 0)
      then apply_bulk_outcome Skipped (w_now w 34 0) (cf_debounce cf) (wa_cooldown_until s) s
      else (let (raw, s1) = run_bulk_guarded cf w s; (outcome, s2) = run_startup raw s1 in
            finish_bulk cf w 0 outcome s2))"

definition receive :: "'f config \<Rightarrow> 'f world \<Rightarrow> 'f watch \<Rightarrow> bool \<times> bool \<times> 'f watch" where
  "receive cf w s =
     (case ad_queue (wa_admission s) of
        [] \<Rightarrow> (False, False, s)
      | e # rest \<Rightarrow>
          (let s1 = s\<lparr>wa_admission := (wa_admission s)\<lparr>ad_queue := rest\<rparr>,
                      wa_status := publish_status (w_status_written w 0)
                        (length (wa_parked s), True, refresh_parked (wa_refresh s), wa_startup_reconciled s) (wa_status s)\<rparr>;
               s2 = handle_event_paths cf w (ev_kind e) 0 (ev_paths e) s1;
               s3 = s2\<lparr>wa_batch_times := filter (\<lambda>t. w_now w 33 0 - t < BATCH_WINDOW) (wa_batch_times s2)\<rparr>
           in if \<not> refresh_pending (wa_refresh s3) \<and> length (wa_batch_times s3) \<ge> BATCH_THRESHOLD
              then (True, True, handle_burst cf w s3)
              else (True, False, s3)))"

definition outstanding :: "'f watch \<Rightarrow> bool" where
  "outstanding s \<longleftrightarrow>
     wa_pending s \<noteq> [] \<or> wa_indexing s \<noteq> [] \<or> wa_recheck s \<noteq> [] \<or> wa_removed_paths s \<noteq> []
     \<or> wa_removed_prefixes s \<noteq> [] \<or> wa_parked s \<noteq> [] \<or> wa_bulk_retry_at s \<noteq> None
     \<or> refresh_pending (wa_refresh s) \<or> ad_lost (wa_admission s)"

definition report :: "'f world \<Rightarrow> bool \<Rightarrow> 'f watch \<Rightarrow> 'f watch" where
  "report w received s =
     s\<lparr>wa_status := publish_status (w_status_written w 1)
         (length (wa_parked s), received \<or> outstanding s \<or> wa_retries s \<noteq> [],
          refresh_parked (wa_refresh s), wa_startup_reconciled s) (wa_status s)\<rparr>"

definition reload_filter :: "'f config \<Rightarrow> 'f world \<Rightarrow> 'f watch \<Rightarrow> 'f watch" where
  "reload_filter cf w s =
     (if rf_reload (wa_refresh s) \<and> refresh_due (w_now w 35 0) (wa_refresh s)
      then (case w_filter w of
              Some f \<Rightarrow> s\<lparr>wa_filter := f, wa_refresh := (wa_refresh s)\<lparr>rf_reload := False, rf_reconciling := True\<rparr>\<rparr>
            | None \<Rightarrow> s\<lparr>wa_refresh := refresh_failed (w_now w 36 0) (cf_debounce cf) (wa_refresh s)\<rparr>)
      else s)"

definition reconcile :: "'f config \<Rightarrow> 'f world \<Rightarrow> work_outcome \<Rightarrow> filter_refresh \<Rightarrow> filter_refresh" where
  "reconcile cf w raw r =
     (case raw of
        Done \<Rightarrow> refresh_default
      | Skipped \<Rightarrow> r\<lparr>rf_retry_at := Some (w_now w 38 0 + cf_debounce cf)\<rparr>
      | Failed \<Rightarrow> refresh_failed (w_now w 38 0) (cf_debounce cf) r)"

definition bulk_due :: "'f world \<Rightarrow> 'f watch \<Rightarrow> bool" where
  "bulk_due w s \<longleftrightarrow>
     \<not> rf_reload (wa_refresh s)
     \<and> (if rf_reconciling (wa_refresh s) then refresh_due (w_now w 37 0) (wa_refresh s)
        else (case wa_bulk_retry_at s of None \<Rightarrow> False | Some at \<Rightarrow> w_now w 37 0 \<ge> at))"

definition scheduled_bulk :: "'f config \<Rightarrow> 'f world \<Rightarrow> 'f watch \<Rightarrow> 'f watch" where
  "scheduled_bulk cf w s =
     (if bulk_due w s
      then (let (raw, s1) = run_bulk_guarded cf w s;
                (outcome, s2) = (if rf_reconciling (wa_refresh s1)
                                 then (raw, s1\<lparr>wa_refresh := reconcile cf w raw (wa_refresh s1)\<rparr>)
                                 else run_startup raw s1)
            in finish_bulk cf w 1 outcome s2)
      else s)"

definition remove_vanished :: "'f config \<Rightarrow> 'f world \<Rightarrow> 'f watch \<Rightarrow> 'f watch" where
  "remove_vanished cf w s =
     (if wa_removed_paths s = [] \<and> wa_removed_prefixes s = []
      then s\<lparr>wa_removal_retry_at := None, wa_removal_fails := 0\<rparr>
      else if (case wa_removal_retry_at s of None \<Rightarrow> True | Some at \<Rightarrow> w_now w 39 0 \<ge> at)
      then (let may_unflip = (removed_paths_may_unflip_header (wa_header_is_cpp s) (wa_removed_paths s)
                              \<or> (wa_header_is_cpp s \<and> wa_removed_prefixes s \<noteq> []));
                outcome = fst (handle_removals (w_removal_lock w) (w_readable w 2) (w_purge w) (w_exists w)
                                 (wa_removed_paths s) (wa_removed_prefixes s) (w_rows w 2));
                s1 = (if outcome = Done \<and> may_unflip
                      then s\<lparr>wa_header_is_cpp := header_dialect_is_cpp (w_readable w 3) (w_rows w 3)\<rparr> else s)
            in apply_removal_outcome outcome (w_now w 40 0) (cf_debounce cf) s1)
      else s)"

definition is_idle :: "nat \<Rightarrow> nat \<Rightarrow> nat \<Rightarrow> bool" where
  "is_idle now last_activity idle_timeout \<longleftrightarrow> idle_timeout \<noteq> 0 \<and> now - last_activity \<ge> idle_timeout"

datatype exit_reason = Exit_Shutdown | Exit_Disabled | Exit_Idle

definition settle_turn :: "'f config \<Rightarrow> 'f world \<Rightarrow> 'f watch \<Rightarrow> exit_reason option \<times> 'f watch" where
  "settle_turn cf w s0 =
     (let s1 = remove_vanished cf w s0;
          (rederive, s2) = drain_pending cf w s1;
          s3 = (if rederive then s2\<lparr>wa_header_is_cpp := header_dialect_is_cpp (w_readable w 4) (w_rows w 4)\<rparr> else s2);
          s4 = revive_due_parked (w_now w 41 0) s3;
          s = s4\<lparr>wa_admission := (wa_admission s4)\<lparr>ad_lost := (ad_lost (wa_admission s4) \<or> w_lost w)\<rparr>\<rparr>
      in if outstanding s then (None, s\<lparr>wa_last_activity := w_now w 42 0\<rparr>)
         else if is_idle (w_now w 43 0) (wa_last_activity s) (cf_idle_timeout cf) then (Some Exit_Idle, s)
         else (None, s))"

definition watch_turn :: "'f config \<Rightarrow> 'f world \<Rightarrow> 'f watch \<Rightarrow> exit_reason option \<times> 'f watch" where
  "watch_turn cf w s0 =
     (case receive cf w (note_loss w (shed_overload s0)) of (received, ended, s1) \<Rightarrow>
        if ended then (None, s1)
        else if w_shutdown w then (Some Exit_Shutdown, drain_pending_force cf w s1)
        else if w_disabled w then (Some Exit_Disabled, s1)
        else (let s2 = scheduled_bulk cf w (reload_filter cf w (report w received s1)) in
              if rf_reconciling (wa_refresh s2) then (None, s2\<lparr>wa_last_activity := w_now w 44 0\<rparr>)
              else settle_turn cf w s2))"

text \<open>The state before the first turn: a bulk pass is due at once.\<close>

definition watch_start :: "nat \<Rightarrow> bool \<Rightarrow> 'f \<Rightarrow> 'f watch" where
  "watch_start now header_is_cpp f =
     \<lparr>wa_admission = \<lparr>ad_queue = [], ad_lost = False\<rparr>, wa_pending = [], wa_removed_paths = [], wa_removed_prefixes = [],
      wa_batch_times = [], wa_indexing = [], wa_recheck = [], wa_retries = [], wa_parked = [], wa_status = None,
      wa_bulk_retry_at = Some now, wa_startup_failures = Some 0, wa_startup_reconciled = False,
      wa_cooldown_until = None, wa_removal_retry_at = None, wa_removal_fails = 0, wa_last_activity = now,
      wa_header_is_cpp = header_is_cpp, wa_deferred_since = None, wa_refresh = refresh_default, wa_filter = f\<rparr>"

text \<open>The notifier's thread and the loop take turns.\<close>

inductive watch_step :: "'f config \<Rightarrow> (string \<Rightarrow> nat) \<Rightarrow> 'f watch \<Rightarrow> 'f watch \<Rightarrow> bool" for cf capacity where
  notify: "watch_step cf capacity s (s\<lparr>wa_admission := notified (cf_root cf) capacity n (wa_admission s)\<rparr>)"
| turn: "watch_turn cf w s = (None, s') \<Longrightarrow> watch_step cf capacity s s'"

section \<open>Well-formed states\<close>

abbreviation keys :: "('k \<times> 'v) list \<Rightarrow> 'k set" where
  "keys m \<equiv> fst ` set m"

definition event_ok :: "watch_event \<Rightarrow> bool" where
  "event_ok e \<longleftrightarrow> ev_kind e \<noteq> Other_Kind \<and> length (ev_paths e) \<le> EVENT_PATH_LIMIT \<and> path_bytes (ev_paths e) \<le> EVENT_PATH_BYTES"

definition queue_ok :: "admission \<Rightarrow> bool" where
  "queue_ok a \<longleftrightarrow> length (ad_queue a) \<le> EVENT_QUEUE_CAPACITY \<and> list_all event_ok (ad_queue a)"

text \<open>Attempts are counted between one and the limit, and only for paths that wait (or are in the running batch).\<close>

definition retries_ok :: "path set \<Rightarrow> (path \<times> nat) list \<Rightarrow> bool" where
  "retries_ok P m \<longleftrightarrow>
     hm_ok m \<and> keys m \<subseteq> P \<and> (\<forall>(p, n) \<in> set m. 0 < n \<and> n \<le> MAX_WORK_RETRIES)"

definition work_ok :: "path set \<Rightarrow> 'f watch \<Rightarrow> bool" where
  "work_ok todo s \<longleftrightarrow>
     wa_indexing s = [] \<and> wa_recheck s = []
     \<and> hm_ok (wa_pending s) \<and> hm_ok (wa_parked s) \<and> retries_ok (keys (wa_pending s) \<union> todo) (wa_retries s)"

definition watch_ok :: "'f watch \<Rightarrow> bool" where
  "watch_ok s \<longleftrightarrow>
     work_ok {} s \<and> queue_ok (wa_admission s)
     \<and> length (wa_batch_times s) \<le> BATCH_THRESHOLD
     \<and> wa_removal_fails s < MAX_REMOVAL_FAILURES
     \<and> (\<forall>n. wa_startup_failures s = Some n \<longrightarrow> n < 3)"

lemma queue_ok_admit: "queue_ok a \<Longrightarrow> queue_ok (admit capacity n a)"
  by (auto simp: queue_ok_def admit_def event_ok_def split: notification.splits)

lemma queue_ok_notified: "queue_ok a \<Longrightarrow> queue_ok (notified root capacity n a)"
  by (auto simp: notified_def queue_ok_admit Let_def split: notification.splits bool.splits)

lemma retries_okI:
  "hm_ok m \<Longrightarrow> keys m \<subseteq> P \<Longrightarrow> (\<And>p n. (p, n) \<in> set m \<Longrightarrow> 0 < n \<and> n \<le> MAX_WORK_RETRIES) \<Longrightarrow> retries_ok P m"
  by (auto simp: retries_ok_def)

lemma retries_ok_mono: "retries_ok P m \<Longrightarrow> P \<subseteq> Q \<Longrightarrow> retries_ok Q m"
  by (auto simp: retries_ok_def)

lemma retries_ok_Nil [simp]: "retries_ok P []"
  by (simp add: retries_ok_def)

lemma retries_ok_remove: "retries_ok (insert p P) m \<Longrightarrow> retries_ok P (hm_remove p m)"
  by (auto simp: retries_ok_def hm_remove_def hm_ok_filter)

lemma retries_ok_insert:
  "retries_ok (insert p P) m \<Longrightarrow> 0 < n \<Longrightarrow> n \<le> MAX_WORK_RETRIES \<Longrightarrow> retries_ok (insert p P) (hm_insert p n m)"
  by (rule retries_okI) (auto simp: retries_ok_def hm_insert_eq hm_remove_def, simp add: hm_insert_eq [symmetric] hm_remove_def [symmetric])

lemma hm_keys_get: "p \<in> keys m \<longleftrightarrow> hm_get m p \<noteq> None"
  by (auto simp: map_of_eq_None_iff)

lemma retries_ok_get: "retries_ok P m \<Longrightarrow> hm_get m p = Some n \<Longrightarrow> 0 < n \<and> n \<le> MAX_WORK_RETRIES"
  by (auto simp: retries_ok_def dest: hm_get_mem)

text \<open>Requeueing keeps every path it is given, in the queue or among the exhausted ones.\<close>

lemma requeue_keeps:
  assumes "requeue_failed_work debounce now ps (pending, retries) = (abandoned, pending', retries')"
  shows "keys pending \<union> set ps \<subseteq> keys pending' \<union> set abandoned \<and> set abandoned \<subseteq> set ps"
  using assms
proof (induction ps arbitrary: pending retries abandoned)
  case (Cons p ps)
  let ?n = "unwrap_or (hm_get retries p) 0 + 1"
  show ?case
  proof (cases "?n > MAX_WORK_RETRIES")
    case True
    then obtain ab where ab: "requeue_failed_work debounce now ps (hm_remove p pending, hm_remove p retries) = (ab, pending', retries')"
      and "abandoned = p # ab"
      using Cons.prems by (auto simp: Let_def split: prod.splits)
    then show ?thesis using Cons.IH [OF ab] by auto
  next
    case False
    then have r: "requeue_failed_work debounce now ps
        (hm_insert p (now + work_retry_extra_delay ?n debounce) pending, hm_insert p ?n retries) = (abandoned, pending', retries')"
      using Cons.prems by (simp add: Let_def)
    show ?thesis using Cons.IH [OF r] by auto
  qed
qed auto

lemma requeue_ok:
  assumes "requeue_failed_work debounce now ps (pending, retries) = (abandoned, pending', retries')"
    and "hm_ok pending" "retries_ok (keys pending \<union> set ps \<union> T) retries"
  shows "hm_ok pending' \<and> retries_ok (keys pending' \<union> T) retries'"
  using assms
proof (induction ps arbitrary: pending retries abandoned)
  case (Cons p ps)
  let ?n = "unwrap_or (hm_get retries p) 0 + 1"
  show ?case
  proof (cases "?n > MAX_WORK_RETRIES")
    case True
    obtain ab where ab: "requeue_failed_work debounce now ps (hm_remove p pending, hm_remove p retries) = (ab, pending', retries')"
      using Cons.prems(1) True by (auto simp: Let_def split: prod.splits)
    have "retries_ok (insert p (keys (hm_remove p pending) \<union> set ps \<union> T)) retries"
      by (rule retries_ok_mono [OF Cons.prems(3)]) auto
    then show ?thesis using Cons.IH [OF ab] Cons.prems(2) retries_ok_remove by simp
  next
    case False
    let ?pend = "hm_insert p (now + work_retry_extra_delay ?n debounce) pending"
    have "retries_ok (insert p (keys ?pend \<union> set ps \<union> T)) retries"
      by (rule retries_ok_mono [OF Cons.prems(3)]) auto
    then have "retries_ok (insert p (keys ?pend \<union> set ps \<union> T)) (hm_insert p ?n retries)"
      using False by (intro retries_ok_insert) auto
    moreover have "insert p (keys ?pend \<union> set ps \<union> T) = keys ?pend \<union> set ps \<union> T" by auto
    ultimately show ?thesis using Cons.IH [of ?pend "hm_insert p ?n retries" abandoned] Cons.prems(1,2) False
      by (simp add: Let_def)
  qed
qed auto

lemma keys_park [simp]: "keys (park now ps m) = keys m \<union> set ps"
  unfolding park_def by (induction ps arbitrary: m) auto

lemma hm_ok_fold_insert: "hm_ok m \<Longrightarrow> hm_ok (fold (\<lambda>p m. hm_insert p now m) ps m)"
  by (induction ps arbitrary: m) auto

lemma keys_fold_insert [simp]: "keys (fold (\<lambda>p m. hm_insert p now m) ps m) = keys m \<union> set ps"
  by (induction ps arbitrary: m) auto

lemma hm_ok_park [simp]: "hm_ok m \<Longrightarrow> hm_ok (park now ps m)"
  by (simp add: park_def hm_ok_fold_insert)

text \<open>The queue operations change nothing else.\<close>

definition frame :: "'f watch \<Rightarrow> 'f watch" where
  "frame s = s\<lparr>wa_pending := [], wa_retries := [], wa_parked := [], wa_recheck := []\<rparr>"

lemma frame_upd [simp]:
  "frame (s\<lparr>wa_pending := a\<rparr>) = frame s" "frame (s\<lparr>wa_retries := b\<rparr>) = frame s"
  "frame (s\<lparr>wa_parked := c\<rparr>) = frame s" "frame (s\<lparr>wa_recheck := d\<rparr>) = frame s"
  by (simp_all add: frame_def)

lemma frameD:
  assumes "frame s = frame t"
  shows "wa_admission s = wa_admission t" "wa_removed_paths s = wa_removed_paths t"
    "wa_removed_prefixes s = wa_removed_prefixes t" "wa_batch_times s = wa_batch_times t" "wa_indexing s = wa_indexing t"
    "wa_startup_failures s = wa_startup_failures t" "wa_removal_fails s = wa_removal_fails t"
    "wa_refresh s = wa_refresh t" "wa_filter s = wa_filter t" "wa_bulk_retry_at s = wa_bulk_retry_at t"
  using arg_cong [OF assms, of wa_admission] arg_cong [OF assms, of wa_removed_paths]
    arg_cong [OF assms, of wa_removed_prefixes] arg_cong [OF assms, of wa_batch_times]
    arg_cong [OF assms, of wa_indexing] arg_cong [OF assms, of wa_startup_failures]
    arg_cong [OF assms, of wa_removal_fails] arg_cong [OF assms, of wa_refresh]
    arg_cong [OF assms, of wa_filter] arg_cong [OF assms, of wa_bulk_retry_at]
  by (simp_all add: frame_def)

lemma frame_fail_work [simp]: "frame (fail_work d now ps s) = frame s"
  by (simp add: fail_work_def split: prod.splits)

lemma frame_settle_work [simp]: "frame (settle_work p s) = frame s"
  by (simp add: settle_work_def)

lemma frame_semantic_each: "semantic_each out now ps s = (failed, s') \<Longrightarrow> frame s' = frame s"
  by (induction out now ps s arbitrary: failed rule: semantic_each.induct)
    (auto split: sum.splits if_splits work_outcome.splits prod.splits)

lemma frame_apply_semantic [simp]: "frame (apply_semantic_outcome out ps d now s) = frame s"
  using frame_semantic_each [of out now ps s] by (auto simp: apply_semantic_outcome_def split: prod.splits)

lemma frame_process_one: "frame (fst (process_one cf w hdr i p acc)) = frame (fst acc)"
  by (cases acc)
    (auto simp: process_one_def after_reindex_def Let_def split: prod.splits work_outcome.splits option.splits)

lemma frame_process_each: "frame (fst (process_each cf w hdr i ps acc)) = frame (fst acc)"
  by (induction cf w hdr i ps acc rule: process_each.induct) (auto simp: frame_process_one)

lemma frame_process_ready [simp]: "frame (snd (process_ready cf w hdr ps s)) = frame s"
  using frame_process_each [of cf w hdr 0 ps "(s, [], False)"] by (auto simp: process_ready_def split: prod.splits)

lemma frame_revive [simp]: "frame (revive_due_parked now s) = frame s"
  by (simp add: revive_due_parked_def Let_def)

section \<open>The queues stay well formed\<close>

lemma work_okD:
  assumes "work_ok T s"
  shows "wa_indexing s = []" "wa_recheck s = []" "hm_ok (wa_pending s)" "hm_ok (wa_parked s)"
    "retries_ok (keys (wa_pending s) \<union> T) (wa_retries s)"
  using assms by (simp_all add: work_ok_def)

lemma enqueue_ok:
  assumes "work_ok (insert p T) s"
  shows "work_ok T (s\<lparr>wa_pending := hm_insert p t (wa_pending s)\<rparr>)"
  using work_okD [OF assms] by (auto simp: work_ok_def intro: retries_ok_mono)

lemma dequeue_ok:
  assumes "work_ok T s"
  shows "work_ok (insert p T) (s\<lparr>wa_pending := hm_remove p (wa_pending s)\<rparr>)"
  using work_okD [OF assms] by (auto simp: work_ok_def intro: retries_ok_mono)

lemma settle_work_ok:
  assumes "work_ok (insert p T) s"
  shows "work_ok T (settle_work p s)"
  using work_okD [OF assms] by (auto simp: work_ok_def settle_work_def intro!: retries_ok_remove)

lemma work_ok_mono: "work_ok T s \<Longrightarrow> T \<subseteq> U \<Longrightarrow> work_ok U s"
  by (auto simp: work_ok_def intro: retries_ok_mono)

lemma fail_work_ok:
  assumes "work_ok (set ps \<union> T) s"
  shows "work_ok T (fail_work d now ps s)"
proof -
  obtain ab pend ret where r: "requeue_failed_work d now ps (wa_pending s, wa_retries s) = (ab, pend, ret)"
    by (cases "requeue_failed_work d now ps (wa_pending s, wa_retries s)") auto
  have "hm_ok pend \<and> retries_ok (keys pend \<union> T) ret"
    using requeue_ok [OF r] work_okD [OF assms] by (simp add: Un_assoc)
  then show ?thesis using work_okD [OF assms] r by (simp add: work_ok_def fail_work_def)
qed

lemma semantic_each_ok:
  "semantic_each out now ps s = (failed, s') \<Longrightarrow> work_ok (set ps \<union> T) s \<Longrightarrow> work_ok (set failed \<union> T) s'"
proof (induction ps arbitrary: s failed T)
  case (Cons p ps)
  have ok: "work_ok (insert p (set ps \<union> T)) s" using Cons.prems(2) by simp
  have "work_ok (set ps \<union> insert p T) s" using Cons.prems(2) by simp
  then have keep: "work_ok (set (p # f) \<union> T) s'" if "semantic_each out now ps s = (f, s')" for f
    using Cons.IH [OF that, of "insert p T"] by simp
  consider "out = Inl Skipped" | fp where "out = Inr fp" "p \<notin> set fp"
    | f where "semantic_each out now ps s = (f, s')" "failed = p # f"
    using Cons.prems(1) by (auto split: sum.splits work_outcome.splits prod.splits if_splits)
  then show ?case
  proof cases
    case 1
    then show ?thesis using Cons.IH [OF _ enqueue_ok [OF ok]] Cons.prems(1) by simp
  next
    case 2
    then show ?thesis using Cons.IH [OF _ settle_work_ok [OF ok]] Cons.prems(1) by simp
  next
    case 3
    then show ?thesis using keep by simp
  qed
qed simp

lemma apply_semantic_outcome_ok:
  assumes "work_ok (set ps) s"
  shows "work_ok {} (apply_semantic_outcome out ps d now s)"
proof -
  obtain failed s' where e: "semantic_each out now ps s = (failed, s')" by (cases "semantic_each out now ps s")
  have "work_ok (set failed \<union> {}) s'" by (rule semantic_each_ok [OF e]) (use assms in simp)
  then show ?thesis using e fail_work_ok [of failed "{}" s'] by (simp add: apply_semantic_outcome_def)
qed

lemma process_one_ok:
  assumes "work_ok (set (fst (snd acc))) (fst acc)"
  shows "work_ok (set (fst (snd (process_one cf w hdr i p acc)))) (fst (process_one cf w hdr i p acc))"
proof -
  obtain s0 todo r where acc: "acc = (s0, todo, r)" by (cases acc) auto
  let ?s = "s0\<lparr>wa_pending := hm_remove p (wa_pending s0)\<rparr>"
  have ok: "work_ok (insert p (set todo)) ?s" using dequeue_ok assms acc by simp
  note d = work_okD [OF ok]
  have st: "work_ok (set todo) (settle_work p ?s)" by (rule settle_work_ok [OF ok])
  have stale: "work_ok (set (todo @ [p])) ?s" using ok by simp
  have rc: "p \<notin> set (wa_recheck ?s)" "p \<notin> set (wa_recheck (settle_work p ?s))"
    using d(2) by (simp_all add: settle_work_def)
  have fl: "work_ok (set todo) (fail_work (cf_debounce cf) (w_now w 20 i) [p] ?s)"
    by (rule fail_work_ok) (use ok in simp)
  have en: "work_ok (set todo) (?s\<lparr>wa_pending := hm_insert p (w_now w 22 i) (wa_pending ?s)\<rparr>)"
    by (rule enqueue_ok [OF ok])
  obtain out stl where re: "fst (reindex_one (w_reindex w p) p (cf_semantic cf) hdr (w_rows w 0)) = (out, stl)"
    by (cases "fst (reindex_one (w_reindex w p) p (cf_semantic cf) hdr (w_rows w 0))")
  have idx: "p \<notin> set (wa_indexing ?s)" using d(1) by simp
  have ar: "after_reindex w i p hdr stl (?s, todo, r) =
      (if stl = None then settle_work p ?s else ?s, if stl = None then todo else todo @ [p],
       r \<or> (hdr \<and> is_cpp_evidence p \<and> \<not> w_has_content w p))"
    using rc by (cases stl) (simp_all add: after_reindex_def)
  show ?thesis
    using st stale fl en idx ar re unfolding acc process_one_def
    by (cases out) (simp_all add: Let_def)
qed

lemma process_each_ok:
  "work_ok (set (fst (snd acc))) (fst acc) \<Longrightarrow>
    work_ok (set (fst (snd (process_each cf w hdr i ps acc)))) (fst (process_each cf w hdr i ps acc))"
proof (induction ps arbitrary: i acc)
  case (Cons p ps)
  show ?case using Cons.IH [OF process_one_ok [OF Cons.prems]] by simp
qed simp

lemma process_ready_ok:
  assumes "work_ok {} s"
  shows "work_ok {} (snd (process_ready cf w hdr ps s))"
  using process_each_ok [of "(s, [], False)" cf w hdr 0 ps] assms
  by (auto simp: process_ready_def split: prod.splits intro: apply_semantic_outcome_ok)

lemma retries_ok_fold_remove: "retries_ok P m \<Longrightarrow> retries_ok P (fold hm_remove ps m)"
  by (induction ps arbitrary: m) (auto intro!: retries_ok_remove intro: retries_ok_mono)

lemma revive_ok:
  assumes "work_ok {} s"
  shows "work_ok {} (revive_due_parked now s)"
  using work_okD [OF assms]
  by (auto simp: work_ok_def revive_due_parked_def Let_def hm_ok_filter hm_ok_fold_insert
      intro!: retries_ok_fold_remove intro: retries_ok_mono)

lemma drain_cases:
  obtains "drain_pending cf w s = (False, s)"
  | since ready t where "drain_pending cf w s =
      (False, s\<lparr>wa_deferred_since := since, wa_pending := fold (\<lambda>p m. hm_insert p t m) ready (wa_pending s)\<rparr>)"
  | since ready where "drain_pending cf w s = process_ready cf w (wa_header_is_cpp s) ready (s\<lparr>wa_deferred_since := since\<rparr>)"
proof -
  let ?ready = "compute_ready (w_now w 24 0) (cf_debounce cf) (wa_pending s)"
  obtain dfr since where d: "(if cf_backpressure cf then should_defer (w_load w 1) (w_now w 25 0) (wa_deferred_since s)
      else (False, wa_deferred_since s)) = (dfr, since)"
    by (meson surj_pair)
  show ?thesis
    by (cases "?ready = []"; cases dfr) (use that d in \<open>simp_all add: drain_pending_def Let_def\<close>)
qed

lemma drain_pending_ok:
  assumes "work_ok {} s"
  shows "work_ok {} (snd (drain_pending cf w s))"
proof (rule drain_cases [of cf w s])
  fix since ready t
  assume "drain_pending cf w s =
    (False, s\<lparr>wa_deferred_since := since, wa_pending := fold (\<lambda>p m. hm_insert p t m) ready (wa_pending s)\<rparr>)"
  then show ?thesis using work_okD [OF assms] by (auto simp: work_ok_def hm_ok_fold_insert intro: retries_ok_mono)
next
  fix since ready
  assume d: "drain_pending cf w s = process_ready cf w (wa_header_is_cpp s) ready (s\<lparr>wa_deferred_since := since\<rparr>)"
  have "work_ok {} (s\<lparr>wa_deferred_since := since\<rparr>)" using assms by (simp add: work_ok_def)
  then show ?thesis unfolding d by (rule process_ready_ok)
qed (use assms in simp)

section \<open>A turn keeps the state well formed\<close>

lemma watch_okI:
  "work_ok {} s \<Longrightarrow> queue_ok (wa_admission s) \<Longrightarrow> length (wa_batch_times s) \<le> BATCH_THRESHOLD \<Longrightarrow>
    wa_removal_fails s < MAX_REMOVAL_FAILURES \<Longrightarrow> (\<And>n. wa_startup_failures s = Some n \<Longrightarrow> n < 3) \<Longrightarrow> watch_ok s"
  by (auto simp: watch_ok_def)

lemma watch_okD:
  assumes "watch_ok s"
  shows "work_ok {} s" "queue_ok (wa_admission s)" "length (wa_batch_times s) \<le> BATCH_THRESHOLD"
    "wa_removal_fails s < MAX_REMOVAL_FAILURES" "wa_startup_failures s = Some n \<Longrightarrow> n < 3"
  using assms by (auto simp: watch_ok_def)

lemma watch_ok_frame: "watch_ok s \<Longrightarrow> work_ok {} t \<Longrightarrow> frame t = frame s \<Longrightarrow> watch_ok t"
  by (rule watch_okI) (auto simp: frameD [of t s] dest: watch_okD)

lemma queue_ok_lost [simp]: "queue_ok (a\<lparr>ad_lost := b\<rparr>) = queue_ok a"
  by (simp add: queue_ok_def)

lemma shed_ok: "watch_ok s \<Longrightarrow> watch_ok (shed_overload s)"
  by (auto simp: shed_overload_def watch_ok_def work_ok_def)

lemma note_loss_ok: "watch_ok s \<Longrightarrow> watch_ok (note_loss w s)"
  by (auto simp: note_loss_def watch_ok_def work_ok_def Let_def)

lemma push_batch_time_len: "length ts \<le> BATCH_THRESHOLD \<Longrightarrow> length (push_batch_time t ts) \<le> BATCH_THRESHOLD"
  by (auto simp: push_batch_time_def)

lemma work_ok_insert:
  assumes "work_ok {} s"
  shows "hm_ok (hm_insert p t (wa_pending s))" "retries_ok (insert p (keys (wa_pending s))) (wa_retries s)"
  using work_okD [OF assms] by (auto intro: retries_ok_mono)

lemma adopt_file_ok: "watch_ok s \<Longrightarrow> watch_ok (adopt_file now rel s)"
  by (auto simp: adopt_file_def Let_def watch_ok_def work_ok_def push_batch_time_len intro: retries_ok_mono)

lemma fold_adopt_file_ok: "watch_ok s \<Longrightarrow> watch_ok (fold (adopt_file now) files s)"
  by (induction files arbitrary: s) (auto intro: adopt_file_ok)

lemma keys_restamp [simp]: "fst ` (\<lambda>(p, _). (p, t)) ` A = fst ` A"
  by force

lemma hm_ok_restamp: "hm_ok m \<Longrightarrow> hm_ok (map (\<lambda>(p, _). (p, t)) m)"
  by (simp add: hm_ok_def comp_def case_prod_beta)

lemma skip_bulk_ok: "watch_ok s \<Longrightarrow> watch_ok (apply_bulk_outcome Skipped now d cd s)"
  by (auto simp: apply_bulk_outcome_def Let_def watch_ok_def work_ok_def hm_ok_restamp)

lemma handle_event_path_ok: "watch_ok s \<Longrightarrow> watch_ok (handle_event_path cf w kind i p s)"
proof -
  assume ok: "watch_ok s"
  have a: "watch_ok (s\<lparr>wa_refresh := r, wa_bulk_retry_at := b\<rparr>)" for r b
    using ok by (simp add: watch_ok_def work_ok_def)
  have d: "watch_ok (adopt_dir cf w i rel s)" for rel
    using a ok by (auto simp: adopt_dir_def Let_def schedule_watch_error_catchup_def
        intro!: fold_adopt_file_ok skip_bulk_ok split: dir_scan.splits)
  have v: "watch_ok (note_vanished cf w i kind rel s)" for rel
    using ok by (auto simp: note_vanished_def watch_ok_def work_ok_def)
  have n: "watch_ok (note_source cf w i kind rel t)" if "watch_ok t" for rel t
    using that work_ok_insert [OF watch_okD(1) [OF that]]
    by (auto simp: note_source_def Let_def watch_ok_def work_ok_def push_batch_time_len)
  show ?thesis using ok a d v n by (auto simp: handle_event_path_def Let_def split: option.splits)
qed

lemma handle_event_paths_ok: "watch_ok s \<Longrightarrow> watch_ok (handle_event_paths cf w kind i ps s)"
  by (induction ps arbitrary: i s) (auto intro: handle_event_path_ok)

lemma run_bulk_guarded_ok:
  assumes "watch_ok s" "run_bulk_guarded cf w s = (raw, s1)"
  shows "watch_ok s1" "raw = Done \<Longrightarrow> wa_retries s1 = [] \<and> run_bulk_incremental (w_bulk w) = Done"
  using assms by (auto simp: run_bulk_guarded_def Let_def watch_ok_def work_ok_def split: if_splits prod.splits)

lemma finish_bulk_ok:
  assumes "watch_ok s" "outcome = Done \<Longrightarrow> wa_retries s = []"
  shows "watch_ok (finish_bulk cf w k outcome s)"
  using assms
  by (cases outcome)
    (auto simp: finish_bulk_def apply_bulk_outcome_def Let_def watch_ok_def work_ok_def hm_ok_restamp)

lemma run_startup_ok:
  assumes "watch_ok s" "run_startup raw s = (outcome, s1)"
  shows "watch_ok s1" "outcome = Done \<Longrightarrow> raw = Done" "wa_retries s1 = wa_retries s"
  using assms by (auto simp: run_startup_def startup_outcome_def watch_ok_def work_ok_def
      split: option.splits work_outcome.splits if_splits)

lemma handle_burst_ok:
  assumes ok: "watch_ok s"
  shows "watch_ok (handle_burst cf w s)"
proof -
  let ?s = "s\<lparr>wa_batch_times := []\<rparr>"
  have s: "watch_ok ?s" using ok by (simp add: watch_ok_def work_ok_def)
  obtain raw s1 where b: "run_bulk_guarded cf w ?s = (raw, s1)" by (cases "run_bulk_guarded cf w ?s")
  obtain out s2 where u: "run_startup raw s1 = (out, s2)" by (cases "run_startup raw s1")
  have "watch_ok (finish_bulk cf w 0 out s2)"
    using run_bulk_guarded_ok [OF s b] run_startup_ok [OF _ u] by (intro finish_bulk_ok) auto
  then show ?thesis using s skip_bulk_ok [OF s] b u by (simp add: handle_burst_def Let_def)
qed

lemma receive_ok:
  assumes ok: "watch_ok s" and r: "receive cf w s = (received, ended, s1)"
  shows "watch_ok s1"
proof (cases "ad_queue (wa_admission s)")
  case Nil
  then show ?thesis using r ok by (simp add: receive_def)
next
  case (Cons e rest)
  let ?s1 = "s\<lparr>wa_admission := (wa_admission s)\<lparr>ad_queue := rest\<rparr>,
      wa_status := publish_status (w_status_written w 0)
        (length (wa_parked s), True, refresh_parked (wa_refresh s), wa_startup_reconciled s) (wa_status s)\<rparr>"
  let ?s2 = "handle_event_paths cf w (ev_kind e) 0 (ev_paths e) ?s1"
  let ?s3 = "?s2\<lparr>wa_batch_times := filter (\<lambda>t. w_now w 33 0 - t < BATCH_WINDOW) (wa_batch_times ?s2)\<rparr>"
  have "watch_ok ?s1" using ok Cons by (simp add: watch_ok_def work_ok_def queue_ok_def)
  then have "watch_ok ?s2" by (rule handle_event_paths_ok)
  then have "watch_ok ?s3" by (auto simp: watch_ok_def work_ok_def intro: order_trans [OF length_filter_le])
  then show ?thesis using r Cons handle_burst_ok [of ?s3]
    by (auto simp: receive_def Let_def split: if_splits)
qed

lemma scheduled_bulk_ok:
  assumes ok: "watch_ok s"
  shows "watch_ok (scheduled_bulk cf w s)"
proof (cases "bulk_due w s")
  case True
  obtain raw s1 where b: "run_bulk_guarded cf w s = (raw, s1)" by (cases "run_bulk_guarded cf w s")
  note g = run_bulk_guarded_ok [OF ok b]
  show ?thesis
  proof (cases "rf_reconciling (wa_refresh s1)")
    case rec: True
    have "watch_ok (finish_bulk cf w 1 raw (s1\<lparr>wa_refresh := reconcile cf w raw (wa_refresh s1)\<rparr>))"
      by (rule finish_bulk_ok) (use g in \<open>auto simp: watch_ok_def work_ok_def\<close>)
    then show ?thesis using True b rec by (simp add: scheduled_bulk_def)
  next
    case False
    obtain out s2 where u: "run_startup raw s1 = (out, s2)" by (cases "run_startup raw s1")
    have "watch_ok (finish_bulk cf w 1 out s2)"
      using g run_startup_ok [OF _ u] by (intro finish_bulk_ok) auto
    then show ?thesis using True b u False by (simp add: scheduled_bulk_def)
  qed
qed (use ok in \<open>simp add: scheduled_bulk_def\<close>)

lemma remove_vanished_ok: "watch_ok s \<Longrightarrow> watch_ok (remove_vanished cf w s)"
  by (auto simp: remove_vanished_def apply_removal_outcome_def Let_def watch_ok_def work_ok_def MAX_REMOVAL_FAILURES_def
      split: work_outcome.splits)

lemma drain_frame: "\<exists>since. frame (snd (drain_pending cf w s)) = frame (s\<lparr>wa_deferred_since := since\<rparr>)"
proof (rule drain_cases [of cf w s])
  assume "drain_pending cf w s = (False, s)"
  moreover have "s = s\<lparr>wa_deferred_since := wa_deferred_since s\<rparr>" by simp
  ultimately show ?thesis by (metis snd_conv)
qed auto

lemma drain_pending_watch_ok:
  assumes ok: "watch_ok s"
  shows "watch_ok (snd (drain_pending cf w s))"
proof -
  obtain since where fr: "frame (snd (drain_pending cf w s)) = frame (s\<lparr>wa_deferred_since := since\<rparr>)"
    using drain_frame by blast
  have "watch_ok (s\<lparr>wa_deferred_since := since\<rparr>)" using ok by (simp add: watch_ok_def work_ok_def)
  then show ?thesis using watch_ok_frame [OF _ drain_pending_ok fr] watch_okD(1) [OF ok] by blast
qed

lemma settle_turn_ok:
  assumes ok: "watch_ok s" and t: "settle_turn cf w s = (x, s')"
  shows "watch_ok s'"
proof -
  let ?s1 = "remove_vanished cf w s"
  obtain red s2 where d: "drain_pending cf w ?s1 = (red, s2)" by (cases "drain_pending cf w ?s1")
  have "watch_ok s2" using drain_pending_watch_ok [OF remove_vanished_ok [OF ok], of cf w cf w] d by simp
  then have s3: "watch_ok (if red then s2\<lparr>wa_header_is_cpp := h\<rparr> else s2)" for h by (simp add: watch_ok_def work_ok_def)
  let ?s3 = "if red then s2\<lparr>wa_header_is_cpp := header_dialect_is_cpp (w_readable w 4) (w_rows w 4)\<rparr> else s2"
  have s4: "watch_ok (revive_due_parked (w_now w 41 0) ?s3)"
    by (rule watch_ok_frame [OF s3 revive_ok [OF watch_okD(1) [OF s3]] frame_revive])
  have upd: "watch_ok (t\<lparr>wa_admission := (wa_admission t)\<lparr>ad_lost := b\<rparr>\<rparr>)"
    "watch_ok (t\<lparr>wa_admission := (wa_admission t)\<lparr>ad_lost := b\<rparr>, wa_last_activity := l\<rparr>)" if "watch_ok t" for t :: "'a watch" and b l
    using that by (simp_all add: watch_ok_def work_ok_def)
  show ?thesis using t d upd [OF s4] unfolding settle_turn_def Let_def by (auto split: if_splits)
qed

lemma drain_force_ok: "watch_ok s \<Longrightarrow> watch_ok (drain_pending_force cf w s)"
  unfolding drain_pending_force_def
  by (rule watch_ok_frame [OF _ process_ready_ok [OF watch_okD(1)] frame_process_ready])

lemma watch_turn_ok:
  assumes ok: "watch_ok s" and t: "watch_turn cf w s = (x, s')"
  shows "watch_ok s'"
proof -
  obtain rc en s1 where r: "receive cf w (note_loss w (shed_overload s)) = (rc, en, s1)"
    by (cases "receive cf w (note_loss w (shed_overload s))") auto
  have s1: "watch_ok s1" by (rule receive_ok [OF note_loss_ok [OF shed_ok [OF ok]] r])
  have "watch_ok (reload_filter cf w (report w rc s1))"
    using s1 by (auto simp: reload_filter_def report_def watch_ok_def work_ok_def split: option.splits)
  then have s2: "watch_ok (scheduled_bulk cf w (reload_filter cf w (report w rc s1)))" by (rule scheduled_bulk_ok)
  have act: "watch_ok (u\<lparr>wa_last_activity := l\<rparr>)" if "watch_ok u" for u :: "'a watch" and l
    using that by (simp add: watch_ok_def work_ok_def)
  show ?thesis
    using t r s1 act [OF s2] drain_force_ok [OF s1, of cf w] settle_turn_ok [OF s2]
    unfolding watch_turn_def Let_def by (auto split: if_splits)
qed

lemma watch_start_ok: "watch_ok (watch_start now h f)"
  by (simp add: watch_start_def watch_ok_def work_ok_def queue_ok_def MAX_REMOVAL_FAILURES_def)

section \<open>No work is dropped\<close>

definition tracked :: "'f watch \<Rightarrow> path \<Rightarrow> bool" where
  "tracked s p \<longleftrightarrow> p \<in> keys (wa_pending s) \<or> p \<in> keys (wa_parked s)"

text \<open>The file is queued, or a full reconciliation is owed, or one ran in this turn.\<close>

definition safe :: "'f world \<Rightarrow> 'f watch \<Rightarrow> path \<Rightarrow> bool" where
  "safe w s p \<longleftrightarrow> tracked s p \<or> refresh_pending (wa_refresh s) \<or> run_bulk_incremental (w_bulk w) = Done"

definition reindexed :: "'f config \<Rightarrow> 'f world \<Rightarrow> path \<Rightarrow> bool" where
  "reindexed cf w p \<longleftrightarrow>
     (\<exists>hdr stale. fst (reindex_one (w_reindex w p) p (cf_semantic cf) hdr (w_rows w 0)) = (Done, stale)
        \<and> (stale = None \<or> (\<exists>failed. semantic_reindex_batch (w_batch w) = Inr failed \<and> p \<notin> set failed)))"

lemma safe_top:
  assumes "tracked s p"
  shows "safe w (note_loss w (shed_overload s)) p"
  using assms by (auto simp: safe_def tracked_def note_loss_def shed_overload_def Let_def refresh_pending_def refresh_request_def)

lemma refresh_request_pending [simp]: "refresh_pending (refresh_request now r)"
  by (simp add: refresh_request_def refresh_pending_def Let_def)

lemma skip_tracked [simp]: "tracked (apply_bulk_outcome Skipped now d cd s) p = tracked s p"
  by (simp add: apply_bulk_outcome_def Let_def tracked_def)

lemma skip_refresh [simp]: "wa_refresh (apply_bulk_outcome out now d cd s) = wa_refresh s"
  by (simp add: apply_bulk_outcome_def Let_def split: work_outcome.splits)

lemma adopt_files_tracked: "tracked s p \<Longrightarrow> tracked (fold (adopt_file now) files s) p"
proof (induction files arbitrary: s)
  case (Cons f files)
  have "tracked (adopt_file now f s) p" using Cons.prems by (auto simp: adopt_file_def Let_def tracked_def)
  then show ?case using Cons.IH by simp
qed simp

lemma adopt_files_refresh: "wa_refresh (fold (adopt_file now) files s) = wa_refresh s"
  by (induction files arbitrary: s) (auto simp: adopt_file_def Let_def)

lemma adopt_dir_safe: "safe w s p \<Longrightarrow> safe w (adopt_dir cf w i rel s) p"
  by (auto simp: adopt_dir_def Let_def safe_def adopt_files_refresh schedule_watch_error_catchup_def
      intro: adopt_files_tracked split: dir_scan.splits)

lemma note_vanished_safe: "safe w s p \<Longrightarrow> safe w (note_vanished cf w i kind rel s) p"
  by (simp add: note_vanished_def safe_def tracked_def)

lemma note_source_safe: "safe w s p \<Longrightarrow> safe w (note_source cf w i kind rel s) p"
  by (auto simp: note_source_def Let_def safe_def tracked_def)

lemma handle_event_path_safe:
  assumes "safe w s p"
  shows "safe w (handle_event_path cf w kind i q s) p"
proof (cases "strip_root (cf_root cf) q")
  case (Some rel)
  have "safe w (s\<lparr>wa_refresh := refresh_request t r, wa_bulk_retry_at := b\<rparr>) p" for t r b by (simp add: safe_def)
  then show ?thesis
    using Some adopt_dir_safe [OF assms] note_vanished_safe [OF assms] note_source_safe [OF note_vanished_safe [OF assms]]
    by (simp add: handle_event_path_def Let_def)
qed (use assms in \<open>simp add: handle_event_path_def\<close>)

lemma handle_event_paths_safe: "safe w s p \<Longrightarrow> safe w (handle_event_paths cf w kind i qs s) p"
  by (induction qs arbitrary: i s) (auto intro: handle_event_path_safe)

lemma run_bulk_guarded_safe:
  assumes "safe w s p" "run_bulk_guarded cf w s = (raw, s1)"
  shows "safe w s1 p" "wa_refresh s1 = wa_refresh s"
  using assms by (auto simp: run_bulk_guarded_def Let_def safe_def tracked_def split: if_splits prod.splits)

lemma finish_bulk_safe:
  assumes "safe w s p" "outcome = Done \<Longrightarrow> run_bulk_incremental (w_bulk w) = Done"
  shows "safe w (finish_bulk cf w k outcome s) p"
  using assms by (cases outcome) (auto simp: finish_bulk_def apply_bulk_outcome_def Let_def safe_def tracked_def)

lemma bulk_startup_safe:
  assumes "safe w s p" "run_bulk_guarded cf w s = (raw, s1)" "run_startup raw s1 = (out, s2)"
  shows "safe w (finish_bulk cf w k out s2) p"
proof (rule finish_bulk_safe)
  have "safe w s1 p" by (rule run_bulk_guarded_safe [OF assms(1,2)])
  then show "safe w s2 p" using assms(3) by (auto simp: run_startup_def safe_def tracked_def split: prod.splits)
  show "run_bulk_incremental (w_bulk w) = Done" if "out = Done"
    using that assms(2,3)
    by (auto simp: run_startup_def startup_outcome_def run_bulk_guarded_def Let_def
        split: option.splits work_outcome.splits if_splits prod.splits)
qed

lemma handle_burst_safe:
  assumes "safe w s p"
  shows "safe w (handle_burst cf w s) p"
proof -
  let ?s = "s\<lparr>wa_batch_times := []\<rparr>"
  have s: "safe w ?s p" using assms by (simp add: safe_def tracked_def)
  obtain raw s1 where b: "run_bulk_guarded cf w ?s = (raw, s1)" by (cases "run_bulk_guarded cf w ?s")
  obtain out s2 where u: "run_startup raw s1 = (out, s2)" by (cases "run_startup raw s1")
  show ?thesis using s bulk_startup_safe [OF s b u, of 0] b u by (simp add: handle_burst_def Let_def safe_def)
qed

text \<open>The event at the head of the queue reports that the source file was written.\<close>

definition saved :: "'f config \<Rightarrow> 'f world \<Rightarrow> 'f watch \<Rightarrow> path \<Rightarrow> bool" where
  "saved cf w s p \<longleftrightarrow>
     (\<exists>e rest q. ad_queue (wa_admission s) = e # rest \<and> q \<in> set (ev_paths e) \<and> strip_root (cf_root cf) q = Some p
        \<and> ev_kind e \<in> {Create, Modify_Name, Modify_Other}
        \<and> is_source_file p \<and> \<not> w_is_dir w p \<and> \<not> cf_ignored cf (wa_filter s) p False)"

lemma source_not_gitignore:
  assumes "strip_root root q = Some p" "is_source_file p"
  shows "file_name q \<noteq> Some ''.gitignore''"
proof -
  obtain name ext where n: "file_name p = Some name" "extension p = Some ext"
    using assms(2) by (auto simp: is_source_file_def detect_language_def detect_language_with_dialect_def extension_def
        split: option.splits)
  have "p \<noteq> []" using n by (auto simp: file_name_def components_def)
  then have "q = root @ CHR ''/'' # p" using assms(1) by (auto simp: strip_root_def strip_prefix_Some_iff split: if_splits)
  then have "components q = components root @ components p" by (simp add: components_def split_on_append)
  then have "file_name q = file_name p" using n by (auto simp: file_name_def Let_def split: if_splits)
  moreover have "name \<noteq> ''.gitignore''"
  proof
    assume "name = ''.gitignore''"
    moreover have "rsplit_once CHR ''.'' ''.gitignore'' = Some ([], ''gitignore'')" by code_simp
    ultimately show False using n by (simp add: extension_def)
  qed
  ultimately show ?thesis using n by simp
qed

lemma handle_event_path_saves:
  assumes "strip_root (cf_root cf) q = Some p" "kind \<in> {Create, Modify_Name, Modify_Other}" "is_source_file p"
    "\<not> w_is_dir w p" "\<not> cf_ignored cf (wa_filter s) p False"
  shows "tracked (handle_event_path cf w kind i q s) p"
proof -
  have f: "wa_filter (note_vanished cf w i kind p s) = wa_filter s" by (simp add: note_vanished_def)
  have "tracked (note_source cf w i kind p t) p" for t
    using assms(2) by (auto simp: note_source_def Let_def tracked_def)
  then show ?thesis using assms source_not_gitignore [OF assms(1,3)] f by (simp add: handle_event_path_def Let_def)
qed

lemma adopt_files_filter: "wa_filter (fold (adopt_file now) files s) = wa_filter s"
  by (induction files arbitrary: s) (auto simp: adopt_file_def Let_def)

lemma handle_event_path_filter [simp]: "wa_filter (handle_event_path cf w kind i q s) = wa_filter s"
proof -
  have "wa_filter (adopt_dir cf w i rel s) = wa_filter s" for rel
    by (simp add: adopt_dir_def adopt_files_filter Let_def schedule_watch_error_catchup_def apply_bulk_outcome_def
        split: dir_scan.splits)
  moreover have "wa_filter (note_vanished cf w i kind rel s) = wa_filter s" for rel by (simp add: note_vanished_def)
  moreover have "wa_filter (note_source cf w i kind rel t) = wa_filter t" for rel t by (simp add: note_source_def Let_def)
  ultimately show ?thesis by (simp add: handle_event_path_def Let_def split: option.splits)
qed

lemma handle_event_paths_saves:
  "q \<in> set qs \<Longrightarrow> strip_root (cf_root cf) q = Some p \<Longrightarrow> kind \<in> {Create, Modify_Name, Modify_Other} \<Longrightarrow>
    is_source_file p \<Longrightarrow> \<not> w_is_dir w p \<Longrightarrow> \<not> cf_ignored cf (wa_filter s) p False \<Longrightarrow>
    safe w (handle_event_paths cf w kind i qs s) p"
proof (induction qs arbitrary: i s)
  case (Cons r qs)
  show ?case
  proof (cases "q = r")
    case True
    then have "safe w (handle_event_path cf w kind i r s) p"
      using handle_event_path_saves [of cf q p kind w s i] Cons.prems by (simp add: safe_def)
    then show ?thesis using handle_event_paths_safe by simp
  next
    case False
    then show ?thesis using Cons.IH [of "handle_event_path cf w kind i r s" "i + 1"] Cons.prems by simp
  qed
qed simp

lemma receive_safe:
  assumes "safe w s p \<or> saved cf w s p" "receive cf w s = (received, ended, s1)"
  shows "safe w s1 p"
proof (cases "ad_queue (wa_admission s)")
  case Nil
  then show ?thesis using assms by (auto simp: receive_def saved_def)
next
  case (Cons e rest)
  let ?s1 = "s\<lparr>wa_admission := (wa_admission s)\<lparr>ad_queue := rest\<rparr>,
      wa_status := publish_status (w_status_written w 0)
        (length (wa_parked s), True, refresh_parked (wa_refresh s), wa_startup_reconciled s) (wa_status s)\<rparr>"
  let ?s2 = "handle_event_paths cf w (ev_kind e) 0 (ev_paths e) ?s1"
  let ?s3 = "?s2\<lparr>wa_batch_times := filter (\<lambda>t. w_now w 33 0 - t < BATCH_WINDOW) (wa_batch_times ?s2)\<rparr>"
  have "safe w ?s2 p"
  proof (cases "safe w s p")
    case True
    then have "safe w ?s1 p" by (simp add: safe_def tracked_def)
    then show ?thesis by (rule handle_event_paths_safe)
  next
    case False
    then obtain q where "q \<in> set (ev_paths e)" "strip_root (cf_root cf) q = Some p"
        "ev_kind e \<in> {Create, Modify_Name, Modify_Other}" "is_source_file p" "\<not> w_is_dir w p"
        "\<not> cf_ignored cf (wa_filter ?s1) p False"
      using assms(1) Cons by (auto simp: saved_def)
    then show ?thesis by (rule handle_event_paths_saves)
  qed
  then have "safe w ?s3 p" by (simp add: safe_def tracked_def)
  then show ?thesis using assms(2) Cons handle_burst_safe [of w ?s3 p cf]
    by (auto simp: receive_def Let_def split: if_splits)
qed

lemma reload_filter_safe: "safe w s p \<Longrightarrow> safe w (reload_filter cf w s) p"
  by (auto simp: reload_filter_def safe_def tracked_def refresh_pending_def refresh_failed_def Let_def split: option.splits)

lemma scheduled_bulk_safe:
  assumes "safe w s p"
  shows "safe w (scheduled_bulk cf w s) p"
proof (cases "bulk_due w s")
  case True
  obtain raw s1 where b: "run_bulk_guarded cf w s = (raw, s1)" by (cases "run_bulk_guarded cf w s")
  have raw: "raw = Done \<Longrightarrow> run_bulk_incremental (w_bulk w) = Done"
    using b by (auto simp: run_bulk_guarded_def Let_def split: if_splits prod.splits)
  have s1: "safe w s1 p" by (rule run_bulk_guarded_safe [OF assms b])
  show ?thesis
  proof (cases "rf_reconciling (wa_refresh s1)")
    case rec: True
    have "safe w (s1\<lparr>wa_refresh := reconcile cf w raw (wa_refresh s1)\<rparr>) p"
      using s1 rec raw
      by (cases raw) (auto simp: safe_def tracked_def reconcile_def refresh_pending_def refresh_failed_def Let_def)
    then have "safe w (finish_bulk cf w 1 raw (s1\<lparr>wa_refresh := reconcile cf w raw (wa_refresh s1)\<rparr>)) p"
      using raw by (rule finish_bulk_safe)
    then show ?thesis using True b rec by (simp add: scheduled_bulk_def)
  next
    case False
    obtain out s2 where u: "run_startup raw s1 = (out, s2)" by (cases "run_startup raw s1")
    show ?thesis using bulk_startup_safe [OF assms b u, of 1] True b u False by (simp add: scheduled_bulk_def)
  qed
qed (use assms in \<open>simp add: scheduled_bulk_def\<close>)

lemma remove_vanished_queues:
  "wa_pending (remove_vanished cf w s) = wa_pending s" "wa_parked (remove_vanished cf w s) = wa_parked s"
  "wa_refresh (remove_vanished cf w s) = wa_refresh s" "wa_filter (remove_vanished cf w s) = wa_filter s"
  "wa_admission (remove_vanished cf w s) = wa_admission s"
  by (auto simp: remove_vanished_def apply_removal_outcome_def Let_def split: work_outcome.splits option.splits)

text \<open>Draining: a file stays queued, waits for the batch, or is finished with.\<close>

definition finished :: "'f config \<Rightarrow> 'f world \<Rightarrow> 'f \<Rightarrow> path \<Rightarrow> bool" where
  "finished cf w f p \<longleftrightarrow> cf_ignored cf f p False \<or> reindexed cf w p"

lemma fail_work_tracked: "tracked s p \<or> p \<in> set ps \<Longrightarrow> tracked (fail_work d now ps s) p"
proof -
  assume a: "tracked s p \<or> p \<in> set ps"
  obtain ab pend ret where r: "requeue_failed_work d now ps (wa_pending s, wa_retries s) = (ab, pend, ret)"
    by (cases "requeue_failed_work d now ps (wa_pending s, wa_retries s)") auto
  show ?thesis using requeue_keeps [OF r] a r by (auto simp: fail_work_def tracked_def)
qed

lemma settle_work_tracked: "tracked s p \<Longrightarrow> p \<noteq> q \<Longrightarrow> tracked (settle_work q s) p"
  by (auto simp: settle_work_def tracked_def)

lemma process_one_tracked:
  assumes ok: "work_ok (set todo) s" and c: "tracked s p \<or> p \<in> set todo"
    and r: "process_one cf w hdr i q (s, todo, rd) = (s', todo', rd')"
  shows "tracked s' p \<or> p \<in> set todo' \<or> finished cf w (wa_filter s) p"
proof -
  let ?s = "s\<lparr>wa_pending := hm_remove q (wa_pending s)\<rparr>"
  have ne: "tracked ?s p" if "tracked s p" "p \<noteq> q" using that by (auto simp: tracked_def)
  obtain out stl where re: "fst (reindex_one (w_reindex w q) q (cf_semantic cf) hdr (w_rows w 0)) = (out, stl)"
    by (cases "fst (reindex_one (w_reindex w q) q (cf_semantic cf) hdr (w_rows w 0))")
  have idx: "q \<notin> set (wa_indexing ?s)" "q \<notin> set (wa_recheck ?s)" using work_okD [OF ok] by simp_all
  show ?thesis
  proof (cases "cf_ignored cf (wa_filter s) q False")
    case True
    then have "s' = settle_work q ?s" "todo' = todo" using r by (auto simp: process_one_def Let_def)
    then show ?thesis using c ne settle_work_tracked True by (cases "p = q") (auto simp: finished_def)
  next
    case False
    then have p1: "process_one cf w hdr i q (s, todo, rd) =
        (case (out, stl) of
            (Failed, _) \<Rightarrow> (fail_work (cf_debounce cf) (w_now w 20 i) [q] ?s, todo, rd)
          | (Skipped, _) \<Rightarrow> (?s\<lparr>wa_pending := hm_insert q (w_now w 22 i) (wa_pending ?s)\<rparr>, todo, rd)
          | (Done, stale) \<Rightarrow> after_reindex w i q hdr stale (?s, todo, rd))"
      using idx re by (cases out) (simp_all add: process_one_def Let_def)
    show ?thesis
    proof (cases out)
      case Failed
      then have "s' = fail_work (cf_debounce cf) (w_now w 20 i) [q] ?s" "todo' = todo" using p1 r by auto
      then show ?thesis using c ne fail_work_tracked [of ?s p "[q]"] by (cases "p = q") auto
    next
      case Skipped
      then have "s' = ?s\<lparr>wa_pending := hm_insert q (w_now w 22 i) (wa_pending ?s)\<rparr>" "todo' = todo" using p1 r by auto
      then show ?thesis using c by (auto simp: tracked_def)
    next
      case Done
      show ?thesis
      proof (cases stl)
        case None
        have "q \<notin> set (wa_recheck (settle_work q ?s))" using idx by (simp add: settle_work_def)
        then have "s' = settle_work q ?s" "todo' = todo"
          using Done None p1 r by (auto simp: after_reindex_def Let_def)
        moreover have "finished cf w (wa_filter s) q" using re Done None by (auto simp: finished_def reindexed_def)
        ultimately show ?thesis using c ne settle_work_tracked by (cases "p = q") auto
      next
        case (Some x)
        then have "s' = ?s" "todo' = todo @ [q]" using Done p1 r idx by (auto simp: after_reindex_def Let_def)
        then show ?thesis using c ne by (cases "p = q") auto
      qed
    qed
  qed
qed

lemma process_each_tracked:
  assumes "work_ok (set todo) s" and "tracked s p \<or> p \<in> set todo \<or> finished cf w (wa_filter s) p"
    and "process_each cf w hdr i qs (s, todo, rd) = (s', todo', rd')"
  shows "tracked s' p \<or> p \<in> set todo' \<or> finished cf w (wa_filter s) p"
  using assms
proof (induction qs arbitrary: i s todo rd)
  case (Cons q qs)
  obtain s1 todo1 rd1 where o: "process_one cf w hdr i q (s, todo, rd) = (s1, todo1, rd1)"
    by (cases "process_one cf w hdr i q (s, todo, rd)") auto
  have ok1: "work_ok (set todo1) s1" using process_one_ok [of "(s, todo, rd)" cf w hdr i q] Cons.prems(1) o by simp
  have f1: "wa_filter s1 = wa_filter s"
    using frameD(9) [OF frame_process_one [of cf w hdr i q "(s, todo, rd)"]] o by simp
  have "tracked s1 p \<or> p \<in> set todo1 \<or> finished cf w (wa_filter s1) p"
    using Cons.prems(2) process_one_tracked [OF Cons.prems(1) _ o, of p] f1 by auto
  then show ?case using Cons.IH [OF ok1, of "i + 1" rd1] Cons.prems(3) o f1 by simp
qed simp

lemma semantic_each_tracked:
  "semantic_each out now ps s = (failed, s') \<Longrightarrow> tracked s p \<or> p \<in> set ps \<Longrightarrow>
    tracked s' p \<or> p \<in> set failed \<or> p \<in> set ps \<and> (\<exists>fp. out = Inr fp \<and> p \<notin> set fp)"
proof (induction ps arbitrary: s failed)
  case (Cons q ps)
  consider "out = Inl Skipped" | fp where "out = Inr fp" "q \<notin> set fp"
    | f where "semantic_each out now ps s = (f, s')" "failed = q # f"
    using Cons.prems(1) by (auto split: sum.splits work_outcome.splits prod.splits if_splits)
  then show ?case
  proof cases
    case 1
    let ?s = "s\<lparr>wa_pending := hm_insert q now (wa_pending s)\<rparr>"
    have "semantic_each out now ps ?s = (failed, s')" using Cons.prems(1) 1 by simp
    moreover have "tracked ?s p \<or> p \<in> set ps" using Cons.prems(2) by (auto simp: tracked_def)
    ultimately show ?thesis using Cons.IH by fastforce
  next
    case 2
    then have "semantic_each out now ps (settle_work q s) = (failed, s')" using Cons.prems(1) by simp
    from Cons.IH [OF this] show ?thesis using Cons.prems(2) 2 settle_work_tracked by (cases "p = q") auto
  next
    case 3
    then show ?thesis using Cons.IH [OF 3(1)] Cons.prems(2) by auto
  qed
qed simp

lemma process_one_todo:
  assumes "process_one cf w hdr i q (s, todo, rd) = (s', todo', rd')" "p \<in> set todo'"
  shows "p \<in> set todo \<or> (\<exists>stale. fst (reindex_one (w_reindex w p) p (cf_semantic cf) hdr (w_rows w 0)) = (Done, stale))"
proof -
  obtain out stl where re: "fst (reindex_one (w_reindex w q) q (cf_semantic cf) hdr (w_rows w 0)) = (out, stl)"
    by (cases "fst (reindex_one (w_reindex w q) q (cf_semantic cf) hdr (w_rows w 0))")
  show ?thesis using assms re
    by (cases out) (auto simp: process_one_def after_reindex_def Let_def split: if_splits option.splits)
qed

lemma process_each_todo:
  "process_each cf w hdr i qs (s, todo, rd) = (s', todo', rd') \<Longrightarrow> p \<in> set todo' \<Longrightarrow>
    p \<in> set todo \<or> (\<exists>stale. fst (reindex_one (w_reindex w p) p (cf_semantic cf) hdr (w_rows w 0)) = (Done, stale))"
proof (induction qs arbitrary: i s todo rd)
  case (Cons q qs)
  obtain s1 todo1 rd1 where o: "process_one cf w hdr i q (s, todo, rd) = (s1, todo1, rd1)"
    by (cases "process_one cf w hdr i q (s, todo, rd)") auto
  show ?case using Cons.IH [of "i + 1" s1 todo1 rd1] Cons.prems process_one_todo [OF o] o by auto
qed simp

lemma process_ready_tracked:
  assumes ok: "work_ok {} s" and t: "tracked s p"
  shows "tracked (snd (process_ready cf w hdr ready s)) p \<or> finished cf w (wa_filter s) p"
proof -
  obtain s1 todo rd where e: "process_each cf w hdr 0 ready (s, [], False) = (s1, todo, rd)"
    by (cases "process_each cf w hdr 0 ready (s, [], False)") auto
  have "tracked s1 p \<or> p \<in> set todo \<or> finished cf w (wa_filter s) p"
    by (rule process_each_tracked [OF _ _ e]) (use ok t in auto)
  moreover have "finished cf w (wa_filter s) p \<or> tracked (snd (process_ready cf w hdr ready s)) p"
    if c: "tracked s1 p \<or> p \<in> set todo"
  proof (cases "todo = []")
    case True
    then show ?thesis using c e by (simp add: process_ready_def)
  next
    case False
    let ?out = "semantic_reindex_batch (w_batch w)"
    obtain failed s2 where f: "semantic_each ?out (w_now w 23 0) todo s1 = (failed, s2)"
      by (cases "semantic_each ?out (w_now w 23 0) todo s1")
    have res: "snd (process_ready cf w hdr ready s) = fail_work (cf_debounce cf) (w_now w 23 0) failed s2"
      using e f False by (simp add: process_ready_def apply_semantic_outcome_def)
    from semantic_each_tracked [OF f c] show ?thesis
    proof (elim disjE)
      assume "p \<in> set todo \<and> (\<exists>fp. ?out = Inr fp \<and> p \<notin> set fp)"
      then show ?thesis using process_each_todo [OF e, of p] by (auto simp: finished_def reindexed_def)
    qed (use res fail_work_tracked [of s2 p failed "cf_debounce cf" "w_now w 23 0"] in auto)
  qed
  ultimately show ?thesis by blast
qed

lemma revive_tracked: "tracked s p \<Longrightarrow> tracked (revive_due_parked now s) p"
  by (force simp: revive_due_parked_def Let_def tracked_def)

lemma drain_pending_tracked:
  assumes "work_ok {} s" "tracked s p"
  shows "tracked (snd (drain_pending cf w s)) p \<or> finished cf w (wa_filter s) p"
proof (rule drain_cases [of cf w s])
  fix since ready
  assume d: "drain_pending cf w s = process_ready cf w (wa_header_is_cpp s) ready (s\<lparr>wa_deferred_since := since\<rparr>)"
  have "work_ok {} (s\<lparr>wa_deferred_since := since\<rparr>)" "tracked (s\<lparr>wa_deferred_since := since\<rparr>) p"
    using assms by (simp_all add: work_ok_def tracked_def)
  from process_ready_tracked [OF this] show ?thesis unfolding d by simp
qed (use assms in \<open>auto simp: tracked_def\<close>)

lemma drain_keeps:
  "wa_refresh (snd (drain_pending cf w s)) = wa_refresh s" "wa_filter (snd (drain_pending cf w s)) = wa_filter s"
  "wa_admission (snd (drain_pending cf w s)) = wa_admission s" "wa_startup_failures (snd (drain_pending cf w s)) = wa_startup_failures s"
  "wa_bulk_retry_at (snd (drain_pending cf w s)) = wa_bulk_retry_at s"
  using drain_frame [of cf w s] frameD [of "snd (drain_pending cf w s)"] by fastforce+

lemma settle_turn_tracked:
  assumes ok: "watch_ok s" and "safe w s p" and t: "settle_turn cf w s = (x, s')"
  shows "(safe w s' p \<or> finished cf w (wa_filter s') p) \<and> wa_filter s' = wa_filter s"
proof -
  let ?s1 = "remove_vanished cf w s"
  obtain red s2 where d: "drain_pending cf w ?s1 = (red, s2)" by (cases "drain_pending cf w ?s1")
  let ?s3 = "if red then s2\<lparr>wa_header_is_cpp := header_dialect_is_cpp (w_readable w 4) (w_rows w 4)\<rparr> else s2"
  let ?s4 = "revive_due_parked (w_now w 41 0) ?s3"
  have fs: "wa_refresh ?s4 = wa_refresh s" "wa_filter ?s4 = wa_filter s"
    using frameD(8,9) [OF frame_revive [of "w_now w 41 0" ?s3]] drain_keeps(1,2) [of cf w ?s1] d
    by (simp_all add: remove_vanished_queues)
  have s': "tracked s' p = tracked ?s4 p \<and> wa_refresh s' = wa_refresh ?s4 \<and> wa_filter s' = wa_filter ?s4"
    using t d unfolding settle_turn_def Let_def by (auto simp: tracked_def split: if_splits)
  have "tracked ?s4 p \<or> finished cf w (wa_filter s) p" if tr: "tracked s p"
  proof -
    have "tracked ?s1 p" using tr by (simp add: tracked_def remove_vanished_queues)
    from drain_pending_tracked [OF watch_okD(1) [OF remove_vanished_ok [OF ok]] this, of cf w]
    have "tracked s2 p \<or> finished cf w (wa_filter s) p" using d by (simp add: remove_vanished_queues)
    moreover have "tracked ?s3 p = tracked s2 p" by (simp add: tracked_def)
    ultimately show ?thesis using revive_tracked [of ?s3 p "w_now w 41 0"] by blast
  qed
  then show ?thesis using assms(2) s' fs by (auto simp: safe_def)
qed

lemma watch_turn_tracked:
  assumes ok: "watch_ok s" and tr: "tracked s p \<or> saved cf w (note_loss w (shed_overload s)) p"
    and t: "watch_turn cf w s = (x, s')"
  shows "safe w s' p \<or> finished cf w (wa_filter s') p"
proof -
  obtain rc en s1 where r: "receive cf w (note_loss w (shed_overload s)) = (rc, en, s1)"
    by (cases "receive cf w (note_loss w (shed_overload s))") auto
  have ok1: "watch_ok s1" by (rule receive_ok [OF note_loss_ok [OF shed_ok [OF ok]] r])
  have s1: "safe w s1 p" by (rule receive_safe [OF _ r]) (use tr safe_top in auto)
  let ?s2 = "scheduled_bulk cf w (reload_filter cf w (report w rc s1))"
  have rp: "safe w (report w rc s1) p" using s1 by (simp add: report_def safe_def tracked_def)
  have s2: "safe w ?s2 p" by (intro scheduled_bulk_safe reload_filter_safe rp)
  have "watch_ok (reload_filter cf w (report w rc s1))"
    using ok1 by (auto simp: reload_filter_def report_def watch_ok_def work_ok_def split: option.splits)
  then have ok2: "watch_ok ?s2" by (rule scheduled_bulk_ok)
  have force: "safe w (drain_pending_force cf w s1) p \<or> finished cf w (wa_filter (drain_pending_force cf w s1)) p"
    using process_ready_tracked [OF watch_okD(1) [OF ok1], of p] s1
      frameD(8,9) [OF frame_process_ready [of cf w "wa_header_is_cpp s1" "map fst (wa_pending s1)" s1]]
    by (auto simp: drain_pending_force_def safe_def)
  have act: "safe w (?s2\<lparr>wa_last_activity := l\<rparr>) p" for l using s2 by (simp add: safe_def tracked_def)
  show ?thesis
    using t r s1 force act settle_turn_tracked [OF ok2 s2, of cf x s'] unfolding watch_turn_def Let_def
    by (auto split: if_splits)
qed

section \<open>The startup pass is owed until it ran\<close>

definition startup_owed :: "'f watch \<Rightarrow> bool" where
  "startup_owed s \<longleftrightarrow>
     wa_startup_failures s = None \<or> wa_startup_reconciled s \<or> wa_bulk_retry_at s \<noteq> None \<or> refresh_pending (wa_refresh s)"

lemma adopt_files_owed:
  "startup_owed s \<Longrightarrow> startup_owed (fold (adopt_file now) files s)"
proof (induction files arbitrary: s)
  case (Cons f files)
  have "startup_owed (adopt_file now f s)" using Cons.prems by (auto simp: adopt_file_def Let_def startup_owed_def)
  then show ?case using Cons.IH by simp
qed simp

lemma handle_event_path_owed:
  assumes "startup_owed s"
  shows "startup_owed (handle_event_path cf w kind i q s)"
proof (cases "strip_root (cf_root cf) q")
  case (Some rel)
  have r: "startup_owed (s\<lparr>wa_refresh := r, wa_bulk_retry_at := Some b\<rparr>)" for r b by (simp add: startup_owed_def)
  have d: "startup_owed (adopt_dir cf w i rel s)"
    using r assms by (auto simp: adopt_dir_def Let_def schedule_watch_error_catchup_def apply_bulk_outcome_def
        startup_owed_def [of "_\<lparr>wa_bulk_retry_at := _\<rparr>"] intro!: adopt_files_owed split: dir_scan.splits)
  have v: "startup_owed (note_vanished cf w i kind rel s)"
    using assms by (auto simp: note_vanished_def startup_owed_def delayed_retry_def)
  have n: "startup_owed (note_source cf w i kind rel t)" if "startup_owed t" for t
    using that by (auto simp: note_source_def Let_def startup_owed_def delayed_retry_def)
  show ?thesis using Some r d v n [OF v] by (simp add: handle_event_path_def Let_def)
qed (use assms in \<open>simp add: handle_event_path_def\<close>)

lemma handle_event_paths_owed: "startup_owed s \<Longrightarrow> startup_owed (handle_event_paths cf w kind i qs s)"
  by (induction qs arbitrary: i s) (auto intro: handle_event_path_owed)

lemma bulk_startup_owed:
  assumes "run_startup raw s1 = (out, s2)"
  shows "startup_owed (finish_bulk cf w k out s2)"
proof (cases out)
  case Done then show ?thesis by (simp add: finish_bulk_def apply_bulk_outcome_def startup_owed_def Let_def)
next
  case Skipped then show ?thesis by (simp add: finish_bulk_def apply_bulk_outcome_def startup_owed_def Let_def)
next
  case Failed
  then have "wa_startup_failures s2 = None"
    using assms by (auto simp: run_startup_def startup_outcome_def split: option.splits work_outcome.splits if_splits)
  then show ?thesis using Failed by (simp add: finish_bulk_def apply_bulk_outcome_def startup_owed_def Let_def)
qed

lemma handle_burst_owed: "startup_owed (handle_burst cf w s)"
proof -
  let ?s = "s\<lparr>wa_batch_times := []\<rparr>"
  obtain raw s1 where b: "run_bulk_guarded cf w ?s = (raw, s1)" by (cases "run_bulk_guarded cf w ?s")
  obtain out s2 where u: "run_startup raw s1 = (out, s2)" by (cases "run_startup raw s1")
  have "startup_owed (apply_bulk_outcome Skipped now d cd ?s)" for now d cd
    by (simp add: apply_bulk_outcome_def Let_def startup_owed_def)
  then show ?thesis using bulk_startup_owed [OF u, of cf w 0] b u by (simp add: handle_burst_def Let_def)
qed

lemma receive_owed:
  assumes "startup_owed s" "receive cf w s = (rc, en, s1)"
  shows "startup_owed s1"
proof (cases "ad_queue (wa_admission s)")
  case (Cons e rest)
  let ?s1 = "s\<lparr>wa_admission := (wa_admission s)\<lparr>ad_queue := rest\<rparr>,
      wa_status := publish_status (w_status_written w 0)
        (length (wa_parked s), True, refresh_parked (wa_refresh s), wa_startup_reconciled s) (wa_status s)\<rparr>"
  have "startup_owed ?s1" using assms(1) by (simp add: startup_owed_def)
  then have s2: "startup_owed (handle_event_paths cf w (ev_kind e) 0 (ev_paths e) ?s1)" by (rule handle_event_paths_owed)
  have "startup_owed (t\<lparr>wa_batch_times := b\<rparr>) = startup_owed t" for t :: "'a watch" and b by (simp add: startup_owed_def)
  then show ?thesis using assms(2) Cons s2 handle_burst_owed by (auto simp: receive_def Let_def split: if_splits)
qed (use assms in \<open>simp add: receive_def\<close>)

lemma scheduled_bulk_owed:
  assumes "startup_owed s"
  shows "startup_owed (scheduled_bulk cf w s)"
proof (cases "bulk_due w s")
  case True
  obtain raw s1 where b: "run_bulk_guarded cf w s = (raw, s1)" by (cases "run_bulk_guarded cf w s")
  show ?thesis
  proof (cases "rf_reconciling (wa_refresh s1)")
    case rec: True
    have "startup_owed (finish_bulk cf w 1 raw (s1\<lparr>wa_refresh := reconcile cf w raw (wa_refresh s1)\<rparr>))"
      using rec by (cases raw) (auto simp: finish_bulk_def apply_bulk_outcome_def startup_owed_def Let_def reconcile_def
          refresh_pending_def refresh_failed_def)
    then show ?thesis using True b rec by (simp add: scheduled_bulk_def)
  next
    case False
    obtain out s2 where u: "run_startup raw s1 = (out, s2)" by (cases "run_startup raw s1")
    show ?thesis using bulk_startup_owed [OF u, of cf w 1] True b u False by (simp add: scheduled_bulk_def)
  qed
qed (use assms in \<open>simp add: scheduled_bulk_def\<close>)

lemma frame_owed: "frame t = frame s \<Longrightarrow> startup_owed t = startup_owed s"
proof -
  assume f: "frame t = frame s"
  have "wa_startup_reconciled t = wa_startup_reconciled s" using arg_cong [OF f, of wa_startup_reconciled] by (simp add: frame_def)
  then show ?thesis using frameD [OF f] by (simp add: startup_owed_def)
qed

lemma settle_turn_owed:
  assumes "startup_owed s" "settle_turn cf w s = (x, s')"
  shows "startup_owed s'"
proof -
  let ?s1 = "remove_vanished cf w s"
  have s1: "startup_owed ?s1"
    using assms(1) by (auto simp: remove_vanished_def apply_removal_outcome_def Let_def startup_owed_def split: work_outcome.splits option.splits)
  obtain red s2 where d: "drain_pending cf w ?s1 = (red, s2)" by (cases "drain_pending cf w ?s1")
  obtain since where "frame s2 = frame (?s1\<lparr>wa_deferred_since := since\<rparr>)" using drain_frame [of cf w ?s1] d by auto
  from frame_owed [OF this] s1 have s2: "startup_owed s2" by (simp add: startup_owed_def)
  let ?s3 = "if red then s2\<lparr>wa_header_is_cpp := header_dialect_is_cpp (w_readable w 4) (w_rows w 4)\<rparr> else s2"
  have "startup_owed ?s3" using s2 by (simp add: startup_owed_def)
  then have "startup_owed (revive_due_parked (w_now w 41 0) ?s3)" using frame_owed [OF frame_revive] by blast
  then show ?thesis using assms(2) d unfolding settle_turn_def Let_def by (auto simp: startup_owed_def split: if_splits)
qed

lemma watch_turn_owed:
  assumes "startup_owed s" "watch_turn cf w s = (x, s')"
  shows "startup_owed s'"
proof -
  obtain rc en s1 where r: "receive cf w (note_loss w (shed_overload s)) = (rc, en, s1)"
    by (cases "receive cf w (note_loss w (shed_overload s))") auto
  have "startup_owed (note_loss w (shed_overload s))"
    using assms(1) by (auto simp: note_loss_def shed_overload_def startup_owed_def Let_def refresh_pending_def refresh_request_def)
  then have s1: "startup_owed s1" using receive_owed r by blast
  have "startup_owed (reload_filter cf w (report w rc s1))"
    using s1 by (auto simp: reload_filter_def report_def startup_owed_def refresh_pending_def refresh_failed_def Let_def split: option.splits)
  then have s2: "startup_owed (scheduled_bulk cf w (reload_filter cf w (report w rc s1)))" by (rule scheduled_bulk_owed)
  have force: "startup_owed (drain_pending_force cf w s1)"
    unfolding drain_pending_force_def using frame_owed [OF frame_process_ready] s1 by blast
  have act: "startup_owed (u\<lparr>wa_last_activity := l\<rparr>) = startup_owed u" for u :: "'a watch" and l by (simp add: startup_owed_def)
  show ?thesis using assms(2) r s1 s2 force act settle_turn_owed [OF s2, of cf w x s'] unfolding watch_turn_def Let_def
    by (auto split: if_splits)
qed

definition watch_inv :: "'f watch \<Rightarrow> bool" where
  "watch_inv s \<longleftrightarrow> watch_ok s \<and> startup_owed s"

lemma watch_step_inv: "watch_step cf capacity s t \<Longrightarrow> watch_inv s \<Longrightarrow> watch_inv t"
proof (induction rule: watch_step.induct)
  case (notify s n)
  then show ?case by (simp add: watch_inv_def watch_ok_def work_ok_def queue_ok_notified startup_owed_def)
next
  case (turn w s s')
  then show ?case using watch_turn_ok watch_turn_owed by (auto simp: watch_inv_def)
qed

interpretation watcher: transition_system "\<lambda>s. \<exists>now h f. s = watch_start now h f" "watch_step cf capacity" watch_inv
  for cf :: "'f config" and capacity
  by unfold_locales
    (auto simp: watch_inv_def watch_start_ok, simp add: watch_start_def startup_owed_def, auto dest: watch_step_inv simp: watch_inv_def)

definition watch_reachable :: "'f config \<Rightarrow> (string \<Rightarrow> nat) \<Rightarrow> 'f watch \<Rightarrow> bool" where
  "watch_reachable cf capacity s \<longleftrightarrow> (\<exists>now h f. (watch_step cf capacity)\<^sup>*\<^sup>* (watch_start now h f) s)"

lemma watch_reachable_inv: "watch_reachable cf capacity s \<Longrightarrow> watch_inv s"
  unfolding watch_reachable_def by (elim exE, rule watcher.reachable_inv) auto

section \<open>Deferral\<close>

text \<open>The answers of a row of questions about backpressure, each with its reason and its time.\<close>

fun defer_run :: "(string option \<times> nat) list \<Rightarrow> nat option \<Rightarrow> bool list" where
  "defer_run [] since = []"
| "defer_run ((reason, now) # qs) since =
     (case should_defer reason now since of (d, since') \<Rightarrow> d # defer_run qs since')"

lemma defer_run_streak:
  assumes "list_all id (defer_run qs (Some t0))" "sorted (t0 # map snd qs)" "q \<in> set qs"
  shows "snd q - t0 < BACKPRESSURE_MAX_DEFER"
  using assms
proof (induction qs)
  case (Cons a qs)
  obtain reason now where a: "a = (reason, now)" by (cases a)
  have d: "should_defer reason now (Some t0) = (True, Some t0)" "now - t0 < BACKPRESSURE_MAX_DEFER"
    using Cons.prems(1) a by (auto simp: should_defer_def unwrap_or_def Let_def split: option.splits prod.splits if_splits)
  then show ?case using Cons a by auto
qed simp

section \<open>Properties\<close>

text \<open>
  C4. The watcher drops no saved file. Take any reachable state and a file that is queued or parked there, or that the
  next event reports as written; after the following turn of the loop the file is queued or parked, or a full reconciliation
  is owed (events were lost, the queues were over budget, or the ignore rules changed), or a bulk pass over the
  whole project succeeded in this turn, or the current ignore rules exclude the file, or the file was
  re-indexed in this turn, its embeddings included.
\<close>

theorem watcher_keeps_work:
  assumes "watch_reachable cf capacity s"
    and "tracked s p \<or> saved cf w (note_loss w (shed_overload s)) p"
    and "watch_turn cf w s = (x, s')"
  shows "tracked s' p \<or> refresh_pending (wa_refresh s') \<or> run_bulk_incremental (w_bulk w) = Done
    \<or> cf_ignored cf (wa_filter s') p False \<or> reindexed cf w p"
  using watch_turn_tracked [OF _ assms(2,3)] watch_reachable_inv [OF assms(1)]
  unfolding safe_def finished_def watch_inv_def by blast

definition sample_config :: "unit config" where
  "sample_config = \<lparr>cf_root = ''/r'', cf_debounce = 10, cf_idle_timeout = 60, cf_semantic = False,
     cf_backpressure = False, cf_ignored = (\<lambda>_ _ _. False)\<rparr>"

definition sample_world :: "unit world" where
  "sample_world = \<lparr>w_now = (\<lambda>_ _. 5), w_exists = (\<lambda>_. True), w_is_dir = (\<lambda>_. False), w_scan = (\<lambda>_. Files []),
     w_has_content = (\<lambda>_. True), w_recheck = (\<lambda>_. False), w_rows = (\<lambda>_. None), w_readable = (\<lambda>_. True),
     w_load = (\<lambda>_. None),
     w_bulk = \<lparr>bk_lock = AlreadyHeld, bk_open = True, bk_structural = Some 0, bk_embedder = Disabled,
       bk_open_semantic = True, bk_fingerprint = True, bk_semantic = Some 0\<rparr>,
     w_removal_lock = Acquired, w_purge = sample_purge, w_reindex = (\<lambda>_. sample_reindex\<lparr>ra_lock := AlreadyHeld\<rparr>),
     w_batch = \<lparr>ba_embedder = Disabled, ba_lock = Acquired, ba_open = True, ba_fingerprint = True, ba_index = Inr []\<rparr>,
     w_filter = None, w_status_written = (\<lambda>_. True), w_shutdown = False, w_disabled = True, w_lost = False\<rparr>"

definition sample_event :: notification where
  "sample_event = Notify False \<lparr>ev_kind = Modify_Other, ev_paths = [''/r/a.rs'']\<rparr>"

definition sample_watch :: "unit watch" where
  "sample_watch = (watch_start 0 False ())\<lparr>wa_admission := notified ''/r'' length sample_event
     (wa_admission (watch_start 0 False ()))\<rparr>"

lemma sample_watch_reachable: "watch_reachable sample_config length sample_watch"
proof -
  have "watch_step sample_config length (watch_start 0 False ()) sample_watch"
    using watch_step.notify [of sample_config length "watch_start 0 False ()" sample_event]
    by (simp add: sample_watch_def sample_config_def)
  then show ?thesis unfolding watch_reachable_def by blast
qed

lemma sample_paths:
  "strip_root ''/r'' ''/r/a.rs'' = Some ''a.rs''" "is_source_file ''a.rs''" "file_name ''/r/a.rs'' = Some ''a.rs''"
  "header_context_changed ''a.rs'' = False" "is_cpp_evidence ''a.rs'' = False" "relevant ''/r'' ''/r/a.rs''"
  by code_simp+

lemma sample_turn:
  "watch_turn sample_config sample_world sample_watch =
     (Some Exit_Disabled,
      (watch_start 0 False ())\<lparr>wa_pending := [(''a.rs'', 5)], wa_batch_times := [5], wa_status := Some (0, True, False, False)\<rparr>)"
  by (simp add: watch_turn_def receive_def note_loss_def shed_overload_def tracked_lengths_def
      pending_work_exceeds_budget_def sample_watch_def sample_event_def notified_def admit_def sample_paths
      watch_start_def path_bytes_def EVENT_PATH_LIMIT_def EVENT_PATH_BYTES_def EVENT_QUEUE_CAPACITY_def handle_event_path_def
      note_vanished_def note_source_def sample_config_def sample_world_def push_batch_time_def BATCH_THRESHOLD_def
      BATCH_WINDOW_def hm_insert_def refresh_pending_def refresh_default_def refresh_parked_def publish_status_def Let_def)

theorem watcher_keeps_work_witness:
  "tracked (snd (watch_turn sample_config sample_world sample_watch)) ''a.rs''"
proof -
  let ?t = "watch_turn sample_config sample_world sample_watch"
  have "ad_queue (wa_admission (note_loss sample_world (shed_overload sample_watch))) =
      [\<lparr>ev_kind = Modify_Other, ev_paths = [''/r/a.rs'']\<rparr>]"
    by (simp add: note_loss_def shed_overload_def tracked_lengths_def pending_work_exceeds_budget_def sample_watch_def
        sample_event_def notified_def admit_def sample_paths watch_start_def path_bytes_def EVENT_PATH_LIMIT_def
        EVENT_PATH_BYTES_def EVENT_QUEUE_CAPACITY_def Let_def)
  then have saved: "saved sample_config sample_world (note_loss sample_world (shed_overload sample_watch)) ''a.rs''"
    using sample_paths by (simp add: saved_def sample_config_def sample_world_def)
  have "\<not> refresh_pending (wa_refresh (snd ?t))"
    unfolding sample_turn by (simp add: watch_start_def refresh_default_def refresh_pending_def)
  moreover have "run_bulk_incremental (w_bulk sample_world) \<noteq> Done" by code_simp
  moreover have "\<not> reindexed sample_config sample_world ''a.rs''"
  proof -
    let ?re = "\<lambda>hdr. fst (reindex_one (w_reindex sample_world ''a.rs'') ''a.rs'' (cf_semantic sample_config) hdr (w_rows sample_world 0))"
    have "?re True = (Skipped, None)" "?re False = (Skipped, None)" by code_simp+
    then have "?re hdr = (Skipped, None)" for hdr by (cases hdr) simp_all
    then show ?thesis by (simp add: reindexed_def)
  qed
  ultimately show ?thesis
    using watcher_keeps_work [OF sample_watch_reachable, of "''a.rs''" sample_world "fst ?t" "snd ?t"] saved
    by (auto simp: sample_config_def)
qed

text \<open>
  C39. Every reachable state of the watcher is well formed: at most 256 events wait, each of at most 64 paths and 64 KiB; no file is
  marked as being indexed between turns, nor queued for a recheck; the queues have no duplicate entry; a file's
  attempts are counted from one to five and only while the file is queued; at most ten event
  times, fewer than ten failed removals and fewer than three failed startup passes are remembered.
\<close>

theorem watch_state_well_formed:
  assumes "watch_reachable cf capacity s"
  shows "length (ad_queue (wa_admission s)) \<le> EVENT_QUEUE_CAPACITY
    \<and> list_all (\<lambda>e. length (ev_paths e) \<le> EVENT_PATH_LIMIT \<and> path_bytes (ev_paths e) \<le> EVENT_PATH_BYTES) (ad_queue (wa_admission s))
    \<and> wa_indexing s = [] \<and> wa_recheck s = []
    \<and> distinct (map fst (wa_pending s)) \<and> distinct (map fst (wa_parked s)) \<and> distinct (map fst (wa_retries s))
    \<and> list_all (\<lambda>(p, n). 1 \<le> n \<and> n \<le> MAX_WORK_RETRIES \<and> p \<in> set (map fst (wa_pending s))) (wa_retries s)
    \<and> length (wa_batch_times s) \<le> BATCH_THRESHOLD
    \<and> wa_removal_fails s < MAX_REMOVAL_FAILURES
    \<and> (wa_startup_failures s = None \<or> wa_startup_failures s \<in> {Some 0, Some 1, Some 2})"
proof -
  have ok: "watch_ok s" using watch_reachable_inv [OF assms] by (simp add: watch_inv_def)
  note w = work_okD [OF watch_okD(1) [OF ok]]
  have q: "length (ad_queue (wa_admission s)) \<le> EVENT_QUEUE_CAPACITY \<and> list_all event_ok (ad_queue (wa_admission s))"
    using watch_okD(2) [OF ok] by (simp add: queue_ok_def)
  have r: "hm_ok (wa_retries s)" "keys (wa_retries s) \<subseteq> keys (wa_pending s)"
    "\<forall>(p, n) \<in> set (wa_retries s). 0 < n \<and> n \<le> MAX_WORK_RETRIES"
    using w(5) by (simp_all add: retries_ok_def)
  have n: "wa_startup_failures s = None \<or> wa_startup_failures s \<in> {Some 0, Some 1, Some 2}"
    using watch_okD(5) [OF ok] by (cases "wa_startup_failures s") (auto simp: less_Suc_eq numeral_3_eq_3 numeral_2_eq_2)
  have rl: "list_all (\<lambda>(p, n). 1 \<le> n \<and> n \<le> MAX_WORK_RETRIES \<and> p \<in> set (map fst (wa_pending s))) (wa_retries s)"
  proof -
    have "1 \<le> n \<and> n \<le> MAX_WORK_RETRIES \<and> p \<in> set (map fst (wa_pending s))" if "(p, n) \<in> set (wa_retries s)" for p n
      using r(3) that subsetD [OF r(2) imageI [OF that, of fst]] by auto
    then show ?thesis by (auto simp only: list_all_iff)
  qed
  have ql: "list_all (\<lambda>e. length (ev_paths e) \<le> EVENT_PATH_LIMIT \<and> path_bytes (ev_paths e) \<le> EVENT_PATH_BYTES) (ad_queue (wa_admission s))"
    using q by (simp add: list_all_iff event_ok_def)
  show ?thesis using q ql w(1-4) r(1) rl n watch_okD(3,4) [OF ok] unfolding hm_ok_def by blast
qed

theorem watch_state_well_formed_witness:
  "length (ad_queue (wa_admission sample_watch)) \<le> EVENT_QUEUE_CAPACITY \<and> wa_recheck sample_watch = []"
  using watch_state_well_formed [OF sample_watch_reachable] by blast


text \<open>A world in which the startup pass succeeds and nothing happens.\<close>

definition quiet_world :: "unit world" where
  "quiet_world = sample_world\<lparr>w_now := (\<lambda>_ _. 100), w_disabled := False, w_bulk := (w_bulk sample_world)\<lparr>bk_lock := Acquired\<rparr>\<rparr>"

lemma quiet_turn:
  "watch_turn sample_config quiet_world (watch_start 0 False ()) =
     (Some Exit_Idle, (watch_start 0 False ())\<lparr>wa_status := Some (0, True, False, False), wa_bulk_retry_at := None,
        wa_startup_failures := None, wa_startup_reconciled := True, wa_cooldown_until := Some 3100\<rparr>)"
  by (simp add: watch_turn_def receive_def note_loss_def shed_overload_def tracked_lengths_def settle_turn_def
      pending_work_exceeds_budget_def watch_start_def sample_config_def sample_world_def quiet_world_def report_def
      reload_filter_def scheduled_bulk_def bulk_due_def refresh_default_def refresh_pending_def refresh_parked_def
      run_bulk_guarded_def run_bulk_incremental_def run_startup_def startup_outcome_def finish_bulk_def bulk_cooldown_after_def
      apply_bulk_outcome_def header_dialect_is_cpp_def remove_vanished_def drain_pending_def compute_ready_def
      revive_due_parked_def outstanding_def is_idle_def publish_status_def BULK_COOLDOWN_def Let_def)


text \<open>
  No notification is lost silently: an event that touches a watched path ends up at the end of the queue with those
  paths, or the loss is recorded (and stays recorded until the loop takes it over); only events about reads and events that
  touch no watched path leave no trace.
\<close>

theorem no_silent_event_loss:
  "let a' = notified root capacity n a in
     (ad_lost a \<longrightarrow> ad_lost a')
     \<and> (ad_lost a'
        \<or> (\<exists>e. n = Notify False e \<and> ev_kind e \<noteq> Other_Kind \<and> filter (relevant root) (ev_paths e) \<noteq> []
             \<and> ad_queue a' = ad_queue a @ [e\<lparr>ev_paths := filter (relevant root) (ev_paths e)\<rparr>])
        \<or> (\<exists>e. n = Notify False e \<and> a' = a \<and> (ev_kind e = Other_Kind \<or> list_all (\<lambda>p. \<not> relevant root p) (ev_paths e))))"
proof -
  have keep: "ad_lost a \<Longrightarrow> ad_lost (admit capacity m a)" for m
    by (auto simp: admit_def split: notification.splits)
  show ?thesis
  proof (cases n)
    case Notify_Error
    then show ?thesis by (simp add: notified_def admit_def Let_def)
  next
    case (Notify rescan e)
    show ?thesis
    proof (cases rescan)
      case True
      then show ?thesis using Notify by (simp add: notified_def admit_def Let_def)
    next
      case False
      let ?ps = "filter (relevant root) (ev_paths e)"
      show ?thesis
      proof (cases "?ps = []")
        case True
        then show ?thesis using Notify False by (simp add: notified_def Let_def filter_empty_conv list_all_iff)
      next
        case ne: False
        then have "notified root capacity n a = admit capacity (Notify False (e\<lparr>ev_paths := ?ps\<rparr>)) a"
          using Notify False by (simp add: notified_def Let_def)
        then show ?thesis using keep ne Notify False by (auto simp: admit_def Let_def)
      qed
    qed
  qed
qed

theorem no_silent_event_loss_witness:
  "ad_queue (notified ''/r'' length sample_event \<lparr>ad_queue = [], ad_lost = False\<rparr>) =
     [\<lparr>ev_kind = Modify_Other, ev_paths = [''/r/a.rs'']\<rparr>]"
proof -
  have "\<not> ad_lost (notified ''/r'' length sample_event \<lparr>ad_queue = [], ad_lost = False\<rparr>)"
    by (simp add: sample_event_def notified_def admit_def sample_paths path_bytes_def EVENT_PATH_LIMIT_def
        EVENT_PATH_BYTES_def EVENT_QUEUE_CAPACITY_def Let_def)
  then show ?thesis
    using no_silent_event_loss [of "''/r''" length sample_event "\<lparr>ad_queue = [], ad_lost = False\<rparr>"]
    by (auto simp: Let_def sample_event_def sample_paths)
qed

text \<open>
  Host load cannot postpone indexing for ever: in any row of questions about backpressure, asked at times that do not
  decrease, the questions of an unbroken streak of deferrals lie within fifteen minutes of each other.
\<close>

theorem deferral_bounded:
  assumes "sorted (map snd qs)" and "list_all id (defer_run qs None)"
    and "q \<in> set qs" "q' \<in> set qs"
  shows "snd q - snd q' < BACKPRESSURE_MAX_DEFER"
proof (cases qs)
  case (Cons a rest)
  obtain reason now where a: "a = (reason, now)" by (cases a)
  have d: "should_defer reason now None = (True, Some now)"
    using assms(2) Cons a by (auto simp: should_defer_def unwrap_or_def Let_def split: option.splits prod.splits if_splits)
  have "snd q - now < BACKPRESSURE_MAX_DEFER"
  proof (cases "q = a")
    case True
    then show ?thesis using a by (simp add: BACKPRESSURE_MAX_DEFER_def)
  next
    case False
    show ?thesis
      by (rule defer_run_streak [of rest]) (use assms Cons a d False in auto)
  qed
  moreover have "now \<le> snd q'" using assms(1,4) Cons a by auto
  ultimately show ?thesis by simp
qed (use assms in simp)

theorem deferral_bounded_witness:
  "list_all id (defer_run [(Some ''load'', 0), (Some ''load'', 70000)] None) \<and> (70000 :: nat) - 0 < BACKPRESSURE_MAX_DEFER"
  using deferral_bounded [of "[(Some ''load'', 0), (Some ''load'', 70000)]" "(Some ''load'', 70000)" "(Some ''load'', 0)"]
  by (simp add: should_defer_def unwrap_or_def BACKPRESSURE_MAX_DEFER_def)

end
