(* ===== verification/Shell_Words.thy ===== *)
theory Shell_Words
  imports Rust_Prelude
begin

text \<open>
  Quoting of test commands, \<open>crates/graph/src/git_history/test_commands.rs\<close>, against a reference reader of
  POSIX shell text: words of unquoted safe characters, single-quoted spans and backslash escapes, blanks
  between them, and the operators the commands use. The reader refuses every text that has an unquoted character
  with another meaning to a shell (an expansion, a redirection, a glob, a line end), so that a text it reads
  is run by a shell as exactly the words it returns.
\<close>

section \<open>The program\<close>

definition shell_safe_byte :: "char \<Rightarrow> bool" where
  "shell_safe_byte b \<longleftrightarrow>
     (let n = of_char b :: nat in (48 \<le> n \<and> n \<le> 57) \<or> (65 \<le> n \<and> n \<le> 90) \<or> (97 \<le> n \<and> n \<le> 122))
     \<or> b \<in> set ''_./:@%+=,-''"

text \<open>\<open>token.replace('\'', "'\\''")\<close>\<close>

fun replace_quote :: "string \<Rightarrow> string" where
  "replace_quote [] = []"
| "replace_quote (c # s) =
     (if c = CHR 0x27 then [CHR 0x27, CHR 0x5C, CHR 0x27, CHR 0x27] @ replace_quote s else c # replace_quote s)"

definition shell_quote :: "string \<Rightarrow> string" where
  "shell_quote token =
     (if token \<noteq> [] \<and> list_all shell_safe_byte token then token
      else CHR 0x27 # replace_quote token @ [CHR 0x27])"

definition anchored :: "string \<Rightarrow> string" where
  "anchored path = (if starts_with ''-'' path then ''./'' @ path else path)"

definition path_arg :: "string \<Rightarrow> string" where
  "path_arg path = shell_quote (anchored path)"

definition path_args :: "string list \<Rightarrow> string" where
  "path_args paths = join_with CHR '' '' (map path_arg paths)"

definition flag_safe :: "string \<Rightarrow> bool" where
  "flag_safe token \<longleftrightarrow> \<not> starts_with ''-'' token"

section \<open>The reference reader\<close>

datatype sh_token = Word string | Op string

fun flush :: "string option \<Rightarrow> sh_token list" where
  "flush None = []"
| "flush (Some w) = [Word w]"

fun grow_word :: "string option \<Rightarrow> char \<Rightarrow> string option" where
  "grow_word None c = Some [c]"
| "grow_word (Some w) c = Some (w @ [c])"

text \<open>\<open>cur\<close> is the word being read; the flag says whether the reader is inside single quotes.\<close>

abbreviation word_so_far :: "string option \<Rightarrow> string" where
  "word_so_far cur \<equiv> (case cur of None \<Rightarrow> [] | Some w \<Rightarrow> w)"

fun sh_read :: "bool \<Rightarrow> string option \<Rightarrow> string \<Rightarrow> sh_token list option" where
  "sh_read True cur [] = None"
| "sh_read False cur [] = Some (flush cur)"
| "sh_read True cur (c # s) =
     (if c = CHR 0x27 then sh_read False cur s else sh_read True (grow_word cur c) s)"
| "sh_read False cur (c # s) =
     (if c = CHR 0x27 then sh_read True (Some (word_so_far cur)) s
      else if c = CHR 0x5C then
        (case s of
           [] \<Rightarrow> None
         | d # s' \<Rightarrow> if d = CHR 0x0A then None else sh_read False (grow_word cur d) s')
      else if c = CHR '' '' then map_option ((@) (flush cur)) (sh_read False None s)
      else if c = CHR ''('' \<or> c = CHR '')'' then map_option ((@) (flush cur @ [Op [c]])) (sh_read False None s)
      else if c = CHR ''&'' then
        (case s of
           [] \<Rightarrow> None
         | d # s' \<Rightarrow> if d = CHR ''&'' then map_option ((@) (flush cur @ [Op ''&&''])) (sh_read False None s') else None)
      else if shell_safe_byte c then sh_read False (grow_word cur c) s
      else None)"

definition sh_words :: "string \<Rightarrow> sh_token list option" where
  "sh_words command = sh_read False None command"

section \<open>Quoting is read back\<close>

lemma safe_byte_facts:
  "shell_safe_byte c \<Longrightarrow> c \<noteq> CHR 0x27 \<and> c \<noteq> CHR 0x5C \<and> c \<noteq> CHR '' '' \<and> c \<noteq> CHR ''('' \<and> c \<noteq> CHR '')'' \<and> c \<noteq> CHR ''&''"
  by (auto simp: shell_safe_byte_def Let_def)

lemma sh_read_safe_byte: "shell_safe_byte c \<Longrightarrow> sh_read False cur (c # s) = sh_read False (grow_word cur c) s"
  using safe_byte_facts [of c] by simp

lemma word_so_far_grow [simp]: "word_so_far (grow_word cur c) = word_so_far cur @ [c]"
  by (cases cur) auto

lemma grow_word_eq: "grow_word cur c = Some (word_so_far cur @ [c])"
  by (cases cur) auto

lemma sh_read_safe:
  "list_all shell_safe_byte t \<Longrightarrow> t \<noteq> [] \<Longrightarrow>
    sh_read False cur (t @ s) = sh_read False (Some (word_so_far cur @ t)) s"
proof (induction t arbitrary: cur)
  case (Cons c t)
  have "sh_read False cur ((c # t) @ s) = sh_read False (Some (word_so_far cur @ [c])) (t @ s)"
    using Cons.prems by (simp add: sh_read_safe_byte grow_word_eq del: sh_read.simps(4))
  then show ?case using Cons by (cases t) auto
qed simp

lemma sh_read_quoted: "sh_read True (Some w) (replace_quote t @ CHR 0x27 # s) = sh_read False (Some (w @ t)) s"
proof (induction t arbitrary: w)
  case (Cons c t)
  then show ?case by (simp add: Cons.IH [of "w @ [c]"])
qed simp

lemma sh_read_quote: "sh_read False cur (shell_quote t @ s) = sh_read False (Some (word_so_far cur @ t)) s"
  by (auto simp: shell_quote_def sh_read_safe sh_read_quoted)

text \<open>A text that ends the word before it, such as a blank or a closing parenthesis, is read on its own.\<close>

definition ends_word :: "string \<Rightarrow> bool" where
  "ends_word e \<longleftrightarrow> (\<forall>cur. sh_read False cur e = map_option ((@) (flush cur)) (sh_read False None e))"

lemma ends_word_flush: "ends_word e \<Longrightarrow> sh_read False cur e = map_option ((@) (flush cur)) (sh_read False None e)"
  unfolding ends_word_def by blast

lemma map_option_append: "map_option ((@) a) (map_option ((@) b) x) = map_option ((@) (a @ b)) x"
  by (cases x) auto

lemma ends_word_blank: "ends_word (CHR '' '' # s)"
  by (simp add: ends_word_def map_option_append)

lemma ends_word_close: "ends_word '')''"
  by (simp add: ends_word_def)

lemma sh_read_append:
  assumes e: "ends_word e"
  shows "sh_read b cur a = Some ts \<Longrightarrow> sh_read b cur (a @ e) = map_option ((@) ts) (sh_read False None e)"
proof (induction b cur a arbitrary: ts rule: sh_read.induct)
  case (2 cur)
  then show ?case using ends_word_flush [OF e, of cur] by (simp del: sh_read.simps(4))
next
  case (3 cur c a)
  then show ?case by (cases "c = CHR 0x27") simp_all
next
  case (4 cur c a)
  consider "c = CHR 0x27" | "c = CHR 0x5C" | "c = CHR '' ''" | "c = CHR ''('' \<or> c = CHR '')''" | "c = CHR ''&''"
    | "c \<noteq> CHR 0x27" "c \<noteq> CHR 0x5C" "c \<noteq> CHR '' ''" "\<not> (c = CHR ''('' \<or> c = CHR '')'')" "c \<noteq> CHR ''&''" by blast
  then show ?case
  proof cases
    case 1
    then show ?thesis using 4(1) 4(7) by simp
  next
    case 2
    then obtain d s' where a: "a = d # s'" "d \<noteq> CHR 0x0A" "sh_read False (grow_word cur d) s' = Some ts"
      using 4(7) by (auto split: list.splits if_splits)
    show ?thesis using 4(2) [OF _ 2 a] 2 a by simp
  next
    case 3
    then obtain us where "sh_read False None a = Some us" "ts = flush cur @ us" using 4(7) by auto
    then show ?thesis using 4(3) 3 by (cases "sh_read False None e") simp_all
  next
    case c: 4
    then obtain us where us: "sh_read False None a = Some us" "ts = flush cur @ Op [c] # us" using 4(7) by auto
    then have "sh_read False None (a @ e) = map_option ((@) us) (sh_read False None e)" using 4(4) c by auto
    then show ?thesis using c us by (cases "sh_read False None e") auto
  next
    case 5
    then obtain s' us where us: "a = CHR ''&'' # s'" "sh_read False None s' = Some us" "ts = flush cur @ Op ''&&'' # us"
      using 4(7) by (auto split: list.splits if_splits)
    have "sh_read False None (s' @ e) = map_option ((@) us) (sh_read False None e)"
      using 4(5) 5 us by simp
    then show ?thesis using 5 us by (cases "sh_read False None e") simp_all
  next
    case 6
    then have c: "shell_safe_byte c" and r: "sh_read False (grow_word cur c) a = Some ts"
      using 4(7) by (auto split: if_splits)
    then show ?thesis using 4(6) [OF 6 c r] sh_read_safe_byte [OF c] by simp
  qed
qed simp

lemma sh_words_append: "ends_word e \<Longrightarrow> sh_words a = Some ts \<Longrightarrow> sh_words (a @ e) = map_option ((@) ts) (sh_words e)"
  unfolding sh_words_def by (rule sh_read_append)

named_theorems reads "texts the reader splits into words"

lemma reads_quote [reads]: "sh_words (shell_quote t) = Some [Word t]"
  using sh_read_quote [of None t "[]"] by (simp add: sh_words_def)

lemma reads_safe: "list_all shell_safe_byte t \<Longrightarrow> t \<noteq> [] \<Longrightarrow> sh_words t = Some [Word t]"
  using sh_read_safe [of t None "[]"] by (simp add: sh_words_def)

text \<open>A blank between two texts, whatever they hold.\<close>

lemma reads_blank: "sh_words a = Some ts \<Longrightarrow> sh_words b = Some us \<Longrightarrow> sh_words (a @ CHR '' '' # b) = Some (ts @ us)"
  using sh_words_append [OF ends_word_blank, of a ts b] by (simp add: sh_words_def)

lemma reads_paren: "sh_words a = Some ts \<Longrightarrow> sh_words (CHR ''('' # a @ '')'') = Some (Op ''('' # ts @ [Op '')''])"
  using sh_words_append [OF ends_word_close, of a ts] by (simp add: sh_words_def)

lemma reads_join:
  "list_all2 (\<lambda>t w. sh_words t = Some w) ts ws \<Longrightarrow> sh_words (join_with CHR '' '' ts) = Some (concat ws)"
proof (induction "CHR '' ''" ts arbitrary: ws rule: join_with.induct)
  case (3 p q ps)
  obtain w ws' where ws: "ws = w # ws'" "sh_words p = Some w" "list_all2 (\<lambda>t w. sh_words t = Some w) (q # ps) ws'"
    using 3(2) by (auto simp: list_all2_Cons1)
  then show ?case using 3(1) [of ws'] reads_blank by simp
qed (auto simp: list_all2_Cons1 sh_words_def)

lemma reads_quoted_list [reads]: "sh_words (join_with CHR '' '' (map shell_quote ts)) = Some (map Word ts)"
proof -
  have "list_all2 (\<lambda>t w. sh_words t = Some w) (map shell_quote ts) (map (\<lambda>t. [Word t]) ts)"
    by (simp add: list_all2_map1 list_all2_map2 list_all2_same reads)
  from reads_join [OF this] show ?thesis by (simp add: concat_map_singleton)
qed

lemma reads_path_args [reads]: "sh_words (path_args ps) = Some (map Word (map anchored ps))"
  using reads_quoted_list [of "map anchored ps"] by (simp add: path_args_def path_arg_def comp_def cong: map_cong)

lemma anchored_flag_safe [simp]: "flag_safe (anchored p)"
  by (auto simp: flag_safe_def anchored_def)

text \<open>The reader of one word undoes the quoting, so that distinct tokens have distinct texts.\<close>

definition sh_word :: "string \<Rightarrow> string option" where
  "sh_word s = (case sh_words s of Some [Word w] \<Rightarrow> Some w | _ \<Rightarrow> None)"

interpretation quoting: codec shell_quote sh_word "\<lambda>_. True"
  by unfold_locales (simp add: sh_word_def reads_quote)

section \<open>Properties\<close>


end
