(* ===== verification/Test_Base.thy ===== *)
theory Test_Base
  imports Shell_Words Rust_Text Protocol_Types
begin

text \<open>
  What the recommended test commands are derived from, \<open>crates/graph/src/git_history/test_commands.rs\<close>: the
  bounded read of a file, the package names of \<open>Cargo.toml\<close> files behind their memo, the crate a Rust file belongs
  to, its test targets and inline test modules. What the file system answers about each path below the
  project root is an argument, a \<open>fs\<close>; a project root that is not known is no \<open>fs\<close> at all.
\<close>

section \<open>Commands\<close>

record test_command =
  tc_command :: string
  tc_covers :: "string list"
  tc_framework :: string
  tc_source :: string

record inline_test_module =
  im_file :: string
  im_module :: string
  im_test_count :: nat

definition SOURCE_CONVENTION :: string where "SOURCE_CONVENTION = ''convention''"

definition SOURCE_INLINE :: string where "SOURCE_INLINE = ''inline''"

definition SOURCE_FEATURE :: string where "SOURCE_FEATURE = ''feature_test_command''"

definition mk_command :: "string \<Rightarrow> string list \<Rightarrow> string \<Rightarrow> string \<Rightarrow> test_command" where
  "mk_command command covers framework source =
     \<lparr>tc_command = command, tc_covers = covers, tc_framework = framework, tc_source = source\<rparr>"

definition dropped_token_note :: "string \<Rightarrow> string \<Rightarrow> string" where
  "dropped_token_note what token =
     what @ '' `'' @ token @ ''` starts with `-` and was left out of `commands`''"

definition test_extension :: "string \<Rightarrow> string" where
  "test_extension p = (case extension p of None \<Rightarrow> [] | Some e \<Rightarrow> e)"

definition stem :: "string \<Rightarrow> string" where
  "stem p = (case file_stem p of None \<Rightarrow> [] | Some e \<Rightarrow> e)"

section \<open>Files below the root\<close>

definition MAX_SOURCE_BYTES :: nat where "MAX_SOURCE_BYTES = 1048576"

text \<open>
  What the system calls on one path answer: \<open>metadata\<close> (whether it is a regular file), the non-blocking open, the
  metadata of the handle with its length, and the bytes the handle yields until its end.
\<close>

record file_answers =
  fa_stat :: "bool option"
  fa_open :: bool
  fa_handle :: "(bool \<times> nat) option"
  fa_bytes :: "string option"

type_synonym fs = "string \<Rightarrow> file_answers"

definition read_regular_bounded :: "file_answers \<Rightarrow> string option" where
  "read_regular_bounded f =
     (if fa_stat f \<noteq> Some True then None
      else if \<not> fa_open f then None
      else (case fa_handle f of
              None \<Rightarrow> None
            | Some (is_file, len) \<Rightarrow>
                if \<not> is_file \<or> MAX_SOURCE_BYTES < len then None
                else (case fa_bytes f of
                        None \<Rightarrow> None
                      | Some content \<Rightarrow>
                          (let buf = take (MAX_SOURCE_BYTES + 1) content
                           in if MAX_SOURCE_BYTES < length buf then None else from_utf8 buf))))"

definition path_is_file :: "fs \<Rightarrow> string \<Rightarrow> bool" where
  "path_is_file root p \<longleftrightarrow> fa_stat (root p) = Some True"

text \<open>\<open>root.join(dir).join(name)\<close>, relative to the root.\<close>

definition join_path :: "string \<Rightarrow> string \<Rightarrow> string" where
  "join_path dir name = (if dir = [] \<or> ends_with ''/'' dir then dir @ name else dir @ ''/'' @ name)"

definition read_source_bounded :: "fs option \<Rightarrow> string \<Rightarrow> string option" where
  "read_source_bounded root p = (case root of None \<Rightarrow> None | Some r \<Rightarrow> read_regular_bounded (r p))"

definition root_has :: "fs option \<Rightarrow> string list \<Rightarrow> bool" where
  "root_has root names = (case root of None \<Rightarrow> False | Some r \<Rightarrow> list_ex (path_is_file r) names)"

definition safe_relative_dir :: "string \<Rightarrow> bool" where
  "safe_relative_dir dir \<longleftrightarrow> \<not> is_absolute dir \<and> list_all (\<lambda>c. c \<noteq> ''..'') (components dir)"

section \<open>Ancestors and memos\<close>

text \<open>The directories above a path, nearest first, ending at the root.\<close>

function dirs_above :: "string \<Rightarrow> string list" where
  "dirs_above dir = (if dir = [] then [dir] else dir # dirs_above (parent_dir dir))"
  by auto
termination by (relation "measure length") (auto simp: parent_dir_shorter)

declare dirs_above.simps [simp del]

definition ancestors :: "string \<Rightarrow> string list" where
  "ancestors p = dirs_above (parent_dir p)"

text \<open>\<open>iter().find\<close> with a predicate that looks its argument up in a memo.\<close>

fun memo_find :: "('k \<Rightarrow> 'm \<Rightarrow> 'v \<times> 'm) \<Rightarrow> ('v \<Rightarrow> bool) \<Rightarrow> 'k list \<Rightarrow> 'm \<Rightarrow> 'k option \<times> 'm" where
  "memo_find get P [] memo = (None, memo)"
| "memo_find get P (k # ks) memo =
     (case get k memo of (v, memo') \<Rightarrow> if P v then (Some k, memo') else memo_find get P ks memo')"

text \<open>A memo answers what a fresh read would, and stays one that does.\<close>

locale memo_table =
  fixes get :: "'k \<Rightarrow> 'm \<Rightarrow> 'v \<times> 'm"
    and read :: "'k \<Rightarrow> 'v"
    and ok :: "'m \<Rightarrow> bool"
  assumes get_reads: "ok m \<Longrightarrow> fst (get k m) = read k"
    and get_ok: "ok m \<Longrightarrow> ok (snd (get k m))"
begin

lemma get_cases:
  assumes "ok m"
  obtains m' where "get k m = (read k, m')" and "ok m'"
  using get_reads [OF assms, of k] get_ok [OF assms, of k] by (cases "get k m") auto

lemma memo_find_reads:
  assumes "ok m"
  shows "fst (memo_find get P ks m) = find (\<lambda>k. P (read k)) ks \<and> ok (snd (memo_find get P ks m))"
  using assms
proof (induction ks arbitrary: m)
  case (Cons k ks)
  obtain m' where g: "get k m = (read k, m')" "ok m'" by (rule get_cases [OF Cons.prems])
  show ?case using Cons.IH [OF g(2)] g by simp
qed simp

end

section \<open>Package names\<close>

fun package_name_from :: "bool \<Rightarrow> string list \<Rightarrow> string option" where
  "package_name_from in_package [] = None"
| "package_name_from in_package (l # ls) =
     (let line = str_trim l
      in if starts_with ''['' line then package_name_from (line = ''[package]'') ls
         else if \<not> in_package then package_name_from in_package ls
         else (case split_once CHR ''='' line of
                 None \<Rightarrow> package_name_from in_package ls
               | Some (key, value) \<Rightarrow>
                   if str_trim key \<noteq> ''name'' then package_name_from in_package ls
                   else (let value = str_trim (hd (split_on CHR ''#'' value));
                             value = trim_matches {CHR 0x27} (trim_matches {CHR 0x22} value)
                         in if value \<noteq> [] then Some value else package_name_from in_package ls)))"

definition cargo_package_name :: "string \<Rightarrow> string option" where
  "cargo_package_name manifest = package_name_from False (str_lines manifest)"

record manifest_memo =
  mm_names :: "(string \<times> string option) list"
  mm_reads :: nat

definition manifest_memo_default :: manifest_memo where
  "manifest_memo_default = \<lparr>mm_names = [], mm_reads = 0\<rparr>"

definition package_name :: "fs \<Rightarrow> string \<Rightarrow> manifest_memo \<Rightarrow> string option \<times> manifest_memo" where
  "package_name root dir memo =
     (if \<not> safe_relative_dir dir then (None, memo)
      else (case hm_get (mm_names memo) dir of
              Some cached \<Rightarrow> (cached, memo)
            | None \<Rightarrow>
                (let manifest = join_path dir ''Cargo.toml'';
                     name = Option.bind (read_regular_bounded (root manifest)) cargo_package_name
                 in (name, \<lparr>mm_names = hm_insert dir name (mm_names memo), mm_reads = mm_reads memo + 1\<rparr>))))"

section \<open>Crates\<close>

record rust_crate =
  rc_dir :: string
  rc_name :: "string option"

function nearest_loop :: "fs \<Rightarrow> string \<Rightarrow> manifest_memo \<Rightarrow> rust_crate option \<times> manifest_memo" where
  "nearest_loop root dir memo =
     (case package_name root dir memo of
        (Some name, memo') \<Rightarrow> (Some \<lparr>rc_dir = dir, rc_name = Some name\<rparr>, memo')
      | (None, memo') \<Rightarrow> if dir = [] then (None, memo') else nearest_loop root (parent_dir dir) memo')"
  by auto
termination by (relation "measure (\<lambda>(_, dir, _). length dir)") (auto simp: parent_dir_shorter)

declare nearest_loop.simps [simp del]

definition nearest_manifest :: "fs \<Rightarrow> string \<Rightarrow> manifest_memo \<Rightarrow> rust_crate option \<times> manifest_memo" where
  "nearest_manifest root p memo = nearest_loop root (parent_dir p) memo"

text \<open>The crate directory without a manifest: what is before the first \<open>src\<close> or \<open>tests\<close> segment.\<close>

definition guessed_crate :: "string \<Rightarrow> rust_crate" where
  "guessed_crate p =
     (let parts = split_on CHR ''/'' p;
          before = takeWhile (\<lambda>s. s \<noteq> ''src'' \<and> s \<noteq> ''tests'') parts;
          boundary = (if length before < length parts then length before else length parts - 1)
      in \<lparr>rc_dir = join_with CHR ''/'' (take boundary parts), rc_name = None\<rparr>)"

definition for_path :: "fs option \<Rightarrow> string \<Rightarrow> manifest_memo \<Rightarrow> rust_crate \<times> manifest_memo" where
  "for_path root p memo =
     (case root of
        None \<Rightarrow> (guessed_crate p, memo)
      | Some r \<Rightarrow>
          (case nearest_manifest r p memo of
             (Some found, memo') \<Rightarrow> (found, memo')
           | (None, memo') \<Rightarrow> (guessed_crate p, memo')))"

definition package_flag :: "rust_crate \<Rightarrow> string" where
  "package_flag k = (case rc_name k of None \<Rightarrow> [] | Some name \<Rightarrow> '' -p '' @ shell_quote name)"

definition rest_under :: "rust_crate \<Rightarrow> string \<Rightarrow> string \<Rightarrow> string option" where
  "rest_under k p segment =
     strip_prefix (if rc_dir k = [] then segment @ ''/'' else rc_dir k @ ''/'' @ segment @ ''/'') p"

definition rust_integration_target :: "rust_crate \<Rightarrow> string \<Rightarrow> string option" where
  "rust_integration_target k p =
     (case rest_under k p ''tests'' of
        None \<Rightarrow> None
      | Some rest \<Rightarrow>
          (case strip_suffix ''/main.rs'' rest of
             Some name \<Rightarrow> if CHR ''/'' \<notin> set name then Some name else None
           | None \<Rightarrow> if CHR ''/'' \<notin> set rest then strip_suffix ''.rs'' rest else None))"

definition rust_module_path :: "rust_crate \<Rightarrow> string \<Rightarrow> string option" where
  "rust_module_path k p =
     (case rest_under k p ''src'' of
        None \<Rightarrow> None
      | Some rest \<Rightarrow>
          (let rest = (case strip_prefix ''bin/'' rest of
                         None \<Rightarrow> rest
                       | Some bin \<Rightarrow> (case split_once CHR ''/'' bin of None \<Rightarrow> bin | Some (_, m) \<Rightarrow> m))
           in case strip_suffix ''.rs'' rest of
                None \<Rightarrow> None
              | Some rest \<Rightarrow>
                  if rest = ''lib'' \<or> rest = ''main'' then Some []
                  else if (case rest_under k p ''src/bin'' of None \<Rightarrow> False | Some bin \<Rightarrow> CHR ''/'' \<notin> set bin) then Some []
                  else (let rest = (case strip_suffix ''/mod'' rest of None \<Rightarrow> rest | Some r \<Rightarrow> r)
                        in Some (replace_char CHR ''/'' ''::'' rest))))"

definition rust_directory_binary :: "rust_crate \<Rightarrow> string \<Rightarrow> string option" where
  "rust_directory_binary k p =
     Option.bind (rest_under k p ''src/bin'') (\<lambda>rest. map_option fst (split_once CHR ''/'' rest))"

section \<open>Inline test modules\<close>

definition CFG_TEST_LOOKBACK :: nat where "CFG_TEST_LOOKBACK = 3"

definition TEST_ATTRIBUTES :: "string list" where
  "TEST_ATTRIBUTES =
     [''#[test]'', ''#[tokio::test'', ''#[rstest'', ''#[sqlx::test'', ''#[async_std::test'', ''#[test_case'']"

definition is_rust_test_module_name :: "string \<Rightarrow> bool" where
  "is_rust_test_module_name name \<longleftrightarrow>
     name = ''tests'' \<or> name = ''test'' \<or> ends_with ''_tests'' name \<or> ends_with ''_test'' name"

definition cfg_test_gated :: "string list \<Rightarrow> u32 \<Rightarrow> bool" where
  "cfg_test_gated ls line_start =
     (let e = min (saturating_sub (unat line_start) 1) (length ls);
          b = saturating_sub e CFG_TEST_LOOKBACK
      in list_ex (\<lambda>l. starts_with ''#[cfg(test)]'' (str_trim_start l)) (drop b (take e ls)))"

definition count_test_attributes :: "string list \<Rightarrow> u32 \<Rightarrow> u32 \<Rightarrow> nat" where
  "count_test_attributes ls line_start line_end =
     (let b = min (saturating_sub (unat line_start) 1) (length ls);
          e = max (min (unat line_end) (length ls)) b
      in count_if (\<lambda>l. list_ex (\<lambda>attr. starts_with attr (str_trim_start l)) TEST_ATTRIBUTES) (drop b (take e ls)))"

definition within :: "symbol \<Rightarrow> symbol \<Rightarrow> bool" where
  "within s m \<longleftrightarrow> sym_line_start m < sym_line_start s \<and> sym_line_end s \<le> sym_line_end m"

text \<open>The key of the sort: the start line, then the end line in reverse.\<close>

definition module_before :: "symbol \<Rightarrow> symbol \<Rightarrow> bool" where
  "module_before a b \<longleftrightarrow>
     sym_line_start a < sym_line_start b
     \<or> (sym_line_start a = sym_line_start b \<and> sym_line_end b \<le> sym_line_end a)"

fun insert_module :: "symbol \<Rightarrow> symbol list \<Rightarrow> symbol list" where
  "insert_module m [] = [m]"
| "insert_module m (x # xs) = (if module_before m x then m # x # xs else x # insert_module m xs)"

definition sort_modules :: "symbol list \<Rightarrow> symbol list" where
  "sort_modules ms = foldr insert_module ms []"

fun accept_modules :: "symbol list \<Rightarrow> symbol list \<Rightarrow> symbol list" where
  "accept_modules accepted [] = accepted"
| "accept_modules accepted (m # ms) =
     (if list_ex (within m) accepted then accept_modules accepted ms else accept_modules (accepted @ [m]) ms)"

definition module_candidates :: "symbol list \<Rightarrow> string list option \<Rightarrow> symbol list" where
  "module_candidates symbols ls =
     filter (\<lambda>s. is_rust_test_module_name (sym_name s)
                 \<or> (case ls of None \<Rightarrow> False | Some l \<Rightarrow> cfg_test_gated l (sym_line_start s)))
       (filter (\<lambda>s. sym_kind s = SK_Module) symbols)"

definition rust_inline_modules :: "symbol list \<Rightarrow> string option \<Rightarrow> (string \<times> nat) list" where
  "rust_inline_modules symbols src =
     (let ls = map_option str_lines src;
          accepted = accept_modules [] (sort_modules (module_candidates symbols ls))
      in map (\<lambda>m. (sym_name m,
                    case ls of
                      Some l \<Rightarrow> count_test_attributes l (sym_line_start m) (sym_line_end m)
                    | None \<Rightarrow>
                        count_if (\<lambda>s. sym_kind s = SK_Function \<and> within s m \<and> starts_with ''test'' (sym_name s)) symbols))
           accepted)"

definition python_module_id :: "string \<Rightarrow> string" where
  "python_module_id p =
     (let dotted = replace_char CHR ''/'' ''.'' (case strip_suffix ''.py'' p of None \<Rightarrow> p | Some q \<Rightarrow> q)
      in case strip_suffix ''.__init__'' dotted of None \<Rightarrow> dotted | Some q \<Rightarrow> q)"

definition python_test_count :: "symbol list \<Rightarrow> nat" where
  "python_test_count symbols =
     count_if (\<lambda>s. sym_kind s \<in> {SK_Function, SK_Method} \<and> starts_with ''test_'' (sym_name s)) symbols"

section \<open>Bounded reads\<close>

lemma read_regular_bounded_length: "read_regular_bounded f = Some t \<Longrightarrow> length t \<le> MAX_SOURCE_BYTES"
  by (auto simp: read_regular_bounded_def from_utf8_def Let_def split: if_splits option.splits)

section \<open>The manifest memo\<close>

text \<open>The name a fresh read of a directory's manifest gives.\<close>

definition manifest_name :: "fs \<Rightarrow> string \<Rightarrow> string option" where
  "manifest_name root dir =
     (if safe_relative_dir dir
      then Option.bind (read_regular_bounded (root (join_path dir ''Cargo.toml''))) cargo_package_name
      else None)"

text \<open>Every entry is what the manifest says, and every entry cost one read.\<close>

definition manifest_memo_ok :: "fs \<Rightarrow> manifest_memo \<Rightarrow> bool" where
  "manifest_memo_ok root memo \<longleftrightarrow>
     hm_ok (mm_names memo) \<and> mm_reads memo = length (mm_names memo)
     \<and> (\<forall>(dir, name) \<in> set (mm_names memo). safe_relative_dir dir \<and> name = manifest_name root dir)"

lemma manifest_memo_default_ok [simp]: "manifest_memo_ok root manifest_memo_default"
  by (simp add: manifest_memo_ok_def manifest_memo_default_def)

lemma package_name_reads:
  assumes "manifest_memo_ok root memo"
  shows "fst (package_name root dir memo) = manifest_name root dir"
  using assms
  by (auto simp: package_name_def manifest_name_def manifest_memo_ok_def Let_def split: option.splits dest!: hm_get_mem)

lemma package_name_ok:
  assumes "manifest_memo_ok root memo"
  shows "manifest_memo_ok root (snd (package_name root dir memo))"
proof (cases "safe_relative_dir dir \<and> hm_get (mm_names memo) dir = None")
  case True
  then have "length (hm_insert dir n (mm_names memo)) = Suc (length (mm_names memo))" for n
    by (simp add: length_hm_insert_fresh)
  moreover have "set (hm_insert dir n (mm_names memo)) \<subseteq> insert (dir, n) (set (mm_names memo))" for n
    by (auto simp: hm_insert_def)
  ultimately show ?thesis using True assms
    by (fastforce simp: package_name_def manifest_memo_ok_def manifest_name_def Let_def)
next
  case False
  then show ?thesis using assms by (auto simp: package_name_def split: option.splits)
qed

interpretation manifests: memo_table "package_name root" "manifest_name root" "manifest_memo_ok root" for root
  by unfold_locales (simp_all add: package_name_reads package_name_ok)

text \<open>The crate of a path, without a memo: the nearest directory above it whose manifest names a package.\<close>

definition nearest_package :: "fs \<Rightarrow> string \<Rightarrow> rust_crate option" where
  "nearest_package root dir =
     map_option (\<lambda>d. \<lparr>rc_dir = d, rc_name = manifest_name root d\<rparr>)
       (find (\<lambda>d. manifest_name root d \<noteq> None) (dirs_above dir))"

definition crate_of :: "fs option \<Rightarrow> string \<Rightarrow> rust_crate" where
  "crate_of root p =
     (case Option.bind root (\<lambda>r. nearest_package r (parent_dir p)) of
        Some k \<Rightarrow> k
      | None \<Rightarrow> guessed_crate p)"

lemma nearest_package_rec:
  "nearest_package root dir =
     (if manifest_name root dir \<noteq> None then Some \<lparr>rc_dir = dir, rc_name = manifest_name root dir\<rparr>
      else if dir = [] then None else nearest_package root (parent_dir dir))"
  by (auto simp: nearest_package_def dirs_above.simps [of dir])

lemma nearest_loop_reads:
  assumes "manifest_memo_ok root memo"
  shows "fst (nearest_loop root dir memo) = nearest_package root dir
    \<and> manifest_memo_ok root (snd (nearest_loop root dir memo))"
  using assms
proof (induction root dir memo rule: nearest_loop.induct)
  case (1 root dir memo)
  obtain memo' where p: "package_name root dir memo = (manifest_name root dir, memo')" "manifest_memo_ok root memo'"
    by (rule manifests.get_cases [OF "1.prems"])
  show ?case
  proof (cases "manifest_name root dir = None \<and> dir \<noteq> []")
    case True
    then have "nearest_loop root dir memo = nearest_loop root (parent_dir dir) memo'"
      using p by (subst nearest_loop.simps) simp
    moreover have "nearest_package root dir = nearest_package root (parent_dir dir)"
      using True by (subst nearest_package_rec) simp
    ultimately show ?thesis using "1.IH" [OF p(1) [symmetric] _ _ p(2)] True by simp
  next
    case False
    then show ?thesis using p
      by (subst (1 2) nearest_loop.simps, subst nearest_package_rec) (auto split: option.splits)
  qed
qed

definition memo_ok_at :: "fs option \<Rightarrow> manifest_memo \<Rightarrow> bool" where
  "memo_ok_at root memo = (case root of None \<Rightarrow> True | Some r \<Rightarrow> manifest_memo_ok r memo)"

lemma for_path_reads: "memo_ok_at root memo \<Longrightarrow> fst (for_path root p memo) = crate_of root p"
  using nearest_loop_reads [of "the root" memo "parent_dir p"]
  by (cases root; cases "nearest_manifest (the root) p memo")
     (auto simp: for_path_def crate_of_def nearest_manifest_def memo_ok_at_def split: option.splits)

lemma for_path_ok: "memo_ok_at root memo \<Longrightarrow> memo_ok_at root (snd (for_path root p memo))"
  using nearest_loop_reads [of "the root" memo "parent_dir p"]
  by (cases root; cases "nearest_manifest (the root) p memo")
     (auto simp: for_path_def nearest_manifest_def memo_ok_at_def split: option.splits)

interpretation crates: memo_table "for_path root" "crate_of root" "memo_ok_at root" for root
  by unfold_locales (simp_all add: for_path_reads for_path_ok)

section \<open>Inline modules\<close>

lemma set_insert_module [simp]: "set (insert_module m ms) = insert m (set ms)"
  by (induction ms) auto

lemma set_sort_modules [simp]: "set (sort_modules ms) = set ms"
  unfolding sort_modules_def by (induction ms) auto

lemma module_before_total: "module_before a b \<or> module_before b a"
  by (auto simp: module_before_def)

lemma module_before_trans: "module_before a b \<Longrightarrow> module_before b c \<Longrightarrow> module_before a c"
  by (auto simp: module_before_def)

lemma sorted_insert_module: "sorted_wrt module_before ms \<Longrightarrow> sorted_wrt module_before (insert_module m ms)"
proof (induction ms)
  case (Cons x ms)
  show ?case
  proof (cases "module_before m x")
    case True
    then have "\<forall>y \<in> set ms. module_before m y" using Cons.prems by (auto intro: module_before_trans)
    then show ?thesis using Cons.prems True by simp
  next
    case False
    then have "module_before x m" using module_before_total by blast
    then show ?thesis using Cons False by simp
  qed
qed simp

lemma sorted_sort_modules: "sorted_wrt module_before (sort_modules ms)"
  unfolding sort_modules_def by (induction ms) (auto intro: sorted_insert_module)

lemma accept_modules_keeps: "\<exists>r. accept_modules acc ms = acc @ r \<and> set r \<subseteq> set ms"
proof (induction ms arbitrary: acc)
  case (Cons m ms)
  show ?case using Cons [of acc] Cons [of "acc @ [m]"] by auto
qed simp

lemma accept_modules_covers:
  "m \<in> set ms \<Longrightarrow> m \<in> set (accept_modules acc ms) \<or> list_ex (within m) (accept_modules acc ms)"
proof (induction ms arbitrary: acc)
  case (Cons x ms)
  show ?case
  proof (cases "m = x")
    case True
    obtain r where "accept_modules acc ms = acc @ r" using accept_modules_keeps by blast
    moreover obtain r' where "accept_modules (acc @ [m]) ms = (acc @ [m]) @ r'" using accept_modules_keeps by blast
    ultimately show ?thesis using True by auto
  qed (use Cons in auto)
qed simp

lemma accept_modules_outermost:
  assumes "sorted_wrt module_before (acc @ ms)" and "\<forall>a \<in> set acc. \<forall>b \<in> set acc. \<not> within a b"
  shows "\<forall>a \<in> set (accept_modules acc ms). \<forall>b \<in> set (accept_modules acc ms). \<not> within a b"
  using assms
proof (induction ms arbitrary: acc)
  case (Cons m ms)
  show ?case
  proof (cases "list_ex (within m) acc")
    case True
    have "sorted_wrt module_before (acc @ ms)" using Cons.prems(1) by (auto simp: sorted_wrt_append)
    then show ?thesis using Cons.IH [of acc] Cons.prems(2) True by simp
  next
    case False
    have "\<forall>a \<in> set acc. module_before a m" using Cons.prems(1) by (simp add: sorted_wrt_append)
    then have "\<forall>a \<in> set acc. \<not> within a m" by (auto simp: module_before_def within_def)
    moreover have "\<not> within m m" by (simp add: within_def)
    moreover have "\<forall>a \<in> set acc. \<not> within m a" using False by (auto simp: list_ex_iff)
    ultimately have "\<forall>a \<in> set (acc @ [m]). \<forall>b \<in> set (acc @ [m]). \<not> within a b" using Cons.prems(2) by auto
    moreover have "sorted_wrt module_before ((acc @ [m]) @ ms)" using Cons.prems(1) by simp
    ultimately show ?thesis using Cons.IH [of "acc @ [m]"] False by simp
  qed
qed simp

end
