(* ===== verification/Js_Runner.thy ===== *)
theory Js_Runner
  imports Test_Base "HOL-Library.Product_Lexorder"
begin

text \<open>
  The choice of a JavaScript or TypeScript test runner and its commands,
  \<open>crates/graph/src/git_history/test_commands/js_runner.rs\<close>. What \<open>serde_json\<close> makes of a manifest is
  an argument: the parser and the accessors of its values that the source calls.
\<close>

section \<open>Runners\<close>

datatype js_runner = Vitest | Jest | Mocha | NodeTest | Bun | Playwright

fun js_rank :: "js_runner \<Rightarrow> nat" where
  "js_rank Vitest = 0"
| "js_rank Jest = 1"
| "js_rank Mocha = 2"
| "js_rank NodeTest = 3"
| "js_rank Bun = 4"
| "js_rank Playwright = 5"

lemma js_rank_inj: "js_rank a = js_rank b \<longleftrightarrow> a = b"
  by (cases a; cases b) auto

text \<open>\<open>derive(Ord)\<close>: the order of the variants.\<close>

instantiation js_runner :: linorder
begin

definition less_eq_js_runner :: "js_runner \<Rightarrow> js_runner \<Rightarrow> bool" where
  "less_eq_js_runner a b \<longleftrightarrow> js_rank a \<le> js_rank b"

definition less_js_runner :: "js_runner \<Rightarrow> js_runner \<Rightarrow> bool" where
  "less_js_runner a b \<longleftrightarrow> js_rank a < js_rank b"

instance
  by standard (auto simp: less_eq_js_runner_def less_js_runner_def js_rank_inj)

end

fun framework :: "js_runner \<Rightarrow> string" where
  "framework Vitest = ''vitest''"
| "framework Jest = ''jest''"
| "framework Mocha = ''mocha''"
| "framework NodeTest = ''node:test''"
| "framework Bun = ''bun''"
| "framework Playwright = ''playwright''"

fun invocation :: "js_runner \<Rightarrow> string" where
  "invocation Vitest = ''npx vitest run''"
| "invocation Jest = ''npx jest''"
| "invocation Mocha = ''npx mocha''"
| "invocation NodeTest = ''node --test''"
| "invocation Bun = ''bun test''"
| "invocation Playwright = ''npx playwright test''"

definition has_regex_meta :: "string \<Rightarrow> bool" where
  "has_regex_meta rel \<longleftrightarrow>
     contains_any [CHR 0x5C, CHR ''^'', CHR ''$'', CHR ''*'', CHR ''+'', CHR ''?'', CHR ''('', CHR '')'', CHR ''['',
       CHR '']'', CHR ''{'', CHR ''}'', CHR ''|''] rel
     \<or> (case rsplit_once CHR ''/'' rel of None \<Rightarrow> False | Some (dirs, _) \<Rightarrow> CHR ''.'' \<in> set dirs)"

definition regex_special :: "char \<Rightarrow> bool" where
  "regex_special c \<longleftrightarrow>
     c \<in> set [CHR 0x5C, CHR ''^'', CHR ''$'', CHR ''.'', CHR ''*'', CHR ''+'', CHR ''?'', CHR ''('', CHR '')'', CHR ''['',
       CHR '']'', CHR ''{'', CHR ''}'', CHR ''|'']"

fun regex_escape :: "string \<Rightarrow> string" where
  "regex_escape [] = []"
| "regex_escape (c # s) = (if regex_special c then [CHR 0x5C, c] else [c]) @ regex_escape s"

definition npx_reexpands :: "string \<Rightarrow> bool" where
  "npx_reexpands arg \<longleftrightarrow>
     contains_any [CHR ''['', CHR '']'', CHR ''{'', CHR ''}''] arg
     \<and> \<not> contains_any [CHR 0x09, CHR 0x0A, CHR 0x0D, CHR '' '', CHR 0x22, CHR ''#'', CHR ''$'', CHR ''&'', CHR 0x27,
            CHR ''('', CHR '')'', CHR ''*'', CHR '';'', CHR ''<'', CHR ''>'', CHR ''?'', CHR 0x5C, CHR 0x60, CHR ''|'',
            CHR ''~''] arg"

definition has_node_glob_magic :: "string \<Rightarrow> bool" where
  "has_node_glob_magic rel \<longleftrightarrow>
     contains_any [CHR ''*'', CHR ''?'', CHR ''['', CHR '']'', CHR ''{'', CHR ''}'', CHR 0x5C] rel
     \<or> list_ex (\<lambda>op. contains_text op rel) [''!('', ''@('', ''+('']"

definition raw_arg :: "js_runner \<Rightarrow> string \<Rightarrow> string" where
  "raw_arg runner rel =
     (if runner = Bun then ''./'' @ rel
      else (let arg = (if runner = Playwright \<and> has_regex_meta rel then regex_escape rel else rel)
            in if starts_with ''-'' arg then ''./'' @ arg else arg))"

definition NODE_OPTION_REASON :: string where
  "NODE_OPTION_REASON =
     ''`node --test` reads an argument starting with `-` as an option, even after `./` or `--`, and has no literal-path form''"

definition NODE_GLOB_REASON :: string where
  "NODE_GLOB_REASON = ''`node --test` expands each argument as a glob and has no literal-path form''"

definition BUN_REASON :: string where
  "BUN_REASON =
     ''`bun test` cuts a file argument at `?` and reads `'' @ [CHR 0x5C] @ ''` as a path separator, so it has no literal-path form''"

definition VITEST_REASON :: string where
  "VITEST_REASON =
     ''vitest loads test files through Vite, which reads `?` as a query and `'' @ [CHR 0x5C] @
     ''` as a path separator, so the file cannot be run''"

definition unspellable :: "js_runner \<Rightarrow> string \<Rightarrow> string option" where
  "unspellable runner rel =
     (if runner = NodeTest \<and> starts_with ''-'' rel then Some NODE_OPTION_REASON
      else if runner = NodeTest \<and> has_node_glob_magic rel then Some NODE_GLOB_REASON
      else if runner = Bun \<and> contains_any [CHR ''?'', CHR 0x5C] rel then Some BUN_REASON
      else if runner = Vitest \<and> contains_any [CHR ''?'', CHR 0x5C] rel then Some VITEST_REASON
      else None)"

section \<open>Package manifests\<close>

text \<open>The parser and the accessors of \<open>serde_json::Value\<close>.\<close>

record 'v json =
  js_from_str :: "string \<Rightarrow> 'v option"
  js_get :: "'v \<Rightarrow> string \<Rightarrow> 'v option"
  js_as_str :: "'v \<Rightarrow> string option"
  js_object_keys :: "'v \<Rightarrow> (string \<Rightarrow> bool) option"
  js_is_null :: "'v \<Rightarrow> bool"

record package_info =
  pk_scripts_test :: "string option"
  pk_deps :: "string set"
  pk_jest_key :: bool

definition package_info_default :: package_info where
  "package_info_default = \<lparr>pk_scripts_test = None, pk_deps = {}, pk_jest_key = False\<rparr>"

definition VITEST_CONFIGS :: "string list" where
  "VITEST_CONFIGS =
     [''vitest.config.ts'', ''vitest.config.js'', ''vitest.config.mts'', ''vitest.config.mjs'', ''vitest.config.cts'',
      ''vitest.config.cjs'', ''vitest.workspace.ts'', ''vitest.workspace.js'']"

definition RUNNER_DEPS :: "string list" where
  "RUNNER_DEPS = [''vitest'', ''jest'', ''mocha'', ''@playwright/test'']"

definition package_info_of :: "'v json \<Rightarrow> 'v \<Rightarrow> package_info" where
  "package_info_of j v =
     \<lparr>pk_scripts_test = Option.bind (Option.bind (js_get j v ''scripts'') (\<lambda>s. js_get j s ''test'')) (js_as_str j),
      pk_deps = set (concat (map (\<lambda>section. case Option.bind (js_get j v section) (js_object_keys j) of
                                    None \<Rightarrow> []
                                  | Some has \<Rightarrow> filter has RUNNER_DEPS)
                               [''devDependencies'', ''dependencies''])),
      pk_jest_key = (case js_get j v ''jest'' of None \<Rightarrow> False | Some x \<Rightarrow> \<not> js_is_null j x)\<rparr>"

definition read_package :: "'v json \<Rightarrow> fs \<Rightarrow> string \<Rightarrow> package_info option" where
  "read_package j root dir =
     (if \<not> safe_relative_dir dir then None
      else (let manifest = join_path dir ''package.json''
            in if \<not> path_is_file root manifest then None
               else Some (case Option.bind (read_regular_bounded (root manifest)) (js_from_str j) of
                            None \<Rightarrow> package_info_default
                          | Some v \<Rightarrow> package_info_of j v)))"

type_synonym package_memo = "(string \<times> package_info option) list"

definition get_package :: "'v json \<Rightarrow> fs \<Rightarrow> string \<Rightarrow> package_memo \<Rightarrow> package_info option \<times> package_memo" where
  "get_package j root dir memo =
     (let memo' = (case hm_get memo dir of None \<Rightarrow> hm_insert dir (read_package j root dir) memo | Some _ \<Rightarrow> memo)
      in (Option.bind (hm_get memo' dir) id, memo'))"

section \<open>Evidence\<close>

fun runner_from_tokens :: "string list \<Rightarrow> js_runner option" where
  "runner_from_tokens [] = None"
| "runner_from_tokens (token # rest) =
     (let name = last (split_on CHR ''/'' token);
          test_next = (case rest of [] \<Rightarrow> False | n # _ \<Rightarrow> n = ''test'')
      in if name = ''vitest'' then Some Vitest
         else if name = ''jest'' then Some Jest
         else if name = ''mocha'' \<or> name = ''_mocha'' then Some Mocha
         else if name = ''bun'' \<and> test_next then Some Bun
         else if name = ''playwright'' \<and> test_next then Some Playwright
         else if name = ''node'' \<and> ''--test'' \<in> set rest then Some NodeTest
         else runner_from_tokens rest)"

fun runner_from_segments :: "string list \<Rightarrow> js_runner option" where
  "runner_from_segments [] = None"
| "runner_from_segments (segment # rest) =
     (case runner_from_tokens (map (trim_matches {CHR 0x22, CHR 0x27}) (split_whitespace segment)) of
        Some runner \<Rightarrow> Some runner
      | None \<Rightarrow> runner_from_segments rest)"

definition runner_from_script :: "string \<Rightarrow> js_runner option" where
  "runner_from_script script = runner_from_segments (split_any {CHR ''&'', CHR ''|'', CHR '';'', CHR 0x0A} script)"

definition runner_from_deps :: "string set \<Rightarrow> js_runner option" where
  "runner_from_deps deps =
     (case map snd (filter (\<lambda>(dep, _). dep \<in> deps) [(''vitest'', Vitest), (''jest'', Jest), (''mocha'', Mocha)]) of
        [one] \<Rightarrow> Some one
      | _ \<Rightarrow> None)"

text \<open>
  \<open>text.match_indices(literal).any(..)\<close>: \<open>before\<close> is the text up to the position of the search, which goes on behind a
  match.
\<close>

function import_matches :: "string \<Rightarrow> string \<Rightarrow> string \<Rightarrow> bool" where
  "import_matches literal before s =
     (if s = [] then False
      else if starts_with literal s \<and> literal \<noteq> [] then
        list_ex (\<lambda>kw. ends_with kw (str_trim_end before)) [''from'', ''import'', ''require('', ''import('']
        \<or> import_matches literal (before @ literal) (drop (length literal) s)
      else import_matches literal (before @ [hd s]) (tl s))"
  by pat_completeness auto
termination by (relation "measure (\<lambda>(_, _, s). length s)") auto

declare import_matches.simps [simp del]

definition imports_module :: "string \<Rightarrow> string \<Rightarrow> bool" where
  "imports_module txt modname = list_ex (\<lambda>q. import_matches ([q] @ modname @ [q]) [] txt) [CHR 0x27, CHR 0x22]"

definition runner_from_imports :: "string \<Rightarrow> string \<Rightarrow> js_runner option" where
  "runner_from_imports txt p =
     (let js = test_extension p \<in> set [''js'', ''jsx'', ''mjs'', ''cjs'']
      in map_option snd
           (find (\<lambda>(modname, _). imports_module txt modname)
              (filter (\<lambda>(_, runner). js \<or> runner \<noteq> NodeTest)
                 [(''node:test'', NodeTest), (''bun:test'', Bun), (''@playwright/test'', Playwright), (''vitest'', Vitest),
                  (''@jest/globals'', Jest)])))"

definition has_vitest_config :: "fs \<Rightarrow> string \<Rightarrow> bool" where
  "has_vitest_config root dir = list_ex (\<lambda>name. path_is_file root (join_path dir name)) VITEST_CONFIGS"

definition declared_runner :: "package_info \<Rightarrow> js_runner option" where
  "declared_runner pkg =
     (case Option.bind (pk_scripts_test pkg) runner_from_script of
        Some runner \<Rightarrow> Some runner
      | None \<Rightarrow>
          (case runner_from_deps (pk_deps pkg) of
             Some runner \<Rightarrow> Some runner
           | None \<Rightarrow> if pk_jest_key pkg then Some Jest else None))"

definition package_evidence ::
  "'v json \<Rightarrow> fs \<Rightarrow> string \<Rightarrow> package_memo \<Rightarrow> js_runner option \<times> package_memo" where
  "package_evidence j root dir memo =
     (case get_package j root dir memo of
        (pkg, memo') \<Rightarrow>
          (case Option.bind pkg declared_runner of
             Some runner \<Rightarrow> (Some runner, memo')
           | None \<Rightarrow>
               (let playwright_only =
                      (case pkg of
                         None \<Rightarrow> False
                       | Some pk \<Rightarrow> ''@playwright/test'' \<in> pk_deps pk
                                   \<and> \<not> list_ex (\<lambda>d. d \<in> pk_deps pk) [''vitest'', ''jest'', ''mocha''])
                in if has_vitest_config root dir then (Some Vitest, memo')
                   else (if playwright_only then Some Playwright else None, memo'))))"

fun resolve_dirs ::
  "'v json \<Rightarrow> fs \<Rightarrow> string list \<Rightarrow> package_memo \<Rightarrow> (string \<times> js_runner) option \<times> package_memo" where
  "resolve_dirs j root [] memo = (None, memo)"
| "resolve_dirs j root (dir # dirs) memo =
     (let (skip, memo) = (if dir = [] then (False, memo)
                          else (case get_package j root dir memo of (pkg, memo') \<Rightarrow> (pkg = None, memo')))
      in if skip then resolve_dirs j root dirs memo
         else (case package_evidence j root dir memo of
                 (Some runner, memo') \<Rightarrow> (Some (dir, runner), memo')
               | (None, memo') \<Rightarrow> resolve_dirs j root dirs memo'))"

definition resolve_runner :: "'v json \<Rightarrow> fs \<Rightarrow> string \<Rightarrow> package_memo \<Rightarrow> (string \<times> js_runner) option \<times> package_memo" where
  "resolve_runner j root p memo =
     (if \<not> safe_relative_dir (parent_dir p) then (None, memo)
      else (let dirs = ancestors p
            in case Option.bind (read_source_bounded (Some root) p) (\<lambda>txt. runner_from_imports txt p) of
                 Some runner \<Rightarrow>
                   (case memo_find (get_package j root) (\<lambda>pkg. pkg \<noteq> None) dirs memo of
                      (found, memo') \<Rightarrow> (Some (case found of None \<Rightarrow> [] | Some d \<Rightarrow> d, runner), memo'))
               | None \<Rightarrow> resolve_dirs j root dirs memo))"

section \<open>Commands\<close>

definition NOTE_PATH_CAP :: nat where "NOTE_PATH_CAP = 5"

definition capped_list :: "string list \<Rightarrow> string" where
  "capped_list paths =
     (let shown = take NOTE_PATH_CAP paths;
          more = saturating_sub (length paths) NOTE_PATH_CAP
      in if 0 < more then join_text '', '' shown @ '' and '' @ show_nat more @ '' more'' else join_text '', '' shown)"

definition unresolved_note :: "string list \<Rightarrow> string" where
  "unresolved_note paths =
     ''no JavaScript/TypeScript test runner named for '' @ capped_list paths @
     '': no runner import, `package.json` `scripts.test`, runner dependency, `jest` key, or vitest config names one, so no command was emitted''"

record js_commands =
  jc_commands :: "test_command list"
  jc_unresolved :: "string list"
  jc_notes :: "string list"

type_synonym js_groups = "((string \<times> js_runner) \<times> string list) list"

fun group_paths ::
  "'v json \<Rightarrow> fs \<Rightarrow> string list \<Rightarrow> package_memo \<Rightarrow> js_groups \<Rightarrow> string list \<Rightarrow> js_groups \<times> string list" where
  "group_paths j root [] memo groups unresolved = (groups, unresolved)"
| "group_paths j root (p # ps) memo groups unresolved =
     (case resolve_runner j root p memo of
        (Some key, memo') \<Rightarrow> group_paths j root ps memo' (btree_push key p groups) unresolved
      | (None, memo') \<Rightarrow> group_paths j root ps memo' groups (unresolved @ [p]))"

definition rel_to :: "string \<Rightarrow> string \<Rightarrow> string" where
  "rel_to dir p = (if dir = [] then p else (case strip_prefix (dir @ ''/'') p of None \<Rightarrow> p | Some rel \<Rightarrow> rel))"

definition js_invocation :: "js_runner \<Rightarrow> string list \<Rightarrow> string" where
  "js_invocation runner rels =
     (if runner = Jest \<and> list_ex has_regex_meta rels then ''npx jest --runTestsByPath'' else invocation runner)"

definition js_run :: "string \<Rightarrow> string list \<Rightarrow> string" where
  "js_run started raw =
     (let args = map shell_quote raw;
          plain = started @ '' '' @ join_with CHR '' '' args
      in case strip_prefix ''npx '' started of
           Some bin \<Rightarrow>
             if list_ex npx_reexpands raw
             then ''npx -c '' @ shell_quote (bin @ '' '' @ join_with CHR '' '' args)
             else plain
         | None \<Rightarrow> plain)"

definition js_text :: "string \<Rightarrow> string \<Rightarrow> string" where
  "js_text dir run =
     (if dir = [] then run else ''(cd -- '' @ shell_quote (''./'' @ dir) @ '' && '' @ run @ '')'')"

definition push_unspellable :: "string \<Rightarrow> js_runner \<Rightarrow> string \<Rightarrow> (string \<times> string list) list \<Rightarrow> (string \<times> string list) list" where
  "push_unspellable dir runner p unsp =
     (case unspellable runner (rel_to dir p) of None \<Rightarrow> unsp | Some reason \<Rightarrow> btree_push reason p unsp)"

fun js_group ::
  "(string \<times> js_runner) \<times> string list \<Rightarrow> test_command list \<times> (string \<times> string list) list
     \<Rightarrow> test_command list \<times> (string \<times> string list) list" where
  "js_group ((dir, runner), paths) (cmds, unsp) =
     (let paths = sort paths;
          unsp = fold (push_unspellable dir runner) paths unsp;
          covers = filter (\<lambda>p. unspellable runner (rel_to dir p) = None) paths;
          rels = map (rel_to dir) covers
      in if covers = [] then (cmds, unsp)
         else (cmds @ [mk_command (js_text dir (js_run (js_invocation runner rels) (map (raw_arg runner) rels)))
                        covers (framework runner) SOURCE_CONVENTION],
               unsp))"

definition js_commands_of :: "'v json \<Rightarrow> fs option \<Rightarrow> string list \<Rightarrow> js_commands" where
  "js_commands_of j root paths =
     (case root of
        None \<Rightarrow> \<lparr>jc_commands = [], jc_unresolved = paths, jc_notes = []\<rparr>
      | Some r \<Rightarrow>
          (case group_paths j r paths [] [] [] of
             (groups, unresolved) \<Rightarrow>
               (case fold js_group groups ([], []) of
                  (cmds, unsp) \<Rightarrow>
                    \<lparr>jc_commands = cmds, jc_unresolved = unresolved,
                     jc_notes = map (\<lambda>(reason, ps). ''no command emitted for '' @ capped_list ps @ '': '' @ reason) unsp\<rparr>)))"

section \<open>The package memo\<close>

definition package_memo_ok :: "'v json \<Rightarrow> fs \<Rightarrow> package_memo \<Rightarrow> bool" where
  "package_memo_ok j root memo \<longleftrightarrow> (\<forall>(dir, info) \<in> set memo. info = read_package j root dir)"

lemma get_package_reads: "package_memo_ok j root memo \<Longrightarrow> fst (get_package j root dir memo) = read_package j root dir"
  by (auto simp: get_package_def package_memo_ok_def split: option.splits dest!: hm_get_mem)

lemma get_package_ok: "package_memo_ok j root memo \<Longrightarrow> package_memo_ok j root (snd (get_package j root dir memo))"
  by (auto simp: get_package_def package_memo_ok_def hm_insert_def split: option.splits)

interpretation packages: memo_table "get_package j root" "read_package j root" "package_memo_ok j root" for j root
  by unfold_locales (simp_all add: get_package_reads get_package_ok)

text \<open>The evidence of a directory and the resolution of a path, without a memo.\<close>

definition evidence_at :: "'v json \<Rightarrow> fs \<Rightarrow> string \<Rightarrow> js_runner option" where
  "evidence_at j root dir =
     (let pkg = read_package j root dir
      in case Option.bind pkg declared_runner of
           Some runner \<Rightarrow> Some runner
         | None \<Rightarrow>
             if has_vitest_config root dir then Some Vitest
             else if (case pkg of
                        None \<Rightarrow> False
                      | Some pk \<Rightarrow> pk_deps pk \<inter> set RUNNER_DEPS = {''@playwright/test''})
             then Some Playwright else None)"

definition counts :: "'v json \<Rightarrow> fs \<Rightarrow> string \<Rightarrow> bool" where
  "counts j root dir \<longleftrightarrow> (dir = [] \<or> read_package j root dir \<noteq> None) \<and> evidence_at j root dir \<noteq> None"

definition resolved :: "'v json \<Rightarrow> fs \<Rightarrow> string \<Rightarrow> (string \<times> js_runner) option" where
  "resolved j root p =
     (if \<not> safe_relative_dir (parent_dir p) then None
      else (case Option.bind (read_source_bounded (Some root) p) (\<lambda>txt. runner_from_imports txt p) of
              Some runner \<Rightarrow>
                Some (case find (\<lambda>d. read_package j root d \<noteq> None) (ancestors p) of None \<Rightarrow> [] | Some d \<Rightarrow> d, runner)
            | None \<Rightarrow>
                map_option (\<lambda>d. (d, the (evidence_at j root d))) (find (counts j root) (ancestors p))))"

lemma only_last_iff:
  "d \<notin> {a, b, c} \<Longrightarrow> (d \<in> D \<and> \<not> list_ex (\<lambda>x. x \<in> D) [a, b, c]) \<longleftrightarrow> D \<inter> set [a, b, c, d] = {d}"
  by auto

lemma playwright_only_iff:
  "(''@playwright/test'' \<in> D \<and> \<not> list_ex (\<lambda>x. x \<in> D) [''vitest'', ''jest'', ''mocha'']) \<longleftrightarrow>
     D \<inter> set RUNNER_DEPS = {''@playwright/test''}"
  unfolding RUNNER_DEPS_def by (rule only_last_iff) simp

lemma package_evidence_reads:
  assumes "package_memo_ok j root memo"
  shows "fst (package_evidence j root dir memo) = evidence_at j root dir
    \<and> package_memo_ok j root (snd (package_evidence j root dir memo))"
proof -
  obtain memo' where g: "get_package j root dir memo = (read_package j root dir, memo')" "package_memo_ok j root memo'"
    by (rule packages.get_cases [OF assms])
  show ?thesis
    using g unfolding package_evidence_def evidence_at_def playwright_only_iff
    by (simp add: Let_def split: option.split)
qed

lemma resolve_dirs_reads:
  assumes "package_memo_ok j root memo"
  shows "fst (resolve_dirs j root dirs memo) =
      map_option (\<lambda>d. (d, the (evidence_at j root d))) (find (counts j root) dirs)
    \<and> package_memo_ok j root (snd (resolve_dirs j root dirs memo))"
  using assms
proof (induction dirs arbitrary: memo)
  case (Cons dir dirs)
  obtain m1 where m1: "get_package j root dir memo = (read_package j root dir, m1)" "package_memo_ok j root m1"
    by (rule packages.get_cases [OF Cons.prems])
  define m where "m = (if dir = [] then memo else m1)"
  have m: "package_memo_ok j root m" using m1 Cons.prems by (simp add: m_def)
  obtain m2 where m2: "package_evidence j root dir m = (evidence_at j root dir, m2)" "package_memo_ok j root m2"
    using package_evidence_reads [OF m, of dir] by (cases "package_evidence j root dir m") auto
  show ?case
  proof (cases "dir \<noteq> [] \<and> read_package j root dir = None")
    case True
    then have "\<not> counts j root dir" by (simp add: counts_def)
    then show ?thesis using True m1 Cons.IH [OF m1(2)] by simp
  next
    case False
    then have r: "resolve_dirs j root (dir # dirs) memo =
        (case evidence_at j root dir of Some runner \<Rightarrow> (Some (dir, runner), m2) | None \<Rightarrow> resolve_dirs j root dirs m2)"
      using m1 m2 by (auto simp: m_def split: option.splits)
    show ?thesis
    proof (cases "evidence_at j root dir")
      case None
      then have "\<not> counts j root dir" by (simp add: counts_def)
      then show ?thesis unfolding r using None Cons.IH [OF m2(2)] by simp
    next
      case (Some runner)
      then have "counts j root dir" using False by (auto simp: counts_def)
      then show ?thesis unfolding r using Some m2 by simp
    qed
  qed
qed simp

lemma resolve_runner_reads: "package_memo_ok j root memo \<Longrightarrow> fst (resolve_runner j root p memo) = resolved j root p"
  using packages.memo_find_reads [of j root memo "\<lambda>pkg. pkg \<noteq> None" "ancestors p"]
    resolve_dirs_reads [of j root memo "ancestors p"]
  by (auto simp: resolve_runner_def resolved_def split: option.splits prod.splits)

lemma resolve_runner_ok: "package_memo_ok j root memo \<Longrightarrow> package_memo_ok j root (snd (resolve_runner j root p memo))"
  using packages.memo_find_reads [of j root memo "\<lambda>pkg. pkg \<noteq> None" "ancestors p"]
    resolve_dirs_reads [of j root memo "ancestors p"]
  by (auto simp: resolve_runner_def Let_def split: option.splits prod.splits)

interpretation resolutions: memo_table "resolve_runner j root" "resolved j root" "package_memo_ok j root" for j root
  by unfold_locales (simp_all add: resolve_runner_reads resolve_runner_ok)

section \<open>Groups\<close>

lemma group_paths_reads:
  assumes "package_memo_ok j root memo"
  shows "group_paths j root ps memo groups unresolved =
    (fold (push_key (resolved j root)) ps groups, unresolved @ filter (\<lambda>p. resolved j root p = None) ps)"
  using assms
proof (induction ps arbitrary: memo groups unresolved)
  case (Cons p ps)
  obtain memo' where r: "resolve_runner j root p memo = (resolved j root p, memo')" "package_memo_ok j root memo'"
    by (rule resolutions.get_cases [OF Cons.prems])
  show ?case using r Cons.IH [OF r(2)] by (simp add: push_key_def split: option.split)
qed simp

lemma package_memo_ok_Nil [simp]: "package_memo_ok j root []"
  by (simp add: package_memo_ok_def)

lemma dirs_above_prefix: "d \<in> set (dirs_above dir) \<Longrightarrow> d = [] \<or> d = dir \<or> (\<exists>r. dir = d @ ''/'' @ r)"
proof (induction dir rule: dirs_above.induct)
  case (1 dir)
  show ?case
  proof (cases "dir = [] \<or> d = dir")
    case True
    then show ?thesis using "1.prems" by (subst (asm) dirs_above.simps) auto
  next
    case False
    then have "d \<in> set (dirs_above (parent_dir dir))"
      using "1.prems" by (subst (asm) dirs_above.simps) simp
    then have d: "d = [] \<or> d = parent_dir dir \<or> (\<exists>r. parent_dir dir = d @ ''/'' @ r)" using "1.IH" False by blast
    have "parent_dir dir = [] \<or> (\<exists>r. dir = parent_dir dir @ ''/'' @ r)"
      by (auto simp: parent_dir_def rsplit_once_Some_iff split: option.splits)
    then show ?thesis using d by auto
  qed
qed

lemma ancestors_prefix: "d \<in> set (ancestors p) \<Longrightarrow> d = [] \<or> (\<exists>r. p = d @ ''/'' @ r)"
proof -
  assume "d \<in> set (ancestors p)"
  then have "d = [] \<or> d = parent_dir p \<or> (\<exists>r. parent_dir p = d @ ''/'' @ r)"
    unfolding ancestors_def by (rule dirs_above_prefix)
  moreover have "parent_dir p = [] \<or> (\<exists>r. p = parent_dir p @ ''/'' @ r)"
    by (auto simp: parent_dir_def rsplit_once_Some_iff split: option.splits)
  ultimately show ?thesis by auto
qed

text \<open>The path a directory and a path below it stand for.\<close>

definition under_dir :: "string \<Rightarrow> string \<Rightarrow> string" where
  "under_dir dir rel = (if dir = [] then rel else dir @ ''/'' @ rel)"

lemma under_rel_to: "d \<in> set (ancestors p) \<or> d = [] \<Longrightarrow> under_dir d (rel_to d p) = p"
  using ancestors_prefix [of d p] by (auto simp: under_dir_def rel_to_def strip_prefix_Some_iff strip_prefix_None_iff
      starts_with_iff split: option.splits)

lemma resolved_dir: "resolved j root p = Some (d, runner) \<Longrightarrow> d \<in> set (ancestors p) \<or> d = []"
  by (auto simp: resolved_def find_Some_iff split: if_splits option.splits)

section \<open>What the commands say\<close>

text \<open>
  The shell tokens of a runner started in a directory: the words themselves at the root, and elsewhere a subshell that
  enters the directory first.
\<close>

definition in_dir :: "string \<Rightarrow> sh_token list \<Rightarrow> sh_token list" where
  "in_dir dir ts =
     (if dir = [] then ts
      else [Op ''('', Word ''cd'', Word ''--'', Word (''./'' @ dir), Op ''&&''] @ ts @ [Op '')''])"

text \<open>The words a command line starts its program with: itself, or what the shell of \<open>npx -c\<close> reads.\<close>

definition started_words :: "sh_token list \<Rightarrow> sh_token list option" where
  "started_words ts =
     (case ts of
        [Word a, Word b, Word c] \<Rightarrow>
          if a = ''npx'' \<and> b = ''-c'' then map_option ((#) (Word ''npx'')) (sh_words c) else Some ts
      | _ \<Rightarrow> Some ts)"

lemma reads_js_text: "sh_words run = Some ts \<Longrightarrow> sh_words (js_text dir run) = Some (in_dir dir ts)"
proof (cases "dir = []")
  case False
  assume run: "sh_words run = Some ts"
  have cd: "sh_words ''cd --'' = Some [Word ''cd'', Word ''--'']" by code_simp
  have amp: "sh_words ''&&'' = Some [Op ''&&'']" by code_simp
  have "sh_words (''cd --'' @ CHR '' '' # shell_quote (''./'' @ dir) @ CHR '' '' # ''&&'' @ CHR '' '' # run) =
      Some ([Word ''cd'', Word ''--''] @ [Word (''./'' @ dir)] @ [Op ''&&''] @ ts)"
    by (intro reads_blank cd reads_quote amp run)
  from reads_paren [OF this] show ?thesis using False by (simp add: js_text_def in_dir_def)
qed (simp add: js_text_def in_dir_def)

text \<open>The words that start each runner.\<close>

fun runner_words :: "js_runner \<Rightarrow> string list \<Rightarrow> string list" where
  "runner_words Vitest rels = [''npx'', ''vitest'', ''run'']"
| "runner_words Jest rels = (if list_ex has_regex_meta rels then [''npx'', ''jest'', ''--runTestsByPath''] else [''npx'', ''jest''])"
| "runner_words Mocha rels = [''npx'', ''mocha'']"
| "runner_words NodeTest rels = [''node'', ''--test'']"
| "runner_words Bun rels = [''bun'', ''test'']"
| "runner_words Playwright rels = [''npx'', ''playwright'', ''test'']"

lemma reads_invocations:
  "sh_words ''npx vitest run'' = Some (map Word [''npx'', ''vitest'', ''run''])"
  "sh_words ''npx jest'' = Some (map Word [''npx'', ''jest''])"
  "sh_words ''npx jest --runTestsByPath'' = Some (map Word [''npx'', ''jest'', ''--runTestsByPath''])"
  "sh_words ''npx mocha'' = Some (map Word [''npx'', ''mocha''])"
  "sh_words ''node --test'' = Some (map Word [''node'', ''--test''])"
  "sh_words ''bun test'' = Some (map Word [''bun'', ''test''])"
  "sh_words ''npx playwright test'' = Some (map Word [''npx'', ''playwright'', ''test''])"
  "sh_words ''vitest run'' = Some (map Word [''vitest'', ''run''])"
  "sh_words ''jest'' = Some (map Word [''jest''])"
  "sh_words ''jest --runTestsByPath'' = Some (map Word [''jest'', ''--runTestsByPath''])"
  "sh_words ''mocha'' = Some (map Word [''mocha''])"
  "sh_words ''playwright test'' = Some (map Word [''playwright'', ''test''])"
  by code_simp+

lemma reads_invocation: "sh_words (js_invocation runner rels) = Some (map Word (runner_words runner rels))"
  by (cases runner) (simp_all add: js_invocation_def reads_invocations del: list.map)

lemma reads_npx_binary:
  assumes "strip_prefix ''npx '' (js_invocation runner rels) = Some bin"
  shows "\<exists>ws. runner_words runner rels = ''npx'' # ws \<and> sh_words bin = Some (map Word ws)"
  using assms
  by (cases runner)
     (auto simp: js_invocation_def reads_invocations strip_prefix_Some_iff simp del: list.map split: if_splits)

lemma reads_plain:
  "sh_words t = Some (map Word ws) \<Longrightarrow>
    sh_words (t @ '' '' @ join_with CHR '' '' (map shell_quote raw)) = Some (map Word (ws @ raw))"
  using reads_blank [of t "map Word ws"] reads_quoted_list [of raw] by simp

text \<open>
  A shell reads the command of a runner as the runner's own words followed by one word for each argument; \<open>npx\<close> gets the
  arguments one by one only when its own shell leaves them alone.
\<close>

lemma reads_js_run:
  assumes raw: "raw \<noteq> []"
  shows "\<exists>ts. sh_words (js_run (js_invocation runner rels) raw) = Some ts
    \<and> started_words ts = Some (map Word (runner_words runner rels @ raw))
    \<and> (ts = map Word (runner_words runner rels @ raw) \<and> hd (runner_words runner rels) = ''npx''
        \<longrightarrow> \<not> list_ex npx_reexpands raw)"
proof (cases "strip_prefix ''npx '' (js_invocation runner rels) \<noteq> None \<and> list_ex npx_reexpands raw")
  case True
  then obtain bin where bin: "strip_prefix ''npx '' (js_invocation runner rels) = Some bin" by blast
  then obtain ws where ws: "runner_words runner rels = ''npx'' # ws" "sh_words bin = Some (map Word ws)"
    using reads_npx_binary by blast
  let ?inner = "bin @ '' '' @ join_with CHR '' '' (map shell_quote raw)"
  have "sh_words ''npx -c'' = Some [Word ''npx'', Word ''-c'']" by code_simp
  then have "sh_words (''npx -c'' @ CHR '' '' # shell_quote ?inner) = Some [Word ''npx'', Word ''-c'', Word ?inner]"
    using reads_blank reads_quote by fastforce
  moreover have "js_run (js_invocation runner rels) raw = ''npx -c'' @ CHR '' '' # shell_quote ?inner"
    using True bin by (simp add: js_run_def)
  moreover have "started_words [Word ''npx'', Word ''-c'', Word ?inner] = Some (map Word (runner_words runner rels @ raw))"
    using reads_plain [OF ws(2), of raw] by (simp add: started_words_def ws(1))
  moreover have "[Word ''npx'', Word ''-c'', Word ?inner] \<noteq> map Word (runner_words runner rels @ raw)"
    using raw by (cases runner) auto
  ultimately show ?thesis by metis
next
  case False
  then have run: "js_run (js_invocation runner rels) raw = js_invocation runner rels @ '' '' @ join_with CHR '' '' (map shell_quote raw)"
    by (auto simp: js_run_def Let_def split: option.splits)
  have "sh_words (js_run (js_invocation runner rels) raw) = Some (map Word (runner_words runner rels @ raw))"
    unfolding run by (rule reads_plain [OF reads_invocation])
  moreover have "started_words (map Word (runner_words runner rels @ raw)) = Some (map Word (runner_words runner rels @ raw))"
    using raw by (cases runner) (auto simp: started_words_def split: list.splits)
  moreover have "hd (runner_words runner rels) = ''npx'' \<Longrightarrow> strip_prefix ''npx '' (js_invocation runner rels) \<noteq> None"
    by (cases runner) (auto simp: js_invocation_def strip_prefix_None_iff)
  ultimately show ?thesis using False by blast
qed

section \<open>Arguments\<close>

lemma raw_arg_flag_safe: "flag_safe (raw_arg runner rel)"
  by (auto simp: raw_arg_def flag_safe_def Let_def)

text \<open>A regular expression that stands for one literal text, read back: an escaped character is itself.\<close>

fun re_literal :: "string \<Rightarrow> string option" where
  "re_literal [] = Some []"
| "re_literal (c # s) =
     (if c = CHR 0x5C then (case s of [] \<Rightarrow> None | d # s' \<Rightarrow> if regex_special d then map_option ((#) d) (re_literal s') else None)
      else if regex_special c then None
      else map_option ((#) c) (re_literal s))"

lemma re_literal_escape: "re_literal (regex_escape s) = Some s"
proof (induction s)
  case (Cons c s)
  have "regex_special CHR 0x5C" by (simp add: regex_special_def)
  then show ?case using Cons by auto
qed simp

interpretation regexes: codec regex_escape re_literal "\<lambda>_. True"
  by unfold_locales (rule re_literal_escape)

section \<open>The commands of all groups\<close>

definition group_covers :: "string \<Rightarrow> js_runner \<Rightarrow> string list \<Rightarrow> string list" where
  "group_covers dir runner paths = filter (\<lambda>p. unspellable runner (rel_to dir p) = None) (sort paths)"

definition group_command :: "string \<Rightarrow> js_runner \<Rightarrow> string list \<Rightarrow> test_command" where
  "group_command dir runner paths =
     (let rels = map (rel_to dir) (group_covers dir runner paths)
      in mk_command (js_text dir (js_run (js_invocation runner rels) (map (raw_arg runner) rels)))
           (group_covers dir runner paths) (framework runner) SOURCE_CONVENTION)"

lemma js_group_eq:
  "js_group ((dir, runner), paths) (cmds, unsp) =
     (cmds @ (if group_covers dir runner paths = [] then [] else [group_command dir runner paths]),
      fold (push_unspellable dir runner) (sort paths) unsp)"
  by (simp add: Let_def group_covers_def group_command_def comp_def)

lemma js_groups_commands:
  "c \<in> set (fst (fold js_group gs (cmds, unsp))) \<longleftrightarrow>
     c \<in> set cmds \<or> (\<exists>dir runner ps. ((dir, runner), ps) \<in> set gs \<and> group_covers dir runner ps \<noteq> [] \<and> c = group_command dir runner ps)"
proof (induction gs arbitrary: cmds unsp)
  case (Cons g gs)
  obtain dir runner ps where g: "g = ((dir, runner), ps)" by (cases g) auto
  show ?case unfolding g fold_simps js_group_eq Cons.IH by auto
qed simp

text \<open>Every path that a group cannot spell is kept below its reason.\<close>

definition kept_below :: "(string \<times> string list) list \<Rightarrow> string \<Rightarrow> string \<Rightarrow> bool" where
  "kept_below unsp reason p \<longleftrightarrow> btree_ok unsp \<and> p \<in> set (btree_list unsp reason)"

lemma push_unspellable_push: "push_unspellable dir runner p = push_key (\<lambda>p. unspellable runner (rel_to dir p)) p"
  by (auto simp: push_unspellable_def push_key_def split: option.split)

lemma push_unspellable_keeps:
  "btree_ok unsp \<Longrightarrow> kept_below (fold (push_unspellable dir runner) ps unsp) reason p \<longleftrightarrow>
     kept_below unsp reason p \<or> (p \<in> set ps \<and> unspellable runner (rel_to dir p) = Some reason)"
  by (auto simp: kept_below_def push_keys_list push_unspellable_push [abs_def])

lemma js_groups_unspellable:
  assumes "btree_ok unsp"
  shows "btree_ok (snd (fold js_group gs (cmds, unsp)))
    \<and> (kept_below (snd (fold js_group gs (cmds, unsp))) reason p \<longleftrightarrow>
        kept_below unsp reason p
        \<or> (\<exists>dir runner ps. ((dir, runner), ps) \<in> set gs \<and> p \<in> set ps \<and> unspellable runner (rel_to dir p) = Some reason))"
  using assms
proof (induction gs arbitrary: cmds unsp)
  case (Cons g gs)
  obtain dir runner ps where g: "g = ((dir, runner), ps)" by (cases g) auto
  have ok: "btree_ok (fold (push_unspellable dir runner) (sort ps) unsp)"
    using Cons.prems by (simp add: push_unspellable_push [abs_def])
  show ?case
    using Cons.IH [OF ok] push_unspellable_keeps [OF Cons.prems, of dir runner "sort ps" reason p]
    unfolding g fold_simps js_group_eq by auto
qed simp

lemma js_groups_of:
  "((dir, runner), ps) \<in> set (fst (group_paths j r paths [] [] [])) \<longleftrightarrow>
     ps = filter (\<lambda>p. resolved j r p = Some (dir, runner)) paths \<and> ps \<noteq> []"
  by (simp add: group_paths_reads push_keys_mem)

lemma js_commands_unfold:
  assumes "root = Some r"
  shows "jc_commands (js_commands_of j root paths) = fst (fold js_group (fst (group_paths j r paths [] [] [])) ([], []))"
    and "jc_unresolved (js_commands_of j root paths) = filter (\<lambda>p. resolved j r p = None) paths"
    and "jc_notes (js_commands_of j root paths) =
      map (\<lambda>(reason, ps). ''no command emitted for '' @ capped_list ps @ '': '' @ reason)
        (snd (fold js_group (fst (group_paths j r paths [] [] [])) ([], [])))"
  using assms by (auto simp: js_commands_of_def group_paths_reads split: prod.splits)

text \<open>Every command runs its runner, in the directory of the package, with one argument for each file it covers.\<close>

definition js_runs :: "test_command \<Rightarrow> string \<Rightarrow> js_runner \<Rightarrow> string list \<Rightarrow> bool" where
  "js_runs c dir runner rels \<longleftrightarrow>
     rels \<noteq> [] \<and> tc_framework c = framework runner \<and> tc_covers c = map (under_dir dir) rels
     \<and> list_all (\<lambda>rel. unspellable runner rel = None) rels
     \<and> (\<exists>ts. sh_words (tc_command c) = Some (in_dir dir ts)
           \<and> started_words ts = Some (map Word (runner_words runner rels @ map (raw_arg runner) rels))
           \<and> (ts = map Word (runner_words runner rels @ map (raw_arg runner) rels) \<and> hd (runner_words runner rels) = ''npx''
                \<longrightarrow> \<not> list_ex npx_reexpands (map (raw_arg runner) rels)))"

lemma group_command_runs:
  assumes "group_covers dir runner ps \<noteq> []" and "\<forall>p \<in> set ps. resolved j r p = Some (dir, runner)"
  shows "js_runs (group_command dir runner ps) dir runner (map (rel_to dir) (group_covers dir runner ps))"
proof -
  let ?covers = "group_covers dir runner ps"
  let ?rels = "map (rel_to dir) ?covers"
  have "\<forall>p \<in> set ?covers. under_dir dir (rel_to dir p) = p"
    using assms(2) resolved_dir under_rel_to unfolding group_covers_def by (metis (no_types, lifting) filter_is_subset set_sort subsetD)
  then have "map (under_dir dir) ?rels = ?covers" by (simp add: map_idI)
  moreover have "list_all (\<lambda>rel. unspellable runner rel = None) ?rels" by (simp add: group_covers_def list_all_iff)
  moreover obtain ts where "sh_words (js_run (js_invocation runner ?rels) (map (raw_arg runner) ?rels)) = Some ts"
    and "started_words ts = Some (map Word (runner_words runner ?rels @ map (raw_arg runner) ?rels))"
    and "ts = map Word (runner_words runner ?rels @ map (raw_arg runner) ?rels) \<and> hd (runner_words runner ?rels) = ''npx''
        \<longrightarrow> \<not> list_ex npx_reexpands (map (raw_arg runner) ?rels)"
    using reads_js_run [of "map (raw_arg runner) ?rels" runner ?rels] assms(1) by auto
  ultimately show ?thesis
    using assms(1) reads_js_text unfolding js_runs_def group_command_def Let_def mk_command_def by force
qed

lemma js_commands_run:
  assumes "c \<in> set (jc_commands (js_commands_of j root paths))"
  shows "\<exists>dir runner rels. js_runs c dir runner rels \<and> set (map (under_dir dir) rels) \<subseteq> set paths"
proof (cases root)
  case (Some r)
  obtain dir runner ps where g: "((dir, runner), ps) \<in> set (fst (group_paths j r paths [] [] []))"
    and c: "group_covers dir runner ps \<noteq> []" "c = group_command dir runner ps"
    using assms unfolding js_commands_unfold(1) [OF Some] js_groups_commands by auto
  have ps: "ps = filter (\<lambda>p. resolved j r p = Some (dir, runner)) paths" using g unfolding js_groups_of by blast
  then have "js_runs c dir runner (map (rel_to dir) (group_covers dir runner ps))"
    unfolding c(2) by (intro group_command_runs [OF c(1)]) auto
  moreover have "set (tc_covers c) \<subseteq> set paths"
    unfolding c(2) group_command_def mk_command_def Let_def group_covers_def ps by auto
  ultimately show ?thesis unfolding js_runs_def by metis
qed (use assms in \<open>simp add: js_commands_of_def\<close>)

text \<open>Every path is covered by a command, reported as unresolved, or named below the reason it cannot be spelled.\<close>

lemma js_paths_accounted:
  assumes "p \<in> set paths"
  shows "p \<in> set (jc_unresolved (js_commands_of j root paths))
    \<or> (\<exists>c \<in> set (jc_commands (js_commands_of j root paths)). p \<in> set (tc_covers c))
    \<or> (\<exists>reason ps. p \<in> set ps
         \<and> ''no command emitted for '' @ capped_list ps @ '': '' @ reason \<in> set (jc_notes (js_commands_of j root paths)))"
proof (cases root)
  case None
  then show ?thesis using assms by (simp add: js_commands_of_def)
next
  case (Some r)
  let ?gs = "fst (group_paths j r paths [] [] [])"
  show ?thesis
  proof (cases "resolved j r p")
    case None
    then show ?thesis using assms unfolding js_commands_unfold(2) [OF Some] by simp
  next
    case (Some key)
    obtain dir runner where key: "key = (dir, runner)" by (cases key)
    let ?ps = "filter (\<lambda>p. resolved j r p = Some (dir, runner)) paths"
    have p: "p \<in> set ?ps" using assms Some key by simp
    then have "?ps \<noteq> []" by (metis list.set(1) empty_iff)
    then have g: "((dir, runner), ?ps) \<in> set ?gs" unfolding js_groups_of by blast
    show ?thesis
    proof (cases "unspellable runner (rel_to dir p)")
      case None
      then have c: "p \<in> set (group_covers dir runner ?ps)" using p by (simp add: group_covers_def)
      then have "group_covers dir runner ?ps \<noteq> []" by (metis list.set(1) empty_iff)
      then have "group_command dir runner ?ps \<in> set (jc_commands (js_commands_of j root paths))"
        using g unfolding js_commands_unfold(1) [OF \<open>root = Some r\<close>] js_groups_commands by blast
      moreover have "p \<in> set (tc_covers (group_command dir runner ?ps))"
        using c by (simp add: group_command_def mk_command_def Let_def)
      ultimately show ?thesis by blast
    next
      case (Some reason)
      let ?unsp = "snd (fold js_group ?gs ([], []))"
      have k: "kept_below ?unsp reason p"
        using js_groups_unspellable [OF btree_ok_Nil, of ?gs "[]" reason p] g p Some by blast
      obtain ps where ps: "map_of ?unsp reason = Some ps" "p \<in> set ps"
        using k unfolding kept_below_def by (cases "map_of ?unsp reason") simp_all
      then have "(reason, ps) \<in> set ?unsp" by (simp add: map_of_SomeD)
      then show ?thesis unfolding js_commands_unfold(3) [OF \<open>root = Some r\<close>] using ps(2) by force
    qed
  qed
qed

end
