(* ===== verification/Test_Commands.thy ===== *)
theory Test_Commands
  imports Js_Runner
begin

text \<open>
  The commands recommended for a change, \<open>crates/graph/src/git_history/test_commands.rs\<close>: the convention commands of the
  test files, the commands of inline test modules, the commands mapped to features, and the merge of the three
  groups. The database's answers and the outcome of each cooperative checkpoint are arguments.
\<close>

section \<open>Convention commands\<close>

type_synonym rust_entry = "string option \<times> string"

record buckets =
  bk_rust :: "(string \<times> (rust_crate \<times> rust_entry list)) list"
  bk_python :: "string list"
  bk_php :: "string list"
  bk_phpt_dirs :: "(string \<times> string list) list"
  bk_go_dirs :: "string list"
  bk_go_paths :: "string list"
  bk_js :: "string list"
  bk_java :: "(string \<times> string list) list"
  bk_memo :: manifest_memo
  bk_notes :: "string list"

definition CARGO_PER_TARGET_CAP :: nat where "CARGO_PER_TARGET_CAP = 3"

definition JS_EXTENSIONS :: "string list" where
  "JS_EXTENSIONS = [''js'', ''jsx'', ''ts'', ''tsx'', ''mjs'', ''cjs'', ''mts'', ''cts'']"

definition push_rust ::
  "rust_crate \<Rightarrow> rust_entry \<Rightarrow> (string \<times> (rust_crate \<times> rust_entry list)) list
     \<Rightarrow> (string \<times> (rust_crate \<times> rust_entry list)) list" where
  "push_rust krate entry m =
     (case map_of m (rc_dir krate) of
        None \<Rightarrow> btree_insert (rc_dir krate) (krate, [entry]) m
      | Some (k, entries) \<Rightarrow> btree_insert (rc_dir krate) (k, entries @ [entry]) m)"

definition go_dir :: "string \<Rightarrow> string" where
  "go_dir p = (if parent_dir p = [] then ''.'' else ''./'' @ parent_dir p)"

text \<open>\<open>BTreeSet::insert\<close>, on a list in ascending order.\<close>

fun btree_add :: "'a::linorder \<Rightarrow> 'a list \<Rightarrow> 'a list" where
  "btree_add x [] = [x]"
| "btree_add x (y # ys) = (if x < y then x # y # ys else if x = y then y # ys else y # btree_add x ys)"

definition classify_rust :: "fs option \<Rightarrow> string \<Rightarrow> buckets \<Rightarrow> buckets" where
  "classify_rust root p b =
     (case for_path root p (bk_memo b) of
        (krate, memo) \<Rightarrow>
          (let target = rust_integration_target krate p;
               b = b\<lparr>bk_memo := memo\<rparr>
           in case target of
                Some t \<Rightarrow>
                  if \<not> flag_safe t
                  then b\<lparr>bk_notes := bk_notes b @ [dropped_token_note ''cargo test target'' t]\<rparr>
                  else b\<lparr>bk_rust := push_rust krate (target, p) (bk_rust b)\<rparr>
              | None \<Rightarrow> b\<lparr>bk_rust := push_rust krate (target, p) (bk_rust b)\<rparr>))"

definition classify :: "fs option \<Rightarrow> string \<Rightarrow> buckets \<Rightarrow> buckets" where
  "classify root p b =
     (let e = test_extension p
      in if e = ''rs'' then classify_rust root p b
         else if e = ''py'' then b\<lparr>bk_python := bk_python b @ [p]\<rparr>
         else if e = ''php'' then b\<lparr>bk_php := bk_php b @ [p]\<rparr>
         else if e = ''phpt'' then b\<lparr>bk_phpt_dirs := btree_push (parent_dir p) p (bk_phpt_dirs b)\<rparr>
         else if e = ''go''
           then b\<lparr>bk_go_dirs := btree_add (go_dir p) (bk_go_dirs b), bk_go_paths := bk_go_paths b @ [p]\<rparr>
         else if e \<in> set JS_EXTENSIONS then b\<lparr>bk_js := bk_js b @ [p]\<rparr>
         else if e = ''java'' then b\<lparr>bk_java := btree_push (stem p) p (bk_java b)\<rparr>
         else b)"

definition start_buckets :: "manifest_memo \<Rightarrow> string list \<Rightarrow> buckets" where
  "start_buckets memo notes =
     \<lparr>bk_rust = [], bk_python = [], bk_php = [], bk_phpt_dirs = [], bk_go_dirs = [], bk_go_paths = [], bk_js = [],
      bk_java = [], bk_memo = memo, bk_notes = notes\<rparr>"

definition classified :: "fs option \<Rightarrow> string list \<Rightarrow> string list \<Rightarrow> manifest_memo \<Rightarrow> string list \<Rightarrow> buckets" where
  "classified root test_files withheld_phpt memo notes =
     (let b = fold (classify root) test_files (start_buckets memo notes)
      in b\<lparr>bk_phpt_dirs := fold (\<lambda>p. btree_touch (parent_dir p)) withheld_phpt (bk_phpt_dirs b)\<rparr>)"

definition rust_commands :: "rust_crate \<Rightarrow> rust_entry list \<Rightarrow> test_command list" where
  "rust_commands krate entries =
     (let named_targets = count_if (\<lambda>(t, _). t \<noteq> None) entries;
          whole_suite = ''cargo test'' @ package_flag krate
      in if CARGO_PER_TARGET_CAP < named_targets
         then [mk_command whole_suite (map snd entries) ''cargo'' SOURCE_CONVENTION]
         else map (\<lambda>(target, p).
                     mk_command
                       (case target of Some t \<Rightarrow> whole_suite @ '' --test '' @ shell_quote t | None \<Rightarrow> whole_suite)
                       [p] ''cargo'' SOURCE_CONVENTION)
                entries)"

definition python_commands :: "string list \<Rightarrow> string \<Rightarrow> test_command list" where
  "python_commands python source =
     (if python = [] then []
      else [mk_command (''pytest '' @ path_args (sort python)) (sort python) ''pytest'' source])"

definition php_commands :: "fs option \<Rightarrow> string list \<Rightarrow> test_command list" where
  "php_commands root php =
     (if php = [] then []
      else (case (if root_has root [''artisan''] then (''php artisan test'', ''artisan'') else (''vendor/bin/phpunit'', ''phpunit'')) of
              (runner, fw) \<Rightarrow> [mk_command (runner @ '' '' @ path_args (sort php)) (sort php) fw SOURCE_CONVENTION]))"

definition phpt_command :: "string \<times> string list \<Rightarrow> test_command" where
  "phpt_command e =
     (case e of
        (dir, paths) \<Rightarrow>
          (let target = (if dir = [] then ''.'' else dir);
               paths = (if paths = [] then [target] else paths)
           in mk_command (''php run-tests.php '' @ path_arg target) (sort paths) ''run-tests'' SOURCE_CONVENTION))"

definition go_commands :: "string list \<Rightarrow> string list \<Rightarrow> test_command list" where
  "go_commands dirs paths =
     (if dirs = [] then [] else [mk_command (''go test '' @ path_args dirs) (sort paths) ''go'' SOURCE_CONVENTION])"

definition java_commands :: "fs option \<Rightarrow> (string \<times> string list) list \<Rightarrow> test_command list" where
  "java_commands root java =
     (if java = [] then []
      else (let classes = map shell_quote (map fst java);
                covers = sort (concat (map snd java));
                gradle = \<not> root_has root [''pom.xml''] \<and> root_has root [''build.gradle'', ''build.gradle.kts'']
            in if gradle
               then [mk_command (''gradle test '' @ join_with CHR '' '' (map (\<lambda>c. ''--tests '' @ c) classes)) covers ''gradle''
                       SOURCE_CONVENTION]
               else [mk_command (''mvn -Dtest='' @ shell_quote (join_with CHR '','' (map fst java)) @ '' test'') covers ''maven''
                       SOURCE_CONVENTION]))"

definition convention_commands ::
  "'v json \<Rightarrow> fs option \<Rightarrow> string list \<Rightarrow> string list \<Rightarrow> manifest_memo \<Rightarrow> string list
     \<Rightarrow> test_command list \<times> manifest_memo \<times> string list" where
  "convention_commands j root test_files withheld_phpt memo notes =
     (let b = classified root test_files withheld_phpt memo notes;
          js = js_commands_of j root (sort (bk_js b));
          js_notes = (if bk_js b = [] then []
                      else (if jc_unresolved js = [] then [] else [unresolved_note (jc_unresolved js)]) @ jc_notes js);
          java_notes = map (\<lambda>(c, _). dropped_token_note ''Java test class'' c) (filter (\<lambda>(c, _). \<not> flag_safe c) (bk_java b));
          java = filter (\<lambda>(c, _). flag_safe c) (bk_java b);
          out = concat (map (\<lambda>(_, (krate, entries)). rust_commands krate entries) (bk_rust b))
                @ python_commands (bk_python b) SOURCE_CONVENTION
                @ php_commands root (bk_php b)
                @ map phpt_command (bk_phpt_dirs b)
                @ go_commands (bk_go_dirs b) (bk_go_paths b)
                @ (if bk_js b = [] then [] else jc_commands js)
                @ java_commands root java
      in (out, bk_memo b, bk_notes b @ js_notes @ java_notes))"

section \<open>Inline modules and features\<close>

record feature_row =
  fr_feature_id :: string
  fr_test_command :: "string option"

text \<open>The database, with the outcome of the n-th checkpoint of the call: an error stops it.\<close>

record 'e test_db =
  td_checkpoint :: "nat \<Rightarrow> 'e option"
  td_symbols :: "string \<Rightarrow> 'e + symbol list"
  td_features :: "string \<Rightarrow> 'e + feature_row list"

record inline_state =
  is_commands :: "test_command list"
  is_modules :: "inline_test_module list"
  is_python :: "string list"
  is_memo :: manifest_memo
  is_notes :: "string list"

definition inline_invocation :: "rust_crate \<Rightarrow> string option \<Rightarrow> string \<Rightarrow> string" where
  "inline_invocation krate directory_binary modname =
     (case directory_binary of
        Some target \<Rightarrow> ''cargo test'' @ package_flag krate @ '' --bin '' @ shell_quote target
      | None \<Rightarrow> ''cargo test'' @ package_flag krate @ '' '' @ shell_quote (modname @ ''::''))"

fun inline_modules ::
  "string \<Rightarrow> rust_crate \<Rightarrow> string option \<Rightarrow> string \<Rightarrow> (string \<times> nat) list \<Rightarrow> inline_state \<Rightarrow> inline_state" where
  "inline_modules p krate directory_binary module_path [] st = st"
| "inline_modules p krate directory_binary module_path ((name, count) # ms) st =
     (let modname = (if module_path = [] then name else module_path @ ''::'' @ name)
      in inline_modules p krate directory_binary module_path ms
           (if \<not> flag_safe modname
            then st\<lparr>is_notes := is_notes st @ [dropped_token_note ''cargo test filter'' modname]\<rparr>
            else st\<lparr>is_commands := is_commands st @
                       [mk_command (inline_invocation krate directory_binary modname) [modname] ''cargo'' SOURCE_INLINE],
                     is_modules := is_modules st @ [\<lparr>im_file = p, im_module = modname, im_test_count = count\<rparr>]\<rparr>))"

definition inline_rust :: "fs option \<Rightarrow> string \<Rightarrow> symbol list \<Rightarrow> inline_state \<Rightarrow> inline_state" where
  "inline_rust root p symbols st =
     (if list_all (\<lambda>s. sym_kind s \<noteq> SK_Module) symbols then st
      else (case for_path root p (is_memo st) of
              (krate, memo) \<Rightarrow>
                (let st = st\<lparr>is_memo := memo\<rparr>
                 in case rust_module_path krate p of
                      None \<Rightarrow> st
                    | Some module_path \<Rightarrow>
                        (let src = read_source_bounded root p;
                             directory_binary = rust_directory_binary krate p
                         in case directory_binary of
                              Some target \<Rightarrow>
                                if \<not> flag_safe target
                                then st\<lparr>is_notes := is_notes st @ [dropped_token_note ''cargo binary target'' target]\<rparr>
                                else inline_modules p krate directory_binary module_path (rust_inline_modules symbols src) st
                            | None \<Rightarrow>
                                inline_modules p krate directory_binary module_path (rust_inline_modules symbols src) st))))"

definition inline_python :: "string \<Rightarrow> symbol list \<Rightarrow> inline_state \<Rightarrow> inline_state" where
  "inline_python p symbols st =
     (let count = python_test_count symbols
      in if count = 0 then st
         else st\<lparr>is_modules := is_modules st @ [\<lparr>im_file = p, im_module = python_module_id p, im_test_count = count\<rparr>],
                 is_python := is_python st @ [p]\<rparr>)"

fun inline_loop ::
  "'e test_db \<Rightarrow> fs option \<Rightarrow> string list \<Rightarrow> nat \<Rightarrow> (string \<times> string) list \<Rightarrow> inline_state \<Rightarrow> 'e + inline_state" where
  "inline_loop db root test_files n [] st = Inr st"
| "inline_loop db root test_files n ((p, _) # changed) st =
     (case td_checkpoint db n of
        Some e \<Rightarrow> Inl e
      | None \<Rightarrow>
          if p \<in> set test_files then inline_loop db root test_files (n + 1) changed st
          else if test_extension p = ''rs'' then
            (case td_symbols db p of
               Inl e \<Rightarrow> Inl e
             | Inr symbols \<Rightarrow> inline_loop db root test_files (n + 1) changed (inline_rust root p symbols st))
          else if test_extension p = ''py'' then
            (case td_symbols db p of
               Inl e \<Rightarrow> Inl e
             | Inr symbols \<Rightarrow> inline_loop db root test_files (n + 1) changed (inline_python p symbols st))
          else inline_loop db root test_files (n + 1) changed st)"

definition inline_commands ::
  "'e test_db \<Rightarrow> fs option \<Rightarrow> string list \<Rightarrow> (string \<times> string) list \<Rightarrow> manifest_memo \<Rightarrow> string list
     \<Rightarrow> 'e + test_command list \<times> inline_test_module list \<times> manifest_memo \<times> string list" where
  "inline_commands db root test_files changed memo notes =
     (case inline_loop db root test_files 0 changed
             \<lparr>is_commands = [], is_modules = [], is_python = [], is_memo = memo, is_notes = notes\<rparr> of
        Inl e \<Rightarrow> Inl e
      | Inr st \<Rightarrow>
          Inr (is_commands st @ python_commands (is_python st) SOURCE_INLINE, is_modules st, is_memo st, is_notes st))"

fun feature_rows ::
  "feature_row list \<Rightarrow> string \<Rightarrow> (string \<times> string list) list \<times> string list \<Rightarrow> (string \<times> string list) list \<times> string list" where
  "feature_rows [] given acc = acc"
| "feature_rows (f # fs) given (by_command, dropped) =
     feature_rows fs given
       (case fr_test_command f of
          None \<Rightarrow> (by_command, dropped)
        | Some c \<Rightarrow>
            (let cmd = str_trim c
             in if cmd = [] then (by_command, dropped)
                else if contains_any [CHR 0x0A, CHR 0x0D, CHR 0x00] cmd
                then (by_command, btree_add (fr_feature_id f) dropped)
                else (btree_push cmd given by_command, dropped)))"

fun feature_loop ::
  "'e test_db \<Rightarrow> nat \<Rightarrow> (string \<times> string) list \<Rightarrow> (string \<times> string list) list \<times> string list
     \<Rightarrow> 'e + (string \<times> string list) list \<times> string list" where
  "feature_loop db n [] acc = Inr acc"
| "feature_loop db n ((normalized, given) # changed) acc =
     (case td_checkpoint db n of
        Some e \<Rightarrow> Inl e
      | None \<Rightarrow>
          (case td_features db normalized of
             Inl e \<Rightarrow> Inl e
           | Inr rows \<Rightarrow> feature_loop db (n + 1) changed (feature_rows rows given acc)))"

definition feature_commands ::
  "'e test_db \<Rightarrow> nat \<Rightarrow> (string \<times> string) list \<Rightarrow> 'e + test_command list \<times> string list" where
  "feature_commands db n changed =
     (case feature_loop db n changed ([], []) of
        Inl e \<Rightarrow> Inl e
      | Inr (by_command, dropped) \<Rightarrow>
          Inr (map (\<lambda>(cmd, covers).
                      mk_command cmd covers (case split_whitespace cmd of [] \<Rightarrow> [] | w # _ \<Rightarrow> w) SOURCE_FEATURE) by_command,
               if dropped = [] then []
               else [''feature test_command dropped from `commands` for '' @ join_text '', '' dropped @
                     '' (contains a line break or NUL); see `bundle` on the feature for the raw value'']))"

section \<open>The merge\<close>

definition source_rank :: "string \<Rightarrow> nat" where
  "source_rank s = (if s = SOURCE_FEATURE then 3 else if s = SOURCE_INLINE then 2 else 1)"

definition by_text :: "test_command \<Rightarrow> (string \<times> test_command) list \<Rightarrow> (string \<times> test_command) list" where
  "by_text cmd m =
     (case map_of m (tc_command cmd) of
        Some existing \<Rightarrow> btree_insert (tc_command cmd) (existing\<lparr>tc_covers := tc_covers existing @ tc_covers cmd\<rparr>) m
      | None \<Rightarrow> btree_insert (tc_command cmd) cmd m)"

definition finish_group :: "test_command list \<Rightarrow> test_command list" where
  "finish_group cmds = map (\<lambda>(_, c). c\<lparr>tc_covers := dedup (sort (tc_covers c))\<rparr>) (fold by_text cmds [])"

definition merge_into :: "test_command \<Rightarrow> test_command \<Rightarrow> test_command" where
  "merge_into cmd existing =
     (let e = (if source_rank (tc_source existing) < source_rank (tc_source cmd)
               then existing\<lparr>tc_source := tc_source cmd, tc_framework := tc_framework cmd\<rparr> else existing)
      in e\<lparr>tc_covers := dedup (sort (tc_covers existing @ tc_covers cmd))\<rparr>)"

fun merge_command :: "test_command \<Rightarrow> test_command list \<Rightarrow> test_command list" where
  "merge_command cmd [] = [cmd]"
| "merge_command cmd (m # ms) =
     (if tc_command m = tc_command cmd then merge_into cmd m # ms else m # merge_command cmd ms)"

definition merge_groups :: "test_command list list \<Rightarrow> test_command list" where
  "merge_groups groups = fold (\<lambda>g merged. fold merge_command (finish_group g) merged) groups []"

record derived =
  dv_commands :: "test_command list"
  dv_modules :: "inline_test_module list"
  dv_notes :: "string list"

definition derive ::
  "'v json \<Rightarrow> 'e test_db \<Rightarrow> fs option \<Rightarrow> string list \<Rightarrow> string list \<Rightarrow> (string \<times> string) list \<Rightarrow> 'e + derived" where
  "derive j db root test_files withheld_phpt changed =
     (case inline_commands db root test_files changed manifest_memo_default [] of
        Inl e \<Rightarrow> Inl e
      | Inr (inl_cmds, modules, memo, notes) \<Rightarrow>
          (case feature_commands db (length changed) changed of
             Inl e \<Rightarrow> Inl e
           | Inr (feat_cmds, feature_notes) \<Rightarrow>
               (case convention_commands j root test_files withheld_phpt memo (notes @ feature_notes) of
                  (convention, _, notes) \<Rightarrow>
                    Inr \<lparr>dv_commands = merge_groups [inl_cmds, feat_cmds, convention], dv_modules = modules,
                         dv_notes = notes\<rparr>)))"

section \<open>What a shell runs\<close>

text \<open>The words that name a package.\<close>

definition package_words :: "rust_crate \<Rightarrow> string list" where
  "package_words k = (case rc_name k of None \<Rightarrow> [] | Some name \<Rightarrow> [''-p'', name])"

text \<open>
  The command lines of the runner families: the framework, what the command covers, and the tokens a shell reads. Every
  argument that stands for a file is one word, and no such word can be taken for an option.
\<close>

inductive runs :: "string \<Rightarrow> string list \<Rightarrow> sh_token list \<Rightarrow> bool" where
  cargo_suite: "runs ''cargo'' covers (map Word ([''cargo'', ''test''] @ package_words k))"
| cargo_target:
    "flag_safe t \<Longrightarrow> rust_integration_target k p = Some t \<Longrightarrow>
     runs ''cargo'' [p] (map Word ([''cargo'', ''test''] @ package_words k @ [''--test'', t]))"
| cargo_binary:
    "flag_safe t \<Longrightarrow> runs ''cargo'' [m] (map Word ([''cargo'', ''test''] @ package_words k @ [''--bin'', t]))"
| cargo_filter:
    "flag_safe m \<Longrightarrow> runs ''cargo'' [m] (map Word ([''cargo'', ''test''] @ package_words k @ [m @ ''::'']))"
| pytest: "ps \<noteq> [] \<Longrightarrow> runs ''pytest'' ps (map Word (''pytest'' # map anchored ps))"
| artisan: "ps \<noteq> [] \<Longrightarrow> runs ''artisan'' ps (map Word ([''php'', ''artisan'', ''test''] @ map anchored ps))"
| phpunit: "ps \<noteq> [] \<Longrightarrow> runs ''phpunit'' ps (map Word (''vendor/bin/phpunit'' # map anchored ps))"
| run_tests:
    "target = (if dir = [] then ''.'' else dir) \<Longrightarrow> ps = [target] \<or> list_all (\<lambda>p. parent_dir p = dir) ps \<Longrightarrow>
     runs ''run-tests'' ps (map Word [''php'', ''run-tests.php'', anchored target])"
| go: "dirs \<noteq> [] \<Longrightarrow> set dirs = go_dir ` set ps \<Longrightarrow> runs ''go'' ps (map Word ([''go'', ''test''] @ dirs))"
| gradle:
    "classes \<noteq> [] \<Longrightarrow> set classes = stem ` set ps \<Longrightarrow> list_all flag_safe classes \<Longrightarrow>
     runs ''gradle'' ps (map Word ([''gradle'', ''test''] @ concat (map (\<lambda>c. [''--tests'', c]) classes)))"
| maven:
    "classes \<noteq> [] \<Longrightarrow> set classes = stem ` set ps \<Longrightarrow>
     runs ''maven'' ps (map Word [''mvn'', ''-Dtest='' @ join_with CHR '','' classes, ''test''])"
| js:
    "rels \<noteq> [] \<Longrightarrow> list_all (\<lambda>rel. unspellable runner rel = None) rels \<Longrightarrow>
     started_words ts = Some (map Word (runner_words runner rels @ map (raw_arg runner) rels)) \<Longrightarrow>
     ts = map Word (runner_words runner rels @ map (raw_arg runner) rels) \<and> hd (runner_words runner rels) = ''npx''
       \<longrightarrow> \<not> list_ex npx_reexpands (map (raw_arg runner) rels) \<Longrightarrow>
     runs (framework runner) (map (under_dir dir) rels) (in_dir dir ts)"

text \<open>A command whose text a shell reads as such a command line.\<close>

definition reads_as_run :: "test_command \<Rightarrow> bool" where
  "reads_as_run c \<longleftrightarrow> (\<exists>ts. sh_words (tc_command c) = Some ts \<and> runs (tc_framework c) (tc_covers c) ts)"

lemma reads_as_runI: "sh_words t = Some ts \<Longrightarrow> runs fw covers ts \<Longrightarrow> reads_as_run (mk_command t covers fw source)"
  by (auto simp: reads_as_run_def mk_command_def)

lemma reads_words:
  "sh_words ''cargo test'' = Some (map Word [''cargo'', ''test''])"
  "sh_words ''-p'' = Some (map Word [''-p''])"
  "sh_words ''--test'' = Some (map Word [''--test''])"
  "sh_words ''--bin'' = Some (map Word [''--bin''])"
  "sh_words ''--tests'' = Some (map Word [''--tests''])"
  "sh_words ''pytest'' = Some (map Word [''pytest''])"
  "sh_words ''php artisan test'' = Some (map Word [''php'', ''artisan'', ''test''])"
  "sh_words ''vendor/bin/phpunit'' = Some (map Word [''vendor/bin/phpunit''])"
  "sh_words ''php run-tests.php'' = Some (map Word [''php'', ''run-tests.php''])"
  "sh_words ''go test'' = Some (map Word [''go'', ''test''])"
  "sh_words ''gradle test'' = Some (map Word [''gradle'', ''test''])"
  "sh_words ''mvn'' = Some (map Word [''mvn''])"
  "sh_words ''test'' = Some (map Word [''test''])"
  by code_simp+

text \<open>Two texts that are read as words, with a blank between them.\<close>

lemma reads_two:
  "sh_words a = Some (map Word ws) \<Longrightarrow> sh_words b = Some (map Word vs) \<Longrightarrow>
    sh_words (a @ '' '' @ b) = Some (map Word (ws @ vs))"
  using reads_blank [of a "map Word ws" b "map Word vs"] by simp

lemma reads_quote_word: "sh_words (shell_quote t) = Some (map Word [t])"
  by (simp add: reads_quote)

lemma reads_suite: "sh_words (''cargo test'' @ package_flag k) = Some (map Word ([''cargo'', ''test''] @ package_words k))"
proof (cases "rc_name k")
  case None
  then show ?thesis using reads_words(1) by (simp add: package_flag_def package_words_def)
next
  case (Some name)
  have "sh_words (''cargo test'' @ '' '' @ ''-p'' @ '' '' @ shell_quote name) = Some (map Word ([''cargo'', ''test''] @ [''-p''] @ [name]))"
    by (intro reads_two reads_words reads_quote_word)
  then show ?thesis using Some by (simp add: package_flag_def package_words_def)
qed

text \<open>A flag and its value after the suite.\<close>

lemma reads_suite_flag:
  assumes "sh_words flag = Some (map Word [flag])"
  shows "sh_words (''cargo test'' @ package_flag k @ '' '' @ flag @ '' '' @ shell_quote t) =
    Some (map Word ([''cargo'', ''test''] @ package_words k @ [flag, t]))"
proof -
  have "sh_words ((''cargo test'' @ package_flag k) @ '' '' @ flag @ '' '' @ shell_quote t) =
      Some (map Word (([''cargo'', ''test''] @ package_words k) @ [flag] @ [t]))"
    by (intro reads_two reads_suite assms reads_quote_word)
  then show ?thesis by simp
qed

section \<open>The commands of each family\<close>

lemma rust_commands_read:
  assumes "\<forall>(t, p) \<in> set entries. t = rust_integration_target k p \<and> (\<forall>n. t = Some n \<longrightarrow> flag_safe n)"
    and "c \<in> set (rust_commands k entries)"
  shows "reads_as_run c"
proof (cases "CARGO_PER_TARGET_CAP < count_if (\<lambda>(t, _). t \<noteq> None) entries")
  case True
  then have "c = mk_command (''cargo test'' @ package_flag k) (map snd entries) ''cargo'' SOURCE_CONVENTION"
    using assms(2) by (simp add: rust_commands_def)
  then show ?thesis using reads_as_runI [OF reads_suite cargo_suite] by metis
next
  case False
  then obtain t p where e: "(t, p) \<in> set entries"
    and c: "c = mk_command (case t of Some t \<Rightarrow> (''cargo test'' @ package_flag k) @ '' --test '' @ shell_quote t
        | None \<Rightarrow> ''cargo test'' @ package_flag k) [p] ''cargo'' SOURCE_CONVENTION"
    using assms(2) unfolding rust_commands_def Let_def if_not_P [OF False] set_map by force
  show ?thesis
  proof (cases t)
    case None
    then have "c = mk_command (''cargo test'' @ package_flag k) [p] ''cargo'' SOURCE_CONVENTION" using c by simp
    then show ?thesis using reads_as_runI [OF reads_suite cargo_suite] by metis
  next
    case (Some n)
    then have "flag_safe n" "rust_integration_target k p = Some n" using assms(1) e by auto
    then have "runs ''cargo'' [p] (map Word ([''cargo'', ''test''] @ package_words k @ [''--test'', n]))"
      by (rule cargo_target)
    moreover have "sh_words ((''cargo test'' @ package_flag k) @ '' --test '' @ shell_quote n) =
        Some (map Word ([''cargo'', ''test''] @ package_words k @ [''--test'', n]))"
      using reads_suite_flag [OF reads_words(3), of k n] by simp
    ultimately show ?thesis unfolding c Some by (auto intro: reads_as_runI)
  qed
qed

lemma reads_path_args_words: "sh_words (path_args ps) = Some (map Word (map anchored ps))"
  by (simp add: reads_path_args)

lemma reads_runner_args:
  "sh_words t = Some (map Word ws) \<Longrightarrow> sh_words (t @ '' '' @ path_args ps) = Some (map Word (ws @ map anchored ps))"
  by (rule reads_two [OF _ reads_path_args_words])

lemma sort_neq_Nil: "xs \<noteq> [] \<Longrightarrow> sort xs \<noteq> []"
  by (metis length_0_conv length_sort)

lemma python_commands_read: "c \<in> set (python_commands ps source) \<Longrightarrow> reads_as_run c"
  using reads_runner_args [OF reads_words(6), of "sort ps"] pytest [OF sort_neq_Nil, of ps]
  by (auto simp: python_commands_def intro!: reads_as_runI split: if_splits)

lemma php_commands_read: "c \<in> set (php_commands root ps) \<Longrightarrow> reads_as_run c"
  using reads_runner_args [OF reads_words(7), of "sort ps"] artisan [OF sort_neq_Nil, of ps]
    reads_runner_args [OF reads_words(8), of "sort ps"] phpunit [OF sort_neq_Nil, of ps]
  by (auto simp: php_commands_def intro!: reads_as_runI split: if_splits)

lemma phpt_command_read:
  assumes "list_all (\<lambda>p. parent_dir p = dir) ps"
  shows "reads_as_run (phpt_command (dir, ps))"
proof -
  let ?target = "if dir = [] then ''.'' else dir"
  let ?ps = "sort (if ps = [] then [?target] else ps)"
  have "sh_words (''php run-tests.php'' @ '' '' @ path_arg ?target) =
      Some (map Word ([''php'', ''run-tests.php''] @ [anchored ?target]))"
    unfolding path_arg_def by (intro reads_two reads_words reads_quote_word)
  moreover have "?ps = [?target] \<or> list_all (\<lambda>p. parent_dir p = dir) ?ps" using assms by (auto simp: list_all_iff)
  then have "runs ''run-tests'' ?ps (map Word [''php'', ''run-tests.php'', anchored ?target])"
    by (intro run_tests [of _ dir]) auto
  ultimately show ?thesis by (auto simp: phpt_command_def Let_def intro!: reads_as_runI)
qed

lemma go_commands_read:
  assumes "set dirs = go_dir ` set ps" and "c \<in> set (go_commands dirs ps)"
  shows "reads_as_run c"
proof -
  have c: "dirs \<noteq> []" "c = mk_command (''go test'' @ '' '' @ path_args dirs) (sort ps) ''go'' SOURCE_CONVENTION"
    using assms(2) by (auto simp: go_commands_def split: if_splits)
  have "anchored (go_dir p) = go_dir p" for p by (simp add: anchored_def go_dir_def)
  then have "anchored d = d" if "d \<in> set dirs" for d using assms(1) that by (metis imageE)
  then have a: "map anchored dirs = dirs" by (simp add: map_idI)
  have "runs ''go'' (sort ps) (map Word ([''go'', ''test''] @ dirs))" by (rule go) (use assms(1) c(1) in simp_all)
  then show ?thesis unfolding c(2) using reads_runner_args [OF reads_words(10), of dirs] unfolding a
    by (rule reads_as_runI [rotated])
qed

lemma reads_tests:
  "sh_words (join_with CHR '' '' (map (\<lambda>c. ''--tests '' @ shell_quote c) classes)) =
     Some (map Word (concat (map (\<lambda>c. [''--tests'', c]) classes)))"
proof -
  have "sh_words (''--tests '' @ shell_quote c) = Some [Word ''--tests'', Word c]" for c
    using reads_two [OF reads_words(5) reads_quote_word, of c] by simp
  then have "list_all2 (\<lambda>t w. sh_words t = Some w) (map (\<lambda>c. ''--tests '' @ shell_quote c) classes)
      (map (\<lambda>c. [Word ''--tests'', Word c]) classes)"
    by (simp add: list_all2_map1 list_all2_map2 list_all2_same)
  from reads_join [OF this] show ?thesis by (simp add: map_concat comp_def)
qed

lemma java_commands_read:
  assumes j: "\<forall>(c, ps) \<in> set java. flag_safe c \<and> ps \<noteq> [] \<and> list_all (\<lambda>p. stem p = c) ps"
    and c: "c \<in> set (java_commands root java)"
  shows "reads_as_run c"
proof -
  let ?classes = "map fst java"
  let ?covers = "sort (concat (map snd java))"
  have ne: "?classes \<noteq> []" using c by (auto simp: java_commands_def split: if_splits)
  have safe: "list_all flag_safe ?classes" using j by (auto simp: list_all_iff)
  have st: "set ?classes = stem ` set ?covers"
  proof (intro equalityI subsetI)
    fix x assume "x \<in> set ?classes"
    then obtain ps where e: "(x, ps) \<in> set java" by auto
    then have "ps \<noteq> []" "list_all (\<lambda>p. stem p = x) ps" using j by auto
    then obtain p where "p \<in> set ps" "stem p = x" by (cases ps) auto
    then show "x \<in> stem ` set ?covers" using e by force
  qed (use j in \<open>force simp: list_all_iff\<close>)
  have maven_text: "sh_words (''mvn'' @ '' '' @ (''-Dtest='' @ shell_quote t) @ '' '' @ ''test'') =
      Some (map Word ([''mvn''] @ [''-Dtest='' @ t] @ [''test'']))" for t
  proof (intro reads_two reads_words)
    show "sh_words (''-Dtest='' @ shell_quote t) = Some (map Word [''-Dtest='' @ t])"
      using sh_read_safe [of "''-Dtest=''" None "shell_quote t"] sh_read_quote [of "Some ''-Dtest=''" t "[]"]
      by (simp add: sh_words_def shell_safe_byte_def)
  qed
  show ?thesis
  proof (cases "\<not> root_has root [''pom.xml''] \<and> root_has root [''build.gradle'', ''build.gradle.kts'']")
    case True
    then have "c = mk_command (''gradle test '' @ join_with CHR '' '' (map (\<lambda>c. ''--tests '' @ c) (map shell_quote ?classes))) ?covers
        ''gradle'' SOURCE_CONVENTION"
      using c ne unfolding java_commands_def Let_def by (simp add: comp_def)
    then have "c = mk_command (''gradle test'' @ '' '' @ join_with CHR '' '' (map (\<lambda>c. ''--tests '' @ shell_quote c) ?classes)) ?covers
        ''gradle'' SOURCE_CONVENTION"
      unfolding map_map comp_def by simp
    then show ?thesis using reads_as_runI [OF reads_two [OF reads_words(11) reads_tests] gradle [OF ne st safe]] by metis
  next
    case False
    then have t: "c = mk_command (''mvn'' @ '' '' @ (''-Dtest='' @ shell_quote (join_with CHR '','' ?classes)) @ '' '' @ ''test'') ?covers
        ''maven'' SOURCE_CONVENTION"
      using c ne unfolding java_commands_def Let_def by auto
    have "runs ''maven'' ?covers (map Word ([''mvn''] @ [''-Dtest='' @ join_with CHR '','' ?classes] @ [''test'']))"
      using maven [OF ne st] by simp
    then show ?thesis unfolding t by (intro reads_as_runI [OF maven_text])
  qed
qed

lemma js_commands_read:
  assumes "c \<in> set (jc_commands (js_commands_of j root paths))"
  shows "reads_as_run c"
proof -
  obtain dir runner rels where "js_runs c dir runner rels" using js_commands_run [OF assms] by blast
  then obtain ts where r: "rels \<noteq> []" "tc_framework c = framework runner" "tc_covers c = map (under_dir dir) rels"
    "list_all (\<lambda>rel. unspellable runner rel = None) rels" "sh_words (tc_command c) = Some (in_dir dir ts)"
    "started_words ts = Some (map Word (runner_words runner rels @ map (raw_arg runner) rels))"
    "ts = map Word (runner_words runner rels @ map (raw_arg runner) rels) \<and> hd (runner_words runner rels) = ''npx''
       \<longrightarrow> \<not> list_ex npx_reexpands (map (raw_arg runner) rels)"
    unfolding js_runs_def by blast
  show ?thesis unfolding reads_as_run_def r(2,3) using js [OF r(1,4,6,7)] r(5) by (intro exI conjI)
qed

section \<open>The buckets\<close>

named_theorems classify_frame "what the classification of one file leaves alone"

lemma classify_rust_frame [classify_frame]:
  "bk_python (classify_rust root p b) = bk_python b"
  "bk_php (classify_rust root p b) = bk_php b"
  "bk_phpt_dirs (classify_rust root p b) = bk_phpt_dirs b"
  "bk_go_dirs (classify_rust root p b) = bk_go_dirs b"
  "bk_go_paths (classify_rust root p b) = bk_go_paths b"
  "bk_js (classify_rust root p b) = bk_js b"
  "bk_java (classify_rust root p b) = bk_java b"
  by (simp_all add: classify_rust_def Let_def split: prod.split option.split)

definition by_ext :: "string \<Rightarrow> string list \<Rightarrow> string list" where
  "by_ext e ps = filter (\<lambda>p. test_extension p = e) ps"

definition is_js :: "string \<Rightarrow> bool" where
  "is_js p \<longleftrightarrow> test_extension p \<in> set JS_EXTENSIONS"

text \<open>The key of a file in the map of its extension.\<close>

definition phpt_key :: "string \<Rightarrow> string option" where
  "phpt_key p = (if test_extension p = ''phpt'' then Some (parent_dir p) else None)"

definition java_key :: "string \<Rightarrow> string option" where
  "java_key p = (if test_extension p = ''java'' then Some (stem p) else None)"

lemma classify_python: "bk_python (classify root p b) = bk_python b @ by_ext ''py'' [p]"
  by (simp add: classify_def by_ext_def Let_def classify_frame)

lemma classify_php: "bk_php (classify root p b) = bk_php b @ by_ext ''php'' [p]"
  by (simp add: classify_def by_ext_def Let_def classify_frame)

lemma classify_go_paths: "bk_go_paths (classify root p b) = bk_go_paths b @ by_ext ''go'' [p]"
  by (simp add: classify_def by_ext_def Let_def classify_frame)

lemma classify_js: "bk_js (classify root p b) = bk_js b @ filter is_js [p]"
  by (simp add: classify_def is_js_def JS_EXTENSIONS_def Let_def classify_frame)

lemma classify_phpt: "bk_phpt_dirs (classify root p b) = push_key phpt_key p (bk_phpt_dirs b)"
  by (simp add: classify_def push_key_def phpt_key_def Let_def classify_frame)

lemma classify_java: "bk_java (classify root p b) = push_key java_key p (bk_java b)"
  by (simp add: classify_def push_key_def java_key_def JS_EXTENSIONS_def Let_def classify_frame)

lemma set_btree_add [simp]: "set (btree_add x xs) = insert x (set xs)"
  by (induction xs) auto

lemma classify_go_dirs: "set (bk_go_dirs (classify root p b)) = set (bk_go_dirs b) \<union> go_dir ` set (by_ext ''go'' [p])"
  by (simp add: classify_def by_ext_def Let_def classify_frame)

lemma fold_by_ext:
  assumes "\<And>p b. field (classify root p b) = field b @ filter P [p]"
  shows "field (fold (classify root) ps b) = field b @ filter P ps"
  by (induction ps arbitrary: b) (simp_all add: assms)

lemma fold_fields:
  "bk_python (fold (classify root) ps b) = bk_python b @ by_ext ''py'' ps"
  "bk_php (fold (classify root) ps b) = bk_php b @ by_ext ''php'' ps"
  "bk_go_paths (fold (classify root) ps b) = bk_go_paths b @ by_ext ''go'' ps"
  "bk_js (fold (classify root) ps b) = bk_js b @ filter is_js ps"
  unfolding by_ext_def
  by (rule fold_by_ext, rule classify_python [unfolded by_ext_def] classify_php [unfolded by_ext_def]
      classify_go_paths [unfolded by_ext_def] classify_js)+

lemma fold_classify_go_dirs:
  "set (bk_go_dirs (fold (classify root) ps b)) = set (bk_go_dirs b) \<union> go_dir ` set (by_ext ''go'' ps)"
  by (induction ps arbitrary: b) (auto simp: classify_go_dirs by_ext_def)

lemma fold_classify_phpt: "bk_phpt_dirs (fold (classify root) ps b) = fold (push_key phpt_key) ps (bk_phpt_dirs b)"
  by (induction ps arbitrary: b) (simp_all add: classify_phpt)

lemma fold_classify_java: "bk_java (fold (classify root) ps b) = fold (push_key java_key) ps (bk_java b)"
  by (induction ps arbitrary: b) (simp_all add: classify_java)

text \<open>What the buckets hold once every file is classified.\<close>

lemma classified_buckets:
  "bk_python (classified root ps withheld memo notes) = by_ext ''py'' ps"
  "bk_php (classified root ps withheld memo notes) = by_ext ''php'' ps"
  "bk_go_paths (classified root ps withheld memo notes) = by_ext ''go'' ps"
  "bk_js (classified root ps withheld memo notes) = filter is_js ps"
  "set (bk_go_dirs (classified root ps withheld memo notes)) = go_dir ` set (by_ext ''go'' ps)"
  "bk_java (classified root ps withheld memo notes) = fold (push_key java_key) ps []"
  "bk_phpt_dirs (classified root ps withheld memo notes) =
     fold (\<lambda>p. btree_touch (parent_dir p)) withheld (fold (push_key phpt_key) ps [])"
  by (simp_all add: classified_def start_buckets_def Let_def fold_fields fold_classify_go_dirs fold_classify_phpt
      fold_classify_java)

lemma touch_list: "btree_list (btree_touch d m) k = btree_list m k"
  by (simp add: map_of_btree_touch)

lemma touches_list: "btree_list (fold (\<lambda>p. btree_touch (parent_dir p)) ws m) k = btree_list m k"
  by (induction ws arbitrary: m) (simp_all add: touch_list)

lemma btree_ok_touches: "btree_ok m \<Longrightarrow> btree_ok (fold (\<lambda>p. btree_touch (parent_dir p)) ws m)"
  by (induction ws arbitrary: m) simp_all

lemma phpt_entries:
  assumes "(dir, qs) \<in> set (bk_phpt_dirs (classified root ps withheld memo notes))"
  shows "qs = filter (\<lambda>p. phpt_key p = Some dir) ps"
proof -
  let ?m = "bk_phpt_dirs (classified root ps withheld memo notes)"
  have "btree_ok ?m" unfolding classified_buckets by (intro btree_ok_touches) simp
  from btree_mem_iff [OF this] have "map_of ?m dir = Some qs" using assms by (rule iffD1)
  then have "btree_list ?m dir = qs" by simp
  then show ?thesis unfolding classified_buckets touches_list push_keys_list by simp
qed

section \<open>The Rust bucket\<close>

text \<open>
  Every entry of the Rust bucket is a classified file with its target in the crate it is filed below, and every
  classified Rust file has an entry or a note that says which target was left out.
\<close>

definition rust_entries_ok :: "(string \<times> (rust_crate \<times> rust_entry list)) list \<Rightarrow> string set \<Rightarrow> bool" where
  "rust_entries_ok m seen \<longleftrightarrow>
     btree_ok m
     \<and> (\<forall>dir k es. (dir, (k, es)) \<in> set m \<longrightarrow>
          rc_dir k = dir \<and> (\<forall>(t, p) \<in> set es. p \<in> seen \<and> t = rust_integration_target k p \<and> (\<forall>n. t = Some n \<longrightarrow> flag_safe n)))"

definition filed :: "(string \<times> (rust_crate \<times> rust_entry list)) list \<Rightarrow> string \<Rightarrow> bool" where
  "filed m p \<longleftrightarrow> (\<exists>dir k es t. (dir, (k, es)) \<in> set m \<and> (t, p) \<in> set es)"

definition left_out :: "fs option \<Rightarrow> string list \<Rightarrow> string \<Rightarrow> bool" where
  "left_out root notes p \<longleftrightarrow>
     (\<exists>t. rust_integration_target (crate_of root p) p = Some t \<and> \<not> flag_safe t
        \<and> dropped_token_note ''cargo test target'' t \<in> set notes)"

definition rust_bucket_ok :: "fs option \<Rightarrow> string set \<Rightarrow> buckets \<Rightarrow> bool" where
  "rust_bucket_ok root seen b \<longleftrightarrow>
     memo_ok_at root (bk_memo b) \<and> rust_entries_ok (bk_rust b) seen
     \<and> (\<forall>p \<in> seen. test_extension p = ''rs'' \<longrightarrow> filed (bk_rust b) p \<or> left_out root (bk_notes b) p)"

lemma target_dir_only: "rc_dir k = rc_dir k' \<Longrightarrow> rust_integration_target k p = rust_integration_target k' p"
  by (simp add: rust_integration_target_def rest_under_def)

lemma push_rust_map_of:
  "map_of (push_rust kr e m) =
     (map_of m)(rc_dir kr \<mapsto> (case map_of m (rc_dir kr) of None \<Rightarrow> (kr, [e]) | Some (k, es) \<Rightarrow> (k, es @ [e])))"
  by (auto simp: push_rust_def split: option.split)

lemma push_rust_ok:
  assumes "btree_ok m"
  shows "btree_ok (push_rust kr e m)"
  using assms by (auto simp: push_rust_def split: option.split)

lemma push_rust_mem:
  assumes "btree_ok m"
  shows "(d, (k, es)) \<in> set (push_rust kr e m) \<longleftrightarrow>
    (if d = rc_dir kr then (k, es) = (case map_of m d of None \<Rightarrow> (kr, [e]) | Some (k, es) \<Rightarrow> (k, es @ [e]))
     else (d, (k, es)) \<in> set m)"
  unfolding btree_mem_iff [OF push_rust_ok [OF assms]] btree_mem_iff [OF assms] push_rust_map_of by auto

lemma push_rust_entries_ok:
  assumes ok: "rust_entries_ok m seen" and e: "t = rust_integration_target kr p" "\<And>n. t = Some n \<Longrightarrow> flag_safe n"
  shows "rust_entries_ok (push_rust kr (t, p) m) (insert p seen)"
proof -
  have m: "btree_ok m" using ok by (simp add: rust_entries_ok_def)
  have "rc_dir k = dir \<and> (\<forall>(t, q) \<in> set es. q \<in> insert p seen \<and> t = rust_integration_target k q \<and> (\<forall>n. t = Some n \<longrightarrow> flag_safe n))"
    if mem: "(dir, (k, es)) \<in> set (push_rust kr (t, p) m)" for dir k es
  proof (cases "dir = rc_dir kr")
    case False
    then have "(dir, (k, es)) \<in> set m" using mem push_rust_mem [OF m, of dir k es kr "(t, p)"] by simp
    then show ?thesis using ok unfolding rust_entries_ok_def by fastforce
  next
    case dir: True
    show ?thesis
    proof (cases "map_of m dir")
      case None
      then have "k = kr" "es = [(t, p)]" using mem dir push_rust_mem [OF m, of dir k es kr "(t, p)"] by simp_all
      then show ?thesis using dir e by simp
    next
      case (Some v)
      obtain k' es' where v: "v = (k', es')" by (cases v)
      then have k: "k = k'" "es = es' @ [(t, p)]"
        using mem dir Some push_rust_mem [OF m, of dir k es kr "(t, p)"] by simp_all
      have "(dir, (k', es')) \<in> set m" using Some v btree_mem_iff [OF m] by simp
      then have o: "rc_dir k' = dir" "\<forall>(t, q) \<in> set es'. q \<in> seen \<and> t = rust_integration_target k' q \<and> (\<forall>n. t = Some n \<longrightarrow> flag_safe n)"
        using ok unfolding rust_entries_ok_def by blast+
      have "t = rust_integration_target k' p" using e(1) o(1) dir target_dir_only [of k' kr] by simp
      then show ?thesis using o e(2) unfolding k by fastforce
    qed
  qed
  then show ?thesis unfolding rust_entries_ok_def using push_rust_ok [OF m] by blast
qed

lemma filed_iff: "btree_ok m \<Longrightarrow> filed m q \<longleftrightarrow> (\<exists>dir k es t. map_of m dir = Some (k, es) \<and> (t, q) \<in> set es)"
  by (simp add: filed_def btree_mem_iff)

lemma push_rust_filed:
  assumes m: "btree_ok m" and q: "filed m q \<or> q = p"
  shows "filed (push_rust kr (t, p) m) q"
proof -
  obtain k2 es2 where new: "(case map_of m (rc_dir kr) of None \<Rightarrow> (kr, [(t, p)]) | Some (k, es) \<Rightarrow> (k, es @ [(t, p)])) = (k2, es2)"
    by fastforce
  have at: "map_of (push_rust kr (t, p) m) (rc_dir kr) = Some (k2, es2)" using new by (simp add: push_rust_map_of)
  have elsewhere: "map_of (push_rust kr (t, p) m) dir = map_of m dir" if "dir \<noteq> rc_dir kr" for dir
    using that by (simp add: push_rust_map_of)
  have p: "(t, p) \<in> set es2" using new by (auto split: option.splits)
  have keeps: "map_of m (rc_dir kr) = Some (k, es) \<Longrightarrow> set es \<subseteq> set es2" for k es using new by auto
  from q show ?thesis unfolding filed_iff [OF push_rust_ok [OF m]]
  proof
    assume "filed m q"
    then obtain dir k es t' where d: "map_of m dir = Some (k, es)" "(t', q) \<in> set es" unfolding filed_iff [OF m] by blast
    show "\<exists>dir k es t'. map_of (push_rust kr (t, p) m) dir = Some (k, es) \<and> (t', q) \<in> set es"
    proof (cases "dir = rc_dir kr")
      case True
      then have "(t', q) \<in> set es2" using keeps [of k es] d by auto
      then show ?thesis using at by (intro exI conjI)
    next
      case False
      show ?thesis by (intro exI conjI, rule elsewhere [OF False, unfolded d(1)], rule d(2))
    qed
  next
    assume "q = p"
    then show "\<exists>dir k es t'. map_of (push_rust kr (t, p) m) dir = Some (k, es) \<and> (t', q) \<in> set es"
      using at p by (intro exI conjI) simp_all
  qed
qed

lemma classify_other:
  assumes "test_extension p \<noteq> ''rs''"
  shows "bk_rust (classify root p b) = bk_rust b" "bk_notes (classify root p b) = bk_notes b"
    "bk_memo (classify root p b) = bk_memo b"
  using assms by (simp_all add: classify_def Let_def)

lemma rust_entries_ok_mono: "rust_entries_ok m seen \<Longrightarrow> rust_entries_ok m (insert p seen)"
  unfolding rust_entries_ok_def by fastforce

lemma left_out_mono: "left_out root notes p \<Longrightarrow> left_out root (notes @ rest) p"
  by (auto simp: left_out_def)

text \<open>What a Rust file becomes: a note when its target cannot follow a flag, an entry otherwise.\<close>

lemma classify_rust_cases:
  assumes "memo_ok_at root (bk_memo b)"
  obtains memo t where "memo_ok_at root memo" and "rust_integration_target (crate_of root p) p = Some t" and "\<not> flag_safe t"
    and "classify_rust root p b = b\<lparr>bk_memo := memo, bk_notes := bk_notes b @ [dropped_token_note ''cargo test target'' t]\<rparr>"
  | memo where "memo_ok_at root memo" and "\<And>n. rust_integration_target (crate_of root p) p = Some n \<Longrightarrow> flag_safe n"
    and "classify_rust root p b =
      b\<lparr>bk_memo := memo, bk_rust := push_rust (crate_of root p) (rust_integration_target (crate_of root p) p, p) (bk_rust b)\<rparr>"
proof -
  obtain memo where m: "for_path root p (bk_memo b) = (crate_of root p, memo)" "memo_ok_at root memo"
    by (rule crates.get_cases [OF assms])
  show ?thesis
  proof (cases "\<exists>t. rust_integration_target (crate_of root p) p = Some t \<and> \<not> flag_safe t")
    case True
    then obtain t where t: "rust_integration_target (crate_of root p) p = Some t" "\<not> flag_safe t" by blast
    show ?thesis by (rule that(1) [OF m(2) t]) (simp add: classify_rust_def m t)
  next
    case False
    show ?thesis
      by (rule that(2) [OF m(2)]) (use False in \<open>auto simp: classify_rust_def m Let_def split: option.split\<close>)
  qed
qed

lemma classify_rust_bucket_ok:
  assumes ok: "rust_bucket_ok root seen b"
  shows "rust_bucket_ok root (insert p seen) (classify root p b)"
proof (cases "test_extension p = ''rs''")
  case False
  have "rust_entries_ok (bk_rust b) (insert p seen)"
    using ok rust_entries_ok_mono by (simp add: rust_bucket_ok_def)
  then show ?thesis using ok False unfolding rust_bucket_ok_def classify_other [OF False] by blast
next
  case True
  have c: "classify root p b = classify_rust root p b" using True by (simp add: classify_def)
  have m: "memo_ok_at root (bk_memo b)" and e: "rust_entries_ok (bk_rust b) seen"
    and acc: "\<And>q. q \<in> seen \<Longrightarrow> test_extension q = ''rs'' \<Longrightarrow> filed (bk_rust b) q \<or> left_out root (bk_notes b) q"
    using ok by (auto simp: rust_bucket_ok_def)
  show ?thesis
  proof (rule classify_rust_cases [OF m, of p], goal_cases)
    case (1 memo t)
    let ?notes = "bk_notes b @ [dropped_token_note ''cargo test target'' t]"
    have "left_out root ?notes p" using 1(2,3) by (auto simp: left_out_def)
    moreover have "filed (bk_rust b) q \<or> left_out root ?notes q" if "q \<in> seen" "test_extension q = ''rs''" for q
      using acc [OF that] left_out_mono by blast
    ultimately have "\<forall>q \<in> insert p seen. test_extension q = ''rs'' \<longrightarrow> filed (bk_rust b) q \<or> left_out root ?notes q"
      by blast
    then show ?case unfolding c 1(4) rust_bucket_ok_def using 1(1) rust_entries_ok_mono [OF e, of p] by simp
  next
    case (2 memo)
    have b: "btree_ok (bk_rust b)" using e by (simp add: rust_entries_ok_def)
    let ?m = "push_rust (crate_of root p) (rust_integration_target (crate_of root p) p, p) (bk_rust b)"
    have "filed ?m q \<or> left_out root (bk_notes b) q" if "q \<in> insert p seen" "test_extension q = ''rs''" for q
      using that acc push_rust_filed [OF b] by blast
    moreover have "rust_entries_ok ?m (insert p seen)" by (rule push_rust_entries_ok [OF e refl 2(2)])
    ultimately show ?case unfolding c 2(3) rust_bucket_ok_def using 2(1) by simp
  qed
qed

lemma classified_rust_ok:
  assumes "memo_ok_at root memo"
  shows "rust_bucket_ok root (set ps) (classified root ps withheld memo notes)"
proof -
  have "rust_bucket_ok root (seen \<union> set ps) (fold (classify root) ps b)" if "rust_bucket_ok root seen b" for seen b
    using that
  proof (induction ps arbitrary: seen b)
    case (Cons p ps)
    then show ?case using Cons.IH [OF classify_rust_bucket_ok [OF Cons.prems, of p]] by simp
  qed simp
  from this [of "{}" "start_buckets memo notes"] show ?thesis
    using assms by (simp add: classified_def rust_bucket_ok_def rust_entries_ok_def start_buckets_def Let_def)
qed

section \<open>All convention commands\<close>

lemma java_entries:
  assumes "(c, qs) \<in> set (bk_java (classified root ps withheld memo notes))"
  shows "qs \<noteq> [] \<and> qs = filter (\<lambda>p. java_key p = Some c) ps"
  using assms unfolding classified_buckets push_keys_mem by blast

lemma phpt_entries_parent:
  assumes "(dir, qs) \<in> set (bk_phpt_dirs (classified root ps withheld memo notes))"
  shows "list_all (\<lambda>p. parent_dir p = dir) qs"
  unfolding phpt_entries [OF assms] by (auto simp: list_all_iff phpt_key_def split: if_splits)

text \<open>The commands of the convention, family by family.\<close>

lemma convention_cases:
  assumes "c \<in> set (fst (convention_commands j root ps withheld memo notes))"
  obtains (rust) dir k es where "(dir, (k, es)) \<in> set (bk_rust (classified root ps withheld memo notes))"
      and "c \<in> set (rust_commands k es)"
  | (python) "c \<in> set (python_commands (by_ext ''py'' ps) SOURCE_CONVENTION)"
  | (php) "c \<in> set (php_commands root (by_ext ''php'' ps))"
  | (phpt) dir qs where "(dir, qs) \<in> set (bk_phpt_dirs (classified root ps withheld memo notes))" and "c = phpt_command (dir, qs)"
  | (go) "c \<in> set (go_commands (bk_go_dirs (classified root ps withheld memo notes)) (by_ext ''go'' ps))"
  | (js) "c \<in> set (jc_commands (js_commands_of j root (sort (filter is_js ps))))"
  | (java) "c \<in> set (java_commands root (filter (\<lambda>(c, _). flag_safe c) (bk_java (classified root ps withheld memo notes))))"
  using assms unfolding convention_commands_def Let_def fst_conv set_append Un_iff set_concat set_map
    classified_buckets(1-4)
  by (elim disjE UN_E imageE) (auto split: if_splits)

lemma java_entries_ok:
  "\<forall>(c, qs) \<in> set (filter (\<lambda>(c, _). flag_safe c) (bk_java (classified root ps withheld memo notes))).
     flag_safe c \<and> qs \<noteq> [] \<and> list_all (\<lambda>p. stem p = c) qs"
proof (rule ballI, clarify)
  fix c qs
  assume "(c, qs) \<in> set (filter (\<lambda>(c, _). flag_safe c) (bk_java (classified root ps withheld memo notes)))"
  then have "flag_safe c" and m: "(c, qs) \<in> set (bk_java (classified root ps withheld memo notes))" by auto
  from java_entries [OF m] have q: "qs \<noteq> []" "qs = filter (\<lambda>p. java_key p = Some c) ps" by blast+
  have "list_all (\<lambda>p. stem p = c) qs" unfolding q(2) by (auto simp: list_all_iff java_key_def split: if_splits)
  then show "flag_safe c \<and> qs \<noteq> [] \<and> list_all (\<lambda>p. stem p = c) qs" using \<open>flag_safe c\<close> q(1) by blast
qed

lemma rust_entries_of:
  assumes "memo_ok_at root memo" and "(dir, (k, es)) \<in> set (bk_rust (classified root ps withheld memo notes))"
  shows "\<forall>(t, p) \<in> set es. t = rust_integration_target k p \<and> (\<forall>n. t = Some n \<longrightarrow> flag_safe n)"
  using classified_rust_ok [OF assms(1), of ps withheld "notes"] assms(2)
  unfolding rust_bucket_ok_def rust_entries_ok_def by fastforce

lemma convention_commands_read:
  assumes m: "memo_ok_at root memo" and c: "c \<in> set (fst (convention_commands j root ps withheld memo notes))"
  shows "reads_as_run c"
  using c
proof (cases rule: convention_cases)
  case (rust dir k es)
  show ?thesis by (rule rust_commands_read [OF rust_entries_of [OF m rust(1)] rust(2)])
next
  case (phpt dir qs)
  show ?thesis unfolding phpt(2) by (rule phpt_command_read [OF phpt_entries_parent [OF phpt(1)]])
next
  case go
  show ?thesis by (rule go_commands_read [OF classified_buckets(5) go])
next
  case java
  show ?thesis by (rule java_commands_read [OF java_entries_ok java])
qed (auto intro: python_commands_read php_commands_read js_commands_read)

lemma rust_commands_source: "c \<in> set (rust_commands k es) \<Longrightarrow> tc_source c = SOURCE_CONVENTION"
  by (auto simp: rust_commands_def mk_command_def Let_def split: if_splits)

lemma js_commands_source:
  assumes "c \<in> set (jc_commands (js_commands_of j root ps))"
  shows "tc_source c = SOURCE_CONVENTION"
proof (cases root)
  case (Some r)
  then obtain dir runner qs where "c = group_command dir runner qs"
    using assms unfolding js_commands_unfold(1) [OF Some] js_groups_commands by auto
  then show ?thesis by (simp add: group_command_def mk_command_def Let_def)
qed (use assms in \<open>simp add: js_commands_of_def\<close>)

lemma convention_commands_source:
  assumes c: "c \<in> set (fst (convention_commands j root ps withheld memo notes))"
  shows "tc_source c = SOURCE_CONVENTION"
  using c
proof (cases rule: convention_cases)
  case (rust dir k es)
  show ?thesis by (rule rust_commands_source [OF rust(2)])
next
  case js
  then show ?thesis by (rule js_commands_source)
qed (auto simp: python_commands_def php_commands_def phpt_command_def go_commands_def java_commands_def mk_command_def Let_def
      split: if_splits)

section \<open>Inline commands\<close>

definition inline_ok :: "fs option \<Rightarrow> inline_state \<Rightarrow> bool" where
  "inline_ok root st \<longleftrightarrow>
     memo_ok_at root (is_memo st) \<and> list_all (\<lambda>c. reads_as_run c \<and> tc_source c = SOURCE_INLINE) (is_commands st)"

lemma inline_command_read:
  assumes "flag_safe m" and "\<And>t. bin = Some t \<Longrightarrow> flag_safe t"
  shows "reads_as_run (mk_command (inline_invocation k bin m) [m] ''cargo'' SOURCE_INLINE)"
proof (cases bin)
  case None
  have "sh_words ((''cargo test'' @ package_flag k) @ '' '' @ shell_quote (m @ ''::'')) =
      Some (map Word (([''cargo'', ''test''] @ package_words k) @ [m @ ''::'']))"
    by (intro reads_two reads_suite reads_quote_word)
  moreover have "runs ''cargo'' [m] (map Word (([''cargo'', ''test''] @ package_words k) @ [m @ ''::'']))"
    using cargo_filter [OF assms(1), of k] by simp
  ultimately show ?thesis unfolding None inline_invocation_def option.case append_assoc by (rule reads_as_runI)
next
  case (Some t)
  have "sh_words (''cargo test'' @ package_flag k @ '' --bin '' @ shell_quote t) =
      Some (map Word ([''cargo'', ''test''] @ package_words k @ [''--bin'', t]))"
    using reads_suite_flag [OF reads_words(4), of k t] by simp
  from reads_as_runI [OF this cargo_binary [OF assms(2) [OF Some]]]
  show ?thesis unfolding Some inline_invocation_def option.case .
qed

lemma inline_modules_ok:
  assumes "inline_ok root st" and "list_all flag_safe (case bin of None \<Rightarrow> [] | Some t \<Rightarrow> [t])"
  shows "inline_ok root (inline_modules p k bin path ms st)"
  using assms
proof (induction p k bin path ms st rule: inline_modules.induct)
  case (2 p k bin path name count ms st)
  let ?m = "if path = [] then name else path @ ''::'' @ name"
  have s: "tc_source (mk_command t cs fw SOURCE_INLINE) = SOURCE_INLINE" for t cs fw by (simp add: mk_command_def)
  show ?case
  proof (cases "flag_safe ?m")
    case True
    have "reads_as_run (mk_command (inline_invocation k bin ?m) [?m] ''cargo'' SOURCE_INLINE)"
      by (rule inline_command_read [OF True]) (use "2.prems"(2) in simp)
    then show ?thesis using 2 True s by (simp add: inline_ok_def Let_def)
  next
    case False
    then show ?thesis using 2 by (simp add: inline_ok_def Let_def)
  qed
qed simp

lemma inline_rust_ok:
  assumes "inline_ok root st"
  shows "inline_ok root (inline_rust root p symbols st)"
proof -
  have m: "memo_ok_at root (is_memo st)" using assms by (simp add: inline_ok_def)
  obtain memo where f: "for_path root p (is_memo st) = (crate_of root p, memo)" "memo_ok_at root memo"
    by (rule crates.get_cases [OF m])
  have ok: "inline_ok root (st\<lparr>is_memo := memo\<rparr>)" using assms f(2) by (simp add: inline_ok_def)
  then have "inline_ok root (st\<lparr>is_memo := memo, is_notes := ns\<rparr>)" for ns by (simp add: inline_ok_def)
  then show ?thesis
    using assms ok inline_modules_ok [OF ok]
    unfolding inline_rust_def f(1) Let_def prod.case by (auto split: option.split)
qed

lemma inline_loop_ok: "inline_loop db root tests n changed st = Inr st' \<Longrightarrow> inline_ok root st \<Longrightarrow> inline_ok root st'"
proof (induction db root tests n changed st rule: inline_loop.induct)
  case (2 db root tests n p g changed st)
  have "inline_ok root (inline_python p symbols st)" for symbols
    using "2.prems"(2) by (simp add: inline_python_def inline_ok_def Let_def)
  then show ?case using 2 inline_rust_ok [OF "2.prems"(2)] by (auto split: option.splits sum.splits if_splits)
qed simp

lemma inline_commands_ok:
  assumes "memo_ok_at root memo" and "inline_commands db root tests changed memo ns = Inr (cmds, modules, memo', ns')"
  shows "memo_ok_at root memo' \<and> list_all (\<lambda>c. reads_as_run c \<and> tc_source c = SOURCE_INLINE) cmds"
proof -
  obtain st where st: "inline_loop db root tests 0 changed
      \<lparr>is_commands = [], is_modules = [], is_python = [], is_memo = memo, is_notes = ns\<rparr> = Inr st"
    and r: "cmds = is_commands st @ python_commands (is_python st) SOURCE_INLINE" "memo' = is_memo st"
    using assms(2) by (auto simp: inline_commands_def split: sum.splits)
  have "inline_ok root st" by (rule inline_loop_ok [OF st]) (use assms(1) in \<open>simp add: inline_ok_def\<close>)
  moreover have "tc_source c = SOURCE_INLINE" if "c \<in> set (python_commands ps SOURCE_INLINE)" for c ps
    using that by (auto simp: python_commands_def mk_command_def split: if_splits)
  ultimately show ?thesis using python_commands_read by (auto simp: inline_ok_def r list_all_iff)
qed

lemma feature_commands_source:
  assumes "feature_commands db n changed = Inr (cmds, ns)"
  shows "list_all (\<lambda>c. tc_source c = SOURCE_FEATURE) cmds"
  using assms by (auto simp: feature_commands_def mk_command_def list_all_iff split: sum.splits)

section \<open>The merge keeps every command\<close>

text \<open>What the commands with one text cover together.\<close>

definition all_covers :: "test_command list \<Rightarrow> string \<Rightarrow> string set" where
  "all_covers cs t = (\<Union>c \<in> {c \<in> set cs. tc_command c = t}. set (tc_covers c))"

lemma all_covers_simps [simp]:
  "all_covers [] t = {}"
  "all_covers (c # cs) t = (if tc_command c = t then set (tc_covers c) else {}) \<union> all_covers cs t"
  "all_covers (cs @ ds) t = all_covers cs t \<union> all_covers ds t"
  by (auto simp: all_covers_def)

lemma all_covers_none: "t \<notin> tc_command ` set cs \<Longrightarrow> all_covers cs t = {}"
  by (auto simp: all_covers_def)

text \<open>One command stands for all the commands of its text, under the source and the framework of one of them.\<close>

definition stands_for :: "test_command list \<Rightarrow> test_command \<Rightarrow> bool" where
  "stands_for cs c \<longleftrightarrow>
     set (tc_covers c) = all_covers cs (tc_command c)
     \<and> (\<exists>d \<in> set cs. tc_command d = tc_command c \<and> tc_source d = tc_source c \<and> tc_framework d = tc_framework c)"

definition text_map_ok :: "test_command list \<Rightarrow> (string \<times> test_command) list \<Rightarrow> bool" where
  "text_map_ok cs m \<longleftrightarrow>
     btree_ok m \<and> dom (map_of m) = tc_command ` set cs
     \<and> (\<forall>t c. map_of m t = Some c \<longrightarrow> tc_command c = t \<and> stands_for cs c)"

lemma stands_for_other: "stands_for cs c \<Longrightarrow> tc_command d \<noteq> tc_command c \<Longrightarrow> stands_for (cs @ [d]) c"
  by (auto simp: stands_for_def)

lemma by_text_ok:
  assumes ok: "text_map_ok cs m"
  shows "text_map_ok (cs @ [d]) (by_text d m)"
proof -
  have m: "btree_ok m" and dom: "dom (map_of m) = tc_command ` set cs"
    and val: "\<And>t c. map_of m t = Some c \<Longrightarrow> tc_command c = t \<and> stands_for cs c"
    using ok by (auto simp: text_map_ok_def)
  define v where "v = (case map_of m (tc_command d) of Some e \<Rightarrow> e\<lparr>tc_covers := tc_covers e @ tc_covers d\<rparr> | None \<Rightarrow> d)"
  have b: "by_text d m = btree_insert (tc_command d) v m" by (simp add: by_text_def v_def split: option.split)
  have v: "tc_command v = tc_command d \<and> stands_for (cs @ [d]) v"
  proof (cases "map_of m (tc_command d)")
    case None
    then have "tc_command d \<notin> tc_command ` set cs" using dom by auto
    then show ?thesis using None all_covers_none by (simp add: v_def stands_for_def)
  next
    case (Some e)
    have e: "tc_command e = tc_command d" "stands_for cs e" using val [OF Some] by blast+
    have "\<exists>x \<in> set cs. tc_command x = tc_command d \<and> tc_source x = tc_source e \<and> tc_framework x = tc_framework e"
      using e unfolding stands_for_def by metis
    moreover have "set (tc_covers e) = all_covers cs (tc_command d)" using e unfolding stands_for_def by metis
    ultimately show ?thesis using e(1) Some by (auto simp: v_def stands_for_def)
  qed
  have "tc_command c = t \<and> stands_for (cs @ [d]) c" if "map_of (by_text d m) t = Some c" for t c
  proof (cases "t = tc_command d")
    case True
    then show ?thesis using that v by (simp add: b)
  next
    case False
    then have "map_of m t = Some c" using that by (simp add: b)
    then have "tc_command c = t" "stands_for cs c" using val by blast+
    then show ?thesis using False stands_for_other [of cs c d] by metis
  qed
  moreover have "btree_ok (by_text d m)" using m by (simp add: b)
  moreover have "dom (map_of (by_text d m)) = tc_command ` set (cs @ [d])" using dom by (simp add: b)
  ultimately show ?thesis unfolding text_map_ok_def by blast
qed

lemma fold_by_text_ok: "text_map_ok cs m \<Longrightarrow> text_map_ok (cs @ ds) (fold by_text ds m)"
proof (induction ds arbitrary: cs m)
  case (Cons d ds)
  then show ?case using Cons.IH [OF by_text_ok [OF Cons.prems, of d]] by simp
qed simp

text \<open>The finished group: one command for each text, in the order of the texts.\<close>

definition merged_ok :: "test_command list \<Rightarrow> test_command list \<Rightarrow> bool" where
  "merged_ok cs ms \<longleftrightarrow>
     distinct (map tc_command ms) \<and> tc_command ` set ms = tc_command ` set cs
     \<and> (\<forall>m \<in> set ms. stands_for cs m \<and> sorted_wrt (<) (tc_covers m))"

lemma stands_for_covers: "stands_for cs c \<Longrightarrow> set xs = set (tc_covers c) \<Longrightarrow> stands_for cs (c\<lparr>tc_covers := xs\<rparr>)"
  by (simp add: stands_for_def)

lemma finish_group_ok: "merged_ok cs (finish_group cs)"
proof -
  let ?m = "fold by_text cs []"
  have "text_map_ok [] []" by (simp add: text_map_ok_def)
  from fold_by_text_ok [OF this, of cs] have ok: "text_map_ok cs ?m" by simp
  then have b: "btree_ok ?m" and dom: "dom (map_of ?m) = tc_command ` set cs" by (simp_all add: text_map_ok_def)
  have val: "tc_command c = t \<and> stands_for cs c" if "(t, c) \<in> set ?m" for t c
    using ok that unfolding text_map_ok_def btree_mem_iff [OF b] by blast
  have keys: "map tc_command (finish_group cs) = map fst ?m"
    unfolding finish_group_def map_map by (rule map_cong [OF refl]) (use val in \<open>auto simp: comp_def\<close>)
  then have "distinct (map tc_command (finish_group cs))" using btree_ok_distinct [OF b] by simp
  moreover have "tc_command ` set (finish_group cs) = tc_command ` set cs"
    using arg_cong [OF keys, of set] dom by (simp add: dom_map_of_conv_image_fst)
  moreover have "stands_for cs m \<and> sorted_wrt (<) (tc_covers m)" if m: "m \<in> set (finish_group cs)" for m
  proof -
    obtain t c where tc: "(t, c) \<in> set ?m" "m = c\<lparr>tc_covers := dedup (sort (tc_covers c))\<rparr>"
      using m unfolding finish_group_def by auto
    have "stands_for cs m" unfolding tc(2) using val [OF tc(1)] by (intro stands_for_covers) (simp_all add: dedup_sort)
    then show ?thesis by (simp add: tc(2) dedup_sort)
  qed
  ultimately show ?thesis unfolding merged_ok_def by blast
qed

lemma merge_groups_fold: "merge_groups gs = fold merge_command (concat (map finish_group gs)) []"
proof -
  have "fold (\<lambda>g. fold merge_command (finish_group g)) gs ms = fold merge_command (concat (map finish_group gs)) ms" for ms
    by (induction gs arbitrary: ms) simp_all
  then show ?thesis by (simp add: merge_groups_def)
qed

lemma merge_into_text [simp]: "tc_command (merge_into c m) = tc_command m"
  by (simp add: merge_into_def Let_def)

lemma merge_into_covers [simp]: "tc_covers (merge_into c m) = dedup (sort (tc_covers m @ tc_covers c))"
  by (simp add: merge_into_def Let_def)

lemma merge_command_absent: "tc_command c \<notin> tc_command ` set ms \<Longrightarrow> merge_command c ms = ms @ [c]"
  by (induction ms) auto

lemma merge_command_present:
  "distinct (map tc_command ms) \<Longrightarrow> m \<in> set ms \<Longrightarrow> tc_command m = tc_command c \<Longrightarrow>
    \<exists>as bs. ms = as @ m # bs \<and> merge_command c ms = as @ merge_into c m # bs"
proof (induction ms)
  case (Cons x ms)
  show ?case
  proof (cases "x = m")
    case True
    then show ?thesis using Cons.prems(3) by (intro exI [of _ "[]"] exI [of _ ms]) simp
  next
    case False
    then have m: "m \<in> set ms" using Cons.prems by simp
    then have x: "tc_command x \<noteq> tc_command c" using Cons.prems by (auto simp: image_iff)
    obtain as bs where "ms = as @ m # bs" "merge_command c ms = as @ merge_into c m # bs"
      using Cons.IH [OF _ m Cons.prems(3)] Cons.prems(1) by auto
    then show ?thesis using x by (intro exI [of _ "x # as"] exI [of _ bs]) simp
  qed
qed simp

lemma stands_for_merge_into:
  assumes "stands_for cs m" and "tc_command m = tc_command c"
  shows "stands_for (cs @ [c]) (merge_into c m)"
  using assms by (auto simp: stands_for_def merge_into_def Let_def)

lemma merge_command_ok:
  assumes ok: "merged_ok cs ms" and c: "sorted_wrt (<) (tc_covers c)"
  shows "merged_ok (cs @ [c]) (merge_command c ms)"
proof (cases "tc_command c \<in> tc_command ` set ms")
  case False
  have other: "stands_for (cs @ [c]) m" if "m \<in> set ms" for m
    using ok that False stands_for_other [of cs m c] unfolding merged_ok_def by (metis image_eqI)
  have "stands_for (cs @ [c]) c"
    using ok False all_covers_none [of "tc_command c" cs] by (simp add: stands_for_def merged_ok_def)
  then show ?thesis
    using ok c False other unfolding merge_command_absent [OF False] merged_ok_def by auto
next
  case True
  then obtain m where m: "m \<in> set ms" "tc_command m = tc_command c" by auto
  have d: "distinct (map tc_command ms)" using ok by (simp add: merged_ok_def)
  obtain as bs where s: "ms = as @ m # bs" "merge_command c ms = as @ merge_into c m # bs"
    using merge_command_present [OF d m] by blast
  have "stands_for (cs @ [c]) (merge_into c m)"
    using ok m stands_for_merge_into unfolding merged_ok_def by blast
  moreover have "stands_for (cs @ [c]) x" if "x \<in> set as \<union> set bs" for x
  proof (rule stands_for_other)
    show "stands_for cs x" using ok that by (auto simp: merged_ok_def s(1))
    show "tc_command c \<noteq> tc_command x" using d that m(2) by (auto simp: s(1))
  qed
  moreover have "tc_command ` set (merge_command c ms) = tc_command ` set ms" unfolding s(2) by (subst s(1)) simp
  then have "tc_command ` set (merge_command c ms) = tc_command ` set (cs @ [c])"
    using ok True by (simp add: merged_ok_def insert_absorb)
  moreover have "distinct (map tc_command (merge_command c ms))" using d unfolding s(2) by (subst (asm) s(1)) simp
  moreover have "sorted_wrt (<) (tc_covers x)" if "x \<in> set as \<union> set bs" for x
    using ok that by (auto simp: merged_ok_def s(1))
  moreover have "sorted_wrt (<) (tc_covers (merge_into c m))" by (simp add: dedup_sort)
  ultimately show ?thesis unfolding merged_ok_def s(2) by auto
qed

lemma fold_merge_ok:
  "merged_ok cs ms \<Longrightarrow> \<forall>c \<in> set ds. sorted_wrt (<) (tc_covers c) \<Longrightarrow> merged_ok (cs @ ds) (fold merge_command ds ms)"
proof (induction ds arbitrary: cs ms)
  case (Cons d ds)
  have "merged_ok (cs @ [d]) (merge_command d ms)" using merge_command_ok [OF Cons.prems(1)] Cons.prems(2) by simp
  from Cons.IH [OF this] show ?case using Cons.prems(2) by simp
qed simp

definition finished :: "test_command list list \<Rightarrow> test_command list" where
  "finished gs = concat (map finish_group gs)"

lemma merge_groups_merged: "merged_ok (finished gs) (merge_groups gs)"
proof -
  have "merged_ok [] []" by (simp add: merged_ok_def)
  moreover have "\<forall>c \<in> set (finished gs). sorted_wrt (<) (tc_covers c)"
    using finish_group_ok by (auto simp: finished_def merged_ok_def)
  ultimately show ?thesis using fold_merge_ok [of "[]" "[]" "finished gs"] by (simp add: merge_groups_fold finished_def)
qed

lemma finish_group_covers: "all_covers (finish_group g) t = all_covers g t"
proof (cases "t \<in> tc_command ` set g")
  case False
  then have "t \<notin> tc_command ` set (finish_group g)" using finish_group_ok [of g] by (simp add: merged_ok_def)
  then show ?thesis using False by (simp add: all_covers_none)
next
  case True
  then have "t \<in> tc_command ` set (finish_group g)" using finish_group_ok [of g] by (simp add: merged_ok_def)
  then obtain m where m: "m \<in> set (finish_group g)" "tc_command m = t" by auto
  have only: "x = m" if "x \<in> set (finish_group g)" "tc_command x = t" for x
  proof -
    have "inj_on tc_command (set (finish_group g))" using finish_group_ok [of g] by (simp add: merged_ok_def distinct_map)
    then show ?thesis by (rule inj_onD) (use that m in simp_all)
  qed
  have "{c \<in> set (finish_group g). tc_command c = t} = {m}"
    by (intro equalityI subsetI) (use m in \<open>auto intro: only\<close>)
  then have "all_covers (finish_group g) t = set (tc_covers m)" by (simp add: all_covers_def)
  also have "stands_for g m" using finish_group_ok [of g] m(1) by (simp add: merged_ok_def)
  then have "set (tc_covers m) = all_covers g t" unfolding stands_for_def m(2) by (rule conjunct1)
  finally show ?thesis .
qed

lemma finished_covers: "all_covers (finished gs) t = all_covers (concat gs) t"
  by (induction gs) (simp_all add: finished_def finish_group_covers)

lemma finished_texts: "tc_command ` set (finished gs) = tc_command ` set (concat gs)"
proof -
  have "tc_command ` set (finish_group g) = tc_command ` set g" for g using finish_group_ok [of g] by (simp add: merged_ok_def)
  then show ?thesis by (induction gs) (simp_all add: finished_def image_Un)
qed

lemma merge_groups_texts: "tc_command ` set (merge_groups gs) = tc_command ` set (finished gs)"
  using merge_groups_merged [of gs] unfolding merged_ok_def by (elim conjE)

text \<open>Every finished command has the source and the framework of a command of its group.\<close>

lemma finished_source:
  assumes "c \<in> set (finished gs)"
  shows "\<exists>g \<in> set gs. \<exists>d \<in> set g. tc_command d = tc_command c \<and> tc_source d = tc_source c \<and> tc_framework d = tc_framework c"
proof -
  obtain g where g: "g \<in> set gs" "c \<in> set (finish_group g)" using assms by (auto simp: finished_def)
  then have "stands_for g c" using finish_group_ok [of g] by (simp add: merged_ok_def)
  then show ?thesis using g(1) by (auto simp: stands_for_def)
qed

lemma merge_groups_stand:
  assumes "m \<in> set (merge_groups gs)"
  shows "stands_for (concat gs) m"
proof -
  have s: "stands_for (finished gs) m" using merge_groups_merged [of gs] assms by (simp add: merged_ok_def)
  then obtain c where c: "c \<in> set (finished gs)" "tc_command c = tc_command m" "tc_source c = tc_source m"
    "tc_framework c = tc_framework m" by (auto simp: stands_for_def)
  obtain g d where d: "g \<in> set gs" "d \<in> set g" "tc_command d = tc_command c" "tc_source d = tc_source c"
    "tc_framework d = tc_framework c" using finished_source [OF c(1)] by blast
  have "d \<in> set (concat gs)" using d by auto
  moreover have "set (tc_covers m) = all_covers (concat gs) (tc_command m)"
    using s by (simp add: stands_for_def finished_covers)
  ultimately show ?thesis unfolding stands_for_def using c d by metis
qed

subsection \<open>The most specific source\<close>

definition rank_ok :: "test_command list \<Rightarrow> test_command list \<Rightarrow> bool" where
  "rank_ok cs ms \<longleftrightarrow>
     (\<forall>m \<in> set ms. \<forall>c \<in> set cs. tc_command c = tc_command m \<longrightarrow> source_rank (tc_source c) \<le> source_rank (tc_source m))"

lemma merge_into_rank:
  "source_rank (tc_source (merge_into c m)) = max (source_rank (tc_source m)) (source_rank (tc_source c))"
  by (auto simp: merge_into_def Let_def max_def)

lemma merge_command_rank:
  assumes ok: "merged_ok cs ms" and r: "rank_ok cs ms"
  shows "rank_ok (cs @ [c]) (merge_command c ms)"
proof (cases "tc_command c \<in> tc_command ` set ms")
  case False
  then have n: "tc_command c \<notin> tc_command ` set cs" using ok by (simp add: merged_ok_def)
  show ?thesis using r False n unfolding merge_command_absent [OF False] rank_ok_def by (auto simp: image_iff)
next
  case True
  then obtain m where m: "m \<in> set ms" "tc_command m = tc_command c" by auto
  have d: "distinct (map tc_command ms)" using ok by (simp add: merged_ok_def)
  obtain as bs where s: "ms = as @ m # bs" "merge_command c ms = as @ merge_into c m # bs"
    using merge_command_present [OF d m] by blast
  have "tc_command x \<noteq> tc_command c" if "x \<in> set as \<union> set bs" for x using d that m(2) by (auto simp: s(1) image_iff)
  moreover have "x \<in> set ms" if "x \<in> set as \<union> set bs" for x using that by (auto simp: s(1))
  ultimately show ?thesis using r m unfolding s(2) rank_ok_def
    by (auto simp: merge_into_rank) (metis le_max_iff_disj)+
qed

lemma fold_merge_rank:
  "merged_ok cs ms \<Longrightarrow> rank_ok cs ms \<Longrightarrow> \<forall>c \<in> set ds. sorted_wrt (<) (tc_covers c) \<Longrightarrow>
     rank_ok (cs @ ds) (fold merge_command ds ms)"
proof (induction ds arbitrary: cs ms)
  case (Cons d ds)
  have "merged_ok (cs @ [d]) (merge_command d ms)" using merge_command_ok [OF Cons.prems(1)] Cons.prems(3) by simp
  moreover have "rank_ok (cs @ [d]) (merge_command d ms)" by (rule merge_command_rank [OF Cons.prems(1,2)])
  ultimately show ?case using Cons.IH [of "cs @ [d]" "merge_command d ms"] Cons.prems(3) by simp
qed simp

lemma merge_groups_rank: "rank_ok (finished gs) (merge_groups gs)"
proof -
  have "merged_ok [] []" "rank_ok [] []" by (simp_all add: merged_ok_def rank_ok_def)
  moreover have "\<forall>c \<in> set (finished gs). sorted_wrt (<) (tc_covers c)"
    using finish_group_ok by (auto simp: finished_def merged_ok_def)
  ultimately show ?thesis using fold_merge_rank [of "[]" "[]" "finished gs"] by (simp add: merge_groups_fold finished_def)
qed

definition one_source :: "test_command list \<Rightarrow> bool" where
  "one_source g \<longleftrightarrow> (\<forall>c \<in> set g. \<forall>d \<in> set g. tc_source c = tc_source d)"

text \<open>In groups that each have one source, no command has a more specific source than the merged one of its text.\<close>

lemma merge_groups_most_specific:
  assumes "list_all one_source gs" and m: "m \<in> set (merge_groups gs)"
    and c: "c \<in> set (concat gs)" "tc_command c = tc_command m"
  shows "source_rank (tc_source c) \<le> source_rank (tc_source m)"
proof -
  obtain g where g: "g \<in> set gs" "c \<in> set g" using c(1) by auto
  have "tc_command c \<in> tc_command ` set (finish_group g)"
    using finish_group_ok [of g] g(2) by (simp add: merged_ok_def)
  then obtain f where f: "f \<in> set (finish_group g)" "tc_command f = tc_command c" by auto
  then have "stands_for g f" using finish_group_ok [of g] by (simp add: merged_ok_def)
  then obtain d where d: "d \<in> set g" "tc_source d = tc_source f" unfolding stands_for_def by blast
  have "one_source g" using assms(1) g(1) by (simp add: list_all_iff)
  then have "tc_source c = tc_source d" using g(2) d(1) unfolding one_source_def by blast
  then have "tc_source c = tc_source f" using d(2) by simp
  moreover have "f \<in> set (finished gs)" using f(1) g(1) by (auto simp: finished_def)
  ultimately show ?thesis using merge_groups_rank [of gs] m f(2) c(2) unfolding rank_ok_def by metis
qed

section \<open>No test file is lost\<close>

definition known_test_file :: "string \<Rightarrow> bool" where
  "known_test_file p \<longleftrightarrow>
     test_extension p \<in> set [''rs'', ''py'', ''php'', ''phpt'', ''go'', ''java''] \<or> is_js p"

text \<open>The notes that account for a file without a command.\<close>

definition noted :: "fs option \<Rightarrow> string list \<Rightarrow> string \<Rightarrow> bool" where
  "noted root ns p \<longleftrightarrow>
     (test_extension p = ''rs'' \<and> left_out root ns p)
     \<or> (test_extension p = ''java'' \<and> \<not> flag_safe (stem p) \<and> dropped_token_note ''Java test class'' (stem p) \<in> set ns)
     \<or> (is_js p \<and> (\<exists>ps. p \<in> set ps \<and> unresolved_note ps \<in> set ns))
     \<or> (is_js p \<and> (\<exists>reason ps. p \<in> set ps \<and> ''no command emitted for '' @ capped_list ps @ '': '' @ reason \<in> set ns))"

definition covered :: "test_command list \<Rightarrow> string \<Rightarrow> bool" where
  "covered cs p \<longleftrightarrow> (\<exists>c \<in> set cs. p \<in> set (tc_covers c))"

lemma covered_append [simp]: "covered (cs @ ds) p \<longleftrightarrow> covered cs p \<or> covered ds p"
  by (auto simp: covered_def)

lemma covered_member: "c \<in> set cs \<Longrightarrow> covered [c] p \<Longrightarrow> covered cs p"
  by (auto simp: covered_def)

lemma rust_commands_cover:
  assumes "(t, p) \<in> set es"
  shows "covered (rust_commands k es) p"
proof (cases "CARGO_PER_TARGET_CAP < count_if (\<lambda>(t, _). t \<noteq> None) es")
  case True
  then show ?thesis using assms by (force simp: rust_commands_def covered_def mk_command_def)
next
  case False
  show ?thesis unfolding rust_commands_def Let_def if_not_P [OF False] covered_def set_map
    by (rule bexI [OF _ imageI [OF assms]]) (simp add: mk_command_def)
qed

lemma convention_out:
  "fst (convention_commands j root ps withheld memo ns) =
     concat (map (\<lambda>(_, (k, es)). rust_commands k es) (bk_rust (classified root ps withheld memo ns)))
     @ python_commands (by_ext ''py'' ps) SOURCE_CONVENTION
     @ php_commands root (by_ext ''php'' ps)
     @ map phpt_command (bk_phpt_dirs (classified root ps withheld memo ns))
     @ go_commands (bk_go_dirs (classified root ps withheld memo ns)) (by_ext ''go'' ps)
     @ (if filter is_js ps = [] then [] else jc_commands (js_commands_of j root (sort (filter is_js ps))))
     @ java_commands root (filter (\<lambda>(c, _). flag_safe c) (bk_java (classified root ps withheld memo ns)))"
  by (simp add: convention_commands_def Let_def classified_buckets(1-4))

lemma convention_notes:
  "snd (snd (convention_commands j root ps withheld memo ns)) =
     bk_notes (classified root ps withheld memo ns)
     @ (if filter is_js ps = [] then []
        else (if jc_unresolved (js_commands_of j root (sort (filter is_js ps))) = [] then []
              else [unresolved_note (jc_unresolved (js_commands_of j root (sort (filter is_js ps))))])
             @ jc_notes (js_commands_of j root (sort (filter is_js ps))))
     @ map (\<lambda>(c, _). dropped_token_note ''Java test class'' c)
         (filter (\<lambda>(c, _). \<not> flag_safe c) (bk_java (classified root ps withheld memo ns)))"
  by (simp add: convention_commands_def Let_def classified_buckets(1-4))

lemma touched_entry: "map_of m k \<noteq> None \<Longrightarrow> map_of (fold (\<lambda>p. btree_touch (parent_dir p)) ws m) k \<noteq> None"
  by (induction ws arbitrary: m) (simp_all add: map_of_btree_touch)

lemma phpt_command_covers: "p \<in> set qs \<Longrightarrow> covered [phpt_command (dir, qs)] p"
  by (cases "qs = []") (simp_all add: covered_def phpt_command_def mk_command_def Let_def)

lemma java_commands_cover: "p \<in> set (concat (map snd java)) \<Longrightarrow> covered (java_commands root java) p"
  by (cases "java = []") (simp_all add: java_commands_def covered_def mk_command_def Let_def)

lemma phpt_covered:
  assumes p: "p \<in> set ps" "test_extension p = ''phpt''"
  shows "covered (map phpt_command (bk_phpt_dirs (classified root ps withheld memo ns))) p"
proof -
  let ?m = "bk_phpt_dirs (classified root ps withheld memo ns)"
  have key: "phpt_key p = Some (parent_dir p)" using p(2) by (simp add: phpt_key_def)
  have "map_of (fold (push_key phpt_key) ps []) (parent_dir p) \<noteq> None"
    unfolding push_keys_keys using p(1) key by auto
  then have "map_of ?m (parent_dir p) \<noteq> None" unfolding classified_buckets by (rule touched_entry)
  then obtain qs where "map_of ?m (parent_dir p) = Some qs" by blast
  then have mem: "(parent_dir p, qs) \<in> set ?m" by (rule map_of_SomeD)
  have "p \<in> set qs" unfolding phpt_entries [OF mem] using p(1) key by simp
  then have "covered [phpt_command (parent_dir p, qs)] p" by (rule phpt_command_covers)
  moreover have "phpt_command (parent_dir p, qs) \<in> set (map phpt_command ?m)" unfolding set_map by (rule imageI [OF mem])
  ultimately show ?thesis by (rule covered_member [rotated])
qed

lemma java_accounted:
  assumes p: "p \<in> set ps" "test_extension p = ''java''"
  shows "covered (java_commands root (filter (\<lambda>(c, _). flag_safe c) (bk_java (classified root ps withheld memo ns)))) p
    \<or> (\<not> flag_safe (stem p)
        \<and> dropped_token_note ''Java test class'' (stem p)
           \<in> set (map (\<lambda>(c, _). dropped_token_note ''Java test class'' c)
               (filter (\<lambda>(c, _). \<not> flag_safe c) (bk_java (classified root ps withheld memo ns)))))"
proof -
  let ?m = "bk_java (classified root ps withheld memo ns)"
  let ?qs = "filter (\<lambda>q. java_key q = Some (stem p)) ps"
  have q: "p \<in> set ?qs" using p by (simp add: java_key_def)
  then have "?qs \<noteq> []" by (metis list.set(1) empty_iff)
  then have mem: "(stem p, ?qs) \<in> set ?m" unfolding classified_buckets push_keys_mem by blast
  show ?thesis
  proof (cases "flag_safe (stem p)")
    case True
    let ?safe = "filter (\<lambda>(c, _). flag_safe c) ?m"
    have s: "(stem p, ?qs) \<in> set ?safe" using mem True by simp
    have "p \<in> set (concat (map snd ?safe))"
      unfolding set_concat set_map by (rule UnionI [OF imageI [OF imageI [OF s]]]) (use q in simp)
    then show ?thesis using java_commands_cover by blast
  next
    case False
    then show ?thesis using mem by force
  qed
qed

lemma js_accounted:
  assumes "p \<in> set ps" and "is_js p"
  shows "covered (if filter is_js ps = [] then [] else jc_commands (js_commands_of j root (sort (filter is_js ps)))) p
    \<or> noted root (snd (snd (convention_commands j root ps withheld memo ns))) p"
proof -
  let ?js = "js_commands_of j root (sort (filter is_js ps))"
  have p: "p \<in> set (sort (filter is_js ps))" using assms by simp
  have ne: "filter is_js ps \<noteq> []" using p by (metis list.set(1) empty_iff set_sort)
  from js_paths_accounted [OF p, of j root] show ?thesis
  proof (elim disjE)
    assume u: "p \<in> set (jc_unresolved ?js)"
    then have "jc_unresolved ?js \<noteq> []" by (metis list.set(1) empty_iff)
    then have "unresolved_note (jc_unresolved ?js) \<in> set (snd (snd (convention_commands j root ps withheld memo ns)))"
      unfolding convention_notes using ne by simp
    then have "noted root (snd (snd (convention_commands j root ps withheld memo ns))) p"
      unfolding noted_def using u assms(2) by blast
    then show ?thesis ..
  next
    assume "\<exists>c \<in> set (jc_commands ?js). p \<in> set (tc_covers c)"
    then show ?thesis using ne by (simp add: covered_def)
  next
    assume "\<exists>reason qs. p \<in> set qs \<and> ''no command emitted for '' @ capped_list qs @ '': '' @ reason \<in> set (jc_notes ?js)"
    then have "noted root (snd (snd (convention_commands j root ps withheld memo ns))) p"
      unfolding noted_def convention_notes using ne assms(2) by auto
    then show ?thesis ..
  qed
qed

lemma convention_accounts:
  assumes m: "memo_ok_at root memo" and p: "p \<in> set ps" "known_test_file p"
  shows "covered (fst (convention_commands j root ps withheld memo ns)) p
    \<or> noted root (snd (snd (convention_commands j root ps withheld memo ns))) p"
proof -
  let ?notes = "snd (snd (convention_commands j root ps withheld memo ns))"
  have by_ext: "test_extension p = e \<Longrightarrow> p \<in> set (by_ext e ps)" for e using p(1) by (simp add: by_ext_def)
  consider "test_extension p = ''rs''" | "test_extension p = ''py''" | "test_extension p = ''php''"
    | "test_extension p = ''phpt''" | "test_extension p = ''go''" | "test_extension p = ''java''" | "is_js p"
    using p(2) by (auto simp: known_test_file_def)
  then show ?thesis
  proof cases
    case 1
    have "filed (bk_rust (classified root ps withheld memo ns)) p \<or> left_out root (bk_notes (classified root ps withheld memo ns)) p"
      using classified_rust_ok [OF m, of ps withheld ns] p(1) 1 unfolding rust_bucket_ok_def by blast
    then show ?thesis
    proof
      assume "filed (bk_rust (classified root ps withheld memo ns)) p"
      then obtain dir k es t where e: "(dir, (k, es)) \<in> set (bk_rust (classified root ps withheld memo ns))" "(t, p) \<in> set es"
        unfolding filed_def by blast
      obtain c where "c \<in> set (rust_commands k es)" "p \<in> set (tc_covers c)"
        using rust_commands_cover [OF e(2), of k] unfolding covered_def by blast
      then have "covered (concat (map (\<lambda>(_, (k, es)). rust_commands k es) (bk_rust (classified root ps withheld memo ns)))) p"
        unfolding covered_def using e(1) by force
      then show ?thesis unfolding convention_out covered_append by blast
    next
      assume "left_out root (bk_notes (classified root ps withheld memo ns)) p"
      then have "left_out root ?notes p" unfolding convention_notes by (rule left_out_mono)
      then show ?thesis unfolding noted_def using 1 by blast
    qed
  next
    case 2
    have "covered (python_commands (by_ext ''py'' ps) SOURCE_CONVENTION) p"
      using by_ext [OF 2] by (auto simp: python_commands_def covered_def mk_command_def)
    then show ?thesis unfolding convention_out covered_append by blast
  next
    case 3
    have "covered (php_commands root (by_ext ''php'' ps)) p"
      using by_ext [OF 3] by (auto simp: php_commands_def covered_def mk_command_def)
    then show ?thesis unfolding convention_out covered_append by blast
  next
    case 4
    show ?thesis unfolding convention_out covered_append using phpt_covered [OF p(1) 4] by blast
  next
    case 5
    have "go_dir p \<in> set (bk_go_dirs (classified root ps withheld memo ns))"
      unfolding classified_buckets(5) by (rule imageI [OF by_ext [OF 5]])
    then have "covered (go_commands (bk_go_dirs (classified root ps withheld memo ns)) (by_ext ''go'' ps)) p"
      using by_ext [OF 5] by (auto simp: go_commands_def covered_def mk_command_def)
    then show ?thesis unfolding convention_out covered_append by blast
  next
    case 6
    from java_accounted [OF p(1) 6, of root withheld memo ns] show ?thesis
    proof
      assume "covered (java_commands root (filter (\<lambda>(c, _). flag_safe c) (bk_java (classified root ps withheld memo ns)))) p"
      then show ?thesis unfolding convention_out covered_append by blast
    next
      assume a: "\<not> flag_safe (stem p) \<and> dropped_token_note ''Java test class'' (stem p)
           \<in> set (map (\<lambda>(c, _). dropped_token_note ''Java test class'' c)
               (filter (\<lambda>(c, _). \<not> flag_safe c) (bk_java (classified root ps withheld memo ns))))"
      then have "dropped_token_note ''Java test class'' (stem p) \<in> set ?notes"
        unfolding convention_notes set_append by blast
      then show ?thesis unfolding noted_def using a 6 by blast
    qed
  next
    case 7
    from js_accounted [OF p(1) 7, of j root withheld memo ns] show ?thesis
      unfolding convention_out covered_append by blast
  qed
qed

text \<open>The groups of a derivation.\<close>

lemma derive_groups:
  assumes "derive j db root tests withheld changed = Inr d"
  obtains inl_cmds feat_cmds memo ns where
    "dv_commands d = merge_groups [inl_cmds, feat_cmds, fst (convention_commands j root tests withheld memo ns)]"
    and "dv_notes d = snd (snd (convention_commands j root tests withheld memo ns))"
    and "memo_ok_at root memo"
    and "list_all (\<lambda>c. reads_as_run c \<and> tc_source c = SOURCE_INLINE) inl_cmds"
    and "list_all (\<lambda>c. tc_source c = SOURCE_FEATURE) feat_cmds"
proof -
  have default: "memo_ok_at root manifest_memo_default" by (simp add: memo_ok_at_def split: option.split)
  obtain inl_cmds modules memo ns where i: "inline_commands db root tests changed manifest_memo_default [] = Inr (inl_cmds, modules, memo, ns)"
    using assms by (cases "inline_commands db root tests changed manifest_memo_default []") (auto simp: derive_def)
  obtain feat_cmds fns where f: "feature_commands db (length changed) changed = Inr (feat_cmds, fns)"
    using assms i by (cases "feature_commands db (length changed) changed") (auto simp: derive_def)
  have "dv_commands d = merge_groups [inl_cmds, feat_cmds, fst (convention_commands j root tests withheld memo (ns @ fns))]"
    "dv_notes d = snd (snd (convention_commands j root tests withheld memo (ns @ fns)))"
    using assms i f by (auto simp: derive_def split: prod.splits)
  then show ?thesis using that inline_commands_ok [OF default i] feature_commands_source [OF f] by blast
qed

section \<open>Properties\<close>


text \<open>
  C16. No test file is lost: every file with a known extension is covered by a recommended command, or a note accounts
  for it.
\<close>

theorem derived_commands_cover_tests:
  assumes "derive j db root tests withheld changed = Inr d" and "p \<in> set tests" and "known_test_file p"
  shows "covered (dv_commands d) p \<or> noted root (dv_notes d) p"
proof (rule derive_groups [OF assms(1)], goal_cases)
  case (1 inl_cmds feat_cmds memo ns)
  let ?conv = "fst (convention_commands j root tests withheld memo ns)"
  have "covered (dv_commands d) p" if cov: "covered ?conv p"
  proof -
    obtain c where c: "c \<in> set ?conv" "p \<in> set (tc_covers c)" using cov unfolding covered_def by blast
    have "c \<in> set (concat [inl_cmds, feat_cmds, ?conv])" unfolding concat.simps set_append using c(1) by blast
    then have "tc_command c \<in> tc_command ` set (finished [inl_cmds, feat_cmds, ?conv])"
      unfolding finished_texts by (rule imageI)
    then have "tc_command c \<in> tc_command ` set (dv_commands d)" unfolding 1(1) merge_groups_texts .
    then obtain m where m: "m \<in> set (dv_commands d)" "tc_command m = tc_command c" by (elim imageE) simp
    have "stands_for (concat [inl_cmds, feat_cmds, ?conv]) m" using m(1) unfolding 1(1) by (rule merge_groups_stand)
    then have "set (tc_covers c) \<subseteq> set (tc_covers m)" using c(1) m(2) unfolding stands_for_def all_covers_def by auto
    then show ?thesis using m(1) c(2) unfolding covered_def by blast
  qed
  then show ?case using convention_accounts [OF 1(3) assms(2,3), of j withheld ns] unfolding 1(2) by blast
qed

text \<open>
  The merge of the groups keeps one command for each text, covers exactly what the commands of that text cover together,
  sorted and without repetition, and takes the source and the framework of the most specific of them.
\<close>

theorem merge_groups_exact:
  assumes "list_all one_source groups"
  shows "distinct (map tc_command (merge_groups groups))
    \<and> tc_command ` set (merge_groups groups) = tc_command ` set (concat groups)
    \<and> (\<forall>m \<in> set (merge_groups groups).
         sorted_wrt (<) (tc_covers m)
         \<and> set (tc_covers m) = all_covers (concat groups) (tc_command m)
         \<and> (\<exists>c \<in> set (concat groups). tc_command c = tc_command m \<and> tc_source c = tc_source m \<and> tc_framework c = tc_framework m)
         \<and> (\<forall>c \<in> set (concat groups). tc_command c = tc_command m \<longrightarrow> source_rank (tc_source c) \<le> source_rank (tc_source m)))"
  using merge_groups_merged [of groups] merge_groups_stand [of _ groups] merge_groups_most_specific [OF assms]
  unfolding merged_ok_def finished_texts stands_for_def by blast

definition no_db :: "unit test_db" where
  "no_db = \<lparr>td_checkpoint = (\<lambda>_. None), td_symbols = (\<lambda>_. Inr []), td_features = (\<lambda>_. Inr [])\<rparr>"

definition no_json :: "unit json" where
  "no_json = \<lparr>js_from_str = (\<lambda>_. None), js_get = (\<lambda>_ _. None), js_as_str = (\<lambda>_. None), js_object_keys = (\<lambda>_. None),
     js_is_null = (\<lambda>_. False)\<rparr>"

lemma derive_example:
  "derive no_json no_db None [''t/-a b.py''] [] [] =
     Inr \<lparr>dv_commands = [mk_command (''pytest '' @ [CHR 0x27] @ ''t/-a b.py'' @ [CHR 0x27]) [''t/-a b.py''] ''pytest'' ''convention''],
          dv_modules = [], dv_notes = []\<rparr>"
  by code_simp


theorem derived_commands_cover_tests_witness:
  "covered [mk_command (''pytest '' @ [CHR 0x27] @ ''t/-a b.py'' @ [CHR 0x27]) [''t/-a b.py''] ''pytest'' ''convention''] ''t/-a b.py''
     \<or> noted None [] ''t/-a b.py''"
proof -
  have "known_test_file ''t/-a b.py''" by code_simp
  then show ?thesis using derived_commands_cover_tests [OF derive_example, of "''t/-a b.py''"] by simp
qed

theorem merge_groups_exact_witness:
  "distinct (map tc_command (merge_groups [[mk_command ''x'' [''b''] ''f'' ''inline''], [mk_command ''x'' [''a''] ''g'' ''convention'']]))
    \<and> tc_command ` set (merge_groups [[mk_command ''x'' [''b''] ''f'' ''inline''], [mk_command ''x'' [''a''] ''g'' ''convention'']]) = {''x''}"
proof -
  have "list_all one_source [[mk_command ''x'' [''b''] ''f'' ''inline''], [mk_command ''x'' [''a''] ''g'' ''convention'']]"
    by (simp add: one_source_def)
  from merge_groups_exact [OF this] show ?thesis by (simp add: mk_command_def)
qed

end
