(* ===== verification/Line_Log.thy ===== *)
theory Line_Log
  imports Rust_Text
begin

text \<open>
  Append-only files of one record per line, as \<open>crates/graph/src/state_file.rs\<close> and
  \<open>crates/graph/src/session_ledger.rs\<close> write them: a record that follows an unterminated one starts a line of its own, so
  that a write cut short by a crash costs at most its own record. The locale \<open>line_log\<close> states what a writer
  promises and derives which lines a reader finds.
\<close>

section \<open>Lines\<close>

abbreviation NL :: char where "NL \<equiv> CHR 0x0A"

definition log_lines :: "string \<Rightarrow> string list" where
  "log_lines content = filter (\<lambda>l. l \<noteq> []) (split_on NL content)"

text \<open>The last record has no line end.\<close>

definition ends_open :: "string \<Rightarrow> bool" where
  "ends_open content \<longleftrightarrow> content \<noteq> [] \<and> last content \<noteq> NL"

lemma log_lines_Nil [simp]: "log_lines [] = []"
  by (simp add: log_lines_def)

lemma log_lines_append: "log_lines (a @ NL # b) = log_lines a @ log_lines b"
  by (simp add: log_lines_def split_on_append)

lemma log_lines_closed: "log_lines (a @ [NL]) = log_lines a"
  using log_lines_append [of a "[]"] by simp

lemma log_lines_one: "NL \<notin> set u \<Longrightarrow> log_lines u = (if u = [] then [] else [u])"
  by (simp add: log_lines_def split_on_id)

text \<open>The text a writer puts before a record.\<close>

definition separator :: "string \<Rightarrow> string" where
  "separator content = (if ends_open content then [NL] else [])"

text \<open>What a reader finds behind the old lines, whether the record is terminated or not.\<close>

lemma log_lines_record:
  assumes "NL \<notin> set u"
  shows "log_lines (content @ separator content @ u) = log_lines content @ (if u = [] then [] else [u])"
proof (cases "ends_open content")
  case True
  then show ?thesis using assms by (simp add: separator_def log_lines_append log_lines_one)
next
  case False
  show ?thesis
  proof (cases "content = []")
    case True
    then show ?thesis using assms by (simp add: separator_def ends_open_def log_lines_one)
  next
    case ne: False
    then obtain a where "content = a @ [NL]" using False by (metis append_butlast_last_id ends_open_def)
    then show ?thesis using False assms by (simp add: separator_def log_lines_append log_lines_one log_lines_closed)
  qed
qed

lemma log_lines_terminated:
  assumes "NL \<notin> set u"
  shows "log_lines (content @ separator content @ u @ [NL]) = log_lines content @ (if u = [] then [] else [u])"
  using log_lines_record [OF assms, of content] log_lines_closed [of "content @ separator content @ u"] by simp

text \<open>
  A write of \<open>separator content @ line @ [NL]\<close> that ends after \<open>k\<close> bytes adds the part of the line it reached.
\<close>

lemma log_lines_torn:
  assumes "NL \<notin> set line"
  shows "log_lines (content @ take k (separator content @ line @ [NL])) =
    log_lines content @ (let part = take (k - length (separator content)) line in if part = [] then [] else [part])"
proof -
  let ?s = "separator content"
  have part: "NL \<notin> set (take n line)" for n using assms by (meson in_set_takeD)
  consider "k < length ?s" | "length ?s \<le> k" "k \<le> length ?s + length line" | "length ?s + length line < k" by linarith
  then show ?thesis
  proof cases
    case 1
    then have "k = 0" by (auto simp: separator_def split: if_splits)
    then show ?thesis using 1 by simp
  next
    case 2
    then have "take k (?s @ line @ [NL]) = ?s @ take (k - length ?s) line" by simp
    then show ?thesis using log_lines_record [OF part, of content] by (simp add: Let_def)
  next
    case 3
    then have "take k (?s @ line @ [NL]) = ?s @ line @ [NL]" by simp
    moreover have "take (k - length ?s) line = line" using 3 by simp
    ultimately show ?thesis using log_lines_terminated [OF assms, of content] by (simp add: Let_def)
  qed
qed

section \<open>Writers\<close>

text \<open>A writer that completes adds the record, terminated, on a line of its own.\<close>

locale line_log =
  fixes append :: "string \<Rightarrow> string \<Rightarrow> string"
  assumes append_terminated: "append line content = content @ separator content @ line @ [NL]"
begin

lemma append_lines: "NL \<notin> set line \<Longrightarrow> line \<noteq> [] \<Longrightarrow> log_lines (append line content) = log_lines content @ [line]"
  by (simp add: append_terminated log_lines_terminated)

lemma appends_lines:
  "list_all (\<lambda>l. NL \<notin> set l \<and> l \<noteq> []) ls \<Longrightarrow> log_lines (fold append ls content) = log_lines content @ ls"
  by (induction ls arbitrary: content) (simp_all add: append_lines)

lemma append_closed: "\<not> ends_open (append line content)"
  by (simp add: append_terminated ends_open_def)

end

text \<open>
  \<open>append_line\<close>, whose caller passes the record with its line end: the line feed that closes an open tail is a write of its
  own. \<open>writes\<close> says how many bytes each of the two writes puts down when it fails.
\<close>

definition append_line :: "nat option \<times> nat option \<Rightarrow> string \<Rightarrow> string \<Rightarrow> bool \<times> string" where
  "append_line writes line content =
     (case writes of
        (w1, w2) \<Rightarrow>
          if ends_open content then
            (case w1 of
               Some k \<Rightarrow> (False, content @ take k [NL])
             | None \<Rightarrow>
                 (case w2 of
                    Some k \<Rightarrow> (False, content @ [NL] @ take k line)
                  | None \<Rightarrow> (True, content @ [NL] @ line)))
          else (case w2 of Some k \<Rightarrow> (False, content @ take k line) | None \<Rightarrow> (True, content @ line)))"

interpretation state_log: line_log "\<lambda>line content. snd (append_line (None, None) (line @ [NL]) content)"
  by unfold_locales (simp add: append_line_def separator_def)

end
