(* ===== verification/Session_Ledger.thy ===== *)
theory Session_Ledger
  imports Line_Log "HOL-Library.Product_Lexorder" "HOL-Library.Multiset"
begin

text \<open>
  The call ledgers of sessions and connections, \<open>crates/graph/src/session_ledger.rs\<close>: the path of a ledger, the append,
  the reset, the prune and the read. The ledger files are the store, an association list from the components of a path below
  the project root to the bytes of the file; what the file system answers besides is a \<open>ledger_world\<close>. The JSON
  text of a call is a parameter, as serde writes and reads it.
\<close>

section \<open>Calls and paths\<close>

record ledger_call =
  lc_ts :: u64
  lc_tool :: string
  lc_target_handles :: "string list"
  lc_detail :: "string option"
  lc_bytes :: u64

datatype ledger_scope = Session string | Connection string

datatype ledger_error =
    Invalid_Id
  | Not_Onboarded
  | Symlinked_Parent
  | Create_Failed
  | Serialize_Failed
  | Open_Failed
  | Probe_Failed
  | Write_Failed
  | Not_Regular
  | Remove_Failed
  | Stat_Failed
  | List_Failed

datatype append_outcome = Written bool | Capped

type_synonym fpath = "string list"
type_synonym store = "(fpath \<times> string) list"

definition LEDGER_SUFFIX :: string where "LEDGER_SUFFIX = ''.calls.jsonl''"

definition SESSIONS_DIR :: string where "SESSIONS_DIR = ''sessions''"

definition CONNECTIONS_DIR :: string where "CONNECTIONS_DIR = ''connections''"

definition MAX_LEDGER_FILES :: nat where "MAX_LEDGER_FILES = 256"

definition MAX_LEDGER_BYTES :: nat where "MAX_LEDGER_BYTES = 2 * 1024 * 1024"

definition MAX_LEDGER_TOTAL_BYTES :: nat where "MAX_LEDGER_TOTAL_BYTES = 8 * MAX_LEDGER_BYTES"

definition MAX_LEDGER_AGE :: nat where "MAX_LEDGER_AGE = 30 * 86400"

definition PRUNE_STEP_BYTES :: nat where "PRUNE_STEP_BYTES = 256 * 1024"

definition MAX_HANDLES :: nat where "MAX_HANDLES = 64"

definition MAX_HANDLE_BYTES :: nat where "MAX_HANDLE_BYTES = 1024"

definition session_id_char :: "char \<Rightarrow> bool" where
  "session_id_char c \<longleftrightarrow>
     (let n = of_char c :: nat in (48 \<le> n \<and> n \<le> 57) \<or> (65 \<le> n \<and> n \<le> 90) \<or> (97 \<le> n \<and> n \<le> 122))
     \<or> c \<in> set ''-_.''"

definition validate_session_id :: "string \<Rightarrow> bool" where
  "validate_session_id i \<longleftrightarrow>
     i \<noteq> [] \<and> length i \<le> 128 \<and> list_all session_id_char i \<and> \<not> starts_with ''.'' i"

definition ledger_path :: "ledger_scope \<Rightarrow> (fpath, ledger_error) result" where
  "ledger_path scope =
     (let sessions = [''.codesage'', SESSIONS_DIR]
      in case scope of
           Session i \<Rightarrow> if validate_session_id i then Inr (sessions @ [i @ LEDGER_SUFFIX]) else Inl Invalid_Id
         | Connection i \<Rightarrow>
             if validate_session_id i then Inr (sessions @ [CONNECTIONS_DIR, i @ LEDGER_SUFFIX]) else Inl Invalid_Id)"

section \<open>The file system\<close>

text \<open>
  What the system calls answer: whether a path is a symbolic link, a directory, a regular file; whether creating the directories,
  opening the ledger, reading its metadata and probing its last byte succeed; how many bytes a failing write puts down; the modification time of a
  file, whether the listing of a directory and the metadata of an entry can be had, and what removing a file does: it is removed,
  it was gone already, or the removal fails.
\<close>

datatype remove_outcome = Removed | Gone | Kept

record ledger_world =
  lw_symlink :: "fpath \<Rightarrow> bool"
  lw_is_dir :: "fpath \<Rightarrow> bool"
  lw_is_file :: "fpath \<Rightarrow> bool"
  lw_create :: bool
  lw_open :: bool
  lw_meta :: bool
  lw_probe :: bool
  lw_write :: "nat option"
  lw_stat :: "fpath \<Rightarrow> bool"
  lw_listed :: bool
  lw_mtime :: "fpath \<Rightarrow> nat"
  lw_now :: nat
  lw_remove :: "fpath \<Rightarrow> remove_outcome"

text \<open>\<open>reject_symlinked_parents\<close>: every directory on the way, starting at the root.\<close>

fun symlinked_from :: "ledger_world \<Rightarrow> fpath \<Rightarrow> fpath \<Rightarrow> bool" where
  "symlinked_from w cur [] = False"
| "symlinked_from w cur (c # cs) = (lw_symlink w (cur @ [c]) \<or> symlinked_from w (cur @ [c]) cs)"

definition reject_symlinked_parents :: "ledger_world \<Rightarrow> fpath \<Rightarrow> bool" where
  "reject_symlinked_parents w target = symlinked_from w [] target"

section \<open>Append\<close>

definition append_bytes ::
  "nat option \<Rightarrow> string \<Rightarrow> string \<Rightarrow> (append_outcome, ledger_error) result \<times> string" where
  "append_bytes failing text content =
     (let len = length content;
          line = text @ [NL];
          line = (if 0 < len \<and> last content \<noteq> NL then NL # line else line)
      in case failing of
           Some k \<Rightarrow> (Inl Write_Failed, content @ take k line)
         | None \<Rightarrow>
             (let after = len + length line
              in (Inr (Written (len = 0 \<or> len div PRUNE_STEP_BYTES \<noteq> after div PRUNE_STEP_BYTES)), content @ line)))"

definition append_call ::
  "(ledger_call \<Rightarrow> string option) \<Rightarrow> ledger_world \<Rightarrow> ledger_scope \<Rightarrow> ledger_call \<Rightarrow> store
     \<Rightarrow> (append_outcome, ledger_error) result \<times> store" where
  "append_call enc w scope call st =
     (case ledger_path scope of
        Inl e \<Rightarrow> (Inl e, st)
      | Inr p \<Rightarrow>
          if \<not> (lw_is_dir w [''.codesage''] \<and> lw_is_file w [''.codesage'', ''index.db'']) then (Inl Not_Onboarded, st)
          else if reject_symlinked_parents w (butlast p) then (Inl Symlinked_Parent, st)
          else if \<not> lw_create w then (Inl Create_Failed, st)
          else (case enc call of
                  None \<Rightarrow> (Inl Serialize_Failed, st)
                | Some text \<Rightarrow>
                    if \<not> lw_open w then (Inl Open_Failed, st)
                    else (let content = (case hm_get st p of None \<Rightarrow> [] | Some c \<Rightarrow> c);
                              st = hm_insert p content st
                          in if \<not> lw_meta w then (Inl Stat_Failed, st)
                             else if MAX_LEDGER_BYTES \<le> length content then (Inr Capped, st)
                             else if 0 < length content \<and> \<not> lw_probe w then (Inl Probe_Failed, st)
                             else (case append_bytes (lw_write w) text content of
                                     (r, content') \<Rightarrow> (r, hm_insert p content' st)))))"

definition reset_session_ledger :: "ledger_world \<Rightarrow> string \<Rightarrow> store \<Rightarrow> (unit, ledger_error) result \<times> store" where
  "reset_session_ledger w session_id st =
     (case ledger_path (Session session_id) of
        Inl e \<Rightarrow> (Inl e, st)
      | Inr p \<Rightarrow>
          if reject_symlinked_parents w (butlast p) then (Inl Symlinked_Parent, st)
          else (case lw_remove w p of
                  Removed \<Rightarrow> (Inr (), hm_remove p st)
                | Gone \<Rightarrow> (Inr (), hm_remove p st)
                | Kept \<Rightarrow> (Inl Remove_Failed, st)))"

section \<open>Prune\<close>

type_synonym listed = "nat \<times> nat \<times> fpath"

definition prunable :: "ledger_world \<Rightarrow> fpath \<Rightarrow> fpath \<Rightarrow> bool" where
  "prunable w keep p \<longleftrightarrow>
     p \<noteq> [] \<and> butlast p = butlast keep \<and> p \<noteq> keep \<and> ends_with LEDGER_SUFFIX (last p) \<and> lw_stat w p \<and> lw_is_file w p"

definition listed_ledgers :: "ledger_world \<Rightarrow> fpath \<Rightarrow> store \<Rightarrow> listed list" where
  "listed_ledgers w keep st =
     sort_key (\<lambda>(mtime, _, p). (- int mtime, p))
       (map (\<lambda>(p, content). (lw_mtime w p, length content, p)) (filter (\<lambda>(p, _). prunable w keep p) st))"

fun prune_loop ::
  "ledger_world \<Rightarrow> nat \<Rightarrow> nat \<Rightarrow> nat \<Rightarrow> listed list \<Rightarrow> nat \<Rightarrow> nat \<Rightarrow> nat \<Rightarrow> store \<Rightarrow> nat \<times> store" where
  "prune_loop w max_files max_bytes cutoff [] files bytes removed st = (removed, st)"
| "prune_loop w max_files max_bytes cutoff ((mtime, len, p) # ls) files bytes removed st =
     (if cutoff \<le> mtime \<and> files < max_files \<and> bytes + len \<le> max_bytes
      then prune_loop w max_files max_bytes cutoff ls (files + 1) (bytes + len) removed st
      else (case lw_remove w p of
              Removed \<Rightarrow> prune_loop w max_files max_bytes cutoff ls files bytes (removed + 1) (hm_remove p st)
            | Gone \<Rightarrow> prune_loop w max_files max_bytes cutoff ls files bytes removed (hm_remove p st)
            | Kept \<Rightarrow> prune_loop w max_files max_bytes cutoff ls files bytes removed st))"

definition prune_ledgers_with_limits ::
  "ledger_world \<Rightarrow> fpath \<Rightarrow> nat \<Rightarrow> nat \<Rightarrow> nat \<Rightarrow> store \<Rightarrow> (nat, ledger_error) result \<times> store" where
  "prune_ledgers_with_limits w keep max_files max_bytes max_age st =
     (let cutoff = saturating_sub (lw_now w) max_age
      in if \<not> lw_listed w then (Inl List_Failed, st)
         else (case prune_loop w max_files max_bytes cutoff (listed_ledgers w keep st) 1
                      (if lw_stat w keep then length (case hm_get st keep of None \<Rightarrow> [] | Some c \<Rightarrow> c) else 0) 0 st of
                 (removed, st') \<Rightarrow> (Inr removed, st')))"

definition prune_ledgers :: "ledger_world \<Rightarrow> fpath \<Rightarrow> store \<Rightarrow> (nat, ledger_error) result \<times> store" where
  "prune_ledgers w keep st =
     prune_ledgers_with_limits w keep MAX_LEDGER_FILES MAX_LEDGER_TOTAL_BYTES MAX_LEDGER_AGE st"

section \<open>Read\<close>

record ledger_read =
  lr_present :: bool
  lr_capped :: bool
  lr_calls :: "ledger_call list"

definition ledger_read_default :: ledger_read where
  "ledger_read_default = \<lparr>lr_present = False, lr_capped = False, lr_calls = []\<rparr>"

definition READ_LIMIT :: nat where
  "READ_LIMIT = MAX_LEDGER_BYTES + MAX_HANDLES * MAX_HANDLE_BYTES + 4096"

definition parse_calls :: "(string \<Rightarrow> ledger_call option) \<Rightarrow> u64 \<Rightarrow> string \<Rightarrow> ledger_call list" where
  "parse_calls dec since bytes = filter (\<lambda>c. since \<le> lc_ts c) (List.map_filter dec (split_on NL bytes))"

definition read_session_ledger ::
  "(string \<Rightarrow> ledger_call option) \<Rightarrow> ledger_world \<Rightarrow> string \<Rightarrow> u64 \<Rightarrow> store \<Rightarrow> (ledger_read, ledger_error) result" where
  "read_session_ledger dec w session_id since st =
     (case ledger_path (Session session_id) of
        Inl e \<Rightarrow> Inl e
      | Inr p \<Rightarrow>
          if reject_symlinked_parents w (butlast p) then Inl Symlinked_Parent
          else (case hm_get st p of
                  None \<Rightarrow> Inr ledger_read_default
                | Some content \<Rightarrow>
                    if \<not> lw_stat w p then Inl Stat_Failed
                    else if \<not> lw_is_file w p then Inl Not_Regular
                    else if \<not> lw_open w then Inl Open_Failed
                    else Inr \<lparr>lr_present = True, lr_capped = MAX_LEDGER_BYTES \<le> length content,
                              lr_calls = parse_calls dec since (take READ_LIMIT content)\<rparr>))"

section \<open>Paths of ledgers\<close>

lemma ledger_path_inj: "ledger_path a = Inr p \<Longrightarrow> ledger_path b = Inr p \<Longrightarrow> a = b"
  by (cases a; cases b) (auto simp: ledger_path_def Let_def split: if_splits)

lemma ledger_path_cases:
  assumes "ledger_path scope = Inr p"
  obtains i where "validate_session_id i" and "last p = i @ LEDGER_SUFFIX"
    and "butlast p = [''.codesage'', SESSIONS_DIR] \<or> butlast p = [''.codesage'', SESSIONS_DIR, CONNECTIONS_DIR]"
  using assms by (cases scope) (auto simp: ledger_path_def Let_def split: if_splits)

text \<open>A valid id names one file of its directory: it has no separator and is neither \<open>.\<close> nor \<open>..\<close>.\<close>

lemma valid_id_component:
  assumes "validate_session_id i"
  shows "CHR ''/'' \<notin> set (i @ LEDGER_SUFFIX) \<and> i @ LEDGER_SUFFIX \<noteq> ''.'' \<and> i @ LEDGER_SUFFIX \<noteq> ''..''"
proof -
  have "list_all session_id_char i" using assms by (simp add: validate_session_id_def)
  moreover have "\<not> session_id_char CHR ''/''" by (simp add: session_id_char_def)
  ultimately have "CHR ''/'' \<notin> set i" by (auto simp: list_all_iff)
  then show ?thesis by (simp add: LEDGER_SUFFIX_def)
qed

section \<open>The effect of an append\<close>

definition content_at :: "store \<Rightarrow> fpath \<Rightarrow> string" where
  "content_at st p = (case hm_get st p of None \<Rightarrow> [] | Some c \<Rightarrow> c)"

lemma content_at_insert [simp]: "content_at (hm_insert p c st) q = (if q = p then c else content_at st q)"
  by (simp add: content_at_def)

lemma append_bytes_content:
  "snd (append_bytes failing text content) =
     content @ (case failing of None \<Rightarrow> separator content @ text @ [NL] | Some k \<Rightarrow> take k (separator content @ text @ [NL]))"
  by (simp add: append_bytes_def separator_def ends_open_def Let_def split: option.split)

interpretation ledger_log: line_log "\<lambda>line content. snd (append_bytes None line content)"
  by unfold_locales (simp add: append_bytes_content)

text \<open>The checks before the write.\<close>

definition admitted :: "(ledger_call \<Rightarrow> string option) \<Rightarrow> ledger_world \<Rightarrow> fpath \<Rightarrow> ledger_call \<Rightarrow> store \<Rightarrow> bool" where
  "admitted enc w p call st \<longleftrightarrow>
     lw_is_dir w [''.codesage''] \<and> lw_is_file w [''.codesage'', ''index.db''] \<and> \<not> reject_symlinked_parents w (butlast p)
     \<and> lw_create w \<and> enc call \<noteq> None \<and> lw_open w \<and> lw_meta w \<and> (content_at st p = [] \<or> lw_probe w) \<and> length (content_at st p) < MAX_LEDGER_BYTES"

lemma append_call_content:
  assumes "ledger_path scope = Inr p"
  shows "content_at (snd (append_call enc w scope call st)) q =
    (if q = p \<and> admitted enc w p call st then snd (append_bytes (lw_write w) (the (enc call)) (content_at st p))
     else content_at st q)"
  using assms
  by (auto simp: append_call_def admitted_def content_at_def Let_def split: option.split prod.split)

lemma append_call_invalid: "ledger_path scope = Inl e \<Longrightarrow> snd (append_call enc w scope call st) = st"
  by (simp add: append_call_def)

text \<open>The whole text of the record is in the file, even if the write of its line end failed.\<close>

definition lands ::
  "(ledger_call \<Rightarrow> string option) \<Rightarrow> ledger_world \<Rightarrow> ledger_scope \<Rightarrow> ledger_call \<Rightarrow> store \<Rightarrow> bool" where
  "lands enc w scope call st =
     (case ledger_path scope of
        Inl _ \<Rightarrow> False
      | Inr p \<Rightarrow>
          admitted enc w p call st
          \<and> (case lw_write w of
               None \<Rightarrow> True
             | Some k \<Rightarrow> length (separator (content_at st p)) + length (the (enc call)) \<le> k))"

text \<open>Appends of many sessions and connections, one after the other, and the calls of one of them that land.\<close>

type_synonym append_op = "ledger_scope \<times> ledger_world \<times> ledger_call"

fun run_appends :: "(ledger_call \<Rightarrow> string option) \<Rightarrow> append_op list \<Rightarrow> store \<Rightarrow> store" where
  "run_appends enc [] st = st"
| "run_appends enc ((scope, w, c) # ops) st = run_appends enc ops (snd (append_call enc w scope c st))"

fun landed :: "(ledger_call \<Rightarrow> string option) \<Rightarrow> ledger_scope \<Rightarrow> append_op list \<Rightarrow> store \<Rightarrow> ledger_call list" where
  "landed enc s [] st = []"
| "landed enc s ((scope, w, c) # ops) st =
     (if scope = s \<and> lands enc w scope c st then [c] else []) @ landed enc s ops (snd (append_call enc w scope c st))"

text \<open>What serde promises of the text of a call: one line that is read back, none of whose proper prefixes is a call.\<close>

definition json_line :: "(ledger_call \<Rightarrow> string option) \<Rightarrow> (string \<Rightarrow> ledger_call option) \<Rightarrow> ledger_call \<Rightarrow> bool" where
  "json_line enc dec c \<longleftrightarrow>
     (\<exists>text. enc c = Some text \<and> text \<noteq> [] \<and> NL \<notin> set text \<and> dec text = Some c \<and> (\<forall>n < length text. dec (take n text) = None))"

definition calls_in :: "(string \<Rightarrow> ledger_call option) \<Rightarrow> string \<Rightarrow> ledger_call list" where
  "calls_in dec content = List.map_filter dec (log_lines content)"

lemma map_filter_append: "List.map_filter f (xs @ ys) = List.map_filter f xs @ List.map_filter f ys"
  by (simp add: List.map_filter_def)

lemma map_filter_skip_Nil: "dec [] = None \<Longrightarrow> List.map_filter dec (filter (\<lambda>l. l \<noteq> []) ls) = List.map_filter dec ls"
  by (induction ls) (auto simp: List.map_filter_def)

lemma parse_calls_lines: "dec [] = None \<Longrightarrow> parse_calls dec since content = filter (\<lambda>c. since \<le> lc_ts c) (calls_in dec content)"
  by (simp add: parse_calls_def calls_in_def log_lines_def map_filter_skip_Nil)

lemma calls_in_torn:
  assumes tx: "enc c = Some text" "json_line enc dec c"
  shows "calls_in dec (content @ take k (separator content @ text @ [NL])) =
    calls_in dec content @ (if length (separator content) + length text \<le> k then [c] else [])"
proof -
  have j: "text \<noteq> []" "NL \<notin> set text" "dec text = Some c" "\<And>n. n < length text \<Longrightarrow> dec (take n text) = None"
    using assms by (auto simp: json_line_def)
  let ?n = "k - length (separator content)"
  show ?thesis
  proof (cases "length (separator content) + length text \<le> k")
    case True
    then have "take ?n text = text" by simp
    then show ?thesis using True j unfolding calls_in_def log_lines_torn [OF j(2)] map_filter_append Let_def
      by (simp add: List.map_filter_def)
  next
    case False
    moreover have "0 < length text" using j(1) by simp
    ultimately have "?n < length text" by linarith
    then have "dec (take ?n text) = None" by (rule j(4))
    then show ?thesis using False unfolding calls_in_def log_lines_torn [OF j(2)] map_filter_append Let_def
      by (simp add: List.map_filter_def)
  qed
qed

lemma calls_in_append:
  assumes "json_line enc dec c" and p: "ledger_path scope = Inr p"
  shows "calls_in dec (content_at (snd (append_call enc w scope c st)) p) =
    calls_in dec (content_at st p) @ (if lands enc w scope c st then [c] else [])"
proof (cases "admitted enc w p c st")
  case True
  obtain body where t: "enc c = Some body" using assms(1) by (auto simp: json_line_def)
  let ?s = "separator (content_at st p)"
  define k where "k = (case lw_write w of None \<Rightarrow> length ?s + length body + 1 | Some k \<Rightarrow> k)"
  have written: "snd (append_bytes (lw_write w) body (content_at st p)) = content_at st p @ take k (?s @ body @ [NL])"
    unfolding append_bytes_content k_def by (cases "lw_write w") simp_all
  have "lands enc w scope c st \<longleftrightarrow> length ?s + length body \<le> k"
    using True by (simp add: lands_def p t k_def split: option.split)
  then show ?thesis
    using True calls_in_torn [OF t assms(1), of "content_at st p" k] written by (simp add: append_call_content [OF p] t)
next
  case False
  then show ?thesis by (simp add: append_call_content [OF p] lands_def p)
qed

text \<open>Appends of other scopes do not touch a ledger; its own calls arrive in order.\<close>

lemma run_appends_calls:
  assumes p: "ledger_path s = Inr p"
  shows "list_all (\<lambda>(_, _, c). json_line enc dec c) ops \<Longrightarrow>
    calls_in dec (content_at (run_appends enc ops st) p) = calls_in dec (content_at st p) @ landed enc s ops st"
proof (induction ops arbitrary: st)
  case (Cons op ops)
  obtain scope w c where op: "op = (scope, w, c)" by (cases op)
  have j: "json_line enc dec c" using Cons.prems by (simp add: op)
  have "calls_in dec (content_at (snd (append_call enc w scope c st)) p) =
      calls_in dec (content_at st p) @ (if scope = s \<and> lands enc w scope c st then [c] else [])"
  proof (cases "ledger_path scope")
    case (Inl e)
    then show ?thesis using p by (auto simp: append_call_invalid)
  next
    case (Inr q)
    show ?thesis
    proof (cases "scope = s")
      case True
      then show ?thesis using calls_in_append [OF j p, of w st] by simp
    next
      case False
      then have "p \<noteq> q" using p Inr ledger_path_inj by blast
      then show ?thesis using False by (simp add: append_call_content [OF Inr])
    qed
  qed
  then show ?case using Cons.IH [of "snd (append_call enc w scope c st)"] Cons.prems by (simp add: op)
qed simp

section \<open>What a prune keeps\<close>

abbreviation path_of :: "listed \<Rightarrow> fpath" where
  "path_of e \<equiv> snd (snd e)"

abbreviation bytes_of :: "listed \<Rightarrow> nat" where
  "bytes_of e \<equiv> fst (snd e)"

text \<open>The loop's choice, apart from its effects: the ledgers kept and the ledgers to remove.\<close>

fun keeps :: "nat \<Rightarrow> nat \<Rightarrow> nat \<Rightarrow> listed list \<Rightarrow> nat \<Rightarrow> nat \<Rightarrow> listed list" where
  "keeps max_files max_bytes cutoff [] files bytes = []"
| "keeps max_files max_bytes cutoff (e # ls) files bytes =
     (if cutoff \<le> fst e \<and> files < max_files \<and> bytes + bytes_of e \<le> max_bytes
      then e # keeps max_files max_bytes cutoff ls (files + 1) (bytes + bytes_of e)
      else keeps max_files max_bytes cutoff ls files bytes)"

fun drops :: "nat \<Rightarrow> nat \<Rightarrow> nat \<Rightarrow> listed list \<Rightarrow> nat \<Rightarrow> nat \<Rightarrow> listed list" where
  "drops max_files max_bytes cutoff [] files bytes = []"
| "drops max_files max_bytes cutoff (e # ls) files bytes =
     (if cutoff \<le> fst e \<and> files < max_files \<and> bytes + bytes_of e \<le> max_bytes
      then drops max_files max_bytes cutoff ls (files + 1) (bytes + bytes_of e)
      else e # drops max_files max_bytes cutoff ls files bytes)"

lemma set_drops: "set (drops mf mb cutoff ls files bytes) \<subseteq> set ls"
proof (induction ls arbitrary: files bytes)
  case (Cons e ls)
  then show ?case by (auto dest: subsetD [OF Cons.IH])
qed simp

lemma keeps_bounds:
  "length (keeps mf mb cutoff ls files bytes) + files \<le> max mf files"
  "sum_list (map bytes_of (keeps mf mb cutoff ls files bytes)) + bytes \<le> max mb bytes"
  "e \<in> set (keeps mf mb cutoff ls files bytes) \<Longrightarrow> cutoff \<le> fst e"
proof (induction ls arbitrary: files bytes)
  case (Cons x ls)
  {
    case 1
    show ?case using Cons.IH(1) [of "files + 1" "bytes + bytes_of x"] Cons.IH(1) [of files bytes] by auto
  next
    case 2
    show ?case using Cons.IH(2) [of "files + 1" "bytes + bytes_of x"] Cons.IH(2) [of files bytes] by auto
  next
    case 3
    then show ?case using Cons.IH(3) by (auto split: if_splits)
  }
qed simp_all

lemma keeps_filter:
  "distinct (map path_of ls) \<Longrightarrow>
    keeps mf mb cutoff ls files bytes = filter (\<lambda>e. path_of e \<notin> path_of ` set (drops mf mb cutoff ls files bytes)) ls"
proof (induction ls arbitrary: files bytes)
  case (Cons x ls)
  have d: "distinct (map path_of ls)" and x: "path_of x \<notin> path_of ` set ls" using Cons.prems by simp_all
  show ?case
  proof (cases "cutoff \<le> fst x \<and> files < mf \<and> bytes + bytes_of x \<le> mb")
    case True
    have "path_of x \<notin> path_of ` set (drops mf mb cutoff ls (files + 1) (bytes + bytes_of x))"
      using x set_drops by blast
    then show ?thesis using True Cons.IH [OF d] by simp
  next
    case False
    let ?D = "path_of ` set (drops mf mb cutoff ls files bytes)"
    have "filter (\<lambda>e. path_of e \<notin> insert (path_of x) ?D) ls = filter (\<lambda>e. path_of e \<notin> ?D) ls"
    proof (rule filter_cong [OF refl])
      fix e assume "e \<in> set ls"
      then have "path_of e \<noteq> path_of x" using x by (metis imageI)
      then show "(path_of e \<notin> insert (path_of x) ?D) = (path_of e \<notin> ?D)" by simp
    qed
    moreover have "keeps mf mb cutoff (x # ls) files bytes = keeps mf mb cutoff ls files bytes"
      and "drops mf mb cutoff (x # ls) files bytes = x # drops mf mb cutoff ls files bytes"
      using False by auto
    ultimately show ?thesis using Cons.IH [OF d, of files bytes] by simp
  qed
qed simp

lemma hm_remove_filter: "hm_remove p (filter (\<lambda>e. fst e \<notin> D) st) = filter (\<lambda>e. fst e \<notin> insert p D) st"
  by (auto simp: hm_remove_def intro: filter_cong)

text \<open>When no removal fails, the store loses exactly the ledgers to remove.\<close>

lemma prune_loop_store:
  assumes rm: "\<And>p. lw_remove w p \<noteq> Kept"
  shows "snd (prune_loop w mf mb cutoff ls files bytes removed (filter (\<lambda>e. fst e \<notin> D) st)) =
    filter (\<lambda>e. fst e \<notin> D \<union> path_of ` set (drops mf mb cutoff ls files bytes)) st"
proof (induction ls arbitrary: files bytes removed D)
  case (Cons x ls)
  obtain m l p where x: "x = (m, l, p)" by (cases x)
  show ?case
  proof (cases "cutoff \<le> m \<and> files < mf \<and> bytes + l \<le> mb")
    case True
    then show ?thesis using Cons.IH [of "files + 1" "bytes + l" removed D] by (simp add: x)
  next
    case False
    have "snd (prune_loop w mf mb cutoff ls files bytes n (hm_remove p (filter (\<lambda>e. fst e \<notin> D) st))) =
        filter (\<lambda>e. fst e \<notin> insert p D \<union> path_of ` set (drops mf mb cutoff ls files bytes)) st" for n
      unfolding hm_remove_filter by (rule Cons.IH)
    moreover have "insert p D \<union> path_of ` set (drops mf mb cutoff ls files bytes) =
        D \<union> path_of ` set (drops mf mb cutoff (x # ls) files bytes)"
      using False by (auto simp: x)
    moreover have "\<exists>n. prune_loop w mf mb cutoff (x # ls) files bytes removed s =
        prune_loop w mf mb cutoff ls files bytes n (hm_remove p s)" for s
      using False rm [of p] by (cases "lw_remove w p") (auto simp: x)
    ultimately show ?thesis by metis
  qed
qed simp

lemma mset_listed:
  "mset (listed_ledgers w keep st) =
     mset (map (\<lambda>(p, content). (lw_mtime w p, length content, p)) (filter (\<lambda>(p, _). prunable w keep p) st))"
  by (simp add: listed_ledgers_def)

lemma distinct_listed:
  assumes "hm_ok st"
  shows "distinct (map path_of (listed_ledgers w keep st))"
proof -
  have "mset (map path_of (listed_ledgers w keep st)) = mset (map fst (filter (\<lambda>(p, _). prunable w keep p) st))"
    unfolding mset_map mset_listed by (simp add: multiset.map_comp comp_def case_prod_beta)
  moreover have "distinct (map fst (filter (\<lambda>(p, _). prunable w keep p) st))"
    using assms by (simp add: hm_ok_def distinct_map_filter)
  ultimately show ?thesis by (metis mset_eq_imp_distinct_iff)
qed

text \<open>The ledgers of the directory that are left, besides the one that is kept in any case.\<close>

definition others_left :: "ledger_world \<Rightarrow> fpath \<Rightarrow> store \<Rightarrow> listed list" where
  "others_left w keep st =
     map (\<lambda>(p, content). (lw_mtime w p, length content, p)) (filter (\<lambda>(p, _). prunable w keep p) st)"

lemma others_left_keeps:
  assumes ok: "hm_ok st" and D: "D = path_of ` set (drops mf mb cutoff (listed_ledgers w keep st) files bytes)"
  shows "mset (others_left w keep (filter (\<lambda>e. fst e \<notin> D) st)) = mset (keeps mf mb cutoff (listed_ledgers w keep st) files bytes)"
proof -
  let ?f = "\<lambda>(p, content). (lw_mtime w p, length (content :: string), p)"
  have "mset (keeps mf mb cutoff (listed_ledgers w keep st) files bytes) =
      filter_mset (\<lambda>e. path_of e \<notin> D) (mset (listed_ledgers w keep st))"
    unfolding keeps_filter [OF distinct_listed [OF ok]] D by simp
  also have "\<dots> = mset (filter (\<lambda>e. path_of e \<notin> D) (map ?f (filter (\<lambda>(p, _). prunable w keep p) st)))"
    unfolding mset_listed by simp
  also have "filter (\<lambda>e. path_of e \<notin> D) (map ?f (filter (\<lambda>(p, _). prunable w keep p) st)) =
      map ?f (filter (\<lambda>(p, _). prunable w keep p) (filter (\<lambda>e. fst e \<notin> D) st))"
    by (induction st) auto
  finally show ?thesis by (simp add: others_left_def)
qed

lemma prune_store:
  assumes rm: "\<And>p. lw_remove w p \<noteq> Kept" and "lw_listed w" and "lw_stat w keep"
    and D: "D = path_of ` set (drops mf mb (lw_now w - age) (listed_ledgers w keep st) 1 (length (content_at st keep)))"
  shows "snd (prune_ledgers_with_limits w keep mf mb age st) = filter (\<lambda>e. fst e \<notin> D) st"
  using prune_loop_store [OF rm, of mf mb "lw_now w - age" "listed_ledgers w keep st" 1 "length (content_at st keep)" 0 "{}" st]
    assms(2,3)
  by (simp add: prune_ledgers_with_limits_def content_at_def D Let_def case_prod_beta)

lemma listed_prunable: "e \<in> set (listed_ledgers w keep st) \<Longrightarrow> prunable w keep (path_of e)"
  by (auto simp: listed_ledgers_def)

lemma hm_get_filter: "k \<notin> D \<Longrightarrow> hm_get (filter (\<lambda>e. fst e \<notin> D) st) k = hm_get st k"
  by (induction st) auto

section \<open>Properties\<close>

text \<open>
  C17. A session reads back exactly its own calls, in the order they were recorded: whatever other sessions and
  connections append in between, and however a failing write tears a record, the calls found are those whose text
  reached the file whole, and a torn record never damages the one before or after it.
\<close>

theorem ledger_round_trip:
  assumes i: "validate_session_id i" and p: "p = [''.codesage'', SESSIONS_DIR, i @ LEDGER_SUFFIX]"
    and ops: "list_all (\<lambda>(_, _, c). json_line enc dec c) ops" and dec: "dec [] = None"
    and fresh: "hm_get st p = None" and limit: "length (content_at (run_appends enc ops st) p) \<le> READ_LIMIT"
    and w: "\<not> reject_symlinked_parents w (butlast p)" "lw_stat w p" "lw_is_file w p" "lw_open w"
  shows "\<exists>r. read_session_ledger dec w i since (run_appends enc ops st) = Inr r
    \<and> lr_calls r = filter (\<lambda>c. since \<le> lc_ts c) (landed enc (Session i) ops st)"
proof -
  have path: "ledger_path (Session i) = Inr p" using i by (simp add: ledger_path_def p)
  let ?st = "run_appends enc ops st"
  have calls: "calls_in dec (content_at ?st p) = landed enc (Session i) ops st"
    using run_appends_calls [OF path ops, of st] fresh by (simp add: content_at_def calls_in_def List.map_filter_def)
  show ?thesis
  proof (cases "hm_get ?st p")
    case None
    then have "landed enc (Session i) ops st = []"
      using calls by (simp add: content_at_def calls_in_def List.map_filter_def)
    then show ?thesis using None w(1) path by (simp add: read_session_ledger_def ledger_read_default_def)
  next
    case (Some content)
    then have "content_at ?st p = content" by (simp add: content_at_def)
    then have "take READ_LIMIT content = content" "calls_in dec content = landed enc (Session i) ops st"
      using limit calls by simp_all
    then show ?thesis using Some w path parse_calls_lines [of dec since content] dec by (simp add: read_session_ledger_def)
  qed
qed

text \<open>
  C33. When no removal fails, a prune leaves its directory within the limits: at most the given number of ledgers, at most the
  given number of bytes (or the ledger in use alone), none older than the limit; the ledger in use and every
  file that is not a ledger of the directory stay as they are.
\<close>

theorem prune_within_limits:
  assumes "hm_ok st" and "lw_listed w" and "lw_stat w keep" and rm: "\<And>p. lw_remove w p \<noteq> Kept" and "0 < max_files"
    and st': "st' = snd (prune_ledgers_with_limits w keep max_files max_bytes max_age st)"
  shows "length (others_left w keep st') + 1 \<le> max_files
    \<and> sum_list (map bytes_of (others_left w keep st')) + length (content_at st keep) \<le> max max_bytes (length (content_at st keep))
    \<and> list_all (\<lambda>e. lw_now w - max_age \<le> fst e) (others_left w keep st')
    \<and> hm_get st' keep = hm_get st keep \<and> (\<forall>q. \<not> prunable w keep q \<longrightarrow> hm_get st' q = hm_get st q)"
proof (intro conjI)
  let ?c = "lw_now w - max_age" and ?n = "length (content_at st keep)"
  let ?keeps = "keeps max_files max_bytes ?c (listed_ledgers w keep st) 1 ?n"
  define D where "D = path_of ` set (drops max_files max_bytes ?c (listed_ledgers w keep st) 1 ?n)"
  have st'': "st' = filter (\<lambda>e. fst e \<notin> D) st" unfolding st' by (rule prune_store [OF rm assms(2,3) D_def])
  have k: "mset (others_left w keep st') = mset ?keeps"
    unfolding st'' by (rule others_left_keeps [OF assms(1) D_def])
  note b = keeps_bounds(1,2) [of max_files max_bytes ?c "listed_ledgers w keep st" 1 ?n]
  show "length (others_left w keep st') + 1 \<le> max_files" using b(1) mset_eq_length [OF k] assms(5) by simp
  have "sum_list (map bytes_of (others_left w keep st')) = sum_list (map bytes_of ?keeps)"
    using arg_cong [OF k, of "\<lambda>m. sum_mset (image_mset bytes_of m)"] by (simp add: sum_mset_sum_list [symmetric])
  then show "sum_list (map bytes_of (others_left w keep st')) + ?n \<le> max max_bytes ?n" using b(2) by simp
  show "list_all (\<lambda>e. ?c \<le> fst e) (others_left w keep st')"
    using keeps_bounds(3) [of _ max_files max_bytes ?c "listed_ledgers w keep st" 1 ?n] mset_eq_setD [OF k]
    by (simp add: list_all_iff)
  have out: "prunable w keep q" if "q \<in> D" for q using that set_drops listed_prunable unfolding D_def by blast
  have get: "hm_get st' q = hm_get st q" if "\<not> prunable w keep q" for q
    unfolding st'' by (rule hm_get_filter) (use that out in blast)
  then show "\<forall>q. \<not> prunable w keep q \<longrightarrow> hm_get st' q = hm_get st q" by blast
  show "hm_get st' keep = hm_get st keep" by (rule get) (simp add: prunable_def)
qed

section \<open>Examples\<close>

definition example_world :: ledger_world where
  "example_world =
     \<lparr>lw_symlink = (\<lambda>_. False), lw_is_dir = (\<lambda>_. True), lw_is_file = (\<lambda>_. True), lw_create = True, lw_open = True, lw_meta = True,
      lw_probe = True, lw_write = None, lw_stat = (\<lambda>_. True), lw_listed = True,
      lw_mtime = (\<lambda>p. if p = [''d'', ''b.calls.jsonl''] then 20 else 10), lw_now = 20, lw_remove = (\<lambda>_. Removed)\<rparr>"

definition example_call :: ledger_call where
  "example_call = \<lparr>lc_ts = 5, lc_tool = ''search'', lc_target_handles = [], lc_detail = None, lc_bytes = 0\<rparr>"

theorem ledger_round_trip_witness:
  "\<exists>r. read_session_ledger (\<lambda>t. if t = ''{}'' then Some example_call else None) example_world ''a'' 0
        (run_appends (\<lambda>_. Some ''{}'')
           [(Session ''a'', example_world\<lparr>lw_write := Some 1\<rparr>, example_call), (Session ''b'', example_world, example_call),
            (Session ''a'', example_world, example_call)] []) = Inr r
    \<and> lr_calls r = [example_call]"
proof -
  let ?dec = "\<lambda>t. if t = ''{}'' then Some example_call else None"
  let ?enc = "\<lambda>_ :: ledger_call. Some ''{}''"
  let ?p = "[''.codesage'', SESSIONS_DIR, ''a'' @ LEDGER_SUFFIX]"
  let ?ops = "[(Session ''a'', example_world\<lparr>lw_write := Some 1\<rparr>, example_call), (Session ''b'', example_world, example_call),
    (Session ''a'', example_world, example_call)]"
  have "json_line ?enc ?dec example_call" by (auto simp: json_line_def less_Suc_eq)
  then have ops: "list_all (\<lambda>(_, _, c). json_line ?enc ?dec c) ?ops" by simp
  have i: "validate_session_id ''a''" "validate_session_id ''b''"
    by (simp_all add: validate_session_id_def session_id_char_def)
  note defs = append_call_def ledger_path_def i Let_def example_world_def reject_symlinked_parents_def append_bytes_def
    MAX_LEDGER_BYTES_def
  have st: "run_appends ?enc ?ops [] = [(?p, ''{'' @ [NL] @ ''{}'' @ [NL]), ([''.codesage'', SESSIONS_DIR, ''b'' @ LEDGER_SUFFIX], ''{}'' @ [NL])]"
    by (simp add: defs hm_insert_def)
  have l: "landed ?enc (Session ''a'') ?ops [] = [example_call]"
    by (simp add: defs hm_insert_def lands_def admitted_def content_at_def separator_def ends_open_def)
  have len: "length (content_at (run_appends ?enc ?ops []) ?p) \<le> READ_LIMIT"
    unfolding st by (simp add: content_at_def READ_LIMIT_def)
  have "\<not> reject_symlinked_parents example_world (butlast ?p)" "lw_stat example_world ?p" "lw_is_file example_world ?p" "lw_open example_world"
    by (simp_all add: example_world_def reject_symlinked_parents_def)
  from ledger_round_trip [OF i(1) refl ops _ _ len this, of 0] show ?thesis unfolding l by (simp add: example_call_def)
qed

text \<open>
  A prune does not always remove the oldest ledgers first: a newer one that does not fit is removed, and an older, smaller one
  behind it is kept.
\<close>

theorem prune_may_drop_newer:
  "snd (prune_ledgers_with_limits example_world [''d'', ''k.calls.jsonl''] 10 3 30
     [([''d'', ''k.calls.jsonl''], ''x''), ([''d'', ''b.calls.jsonl''], ''xxx''), ([''d'', ''a.calls.jsonl''], ''x'')]) =
   [([''d'', ''k.calls.jsonl''], ''x''), ([''d'', ''a.calls.jsonl''], ''x'')]
   \<and> lw_mtime example_world [''d'', ''a.calls.jsonl''] < lw_mtime example_world [''d'', ''b.calls.jsonl'']"
  by code_simp

theorem prune_within_limits_witness:
  "length (others_left example_world [''d'', ''k.calls.jsonl'']
     (snd (prune_ledgers_with_limits example_world [''d'', ''k.calls.jsonl''] 2 100 30
        [([''d'', ''k.calls.jsonl''], ''x''), ([''d'', ''b.calls.jsonl''], ''xxx''), ([''d'', ''a.calls.jsonl''], ''x'')]))) + 1 \<le> 2"
proof -
  have "hm_ok [([''d'', ''k.calls.jsonl''], ''x''), ([''d'', ''b.calls.jsonl''], ''xxx''), ([''d'', ''a.calls.jsonl''], ''x'')]"
    by (simp add: hm_ok_def)
  from prune_within_limits [OF this, of example_world "[''d'', ''k.calls.jsonl'']" 2] show ?thesis
    by (simp add: example_world_def)
qed

end
