(* ===== verification/Call_Ledger.thy ===== *)
theory Call_Ledger
  imports Session_Ledger Handle
begin

text \<open>
  Which handles of a response a ledger records, \<open>crates/graph/src/session_ledger.rs\<close>, and the attribution of calls to
  sessions and connections, \<open>crates/cli/src/mcp/ledger.rs\<close>. A response is a JSON value of the variants the source
  matches on; an object is its entries in the order of iteration.
\<close>

section \<open>Values\<close>

datatype json_value =
    VNull
  | VBool bool
  | VNumber "u64 option"
  | VString string
  | VArray "json_value list"
  | VObject "(string \<times> json_value) list"

text \<open>\<open>Value::get\<close> with a key, \<open>as_str\<close>, \<open>as_bool\<close>, \<open>as_u64\<close> and \<open>as_array\<close>.\<close>

fun as_str :: "json_value \<Rightarrow> string option" where
  "as_str (VString s) = Some s"
| "as_str _ = None"

fun as_bool :: "json_value \<Rightarrow> bool option" where
  "as_bool (VBool b) = Some b"
| "as_bool _ = None"

fun as_u64 :: "json_value \<Rightarrow> u64 option" where
  "as_u64 (VNumber n) = n"
| "as_u64 _ = None"

fun as_array :: "json_value \<Rightarrow> json_value list option" where
  "as_array (VArray vs) = Some vs"
| "as_array _ = None"

fun get_key :: "json_value \<Rightarrow> string \<Rightarrow> json_value option" where
  "get_key (VObject es) k = map_of es k"
| "get_key _ k = None"

section \<open>Handles of a response\<close>

definition SKIP_KEYS :: "string list" where
  "SKIP_KEYS =
     [''next'', ''expand'', ''recover'', ''recovery'', ''remedy'', ''retry'', ''index'', ''cost'', ''completeness'', ''query'',
      ''input'', ''pattern'', ''code'', ''trace'', ''candidates'', ''notes'', ''summary_notes'', ''why'', ''legend'',
      ''commands'', ''error'', ''snapshot_path'', ''structural_overlay_paths'', ''unindexed_files'', ''unsupported_files'',
      ''unscored_files'', ''no_symbol_files'', ''failed_paths'', ''omitted_files'']"

definition is_path_key :: "string \<Rightarrow> bool" where
  "is_path_key key \<longleftrightarrow>
     key \<in> set [''file'', ''path'', ''files'', ''paths'', ''primary'', ''reachable'', ''coupled'']
     \<or> ends_with ''_file'' key \<or> ends_with ''_files'' key \<or> ends_with ''_path'' key"

text \<open>\<open>Path::strip_prefix\<close> of an absolute root: component by component, then the rest without empty and \<open>.\<close> parts at its ends.\<close>

definition blank_part :: "string \<Rightarrow> bool" where
  "blank_part c \<longleftrightarrow> c = [] \<or> c = ''.''"

fun strip_parts :: "string list \<Rightarrow> string list \<Rightarrow> string list option" where
  "strip_parts [] ps = Some ps"
| "strip_parts (r # rs) [] = None"
| "strip_parts (r # rs) (p # ps) =
     (if blank_part p then strip_parts (r # rs) ps else if p = r then strip_parts rs ps else None)"

definition path_strip_prefix :: "string \<Rightarrow> string \<Rightarrow> string option" where
  "path_strip_prefix root p =
     (if \<not> is_absolute p then None
      else map_option (\<lambda>ps. join_with CHR ''/'' (rev (dropWhile blank_part (rev (dropWhile blank_part ps)))))
             (strip_parts (components root) (split_on CHR ''/'' p)))"

definition served_handle :: "bool \<Rightarrow> string \<Rightarrow> string \<Rightarrow> handle option" where
  "served_handle path_key root s =
     (case handle_parse s of
        Some (File p) \<Rightarrow> Some (File p)
      | Some (Symbol p q l) \<Rightarrow> Some (Symbol p q l)
      | Some (Chunk p a b) \<Rightarrow> Some (Chunk p a b)
      | Some _ \<Rightarrow> None
      | None \<Rightarrow> if path_key then handle_file (case path_strip_prefix root s of None \<Rightarrow> s | Some r \<Rightarrow> r) else None)"

type_synonym collected = "string list \<times> string set"

definition push_handle :: "handle option \<Rightarrow> collected \<Rightarrow> collected" where
  "push_handle h acc =
     (case acc of
        (out, seen) \<Rightarrow>
          (case h of
             None \<Rightarrow> (out, seen)
           | Some handle \<Rightarrow>
               (let rendered = handle_to_string handle
                in if rendered \<notin> seen then (out @ [rendered], insert rendered seen) else (out, seen))))"

definition unserved :: "(string \<times> json_value) list \<Rightarrow> bool" where
  "unserved es \<longleftrightarrow>
     Option.bind (map_of es ''status'') as_str = Some ''unresolved'' \<or> Option.bind (map_of es ''found'') as_bool = Some False"

fun collect :: "string \<Rightarrow> bool \<Rightarrow> json_value \<Rightarrow> collected \<Rightarrow> collected"
  and collect_entries :: "string \<Rightarrow> (string \<times> json_value) list \<Rightarrow> collected \<Rightarrow> collected"
  and collect_items :: "string \<Rightarrow> bool \<Rightarrow> json_value list \<Rightarrow> collected \<Rightarrow> collected" where
  "collect root path_key (VObject es) acc =
     (if MAX_HANDLES \<le> length (fst acc) then acc
      else if unserved es then acc
      else collect_entries root es acc)"
| "collect root path_key (VArray items) acc =
     (if MAX_HANDLES \<le> length (fst acc) then acc else collect_items root path_key items acc)"
| "collect root path_key (VString s) acc =
     (if MAX_HANDLES \<le> length (fst acc) then acc
      else if length s \<le> MAX_HANDLE_BYTES then push_handle (served_handle path_key root s) acc
      else acc)"
| "collect root path_key VNull acc = acc"
| "collect root path_key (VBool b) acc = acc"
| "collect root path_key (VNumber n) acc = acc"
| "collect_entries root [] acc = acc"
| "collect_entries root ((key, child) # es) acc =
     (if key \<in> set SKIP_KEYS then collect_entries root es acc
      else collect_entries root es (collect root (is_path_key key) child acc))"
| "collect_items root path_key [] acc = acc"
| "collect_items root path_key (v # vs) acc = collect_items root path_key vs (collect root path_key v acc)"

definition response_handles :: "json_value \<Rightarrow> string \<Rightarrow> string list" where
  "response_handles v root = fst (collect root False v ([], {}))"

definition ledger_handle_path :: "string \<Rightarrow> string option" where
  "ledger_handle_path s =
     (case handle_parse s of
        Some (File p) \<Rightarrow> Some p
      | Some (Symbol p _ _) \<Rightarrow> Some p
      | Some (Chunk p _ _) \<Rightarrow> Some p
      | _ \<Rightarrow> None)"

text \<open>\<open>file_id_for_path\<close> answers at most once for each path; the memo keeps its answer.\<close>

fun retain_loop :: "(string \<Rightarrow> bool) \<Rightarrow> string list \<Rightarrow> (string \<times> bool) list \<Rightarrow> string list" where
  "retain_loop indexed [] memo = []"
| "retain_loop indexed (h # hs) memo =
     (case ledger_handle_path h of
        None \<Rightarrow> retain_loop indexed hs memo
      | Some p \<Rightarrow>
          (let memo = (case hm_get memo p of None \<Rightarrow> hm_insert p (indexed p) memo | Some _ \<Rightarrow> memo)
           in if hm_get memo p = Some True then h # retain_loop indexed hs memo else retain_loop indexed hs memo))"

definition retain_indexed :: "(string \<Rightarrow> bool) \<Rightarrow> string list \<Rightarrow> string list" where
  "retain_indexed indexed handles = retain_loop indexed handles []"

section \<open>Attribution\<close>

definition HANDLE_TOOLS :: "string list" where
  "HANDLE_TOOLS =
     [''describe'', ''find_symbol'', ''find_references'', ''find_similar'', ''list_dependencies'', ''search'',
      ''trace_call_path'', ''from_trace'', ''impact_analysis'', ''bundle'', ''find_coupling'', ''assess_risk'',
      ''recommend_tests'', ''review_rehearsal'', ''edit_check'']"

definition ASSESS_RISK_CHECK_TOOL :: string where "ASSESS_RISK_CHECK_TOOL = ''assess_risk:check''"

type_synonym args = "(string \<times> json_value) list"

definition non_empty_str :: "args \<Rightarrow> string \<Rightarrow> bool" where
  "non_empty_str arguments key = (case Option.bind (map_of arguments key) as_str of None \<Rightarrow> False | Some v \<Rightarrow> v \<noteq> [])"

definition serves_handles :: "string \<Rightarrow> args \<Rightarrow> bool" where
  "serves_handles tool arguments \<longleftrightarrow>
     tool \<in> set HANDLE_TOOLS
     \<or> (tool = ''features'' \<and> (non_empty_str arguments ''target'' \<or> non_empty_str arguments ''file_path''))"

definition ledger_tool :: "string \<Rightarrow> args \<Rightarrow> string" where
  "ledger_tool tool arguments =
     (if tool \<noteq> ''assess_risk'' then tool
      else (let aggregate = (Option.bind (map_of arguments ''aggregate'') as_bool = Some True);
                several = list_ex (\<lambda>key. case Option.bind (map_of arguments key) as_array of
                                              None \<Rightarrow> False
                                            | Some items \<Rightarrow> 1 < length items) [''targets'', ''file_paths'']
            in if aggregate \<or> several then ASSESS_RISK_CHECK_TOOL else tool))"

record response =
  rs_is_error :: "bool option"
  rs_structured :: "json_value option"
  rs_text_lengths :: "nat list"

record connection_ledger =
  cl_enabled :: bool
  cl_connection :: string
  cl_sessions :: "(string \<times> string) list"

text \<open>
  The project a call is about: its root, its ledger files, what opening its index read-only answers (none when it cannot be
  opened), and the clock.
\<close>

record project =
  pj_root :: string
  pj_store :: store
  pj_index :: "(string \<Rightarrow> bool) option"
  pj_now :: u64

definition indexed_only :: "(string \<Rightarrow> bool) option \<Rightarrow> string list \<Rightarrow> string list" where
  "indexed_only index handles =
     (if handles = [] then handles
      else (case index of None \<Rightarrow> [] | Some indexed \<Rightarrow> retain_indexed indexed handles))"

definition tool_name :: "string \<Rightarrow> bool" where
  "tool_name tool \<longleftrightarrow>
     length tool \<le> 64
     \<and> list_all (\<lambda>c. (97 \<le> (of_char c :: nat) \<and> (of_char c :: nat) \<le> 122) \<or> c = CHR ''_'') tool"

definition ledger_call_of :: "project \<Rightarrow> string \<Rightarrow> args \<Rightarrow> response \<Rightarrow> ledger_call" where
  "ledger_call_of pj tool arguments rsp =
     (let ok = (rs_is_error rsp \<noteq> Some True);
          target_handles =
            (case rs_structured rsp of
               Some v \<Rightarrow>
                 if ok \<and> serves_handles tool arguments
                 then indexed_only (pj_index pj) (response_handles v (pj_root pj)) else []
             | None \<Rightarrow> []);
          cost = Option.bind (rs_structured rsp) (\<lambda>v. get_key v ''cost'');
          bytes = (case Option.bind (Option.bind cost (\<lambda>c. get_key c ''bytes'')) as_u64 of
                     Some n \<Rightarrow> n
                   | None \<Rightarrow> of_nat (sum_list (rs_text_lengths rsp)))
      in \<lparr>lc_ts = pj_now pj, lc_tool = ledger_tool tool arguments, lc_target_handles = target_handles,
          lc_detail = Option.bind (Option.bind cost (\<lambda>c. get_key c ''detail'')) as_str, lc_bytes = bytes\<rparr>)"

definition start_session ::
  "ledger_world \<Rightarrow> string \<Rightarrow> args \<Rightarrow> response \<Rightarrow> project \<times> connection_ledger \<Rightarrow> project \<times> connection_ledger" where
  "start_session w tool arguments rsp s =
     (case s of
        (pj, cl) \<Rightarrow>
          if rs_is_error rsp \<noteq> Some True \<and> tool = ''session''
             \<and> Option.bind (map_of arguments ''action'') as_str = Some ''start''
          then (let i = (case Option.bind (map_of arguments ''session_id'') as_str of None \<Rightarrow> ''default'' | Some i \<Rightarrow> i)
                in (pj\<lparr>pj_store := snd (reset_session_ledger w i (pj_store pj))\<rparr>,
                    cl\<lparr>cl_sessions := hm_insert (pj_root pj) i (cl_sessions cl)\<rparr>))
          else (pj, cl))"

definition scope_of :: "project \<Rightarrow> connection_ledger \<Rightarrow> ledger_scope" where
  "scope_of pj cl =
     (case hm_get (cl_sessions cl) (pj_root pj) of Some i \<Rightarrow> Session i | None \<Rightarrow> Connection (cl_connection cl))"

definition record_call ::
  "(ledger_call \<Rightarrow> string option) \<Rightarrow> ledger_world \<Rightarrow> string \<Rightarrow> args \<Rightarrow> response \<Rightarrow> project \<times> connection_ledger
     \<Rightarrow> project \<times> connection_ledger" where
  "record_call enc w tool arguments rsp s =
     (if \<not> cl_enabled (snd s) \<or> \<not> is_absolute (pj_root (fst s)) \<or> \<not> tool_name tool then s
      else (case start_session w tool arguments rsp s of
              (pj, cl) \<Rightarrow>
                if tool = ''session'' \<or> tool = ''help'' then (pj, cl)
                else (let scope = scope_of pj cl
                      in case append_call enc w scope (ledger_call_of pj tool arguments rsp) (pj_store pj) of
                           (r, st) \<Rightarrow>
                             (case r of
                                Inr (Written True) \<Rightarrow>
                                  (case ledger_path scope of
                                     Inl _ \<Rightarrow> (pj\<lparr>pj_store := st\<rparr>, cl)
                                   | Inr p \<Rightarrow> (pj\<lparr>pj_store := snd (prune_ledgers w p st)\<rparr>, cl))
                              | _ \<Rightarrow> (pj\<lparr>pj_store := st\<rparr>, cl)))))"

section \<open>What is collected\<close>

text \<open>A handle of a file, a symbol or a chunk, as it is printed.\<close>

fun evidence_handle :: "handle \<Rightarrow> bool" where
  "evidence_handle (File p) = handle_ok (File p)"
| "evidence_handle (Symbol p q l) = handle_ok (Symbol p q l)"
| "evidence_handle (Chunk p a b) = handle_ok (Chunk p a b)"
| "evidence_handle _ = False"

definition evidence :: "string \<Rightarrow> bool" where
  "evidence s \<longleftrightarrow> (\<exists>h. evidence_handle h \<and> s = handle_to_string h)"

definition collected_ok :: "collected \<Rightarrow> bool" where
  "collected_ok acc \<longleftrightarrow>
     snd acc = set (fst acc) \<and> distinct (fst acc) \<and> length (fst acc) \<le> MAX_HANDLES \<and> list_all evidence (fst acc)"

lemma served_handle_evidence:
  assumes "served_handle path_key root s = Some h"
  shows "evidence_handle h"
proof (cases "handle_parse s")
  case None
  then show ?thesis using assms by (auto simp: served_handle_def handle_file_def split: if_splits)
next
  case (Some g)
  then show ?thesis using assms handle_parse_ok [OF Some] by (cases g) (auto simp: served_handle_def)
qed

lemma push_handle_ok:
  assumes "collected_ok acc" and "length (fst acc) < MAX_HANDLES"
  shows "collected_ok (push_handle (served_handle path_key root s) acc)"
proof (cases "served_handle path_key root s")
  case None
  then show ?thesis using assms(1) by (cases acc) (simp add: push_handle_def)
next
  case (Some h)
  then have "evidence (handle_to_string h)" using served_handle_evidence [OF Some] by (auto simp: evidence_def)
  then show ?thesis using assms Some by (cases acc) (auto simp: push_handle_def collected_ok_def Let_def)
qed

lemma collect_ok:
  "collected_ok acc \<Longrightarrow> collected_ok (collect root path_key v acc)"
  "collected_ok acc \<Longrightarrow> collected_ok (collect_entries root es acc)"
  "collected_ok acc \<Longrightarrow> collected_ok (collect_items root path_key vs acc)"
  by (induction root path_key v acc and root es acc and root path_key vs acc
      rule: collect_collect_entries_collect_items.induct)
     (simp_all add: push_handle_ok)

section \<open>Redaction\<close>

text \<open>A response without the subtrees below the skipped keys and without the objects marked as not served.\<close>

fun redact :: "json_value \<Rightarrow> json_value"
  and redact_entries :: "(string \<times> json_value) list \<Rightarrow> (string \<times> json_value) list"
  and redact_items :: "json_value list \<Rightarrow> json_value list" where
  "redact (VObject es) = (if unserved es then VNull else VObject (redact_entries es))"
| "redact (VArray vs) = VArray (redact_items vs)"
| "redact (VString s) = VString s"
| "redact VNull = VNull"
| "redact (VBool b) = VBool b"
| "redact (VNumber n) = VNumber n"
| "redact_entries [] = []"
| "redact_entries ((k, v) # es) = (if k \<in> set SKIP_KEYS then redact_entries es else (k, redact v) # redact_entries es)"
| "redact_items [] = []"
| "redact_items (v # vs) = redact v # redact_items vs"

lemma map_of_redact_entries:
  "k \<notin> set SKIP_KEYS \<Longrightarrow> map_of (redact_entries es) k = map_option redact (map_of es k)"
  by (induction es) auto

lemma as_str_redact [simp]: "as_str (redact v) = as_str v"
  by (cases v) auto

lemma as_bool_redact [simp]: "as_bool (redact v) = as_bool v"
  by (cases v) auto

lemma unserved_redact: "unserved (redact_entries es) = unserved es"
proof -
  have "Option.bind (map_option redact x) as_str = Option.bind x as_str"
    "Option.bind (map_option redact x) as_bool = Option.bind x as_bool" for x by (cases x; simp)+
  moreover have "''status'' \<notin> set SKIP_KEYS" "''found'' \<notin> set SKIP_KEYS" by code_simp+
  ultimately show ?thesis by (simp add: unserved_def map_of_redact_entries)
qed

lemma collect_redact:
  "collect root path_key (redact v) acc = collect root path_key v acc"
  "collect_entries root (redact_entries es) acc = collect_entries root es acc"
  "collect_items root path_key (redact_items vs) acc = collect_items root path_key vs acc"
  by (induction root path_key v acc and root es acc and root path_key vs acc
      rule: collect_collect_entries_collect_items.induct)
     (simp_all add: unserved_redact)

section \<open>What is retained\<close>

lemma retain_loop_filter:
  assumes "\<forall>(p, b) \<in> set memo. b = indexed p"
  shows "retain_loop indexed hs memo =
    filter (\<lambda>h. case ledger_handle_path h of None \<Rightarrow> False | Some p \<Rightarrow> indexed p) hs"
  using assms
proof (induction indexed hs memo rule: retain_loop.induct)
  case (2 indexed h hs memo)
  show ?case
  proof (cases "ledger_handle_path h")
    case None
    then show ?thesis using 2 by simp
  next
    case (Some p)
    define m where "m = (case hm_get memo p of None \<Rightarrow> hm_insert p (indexed p) memo | Some _ \<Rightarrow> memo)"
    have ok: "\<forall>(q, b) \<in> set m. b = indexed q"
      using "2.prems" by (auto simp: m_def hm_insert_def split: option.splits)
    have get: "hm_get m p = Some (indexed p)"
      using "2.prems" by (auto simp: m_def split: option.splits dest!: hm_get_mem)
    have "retain_loop indexed hs m = filter (\<lambda>h. case ledger_handle_path h of None \<Rightarrow> False | Some p \<Rightarrow> indexed p) hs"
      using 2(2,3) Some ok get by (cases "indexed p") (auto simp: m_def)
    then show ?thesis using Some get by (simp add: m_def Let_def)
  qed
qed simp

lemma retain_indexed_filter:
  "retain_indexed indexed hs = filter (\<lambda>h. case ledger_handle_path h of None \<Rightarrow> False | Some p \<Rightarrow> indexed p) hs"
  by (simp add: retain_indexed_def retain_loop_filter)

lemma indexed_only_filter:
  "indexed_only index hs =
     filter (\<lambda>h. case ledger_handle_path h of None \<Rightarrow> False | Some p \<Rightarrow> (case index of None \<Rightarrow> False | Some indexed \<Rightarrow> indexed p)) hs"
  by (cases index) (auto simp: indexed_only_def retain_indexed_filter filter_empty_conv split: option.splits)

lemma ledger_handle_path_valid: "ledger_handle_path h = Some p \<Longrightarrow> valid_path p"
  using handle_parse_ok [of h] by (auto simp: ledger_handle_path_def split: option.splits handle.splits)

lemma evidence_path:
  assumes "evidence s"
  shows "\<exists>p. ledger_handle_path s = Some p \<and> valid_path p"
proof -
  obtain h where "evidence_handle h" "s = handle_to_string h" using assms by (auto simp: evidence_def)
  moreover from this have "handle_ok h" "handle_canonical h = h" by (cases h; simp)+
  ultimately show ?thesis using handle_parse_print [of h] by (cases h) (auto simp: ledger_handle_path_def)
qed

lemma response_handles_ok:
  "distinct (response_handles v root)" "length (response_handles v root) \<le> MAX_HANDLES"
  "h \<in> set (response_handles v root) \<Longrightarrow> evidence h"
  using collect_ok(1) [of "([], {})" root False v] by (auto simp: response_handles_def collected_ok_def list_all_iff)

lemma response_handles_redact: "response_handles (redact v) root = response_handles v root"
  by (simp add: response_handles_def collect_redact)

lemma target_handles_of:
  "lc_target_handles (ledger_call_of pj tool arguments rsp) =
     (case rs_structured rsp of
        None \<Rightarrow> []
      | Some v \<Rightarrow>
          if rs_is_error rsp \<noteq> Some True \<and> serves_handles tool arguments
          then indexed_only (pj_index pj) (response_handles v (pj_root pj)) else [])"
  by (simp add: ledger_call_of_def Let_def split: option.split)

section \<open>What a call changes\<close>

lemma prune_loop_get:
  "hm_get (snd (prune_loop w mf mb cutoff ls files bytes removed st)) q = hm_get st q
   \<or> hm_get (snd (prune_loop w mf mb cutoff ls files bytes removed st)) q = None \<and> q \<in> path_of ` set ls"
proof (induction ls arbitrary: files bytes removed st)
  case (Cons e ls)
  obtain m l p where e: "e = (m, l, p)" by (cases e)
  show ?case
    using Cons.IH [of "files + 1" "bytes + l" removed st] Cons.IH [of files bytes "removed + 1" "hm_remove p st"]
      Cons.IH [of files bytes removed "hm_remove p st"] Cons.IH [of files bytes removed st]
    by (auto simp: e split: remove_outcome.split if_splits)
qed simp

lemma prune_get:
  "hm_get (snd (prune_ledgers w keep st)) q = hm_get st q
   \<or> hm_get (snd (prune_ledgers w keep st)) q = None \<and> prunable w keep q"
proof -
  have "q \<in> path_of ` set (listed_ledgers w keep st) \<Longrightarrow> prunable w keep q" using listed_prunable by blast
  then show ?thesis
    using prune_loop_get [of w _ _ _ "listed_ledgers w keep st" _ _ _ st q]
    by (auto simp: prune_ledgers_def prune_ledgers_with_limits_def Let_def split: prod.split) (metis snd_conv)+
qed

lemma append_call_get:
  "ledger_path scope = Inr p \<Longrightarrow> q \<noteq> p \<Longrightarrow> hm_get (snd (append_call enc w scope c st)) q = hm_get st q"
  by (auto simp: append_call_def Let_def split: option.split prod.split)

lemma reset_get:
  "hm_get (snd (reset_session_ledger w i st)) q = hm_get st q
   \<or> ledger_path (Session i) = Inr q \<and> hm_get (snd (reset_session_ledger w i st)) q = None"
  by (auto simp: reset_session_ledger_def split: sum.split remove_outcome.split)

text \<open>The ledger of a scope, and the ledgers beside it that a prune may remove.\<close>

definition own_or_pruned :: "ledger_world \<Rightarrow> ledger_scope \<Rightarrow> store \<Rightarrow> store \<Rightarrow> fpath \<Rightarrow> bool" where
  "own_or_pruned w scope st st' q \<longleftrightarrow>
     hm_get st' q = hm_get st q \<or> (\<exists>p. ledger_path scope = Inr p \<and> (q = p \<or> hm_get st' q = None \<and> prunable w p q))"

lemma own_or_pruned_reset: "own_or_pruned w (Session i) st (snd (reset_session_ledger w i st)) q"
  using reset_get [of w i st q] unfolding own_or_pruned_def by blast

lemma own_or_pruned_refl: "own_or_pruned w scope st st q"
  by (simp add: own_or_pruned_def)

lemma start_session_scope:
  assumes "start_session w tool arguments rsp (pj, cl) = (pj', cl')"
  shows "own_or_pruned w (scope_of pj' cl') (pj_store pj) (pj_store pj') q"
    and "pj_root pj' = pj_root pj" and "cl_connection cl' = cl_connection cl"
    and "r \<noteq> pj_root pj \<Longrightarrow> hm_get (cl_sessions cl') r = hm_get (cl_sessions cl) r"
    and "tool \<noteq> ''session'' \<Longrightarrow> pj' = pj \<and> cl' = cl"
  using assms by (auto simp: start_session_def own_or_pruned_reset own_or_pruned_refl scope_of_def Let_def split: if_splits)

lemma append_and_prune_scope:
  assumes "append_call enc w scope call st = (r, st')"
  shows "own_or_pruned w scope st st' q"
    and "ledger_path scope = Inr p \<Longrightarrow> own_or_pruned w scope st (snd (prune_ledgers w p st')) q"
proof -
  have st': "st' = snd (append_call enc w scope call st)" using assms by simp
  show *: "own_or_pruned w scope st st' q"
    unfolding st' own_or_pruned_def
    by (cases "ledger_path scope") (auto simp: append_call_invalid append_call_get)
  show "own_or_pruned w scope st (snd (prune_ledgers w p st')) q" if p: "ledger_path scope = Inr p"
    using * prune_get [of w p st' q] p unfolding own_or_pruned_def by auto
qed

section \<open>Properties\<close>

text \<open>
  C20. The handles a call is recorded with are evidence that was served: at most 64, no two the same, each naming a valid path of a file
  in the index; none when the call failed or the tool serves no handles. What stands below the skipped keys (follow-up hints,
  echoes of the input, diagnostics) and inside unresolved or unfound entries has no influence on them.
\<close>

theorem recorded_handles_served:
  "let hs = lc_target_handles (ledger_call_of pj tool arguments rsp)
   in distinct hs \<and> length hs \<le> MAX_HANDLES
    \<and> list_all (\<lambda>h. \<exists>p indexed. ledger_handle_path h = Some p \<and> valid_path p \<and> pj_index pj = Some indexed \<and> indexed p) hs
    \<and> (hs = [] \<or> rs_is_error rsp \<noteq> Some True \<and> serves_handles tool arguments)
    \<and> hs = lc_target_handles (ledger_call_of pj tool arguments (rsp\<lparr>rs_structured := map_option redact (rs_structured rsp)\<rparr>))"
proof (cases "rs_structured rsp")
  case None
  then show ?thesis by (simp add: target_handles_of)
next
  case (Some v)
  let ?served = "response_handles v (pj_root pj)"
  have "length (indexed_only (pj_index pj) ?served) \<le> MAX_HANDLES"
    unfolding indexed_only_filter using response_handles_ok(2) length_filter_le le_trans by blast
  moreover have "distinct (indexed_only (pj_index pj) ?served)"
    by (simp add: indexed_only_filter response_handles_ok(1))
  moreover have "list_all (\<lambda>h. \<exists>p indexed. ledger_handle_path h = Some p \<and> valid_path p \<and> pj_index pj = Some indexed \<and> indexed p)
      (indexed_only (pj_index pj) ?served)"
    unfolding indexed_only_filter list_all_iff
    using ledger_handle_path_valid by (auto split: option.splits)
  ultimately show ?thesis by (simp add: target_handles_of Some response_handles_redact)
qed

text \<open>
  C32. Recording a call touches the ledger of its own session or connection only: every other file is as before, or is another
  ledger of the same directory that the prune removed. The session of another project is not changed, and a switched-off ledger
  and a tool name that is none leave everything as it is.
\<close>

theorem record_call_isolated:
  assumes r: "record_call enc w tool arguments rsp (pj, cl) = (pj', cl')"
  shows "own_or_pruned w (scope_of pj' cl') (pj_store pj) (pj_store pj') q
    \<and> pj_root pj' = pj_root pj \<and> cl_connection cl' = cl_connection cl
    \<and> (root = pj_root pj \<or> hm_get (cl_sessions cl') root = hm_get (cl_sessions cl) root)
    \<and> (cl_enabled cl \<and> tool_name tool \<or> pj' = pj \<and> cl' = cl)"
proof (cases "\<not> cl_enabled cl \<or> \<not> is_absolute (pj_root pj) \<or> \<not> tool_name tool")
  case True
  then show ?thesis using r by (auto simp: record_call_def own_or_pruned_refl)
next
  case on: False
  obtain pj1 cl1 where s: "start_session w tool arguments rsp (pj, cl) = (pj1, cl1)" by fastforce
  note start = start_session_scope [OF s]
  show ?thesis
  proof (cases "tool = ''session'' \<or> tool = ''help''")
    case True
    then have "pj' = pj1 \<and> cl' = cl1" using r on by (auto simp: record_call_def s)
    then show ?thesis using start(1-4) on by blast
  next
    case False
    then have same: "pj1 = pj" "cl1 = cl" using start(5) by auto
    obtain res st where a: "append_call enc w (scope_of pj cl) (ledger_call_of pj tool arguments rsp) (pj_store pj) = (res, st)"
      by fastforce
    have "cl' = cl \<and> pj_root pj' = pj_root pj \<and> own_or_pruned w (scope_of pj cl) (pj_store pj) (pj_store pj') q"
      using r on False append_and_prune_scope(1) [OF a, of q] append_and_prune_scope(2) [OF a]
      by (auto simp: record_call_def s same a Let_def split: sum.splits append_outcome.splits bool.splits)
    moreover from this have "scope_of pj' cl' = scope_of pj cl" by (simp add: scope_of_def)
    ultimately show ?thesis using on by simp
  qed
qed

definition example_project :: project where
  "example_project =
     \<lparr>pj_root = ''/p'', pj_store = [([''.codesage'', ''sessions'', ''a.calls.jsonl''], ''x'')], pj_index = Some (\<lambda>p. p = ''a.rs''),
      pj_now = 7\<rparr>"

definition example_connection :: connection_ledger where
  "example_connection = \<lparr>cl_enabled = True, cl_connection = ''c1'', cl_sessions = []\<rparr>"

definition example_response :: response where
  "example_response = \<lparr>rs_is_error = None, rs_structured = None, rs_text_lengths = [2]\<rparr>"

theorem record_call_isolated_witness:
  "own_or_pruned example_world (Connection ''c1'') (pj_store example_project)
     (pj_store (fst (record_call (\<lambda>_. Some ''{}'') example_world ''search'' [] example_response (example_project, example_connection))))
     [''.codesage'', ''sessions'', ''a.calls.jsonl'']"
proof -
  let ?r = "record_call (\<lambda>_. Some ''{}'') example_world ''search'' [] example_response (example_project, example_connection)"
  obtain pj' cl' where r: "?r = (pj', cl')" by fastforce
  have "tool_name ''search''" by (simp add: tool_name_def)
  then have "cl' = example_connection"
    using r by (auto simp: record_call_def start_session_def example_connection_def Let_def
        split: sum.splits append_outcome.splits bool.splits prod.splits if_splits)
  then show ?thesis
    using record_call_isolated [OF r, of "[''.codesage'', ''sessions'', ''a.calls.jsonl'']" "''/q''"]
    unfolding r by (simp add: scope_of_def example_connection_def)
qed

end
