(* ===== verification/Brief_Gate.thy ===== *)
theory Brief_Gate
  imports Session_Ledger
begin

text \<open>
  The gate in front of edit briefs, \<open>crates/cli/src/brief_gate.rs\<close>: one state file per session with the tokens spent, the
  payloads served and the last time of each path, and the log of all fires. The state files are a store from file names of the
  runtime directory to their text; the answers of the file system and the clock are records, and serde's text of a
  state is a parameter. Reading and replacing a state file are those of \<open>crates/cli/src/fsguard.rs\<close> and
  \<open>crates/graph/src/state_file.rs\<close>.
\<close>

section \<open>State files\<close>

definition MAX_STATE_BYTES :: nat where "MAX_STATE_BYTES = 2 ^ 20"

datatype read_outcome = Read string | Not_Found | Read_Failed

definition read_state_to_string :: "bool \<Rightarrow> string \<Rightarrow> (string \<times> string) list \<Rightarrow> read_outcome" where
  "read_state_to_string readable name files =
     (case hm_get files name of
        None \<Rightarrow> if readable then Not_Found else Read_Failed
      | Some raw \<Rightarrow> if \<not> readable \<or> MAX_STATE_BYTES < length raw then Read_Failed else Read raw)"

text \<open>What each call of a replacement answers; the directory is synchronised after the new file has its name.\<close>

record replace_answers =
  ra_parent :: bool
  ra_target :: bool
  ra_temporary :: bool
  ra_write :: bool
  ra_permissions :: bool
  ra_sync :: bool
  ra_target_again :: bool
  ra_persist :: bool
  ra_sync_dir :: bool

definition replace_state :: "replace_answers \<Rightarrow> string \<Rightarrow> string \<Rightarrow> (string \<times> string) list \<Rightarrow> bool \<times> (string \<times> string) list" where
  "replace_state a name bytes files =
     (if \<not> ra_parent a then (False, files)
      else if \<not> ra_target a then (False, files)
      else if \<not> ra_temporary a then (False, files)
      else if \<not> ra_write a then (False, files)
      else if hm_get files name \<noteq> None \<and> \<not> ra_permissions a then (False, files)
      else if \<not> ra_sync a then (False, files)
      else if \<not> ra_target_again a then (False, files)
      else if \<not> ra_persist a then (False, files)
      else (ra_sync_dir a, hm_insert name bytes files))"

section \<open>The decision\<close>

definition SESSION_TOKEN_BUDGET :: u64 where "SESSION_TOKEN_BUDGET = 1500"

definition PATH_COOLDOWN_SECS :: nat where "PATH_COOLDOWN_SECS = 900"

definition CHARS_PER_TOKEN :: nat where "CHARS_PER_TOKEN = 4"

record gate_state =
  gs_tokens :: u64
  gs_served :: "(string \<times> nat) list"
  gs_last_path :: "(string \<times> nat) list"

definition gate_default :: gate_state where
  "gate_default = \<lparr>gs_tokens = 0, gs_served = [], gs_last_path = []\<rparr>"

datatype decision = Served | Empty | Repeat | Cooldown | Budget | Unavailable | Error

fun decision_str :: "decision \<Rightarrow> string" where
  "decision_str Served = ''served''"
| "decision_str Empty = ''empty''"
| "decision_str Repeat = ''repeat''"
| "decision_str Cooldown = ''cooldown''"
| "decision_str Budget = ''budget''"
| "decision_str Unavailable = ''unavailable''"
| "decision_str Error = ''error''"

text \<open>FNV-1a on 64 bits, and the lower-case hexadecimal form of a number.\<close>

definition digest :: "string \<Rightarrow> u64" where
  "digest s = fold (\<lambda>b h. (xor h (of_nat (of_char b))) * 0x100000001b3) s 0xcbf29ce484222325"

definition hex_digit :: "nat \<Rightarrow> char" where
  "hex_digit n = ''0123456789abcdef'' ! n"

fun show_hex :: "nat \<Rightarrow> string" where
  "show_hex n = (if n < 16 then [hex_digit n] else show_hex (n div 16) @ [hex_digit (n mod 16)])"

declare show_hex.simps [simp del]

definition cost_of :: "string \<Rightarrow> nat" where
  "cost_of payload = (length payload + CHARS_PER_TOKEN - 1) div CHARS_PER_TOKEN"

definition served_key :: "string \<Rightarrow> string \<Rightarrow> string" where
  "served_key path payload = path @ [CHR 0x00] @ show_hex (unat (digest payload))"

definition decide :: "gate_state \<Rightarrow> string \<Rightarrow> string \<Rightarrow> nat \<Rightarrow> decision \<times> gate_state" where
  "decide state path payload now =
     (let cost = of_nat (cost_of payload) :: u64
      in if gs_tokens state + cost > SESSION_TOKEN_BUDGET then (Budget, state)
         else (let key = served_key path payload
               in if hm_get (gs_served state) key \<noteq> None then (Repeat, state)
                  else (let recent = (case hm_get (gs_last_path state) path of
                                        None \<Rightarrow> False
                                      | Some prev \<Rightarrow> saturating_sub now prev < PATH_COOLDOWN_SECS)
                        in if recent then (Cooldown, state)
                           else (Served,
                                 \<lparr>gs_tokens = gs_tokens state + cost, gs_served = hm_insert key now (gs_served state),
                                  gs_last_path = hm_insert path now (gs_last_path state)\<rparr>))))"

definition sanitize :: "string \<Rightarrow> string" where
  "sanitize session =
     (let cleaned = dropWhile (\<lambda>c. c = CHR ''.'') (take 128 (filter session_id_char session))
      in if cleaned = [] then show_hex (unat (digest session)) else cleaned)"

definition state_file_name :: "string \<Rightarrow> string" where
  "state_file_name session = ''brief-'' @ sanitize session @ ''.json''"

record gate_world =
  gw_mkdir :: bool
  gw_open_lock :: bool
  gw_locked :: bool
  gw_readable :: bool
  gw_now :: nat
  gw_replace :: replace_answers

definition evaluate ::
  "(gate_state \<Rightarrow> string option) \<Rightarrow> (string \<Rightarrow> gate_state option) \<Rightarrow> gate_world \<Rightarrow> string \<Rightarrow> string \<Rightarrow> string
     \<Rightarrow> (string \<times> string) list \<Rightarrow> decision \<times> (string \<times> string) list" where
  "evaluate enc dec w session path payload files =
     (if payload = [] then (Empty, files)
      else if \<not> gw_mkdir w then (Unavailable, files)
      else (let file = state_file_name session
            in if \<not> gw_open_lock w then (Unavailable, files)
               else if \<not> gw_locked w then (Unavailable, files)
               else (let loaded = (case read_state_to_string (gw_readable w) file files of
                                     Read raw \<Rightarrow> dec raw
                                   | Not_Found \<Rightarrow> Some gate_default
                                   | Read_Failed \<Rightarrow> None)
                     in case loaded of
                          None \<Rightarrow> (Unavailable, files)
                        | Some state \<Rightarrow>
                            (case decide state path payload (gw_now w) of
                               (decision, state') \<Rightarrow>
                                 if decision \<noteq> Served then (decision, files)
                                 else (case enc state' of
                                         None \<Rightarrow> (Unavailable, files)
                                       | Some encoded \<Rightarrow>
                                           (case replace_state (gw_replace w) file encoded files of
                                              (ok, files') \<Rightarrow> (if ok then Served else Unavailable, files')))))))"

section \<open>The log of fires\<close>

definition FIRE_LOG_MAX_BYTES :: nat where "FIRE_LOG_MAX_BYTES = 4 * 1024 * 1024"

text \<open>\<open>PathBuf::join\<close> of a relative name.\<close>

definition path_join :: "string \<Rightarrow> string \<Rightarrow> string" where
  "path_join dir name = (if dir = [] \<or> last dir = CHR ''/'' then dir @ name else dir @ ''/'' @ name)"

definition ledger_dir_from :: "string option \<Rightarrow> string option \<Rightarrow> string \<Rightarrow> string" where
  "ledger_dir_from xdg_state_home home fallback =
     (let absolute = (\<lambda>v. case v of None \<Rightarrow> None | Some p \<Rightarrow> if is_absolute p then Some p else None)
      in case absolute xdg_state_home of
           Some dir \<Rightarrow> path_join dir ''codesage''
         | None \<Rightarrow>
             (case absolute home of
                Some h \<Rightarrow> path_join (path_join (path_join h ''.local'') ''state'') ''codesage''
              | None \<Rightarrow> fallback))"

datatype dir_entry = Directory_Of_User | Directory_Of_Other | Not_A_Directory

datatype create_answer = Created | Exists "dir_entry option" | Create_Error

record log_world =
  lg_parent :: bool
  lg_create :: create_answer
  lg_lock :: bool
  lg_regular :: bool
  lg_rename :: bool
  lg_open :: bool
  lg_writes :: "nat option \<times> nat option"
  lg_now :: nat

definition create_private_dir :: "log_world \<Rightarrow> bool" where
  "create_private_dir w =
     (if \<not> lg_parent w then False
      else (case lg_create w of
              Exists None \<Rightarrow> False
            | Exists (Some Not_A_Directory) \<Rightarrow> False
            | Exists (Some Directory_Of_Other) \<Rightarrow> False
            | Exists (Some Directory_Of_User) \<Rightarrow> True
            | Created \<Rightarrow> True
            | Create_Error \<Rightarrow> False))"

text \<open>The log and its previous generation; none is a file that does not exist.\<close>

type_synonym fire_logs = "string option \<times> string option"

definition rotate_if_large :: "log_world \<Rightarrow> fire_logs \<Rightarrow> fire_logs" where
  "rotate_if_large w logs =
     (case logs of
        (Some log, previous) \<Rightarrow>
          if lg_regular w \<and> FIRE_LOG_MAX_BYTES < length log \<and> lg_rename w then (None, Some log) else logs
      | (None, previous) \<Rightarrow> logs)"

definition fire_line :: "(string \<Rightarrow> string) \<Rightarrow> nat \<Rightarrow> string \<Rightarrow> string \<Rightarrow> string \<Rightarrow> decision \<Rightarrow> string \<Rightarrow> string" where
  "fire_line esc now session project path decision payload =
     ''{\"t\":'' @ show_nat now @ '',\"s\":\"'' @ sanitize session @ ''\",\"p\":'' @ esc project @ '',\"f\":'' @ esc path
     @ '',\"d\":\"'' @ decision_str decision @ ''\"''
     @ (if payload \<noteq> []
        then '',\"h\":\"'' @ show_hex (unat (digest payload)) @ ''\",\"tok\":'' @ show_nat (cost_of payload)
        else [])
     @ ''}'' "

definition log_fire ::
  "(string \<Rightarrow> string) \<Rightarrow> log_world \<Rightarrow> string \<Rightarrow> string \<Rightarrow> string \<Rightarrow> decision \<Rightarrow> string \<Rightarrow> fire_logs \<Rightarrow> fire_logs" where
  "log_fire esc w session project path decision payload logs =
     (if \<not> create_private_dir w then logs
      else if \<not> lg_lock w then logs
      else (case rotate_if_large w logs of
              (log, previous) \<Rightarrow>
                if \<not> lg_open w then (log, previous)
                else (Some (snd (append_line (lg_writes w) (fire_line esc (lg_now w) session project path decision payload @ [NL])
                                   (case log of None \<Rightarrow> [] | Some c \<Rightarrow> c))),
                      previous)))"

section \<open>Names of state files\<close>

lemma hex_digit_id: "n < 16 \<Longrightarrow> session_id_char (hex_digit n) \<and> hex_digit n \<noteq> CHR ''.''"
proof -
  have "\<forall>c \<in> set ''0123456789abcdef''. session_id_char c \<and> c \<noteq> CHR ''.''" by (simp add: session_id_char_def)
  moreover assume "n < 16"
  then have "hex_digit n \<in> set ''0123456789abcdef''" unfolding hex_digit_def by (intro nth_mem) simp
  ultimately show ?thesis by blast
qed

lemma show_hex_id: "list_all (\<lambda>c. session_id_char c \<and> c \<noteq> CHR ''.'') (show_hex n)"
proof (induction n rule: show_hex.induct)
  case (1 n)
  then show ?case by (subst show_hex.simps) (simp add: hex_digit_id)
qed

lemma show_hex_Nil [simp]: "show_hex n \<noteq> []"
  by (subst show_hex.simps) simp

lemma show_hex_length: "n < 16 ^ Suc k \<Longrightarrow> length (show_hex n) \<le> Suc k"
proof (induction k arbitrary: n)
  case (Suc k)
  then have "n div 16 < 16 ^ Suc k" by (simp add: less_mult_imp_div_less)
  then show ?case using Suc.IH [of "n div 16"] by (subst show_hex.simps) simp
qed (simp add: show_hex.simps)

lemma starts_with_dot: "starts_with ''.'' s \<longleftrightarrow> s \<noteq> [] \<and> hd s = CHR ''.''"
  by (cases s) (auto simp: starts_with_def)

lemma show_hex_valid: "validate_session_id (show_hex (unat (d :: u64)))"
proof -
  have "unat d < 16 ^ Suc 15" using unsigned_less [of d] by simp
  from show_hex_length [OF this] have "length (show_hex (unat d)) \<le> 128" by simp
  moreover have "list_all session_id_char (show_hex (unat d))"
    using show_hex_id [of "unat d"] by (rule list.pred_mono_strong) simp
  moreover have "hd (show_hex (unat d)) \<noteq> CHR ''.''"
    using show_hex_id [of "unat d"] hd_in_set [OF show_hex_Nil, of "unat d"] unfolding list_all_iff by blast
  ultimately show ?thesis by (simp add: validate_session_id_def starts_with_dot)
qed

lemma sanitize_valid: "validate_session_id (sanitize session)"
proof -
  define cleaned where "cleaned = dropWhile (\<lambda>c. c = CHR ''.'') (take 128 (filter session_id_char session))"
  have "list_all session_id_char cleaned"
    unfolding cleaned_def list_all_iff by (auto dest!: set_dropWhileD in_set_takeD)
  moreover have "length cleaned \<le> 128"
    unfolding cleaned_def by (rule order_trans [OF length_dropWhile_le]) simp
  moreover have "\<not> starts_with ''.'' cleaned"
    unfolding starts_with_dot cleaned_def using hd_dropWhile by blast
  ultimately show ?thesis using show_hex_valid [of "digest session"]
    by (simp add: sanitize_def Let_def cleaned_def [symmetric] validate_session_id_def)
qed

lemma sanitize_same: "validate_session_id i \<Longrightarrow> sanitize i = i"
  by (cases i) (auto simp: validate_session_id_def sanitize_def starts_with_dot list_all_iff Let_def filter_id_conv)

section \<open>What the state of a session covers\<close>

text \<open>A brief that reached the agent: its path, payload and time.\<close>

type_synonym brief = "string \<times> string \<times> nat"

definition briefs_ok :: "brief list \<Rightarrow> bool" where
  "briefs_ok S \<longleftrightarrow>
     sum_list (map (\<lambda>(_, payload, _). cost_of payload) S) \<le> 1500
     \<and> distinct (map (\<lambda>(path, payload, _). (path, payload)) S)
     \<and> sorted_wrt (\<lambda>(p, _, t) (q, _, u). p \<noteq> q \<or> t + PATH_COOLDOWN_SECS \<le> u) S"

definition covers_briefs :: "gate_state \<Rightarrow> brief list \<Rightarrow> bool" where
  "covers_briefs st S \<longleftrightarrow>
     briefs_ok S \<and> gs_tokens st \<le> SESSION_TOKEN_BUDGET
     \<and> sum_list (map (\<lambda>(_, payload, _). cost_of payload) S) \<le> unat (gs_tokens st)
     \<and> list_all (\<lambda>(path, payload, t). hm_get (gs_served st) (served_key path payload) \<noteq> None
          \<and> (\<exists>last. hm_get (gs_last_path st) path = Some last \<and> t \<le> last)) S"

lemma covers_default: "covers_briefs gate_default []"
  by (simp add: covers_briefs_def briefs_ok_def gate_default_def)

lemma covers_prefix: "covers_briefs st (S @ [b]) \<Longrightarrow> covers_briefs st S"
  by (auto simp: covers_briefs_def briefs_ok_def sorted_wrt_append)

lemma charged_tokens:
  assumes "length payload < 2 ^ 63" and "t \<le> SESSION_TOKEN_BUDGET"
    and "t + of_nat (cost_of payload) \<le> SESSION_TOKEN_BUDGET"
  shows "unat (t + of_nat (cost_of payload)) = unat t + cost_of payload"
proof -
  have "cost_of payload < 2 ^ 62" using assms(1) by (simp add: cost_of_def CHARS_PER_TOKEN_def)
  moreover have "unat t \<le> 1500" using assms(2) by (simp add: SESSION_TOKEN_BUDGET_def word_le_nat_alt)
  ultimately show ?thesis by (subst unat_word_ariths) (simp add: unat_of_nat take_bit_nat_eq_self_iff)
qed

lemma decide_served:
  assumes "decide st path payload now = (Served, st')"
  shows "st' = \<lparr>gs_tokens = gs_tokens st + of_nat (cost_of payload),
      gs_served = hm_insert (served_key path payload) now (gs_served st), gs_last_path = hm_insert path now (gs_last_path st)\<rparr>"
    and "gs_tokens st + of_nat (cost_of payload) \<le> SESSION_TOKEN_BUDGET"
    and "hm_get (gs_served st) (served_key path payload) = None"
    and "hm_get (gs_last_path st) path = Some prev \<Longrightarrow> prev + PATH_COOLDOWN_SECS \<le> now"
  using assms by (auto simp: decide_def Let_def PATH_COOLDOWN_SECS_def split: if_splits)

lemma decide_covers:
  assumes "decide st path payload now = (Served, st')" and cov: "covers_briefs st S" and "length payload < 2 ^ 63"
  shows "covers_briefs st' (S @ [(path, payload, now)])"
proof -
  note d = decide_served [OF assms(1)]
  let ?sum = "sum_list (map (\<lambda>(_, payload, _). cost_of payload) S)"
  have t: "unat (gs_tokens st') = unat (gs_tokens st) + cost_of payload"
    using charged_tokens [OF assms(3)] cov d(2) by (simp add: d(1) covers_briefs_def)
  have le: "gs_tokens st' \<le> SESSION_TOKEN_BUDGET" using d(2) by (simp add: d(1))
  then have "unat (gs_tokens st') \<le> 1500" by (simp add: SESSION_TOKEN_BUDGET_def word_le_nat_alt)
  moreover have "?sum \<le> unat (gs_tokens st)" using cov by (simp add: covers_briefs_def)
  ultimately have sums: "?sum + cost_of payload \<le> 1500" "?sum + cost_of payload \<le> unat (gs_tokens st')" using t by linarith+
  have old: "hm_get (gs_served st) (served_key p y) \<noteq> None \<and> (\<exists>last. hm_get (gs_last_path st) p = Some last \<and> u \<le> last)"
    if "(p, y, u) \<in> set S" for p y u using cov that by (auto simp: covers_briefs_def list_all_iff)
  have fresh: "(path, payload, u) \<notin> set S" for u using old [of path payload u] d(3) by auto
  have later: "u + PATH_COOLDOWN_SECS \<le> now" if "(path, y, u) \<in> set S" for y u
    using old [OF that] d(4) by fastforce
  have "briefs_ok (S @ [(path, payload, now)])"
    using cov sums(1) fresh later by (fastforce simp: covers_briefs_def briefs_ok_def sorted_wrt_append)
  moreover have "list_all (\<lambda>(p, y, u). hm_get (gs_served st') (served_key p y) \<noteq> None
      \<and> (\<exists>last. hm_get (gs_last_path st') p = Some last \<and> u \<le> last)) (S @ [(path, payload, now)])"
    using old later unfolding list_all_iff by (fastforce simp: d(1))
  ultimately show ?thesis using sums(2) le by (simp add: covers_briefs_def)
qed

section \<open>Runs of the gate\<close>

text \<open>A fire: the answers of the system, the session, the path and the rendered payload.\<close>

type_synonym fire = "gate_world \<times> string \<times> string \<times> string"

fun briefs_served ::
  "(gate_state \<Rightarrow> string option) \<Rightarrow> (string \<Rightarrow> gate_state option) \<Rightarrow> string \<Rightarrow> fire list \<Rightarrow> (string \<times> string) list
     \<Rightarrow> brief list" where
  "briefs_served enc dec name [] files = []"
| "briefs_served enc dec name ((w, session, path, payload) # fires) files =
     (case evaluate enc dec w session path payload files of
        (d, files') \<Rightarrow>
          (if d = Served \<and> state_file_name session = name then [(path, payload, gw_now w)] else [])
          @ briefs_served enc dec name fires files')"

definition file_covers :: "(string \<Rightarrow> gate_state option) \<Rightarrow> string \<Rightarrow> (string \<times> string) list \<Rightarrow> brief list \<Rightarrow> bool" where
  "file_covers dec name files S \<longleftrightarrow>
     (case hm_get files name of
        None \<Rightarrow> S = []
      | Some raw \<Rightarrow> (case dec raw of None \<Rightarrow> briefs_ok S | Some st \<Rightarrow> covers_briefs st S))"

lemma file_covers_ok: "file_covers dec name files S \<Longrightarrow> briefs_ok S"
  by (auto simp: file_covers_def covers_briefs_def briefs_ok_def split: option.splits)

lemma replace_state_cases:
  assumes "replace_state a name bytes files = (ok, files')"
  shows "files' = files \<and> \<not> ok \<or> files' = hm_insert name bytes files"
  using assms by (auto simp: replace_state_def split: if_splits)

text \<open>
  An evaluation leaves the files as they are, or publishes the charged state of its session; a brief is served only when the
  state is published.
\<close>

lemma evaluate_cases:
  assumes "evaluate enc dec w session path payload files = (d, files')"
  obtains (same) "files' = files" "d \<noteq> Served"
  | (charged) st st' encoded where "decide st path payload (gw_now w) = (Served, st')" "enc st' = Some encoded"
      "files' = hm_insert (state_file_name session) encoded files" "d = Served \<or> d = Unavailable"
      "hm_get files (state_file_name session) = None \<and> st = gate_default
       \<or> (\<exists>raw. hm_get files (state_file_name session) = Some raw \<and> dec raw = Some st)"
  using assms
  by (fastforce simp: evaluate_def read_state_to_string_def Let_def
      dest!: replace_state_cases split: if_splits option.splits prod.splits)

lemma evaluate_covers:
  assumes rt: "\<And>st raw. enc st = Some raw \<Longrightarrow> dec raw = Some st" and len: "length payload < 2 ^ 63"
    and cov: "file_covers dec name files S" and ev: "evaluate enc dec w session path payload files = (d, files')"
  shows "file_covers dec name files'
    (S @ (if d = Served \<and> state_file_name session = name then [(path, payload, gw_now w)] else []))"
  using ev
proof (cases rule: evaluate_cases)
  case same
  then show ?thesis using cov by simp
next
  case (charged st st' encoded)
  show ?thesis
  proof (cases "state_file_name session = name")
    case True
    then have "covers_briefs st S"
      using charged(5) cov covers_default by (auto simp: file_covers_def)
    from decide_covers [OF charged(1) this len] have "covers_briefs st' (S @ [(path, payload, gw_now w)])" .
    then show ?thesis using covers_prefix rt [OF charged(2)] by (auto simp: file_covers_def charged(3) True)
  next
    case False
    then show ?thesis using cov by (simp add: file_covers_def charged(3))
  qed
qed

lemma briefs_served_covers:
  assumes rt: "\<And>st raw. enc st = Some raw \<Longrightarrow> dec raw = Some st"
  shows "list_all (\<lambda>(_, _, _, payload). length payload < 2 ^ 63) fires \<Longrightarrow> file_covers dec name files S \<Longrightarrow>
    briefs_ok (S @ briefs_served enc dec name fires files)"
proof (induction fires arbitrary: files S)
  case (Cons f fires)
  obtain w session path payload where f: "f = (w, session, path, payload)" by (cases f)
  obtain d files' where ev: "evaluate enc dec w session path payload files = (d, files')" by fastforce
  have len: "length payload < 2 ^ 63" using Cons.prems(1) by (simp add: f)
  note step = evaluate_covers [of enc dec, OF rt len Cons.prems(2) ev]
  then show ?case using Cons.IH [OF _ step] Cons.prems(1) by (simp add: f ev)
qed (simp add: file_covers_ok)

section \<open>The log over many fires\<close>

lemma session_id_no_NL: "list_all session_id_char i \<Longrightarrow> NL \<notin> set i"
  by (auto simp: list_all_iff session_id_char_def)

lemma fire_line_whole:
  assumes "\<And>s. NL \<notin> set (esc s)"
  shows "NL \<notin> set (fire_line esc now session project path d payload) \<and> fire_line esc now session project path d payload \<noteq> []"
proof -
  have "NL \<notin> set (sanitize session)" "NL \<notin> set (show_hex (unat (digest payload)))"
    using sanitize_valid [of session] show_hex_valid [of "digest payload"] by (auto simp: validate_session_id_def session_id_no_NL)
  moreover have "NL \<notin> set (show_nat n)" for n by (rule show_nat_no_char) (simp add: is_ascii_digit_def)
  moreover have "NL \<notin> set (decision_str d)" by (cases d) simp_all
  ultimately show ?thesis using assms by (simp add: fire_line_def)
qed

type_synonym log_entry = "log_world \<times> string \<times> string \<times> string \<times> decision \<times> string"

fun log_fires :: "(string \<Rightarrow> string) \<Rightarrow> log_entry list \<Rightarrow> fire_logs \<Rightarrow> fire_logs" where
  "log_fires esc [] logs = logs"
| "log_fires esc ((w, session, project, path, d, payload) # es) logs =
     log_fires esc es (log_fire esc w session project path d payload logs)"

fun logged_lines :: "(string \<Rightarrow> string) \<Rightarrow> log_entry list \<Rightarrow> string list" where
  "logged_lines esc [] = []"
| "logged_lines esc ((w, session, project, path, d, payload) # es) =
     (if create_private_dir w \<and> lg_lock w \<and> lg_open w then [fire_line esc (lg_now w) session project path d payload] else [])
     @ logged_lines esc es"

definition lines_of :: "string option \<Rightarrow> string list" where
  "lines_of log = (case log of None \<Rightarrow> [] | Some c \<Rightarrow> log_lines c)"

definition size_of :: "string option \<Rightarrow> nat" where
  "size_of log = (case log of None \<Rightarrow> 0 | Some c \<Rightarrow> length c)"

text \<open>The two generations hold the latest of the lines, and the log in use is at most one line over its limit.\<close>

definition logs_ok :: "nat \<Rightarrow> string list \<Rightarrow> fire_logs \<Rightarrow> bool" where
  "logs_ok B L logs \<longleftrightarrow>
     (\<exists>dropped. L = dropped @ lines_of (snd logs) @ lines_of (fst logs))
     \<and> size_of (fst logs) \<le> FIRE_LOG_MAX_BYTES + B + 2 \<and> (L = [] \<or> lines_of (snd logs) @ lines_of (fst logs) \<noteq> [])
     \<and> (\<forall>c. fst logs = Some c \<longrightarrow> log_lines c \<noteq> [])"

lemma rotate_ok:
  assumes "logs_ok B L logs" and "lg_regular w" and "lg_rename w"
  shows "logs_ok B L (rotate_if_large w logs)" and "size_of (fst (rotate_if_large w logs)) \<le> FIRE_LOG_MAX_BYTES"
  using assms by (cases logs; cases "fst logs"; force simp: logs_ok_def rotate_if_large_def lines_of_def size_of_def)+

lemma append_ok:
  assumes ok: "logs_ok B L (log, previous)" and size: "size_of log \<le> FIRE_LOG_MAX_BYTES"
    and line: "NL \<notin> set line" "line \<noteq> []" "length line \<le> B"
  shows "logs_ok B (L @ [line])
    (Some (snd (append_line (None, None) (line @ [NL]) (case log of None \<Rightarrow> [] | Some c \<Rightarrow> c))), previous)"
proof -
  let ?c = "case log of None \<Rightarrow> [] | Some c \<Rightarrow> c"
  let ?c' = "snd (append_line (None, None) (line @ [NL]) ?c)"
  have "log_lines ?c' = log_lines ?c @ [line]" by (rule state_log.append_lines [OF line(1,2)])
  moreover have "log_lines ?c = lines_of log" "length ?c = size_of log"
    by (simp_all add: lines_of_def size_of_def split: option.split)
  moreover have "length ?c' \<le> length ?c + length line + 2"
    unfolding state_log.append_terminated by (simp add: separator_def)
  ultimately show ?thesis using ok size line(3) by (auto simp: logs_ok_def lines_of_def [of "Some _"] size_of_def [of "Some _"])
qed

lemma log_fire_ok:
  assumes esc: "\<And>s. NL \<notin> set (esc s)" and ok: "logs_ok B L logs"
    and w: "lg_writes w = (None, None)" "lg_regular w" "lg_rename w"
    and B: "length (fire_line esc (lg_now w) session project path d payload) \<le> B"
  shows "logs_ok B (L @ (if create_private_dir w \<and> lg_lock w \<and> lg_open w
      then [fire_line esc (lg_now w) session project path d payload] else [])) (log_fire esc w session project path d payload logs)"
proof -
  obtain log previous where r: "rotate_if_large w logs = (log, previous)" by fastforce
  note rot = rotate_ok [OF ok w(2,3), unfolded r]
  note line = fire_line_whole [of esc "lg_now w" session project path d payload, OF esc]
  show ?thesis
    using append_ok [OF rot(1)] rot(1,2) line B ok by (simp add: log_fire_def r w(1))
qed

lemma log_fires_ok:
  assumes esc: "\<And>s. NL \<notin> set (esc s)"
  shows "list_all (\<lambda>(w, _). lg_writes w = (None, None) \<and> lg_regular w \<and> lg_rename w) es \<Longrightarrow>
    list_all (\<lambda>(w, session, project, path, d, payload).
      length (fire_line esc (lg_now w) session project path d payload) \<le> B) es \<Longrightarrow>
    logs_ok B L logs \<Longrightarrow> logs_ok B (L @ logged_lines esc es) (log_fires esc es logs)"
proof (induction es arbitrary: L logs)
  case (Cons e es)
  obtain w session project path d payload where e: "e = (w, session, project, path, d, payload)" by (cases e)
  note step = log_fire_ok [of esc, OF esc Cons.prems(3), of w session project path d payload]
  show ?case using Cons.IH [OF _ _ step] Cons.prems by (simp add: e)
qed simp

section \<open>Properties\<close>

text \<open>
  C18. Whatever fires arrive, in any order, for any sessions, at any times of an unsteady clock, and whatever fails on the way, a
  session is served briefs of at most 1500 tokens in all, never the same payload for a path twice, and never two briefs for
  one path within fifteen minutes.
\<close>

theorem brief_gate_limits:
  assumes rt: "\<And>st raw. enc st = Some raw \<Longrightarrow> dec raw = Some st"
    and "list_all (\<lambda>(_, _, _, payload). length payload < 2 ^ 63) fires" and "hm_get files name = None"
    and S: "S = briefs_served enc dec name fires files"
  shows "sum_list (map (\<lambda>(_, payload, _). cost_of payload) S) \<le> 1500
    \<and> distinct (map (\<lambda>(path, payload, _). (path, payload)) S)
    \<and> sorted_wrt (\<lambda>(p, _, t) (q, _, u). p \<noteq> q \<or> t + PATH_COOLDOWN_SECS \<le> u) S"
proof -
  have "file_covers dec name files []" using assms(3) by (simp add: file_covers_def)
  from briefs_served_covers [of enc dec, OF rt assms(2) this] show ?thesis by (simp add: S briefs_ok_def)
qed


text \<open>
  The names of hook sessions meet the contract of session ids: every name is mapped to a valid id, and a valid id to
  itself, so the gate and the ledgers mean the same session.
\<close>

theorem sanitize_retraction:
  "validate_session_id (sanitize session) \<and> sanitize (sanitize session) = sanitize session
   \<and> (validate_session_id i \<longrightarrow> sanitize i = i)"
  using sanitize_valid sanitize_same by blast

text \<open>
  The log of fires and its previous generation hold the latest lines logged, each whole and in order, and rotation keeps
  the log in use at most one line over four mebibytes.
\<close>

theorem fire_log_latest:
  assumes esc: "\<And>s. NL \<notin> set (esc s)"
    and "list_all (\<lambda>(w, _). lg_writes w = (None, None) \<and> lg_regular w \<and> lg_rename w) es"
    and "list_all (\<lambda>(w, session, project, path, d, payload).
      length (fire_line esc (lg_now w) session project path d payload) \<le> B) es"
    and logs: "log_fires esc es (None, None) = (log, previous)"
  shows "(\<exists>dropped. logged_lines esc es = dropped @ lines_of previous @ lines_of log)
    \<and> (logged_lines esc es = [] \<or> lines_of previous @ lines_of log \<noteq> [])
    \<and> size_of log \<le> FIRE_LOG_MAX_BYTES + B + 2"
proof -
  have "logs_ok B [] (None, None)" by (simp add: logs_ok_def lines_of_def size_of_def)
  from log_fires_ok [of esc, OF esc assms(2,3) this] show ?thesis by (auto simp: logs logs_ok_def)
qed

section \<open>Examples\<close>

definition all_answered :: replace_answers where
  "all_answered =
     \<lparr>ra_parent = True, ra_target = True, ra_temporary = True, ra_write = True, ra_permissions = True, ra_sync = True,
      ra_target_again = True, ra_persist = True, ra_sync_dir = True\<rparr>"

definition gate_at :: "nat \<Rightarrow> gate_world" where
  "gate_at now =
     \<lparr>gw_mkdir = True, gw_open_lock = True, gw_locked = True, gw_readable = True, gw_now = now, gw_replace = all_answered\<rparr>"

definition charged_once :: gate_state where
  "charged_once = snd (decide gate_default ''a.rs'' ''hi'' 5)"

lemma example_decide: "decide gate_default ''a.rs'' ''hi'' 5 = (Served, charged_once)"
  by (simp add: charged_once_def decide_def gate_default_def cost_of_def CHARS_PER_TOKEN_def SESSION_TOKEN_BUDGET_def Let_def)

lemma example_evaluate:
  "evaluate (\<lambda>st. if st = charged_once then Some ''1'' else None) (\<lambda>raw. if raw = ''1'' then Some charged_once else None)
     (gate_at 5) ''s'' ''a.rs'' ''hi'' [] = (Served, [(state_file_name ''s'', ''1'')])"
  by (simp add: evaluate_def gate_at_def read_state_to_string_def example_decide replace_state_def all_answered_def hm_insert_def
      hm_remove_def)

theorem brief_gate_limits_witness:
  "briefs_served (\<lambda>st. if st = charged_once then Some ''1'' else None) (\<lambda>raw. if raw = ''1'' then Some charged_once else None)
     (state_file_name ''s'') [(gate_at 5, ''s'', ''a.rs'', ''hi'')] [] = [(''a.rs'', ''hi'', 5)]
   \<and> cost_of ''hi'' \<le> 1500"
proof -
  let ?enc = "\<lambda>st. if st = charged_once then Some ''1'' else None"
  let ?dec = "\<lambda>raw. if raw = ''1'' then Some charged_once else None"
  let ?fires = "[(gate_at 5, ''s'', ''a.rs'', ''hi'')]"
  have served: "briefs_served ?enc ?dec (state_file_name ''s'') ?fires [] = [(''a.rs'', ''hi'', 5)]"
    by (simp add: example_evaluate) (simp add: gate_at_def)
  have "?enc st = Some raw \<Longrightarrow> ?dec raw = Some st" for st raw by (simp split: if_splits)
  from brief_gate_limits [of ?enc ?dec ?fires "[]" "state_file_name ''s''", OF this _ _ refl] show ?thesis
    unfolding served by simp
qed


theorem sanitize_retraction_witness: "validate_session_id (sanitize ''../x'') \<and> sanitize ''x'' = ''x''"
proof -
  have "validate_session_id ''x''" by (simp add: validate_session_id_def session_id_char_def starts_with_dot)
  then show ?thesis using sanitize_retraction [of "''../x''" "''x''"] by blast
qed

definition log_at :: "nat \<Rightarrow> log_world" where
  "log_at now =
     \<lparr>lg_parent = True, lg_create = Created, lg_lock = True, lg_regular = True, lg_rename = True, lg_open = True,
      lg_writes = (None, None), lg_now = now\<rparr>"

theorem fire_log_latest_witness:
  "\<exists>log. log_fires (\<lambda>_. ''x'') [(log_at 5, ''s'', ''/p'', ''a.rs'', Empty, [])] (None, None) = (Some log, None)
     \<and> log_lines log \<noteq> []"
proof -
  let ?es = "[(log_at 5, ''s'', ''/p'', ''a.rs'', Empty, [])]"
  let ?line = "fire_line (\<lambda>_. ''x'') 5 ''s'' ''/p'' ''a.rs'' Empty []"
  have run: "log_fires (\<lambda>_. ''x'') ?es (None, None) = (Some (?line @ [NL]), None)"
    by (simp add: log_fire_def log_at_def create_private_dir_def rotate_if_large_def append_line_def ends_open_def)
  from fire_log_latest [of "\<lambda>_. ''x''" ?es "length ?line", OF _ _ _ run]
  have "log_lines (?line @ [NL]) \<noteq> []" by (auto simp: log_at_def create_private_dir_def lines_of_def)
  then show ?thesis unfolding run by blast
qed

end
