(* ===== verification/Target.thy ===== *)
theory Target
  imports Handle Rust_Text Complex_Main
begin

text \<open>
  What an input named: \<open>crates/protocol/src/target.rs\<close>, the classification of paths in \<open>crates/protocol/src/lib.rs\<close>, and
  the refusals of \<open>crates/graph/src/resolver.rs\<close>. Confidences are rational numbers; the source compares the same
  six constants in single precision.
\<close>

section \<open>Resolutions\<close>

datatype target_kind =
    Symbol_Target | File_Target | Dir_Target | Chunk_Target | Feature_Target | Route_Target | Command_Target | Text_Target

datatype resolve_via = Exact | Qualified | Unique | Import | Casefold | Suffix

definition CONFIDENT :: rat where "CONFIDENT = 8 / 10"

fun via_confidence :: "resolve_via \<Rightarrow> rat" where
  "via_confidence Exact = 1"
| "via_confidence Qualified = 1"
| "via_confidence Unique = 9 / 10"
| "via_confidence Import = 8 / 10"
| "via_confidence Casefold = 5 / 10"
| "via_confidence Suffix = 4 / 10"

record resolved_target =
  rt_handle :: string
  rt_kind :: string
  rt_path :: "string option"
  rt_line_start :: "u32 option"
  rt_line_end :: "u32 option"
  rt_is_test :: bool
  rt_confidence :: rat
  rt_via :: resolve_via

definition confident :: "resolved_target \<Rightarrow> bool" where
  "confident c \<longleftrightarrow> CONFIDENT \<le> rt_confidence c"

record target_resolution =
  tr_input :: string
  tr_kind :: target_kind
  tr_resolved :: "resolved_target list"
  tr_ambiguous :: bool
  tr_candidates_total :: nat
  tr_overloads :: nat

definition new_resolution :: "string \<Rightarrow> target_kind \<Rightarrow> resolved_target list \<Rightarrow> nat \<Rightarrow> nat \<Rightarrow> target_resolution" where
  "new_resolution input kind resolved candidates_total overloads =
     \<lparr>tr_input = input, tr_kind = kind, tr_resolved = resolved, tr_ambiguous = (1 < candidates_total),
      tr_candidates_total = candidates_total, tr_overloads = overloads\<rparr>"

definition text_resolution :: "string \<Rightarrow> target_resolution" where
  "text_resolution input = new_resolution input Text_Target [] 0 0"

definition sole :: "target_resolution \<Rightarrow> resolved_target option" where
  "sole r =
     (case tr_resolved r of
        [only] \<Rightarrow> if \<not> tr_ambiguous r \<and> confident only then Some only else None
      | _ \<Rightarrow> None)"

definition guessed :: "target_resolution \<Rightarrow> bool" where
  "guessed r \<longleftrightarrow> tr_resolved r \<noteq> [] \<and> list_all (\<lambda>c. \<not> confident c) (tr_resolved r)"

definition resolution_handles :: "target_resolution \<Rightarrow> string list" where
  "resolution_handles r = map rt_handle (tr_resolved r)"

section \<open>Refusals\<close>

datatype target_error =
    Ambiguous string "resolved_target list" nat nat
  | NotFound string "resolved_target list"
  | Unsupported string target_kind string

definition target_error_of :: "target_resolution \<Rightarrow> target_error option" where
  "target_error_of r =
     (if guessed r then Some (NotFound (tr_input r) (tr_resolved r))
      else if tr_ambiguous r
      then Some (Ambiguous (tr_input r) (tr_resolved r) (tr_candidates_total r) (tr_overloads r))
      else if sole r = None then Some (NotFound (tr_input r) (tr_resolved r))
      else None)"

fun target_error_code :: "target_error \<Rightarrow> string" where
  "target_error_code (Ambiguous _ _ _ _) = ''E_AMBIGUOUS''"
| "target_error_code (NotFound _ _) = ''E_NOT_FOUND''"
| "target_error_code (Unsupported _ _ _) = ''E_PARAM''"

fun target_error_handles :: "target_error \<Rightarrow> string list" where
  "target_error_handles (Ambiguous _ cs _ _) = map rt_handle cs"
| "target_error_handles (NotFound _ cs) = map rt_handle cs"
| "target_error_handles (Unsupported _ _ _) = []"

fun target_error_input :: "target_error \<Rightarrow> string" where
  "target_error_input (Ambiguous i _ _ _) = i"
| "target_error_input (NotFound i _) = i"
| "target_error_input (Unsupported i _ _) = i"

fun target_kind_name :: "target_kind \<Rightarrow> string" where
  "target_kind_name Symbol_Target = ''symbol''"
| "target_kind_name File_Target = ''file''"
| "target_kind_name Dir_Target = ''directory''"
| "target_kind_name Chunk_Target = ''chunk''"
| "target_kind_name Feature_Target = ''feature''"
| "target_kind_name Route_Target = ''route''"
| "target_kind_name Command_Target = ''command''"
| "target_kind_name Text_Target = ''text''"

definition SHOWN :: nat where "SHOWN = 5"

definition sample_handles :: "resolved_target list \<Rightarrow> string" where
  "sample_handles cs =
     (let shown = join_text '', '' (map rt_handle (take SHOWN cs))
      in if SHOWN < length cs then shown @ '', +'' @ show_nat (length cs - SHOWN) @ '' more'' else shown)"

text \<open>The dash of the messages is U+2014, three bytes.\<close>

definition dash :: string where "dash = [CHR 0xE2, CHR 0x80, CHR 0x94]"

fun target_error_text :: "target_error \<Rightarrow> string" where
  "target_error_text (Ambiguous input cs candidates_total overloads) =
     ''ambiguous target '' @ [CHR 0x27] @ input @ [CHR 0x27] @ '': '' @ show_nat candidates_total @ '' definitions''
     @ (if 0 < overloads
        then '' ('' @ show_nat overloads @ '' of them are same-file overloads, addressed by @line)'' else [])
     @ '' '' @ dash @ '' retry with one handle: '' @ sample_handles cs"
| "target_error_text (NotFound input nearest) =
     ''no indexed target named '' @ [CHR 0x27] @ input @ [CHR 0x27]
     @ (if nearest = [] then [] else '' '' @ dash @ '' nearest: '' @ sample_handles nearest)"
| "target_error_text (Unsupported input kind accepted) =
     [CHR 0x27] @ input @ [CHR 0x27] @ '' names a '' @ target_kind_name kind
     @ '', which this tool does not take; accepted targets: '' @ accepted"

text \<open>\<open>require_one\<close>; none is the panic of its \<open>expect\<close>.\<close>

definition require_one :: "target_resolution \<Rightarrow> (resolved_target, target_error) result option" where
  "require_one r =
     (case target_error_of r of
        Some e \<Rightarrow> Some (Inl e)
      | None \<Rightarrow> map_option Inr (sole r))"

section \<open>Categories of files\<close>

text \<open>
  \<open>to_lowercase\<close> maps two characters outside ASCII to ASCII letters: the Kelvin sign to \<open>k\<close>, which none of the texts below
  contains, and the dotted capital I to an \<open>i\<close> with a combining dot behind it, which never matches \<open>.ini\<close>. Lowering
  the ASCII letters therefore decides every comparison alike.
\<close>

definition ascii_lower :: "char \<Rightarrow> char" where
  "ascii_lower c =
     (if 65 \<le> (of_char c :: nat) \<and> (of_char c :: nat) \<le> 90 then char_of ((of_char c :: nat) + 32) else c)"

datatype file_category = Source | Test | Config

definition has_dir :: "string \<Rightarrow> string \<Rightarrow> bool" where
  "has_dir lower seg \<longleftrightarrow> contains_text (''/'' @ seg @ ''/'') lower \<or> starts_with (seg @ ''/'') lower"

definition file_category_classify :: "string \<Rightarrow> file_category" where
  "file_category_classify path =
     (let lower_owned = map ascii_lower path;
          lower = (case strip_prefix ''./'' lower_owned of None \<Rightarrow> lower_owned | Some r \<Rightarrow> r);
          basename = last (split_on CHR ''/'' lower)
      in if list_ex (has_dir lower) [''test'', ''tests'', ''__tests__'', ''spec'']
            \<or> list_ex (\<lambda>e. ends_with e lower)
                 [''.test.ts'', ''.test.tsx'', ''.test.js'', ''.test.jsx'', ''.spec.ts'', ''.spec.tsx'', ''.spec.js'', ''.spec.jsx'']
            \<or> list_ex (\<lambda>e. ends_with e path) [''Test.php'', ''Test.java'', ''Tests.java'']
            \<or> list_ex (\<lambda>e. ends_with e lower) [''_test.py'', ''_test.go'', ''.phpt'']
         then Test
         else if starts_with ''test_'' basename then Test
         else if list_ex (\<lambda>e. ends_with e basename) [''.toml'', ''.yaml'', ''.yml'', ''.json'', ''.ini'', ''.env'']
                 \<or> basename = ''.env'' \<or> ends_with ''.conf'' basename
         then Config
         else Source)"

definition is_test_path :: "string \<Rightarrow> bool" where
  "is_test_path path \<longleftrightarrow> file_category_classify path = Test"

section \<open>Candidates and refusals\<close>

lemma via_confident: "CONFIDENT \<le> via_confidence v \<longleftrightarrow> v \<notin> {Casefold, Suffix}"
  by (cases v) (simp_all add: CONFIDENT_def)

lemma sole_Some_iff:
  "sole r = Some c \<longleftrightarrow> tr_resolved r = [c] \<and> \<not> tr_ambiguous r \<and> confident c"
  by (auto simp: sole_def split: list.splits)

lemma target_error_of_None_iff: "target_error_of r = None \<longleftrightarrow> (\<exists>c. sole r = Some c)"
  by (cases "sole r") (auto simp: target_error_of_def guessed_def sole_Some_iff)

end
