(* ===== verification/Resolver.thy ===== *)
theory Resolver
  imports Target "HOL-Library.Product_Lexorder" "HOL-Library.Multiset"
begin

text \<open>
  The resolver behind every tool that names an entity, \<open>crates/graph/src/resolver.rs\<close>, over an index: the rows of its
  tables, what the queries of \<open>crates/storage/src/db\<close> select from them, and which queries fail. The definitions a call
  of a name resolves to by the caller's imports are an answer of the index, too.
\<close>

section \<open>The index\<close>

datatype feature_kind = CliCommand | Route | Service | Library | TestSuite | Config_Feature | Job | Unknown_Feature

record feature_record =
  fe_id :: string
  fe_kind :: feature_kind
  fe_entry_path :: string
  fe_entry_route :: "string option"
  fe_entry_command :: "string option"

datatype query =
    File_Id string
  | Symbols_For_File string
  | Find_Symbols string
  | Files_With_Prefix string
  | All_File_Paths
  | Load_Feature string
  | List_Features feature_kind
  | Callee_Definitions string string

record database =
  db_symbols :: "symbol list"
  db_files :: "string list"
  db_features :: "feature_record list"
  db_callees :: "string \<Rightarrow> string \<Rightarrow> symbol list"
  db_fails :: "query \<Rightarrow> string option"

text \<open>The answer of a query, and the \<open>?\<close> behind it.\<close>

definition answer :: "database \<Rightarrow> query \<Rightarrow> 'a \<Rightarrow> ('a, string) result" where
  "answer db q a = (case db_fails db q of None \<Rightarrow> Inr a | Some e \<Rightarrow> Inl e)"

definition attempt :: "('a, 'e) result \<Rightarrow> ('a \<Rightarrow> ('b, 'e) result) \<Rightarrow> ('b, 'e) result" where
  "attempt r f = (case r of Inl e \<Rightarrow> Inl e | Inr a \<Rightarrow> f a)"

definition is_qualified_symbol_name :: "string \<Rightarrow> bool" where
  "is_qualified_symbol_name name \<longleftrightarrow> CHR 0x5C \<in> set name \<or> CHR ''.'' \<in> set name \<or> contains_text ''::'' name"

definition file_indexed :: "database \<Rightarrow> string \<Rightarrow> (bool, string) result" where
  "file_indexed db path = answer db (File_Id path) (path \<in> set (db_files db))"

definition symbols_for_file :: "database \<Rightarrow> string \<Rightarrow> (symbol list, string) result" where
  "symbols_for_file db path =
     answer db (Symbols_For_File path)
       (mark_overloads (sort_key sym_line_start (filter (\<lambda>s. sym_file_path s = path) (db_symbols db))))"

definition find_symbols :: "database \<Rightarrow> string \<Rightarrow> (symbol list, string) result" where
  "find_symbols db name =
     answer db (Find_Symbols name)
       (mark_overloads
          (filter (\<lambda>s. (if is_qualified_symbol_name name then sym_qualified_name s else sym_name s) = name) (db_symbols db)))"

text \<open>\<open>LIKE\<close> compares ASCII letters without their case.\<close>

definition indexed_files_with_prefix :: "database \<Rightarrow> string \<Rightarrow> (string list, string) result" where
  "indexed_files_with_prefix db prefix =
     answer db (Files_With_Prefix prefix)
       (sort (filter (\<lambda>p. starts_with (map ascii_lower prefix) (map ascii_lower p)) (db_files db)))"

definition all_file_paths :: "database \<Rightarrow> (string list, string) result" where
  "all_file_paths db = answer db All_File_Paths (sort (db_files db))"

definition load_feature :: "database \<Rightarrow> string \<Rightarrow> (feature_record option, string) result" where
  "load_feature db i = answer db (Load_Feature i) (find (\<lambda>f. fe_id f = i) (db_features db))"

definition list_features :: "database \<Rightarrow> feature_kind \<Rightarrow> (feature_record list, string) result" where
  "list_features db kind =
     answer db (List_Features kind)
       (sort_key (\<lambda>f. (fe_entry_path f, fe_id f)) (filter (\<lambda>f. fe_kind f = kind) (db_features db)))"

definition callee_definitions :: "database \<Rightarrow> string \<Rightarrow> string \<Rightarrow> (symbol list, string) result" where
  "callee_definitions db from_file name = answer db (Callee_Definitions from_file name) (db_callees db from_file name)"

section \<open>Options\<close>

definition DEFAULT_CANDIDATE_LIMIT :: nat where "DEFAULT_CANDIDATE_LIMIT = 10"

definition MAX_NEAREST :: nat where "MAX_NEAREST = 10"

record resolve_options =
  ro_kind_hint :: "target_kind option"
  ro_from_file :: "string option"
  ro_include_modules :: bool
  ro_kind :: "symbol_kind option"
  ro_limit :: nat
  ro_nearest :: bool

definition default_options :: resolve_options where
  "default_options =
     \<lparr>ro_kind_hint = None, ro_from_file = None, ro_include_modules = False, ro_kind = None,
      ro_limit = DEFAULT_CANDIDATE_LIMIT, ro_nearest = True\<rparr>"

definition is_module_declaration :: "symbol \<Rightarrow> bool" where
  "is_module_declaration s \<longleftrightarrow> sym_kind s \<in> {SK_Module, SK_Namespace} \<and> sym_line_start s = sym_line_end s"

definition retain_definitions :: "bool \<Rightarrow> symbol list \<Rightarrow> symbol list" where
  "retain_definitions include_modules symbols =
     (if include_modules then symbols else filter (\<lambda>s. \<not> is_module_declaration s) symbols)"

definition retain_kind :: "resolve_options \<Rightarrow> symbol list \<Rightarrow> symbol list" where
  "retain_kind opts symbols =
     (case ro_kind opts of None \<Rightarrow> symbols | Some kind \<Rightarrow> filter (\<lambda>s. sym_kind s = kind) symbols)"

definition retain :: "resolve_options \<Rightarrow> symbol list \<Rightarrow> symbol list" where
  "retain opts symbols = retain_kind opts (retain_definitions (ro_include_modules opts) symbols)"

definition allows_paths :: "resolve_options \<Rightarrow> bool" where
  "allows_paths opts \<longleftrightarrow> ro_kind_hint opts \<in> {None, Some File_Target, Some Dir_Target, Some Chunk_Target}"

definition allows_symbols :: "resolve_options \<Rightarrow> bool" where
  "allows_symbols opts \<longleftrightarrow> ro_kind_hint opts \<in> {None, Some Symbol_Target}"

definition allows_features :: "resolve_options \<Rightarrow> bool" where
  "allows_features opts \<longleftrightarrow> ro_kind_hint opts \<in> {None, Some Feature_Target, Some Route_Target, Some Command_Target}"

section \<open>Candidates\<close>

definition candidate_of :: "resolve_via \<Rightarrow> symbol \<Rightarrow> resolved_target" where
  "candidate_of via s =
     \<lparr>rt_handle = handle_to_string (symbol_handle s), rt_kind = symbol_kind_as_str (sym_kind s),
      rt_path = Some (sym_file_path s), rt_line_start = Some (sym_line_start s), rt_line_end = Some (sym_line_end s),
      rt_is_test = sym_is_test s, rt_confidence = via_confidence via, rt_via = via\<rparr>"

definition candidates :: "symbol list \<Rightarrow> resolve_via \<Rightarrow> nat \<Rightarrow> resolved_target list" where
  "candidates symbols via limit = map (candidate_of via) (take limit symbols)"

definition file_candidate :: "resolve_via \<Rightarrow> string \<Rightarrow> resolved_target" where
  "file_candidate via path =
     \<lparr>rt_handle = (case handle_file path of None \<Rightarrow> [] | Some h \<Rightarrow> handle_to_string h), rt_kind = ''file'',
      rt_path = Some path, rt_line_start = None, rt_line_end = None,
      rt_is_test = is_test_path path, rt_confidence = via_confidence via, rt_via = via\<rparr>"

definition feature_candidate :: "resolve_via \<Rightarrow> feature_record \<Rightarrow> resolved_target" where
  "feature_candidate via f =
     \<lparr>rt_handle = fe_id f, rt_kind = ''feature'', rt_path = Some (fe_entry_path f), rt_line_start = None, rt_line_end = None,
      rt_is_test = False, rt_confidence = via_confidence via, rt_via = via\<rparr>"

definition one :: "string \<Rightarrow> target_kind \<Rightarrow> resolved_target \<Rightarrow> target_resolution" where
  "one input kind c = new_resolution input kind [c] 1 0"

definition sort_definitions :: "symbol list \<Rightarrow> symbol list" where
  "sort_definitions = sort_key (\<lambda>s. (sym_file_path s, sym_line_start s, sym_qualified_name s))"

definition identity :: "symbol \<Rightarrow> string \<times> string \<times> u32" where
  "identity s = (sym_file_path s, sym_qualified_name s, sym_line_start s)"

definition names :: "symbol \<Rightarrow> string \<Rightarrow> bool" where
  "names s qualified \<longleftrightarrow>
     sym_qualified_name s = qualified \<or> sym_qualified_name s = [] \<and> sym_name s = qualified"

function strip_current_dir :: "string \<Rightarrow> string" where
  "strip_current_dir input =
     (case strip_prefix ''./'' input of None \<Rightarrow> input | Some rest \<Rightarrow> strip_current_dir rest)"
  by auto
termination by (relation "measure length") (auto simp: strip_prefix_Some_iff)

declare strip_current_dir.simps [simp del]

definition split_path_line :: "string \<Rightarrow> (string \<times> u32) option" where
  "split_path_line input =
     (case rsplit_once CHR '':'' input of
        None \<Rightarrow> None
      | Some (path, digits) \<Rightarrow>
          if path = [] \<or> digits = [] \<or> \<not> list_all is_ascii_digit digits then None
          else if digits_val digits < 2 ^ 32 then Some (path, of_nat (digits_val digits)) else None)"

definition path_suffix_matches :: "bool \<Rightarrow> string \<Rightarrow> string \<Rightarrow> bool" where
  "path_suffix_matches folded input indexed =
     (let indexed = (if folded then map ascii_lower indexed else indexed); input = (if folded then map ascii_lower input else input)
      in indexed = input
         \<or> (case strip_suffix input indexed of None \<Rightarrow> False | Some head \<Rightarrow> ends_with ''/'' head))"

text \<open>The end of the last occurrence of a separator.\<close>

definition rfind_end :: "string \<Rightarrow> string \<Rightarrow> nat option" where
  "rfind_end sep name =
     find (\<lambda>e. take (length sep) (drop (e - length sep) name) = sep) (rev [length sep..<length name + 1])"

definition last_segment :: "string \<Rightarrow> string option" where
  "last_segment name =
     (case List.map_filter (\<lambda>sep. rfind_end sep name) [''::'', [CHR 0x5C], ''.'', ''/''] of
        [] \<Rightarrow> None
      | c # cs \<Rightarrow>
          (let tail = drop (fold max cs c) name
           in if tail \<noteq> [] \<and> tail \<noteq> name then Some tail else None))"

definition case_variants :: "string \<Rightarrow> string list" where
  "case_variants input =
     (let lower = map ascii_lower input;
          upper = map ascii_upper input;
          capitalized = (case lower of [] \<Rightarrow> [] | c # cs \<Rightarrow> ascii_upper c # cs)
      in fold (\<lambda>variant out. if variant \<noteq> input \<and> variant \<notin> set out then out @ [variant] else out)
           [lower, upper, capitalized] [])"

section \<open>The arms of the grammar\<close>

type_synonym resolved = "target_resolution \<times> symbol list"

definition count_overloads :: "symbol list \<Rightarrow> nat" where
  "count_overloads symbols = length (filter sym_overloaded symbols)"

text \<open>The scan for leads, with the identities seen so far.\<close>

fun push_leads :: "resolve_via \<Rightarrow> symbol list \<Rightarrow> (symbol \<times> resolve_via) list \<Rightarrow> (symbol \<times> resolve_via) list" where
  "push_leads via [] found = found"
| "push_leads via (s # ss) found =
     push_leads via ss (if identity s \<in> set (map (identity \<circ> fst) found) then found else found @ [(s, via)])"

fun casefold_leads ::
  "database \<Rightarrow> resolve_options \<Rightarrow> string list \<Rightarrow> (symbol \<times> resolve_via) list \<Rightarrow> ((symbol \<times> resolve_via) list, string) result" where
  "casefold_leads db opts [] found = Inr found"
| "casefold_leads db opts (variant # vs) found =
     attempt (find_symbols db variant)
       (\<lambda>symbols. casefold_leads db opts vs (push_leads Casefold (retain opts symbols) found))"

definition nearest_symbols :: "database \<Rightarrow> string \<Rightarrow> resolve_options \<Rightarrow> (resolved option, string) result" where
  "nearest_symbols db input opts =
     attempt (casefold_leads db opts (case_variants input) []) (\<lambda>found.
     attempt
       (case last_segment input of
          Some tail \<Rightarrow>
            if found = []
            then attempt (find_symbols db tail) (\<lambda>symbols. Inr (push_leads Suffix (retain opts symbols) found))
            else Inr found
        | None \<Rightarrow> Inr found)
       (\<lambda>found.
          if found = [] then Inr None
          else (let found = sort_key (\<lambda>(s, _). (sym_file_path s, sym_line_start s)) found;
                    resolved = map (\<lambda>(s, via). candidate_of via s) (take (min (ro_limit opts) MAX_NEAREST) found)
                in Inr (Some (new_resolution input Symbol_Target resolved (length found) 0, map fst found)))))"

definition moved_definition ::
  "database \<Rightarrow> string \<Rightarrow> string \<Rightarrow> resolve_options \<Rightarrow> (resolved option, string) result" where
  "moved_definition db input qualified opts =
     attempt (find_symbols db qualified) (\<lambda>symbols.
       let symbols = retain opts symbols
       in if symbols = []
          then attempt (nearest_symbols db qualified opts)
                 (\<lambda>near. Inr (map_option (\<lambda>(r, ss). (r\<lparr>tr_input := input\<rparr>, ss)) near))
          else (let symbols = sort_definitions symbols
                in Inr (Some (new_resolution input Symbol_Target (candidates symbols Suffix (ro_limit opts)) (length symbols) 0,
                              symbols))))"

definition resolve_symbol_handle ::
  "database \<Rightarrow> string \<Rightarrow> string \<Rightarrow> string \<Rightarrow> u32 option \<Rightarrow> resolve_options \<Rightarrow> (resolved, string) result" where
  "resolve_symbol_handle db input path qualified line opts =
     attempt (symbols_for_file db path) (\<lambda>rows.
       let symbols = filter (\<lambda>s. names s qualified) rows;
           symbols = filter (\<lambda>s. case line of None \<Rightarrow> True | Some l \<Rightarrow> sym_line_start s = l) symbols;
           symbols = sort_definitions (retain_kind opts symbols)
       in attempt (if symbols = [] \<and> ro_nearest opts then moved_definition db input qualified opts else Inr None) (\<lambda>moved.
            case moved of
              Some m \<Rightarrow> Inr m
            | None \<Rightarrow>
                Inr (new_resolution input Symbol_Target (candidates symbols Exact (ro_limit opts)) (length symbols)
                       (count_overloads symbols), symbols)))"

definition trim_end_slashes :: "string \<Rightarrow> string" where
  "trim_end_slashes p = rev (dropWhile (\<lambda>c. c = CHR ''/'') (rev p))"

fun resolve_handle :: "database \<Rightarrow> string \<Rightarrow> handle \<Rightarrow> resolve_options \<Rightarrow> (resolved, string) result" where
  "resolve_handle db input (Symbol path qualified line) opts = resolve_symbol_handle db input path qualified line opts"
| "resolve_handle db input (File path) opts =
     attempt (file_indexed db path) (\<lambda>known.
       Inr (if known then one input File_Target (file_candidate Exact path)
            else new_resolution input File_Target [] 0 0, []))"
| "resolve_handle db input (Dir path) opts =
     (let prefix = trim_end_slashes path @ ''/''
      in attempt (indexed_files_with_prefix db prefix) (\<lambda>files.
           Inr (if list_ex (starts_with prefix) files
                then one input Dir_Target
                       \<lparr>rt_handle = handle_to_string (Dir path), rt_kind = ''dir'', rt_path = Some path, rt_line_start = None,
                        rt_line_end = None, rt_is_test = False, rt_confidence = via_confidence Exact, rt_via = Exact\<rparr>
                else new_resolution input Dir_Target [] 0 0, [])))"
| "resolve_handle db input (Chunk path start end') opts =
     attempt (file_indexed db path) (\<lambda>known.
       Inr (if known
            then one input Chunk_Target
                   \<lparr>rt_handle = handle_to_string (Chunk path start end'), rt_kind = ''chunk'', rt_path = Some path,
                    rt_line_start = Some start, rt_line_end = Some end', rt_is_test = is_test_path path,
                    rt_confidence = via_confidence Exact, rt_via = Exact\<rparr>
            else new_resolution input Chunk_Target [] 0 0, []))"
| "resolve_handle db input (Feature i) opts =
     attempt (load_feature db i) (\<lambda>found.
       Inr (case found of
              Some f \<Rightarrow> one input Feature_Target (feature_candidate Exact f)
            | None \<Rightarrow> new_resolution input Feature_Target [] 0 0, []))"

definition resolve_feature_entry ::
  "database \<Rightarrow> string \<Rightarrow> string \<Rightarrow> target_kind \<Rightarrow> resolve_options \<Rightarrow> (target_resolution, string) result" where
  "resolve_feature_entry db input entry kind opts =
     attempt (list_features db (if kind = Route_Target then Route else CliCommand)) (\<lambda>features.
       let matches = filter (\<lambda>f. case (if kind = Route_Target then fe_entry_route f else fe_entry_command f) of
                                    None \<Rightarrow> False
                                  | Some stored \<Rightarrow> map ascii_lower stored = map ascii_lower entry) features
       in Inr (new_resolution input kind (map (feature_candidate Exact) (take (ro_limit opts) matches)) (length matches) 0))"

text \<open>\<open>max_by_key\<close>: the last of the greatest.\<close>

fun max_by_line :: "symbol list \<Rightarrow> symbol option" where
  "max_by_line [] = None"
| "max_by_line (s # ss) =
     (case max_by_line ss of
        None \<Rightarrow> Some s
      | Some m \<Rightarrow> if sym_line_start s \<le> sym_line_start m then Some m else Some s)"

definition resolve_path_line ::
  "database \<Rightarrow> string \<Rightarrow> string \<Rightarrow> u32 \<Rightarrow> resolve_options \<Rightarrow> (resolved, string) result" where
  "resolve_path_line db input path line opts =
     attempt (symbols_for_file db path) (\<lambda>rows.
       case max_by_line (filter (\<lambda>s. sym_line_start s \<le> line \<and> line \<le> sym_line_end s) (retain opts rows)) of
         Some s \<Rightarrow>
           Inr (new_resolution input Symbol_Target (candidates [s] Exact (ro_limit opts)) 1 (if sym_overloaded s then 1 else 0), [s])
       | None \<Rightarrow>
           Inr (one input File_Target ((file_candidate Exact path)\<lparr>rt_line_start := Some line, rt_line_end := Some line\<rparr>), []))"

definition narrow_by_imports ::
  "database \<Rightarrow> string \<Rightarrow> string \<Rightarrow> symbol list \<Rightarrow> (symbol option, string) result" where
  "narrow_by_imports db from_file name symbols =
     attempt (callee_definitions db from_file name) (\<lambda>narrowed.
       Inr (case narrowed of
              [only] \<Rightarrow> if list_ex (\<lambda>s. identity s = identity only) symbols then Some only else None
            | _ \<Rightarrow> None))"

definition resolve_symbol_name ::
  "database \<Rightarrow> string \<Rightarrow> resolve_options \<Rightarrow> (resolved option, string) result" where
  "resolve_symbol_name db input opts =
     attempt (find_symbols db input) (\<lambda>rows.
       let symbols = retain opts rows
       in if symbols = [] then Inr None
          else (let symbols = sort_definitions symbols;
                    via = (if is_qualified_symbol_name input then Qualified else Unique)
                in attempt
                     (case ro_from_file opts of
                        Some from_file \<Rightarrow> if 1 < length symbols then narrow_by_imports db from_file input symbols else Inr None
                      | None \<Rightarrow> Inr None)
                     (\<lambda>narrowed.
                        case narrowed of
                          Some s \<Rightarrow> Inr (Some (one input Symbol_Target (candidate_of Import s), [s]))
                        | None \<Rightarrow>
                            Inr (Some (new_resolution input Symbol_Target (candidates symbols via (ro_limit opts)) (length symbols)
                                         (count_overloads symbols), symbols)))))"

definition nearest_paths :: "database \<Rightarrow> string \<Rightarrow> resolve_options \<Rightarrow> (target_resolution option, string) result" where
  "nearest_paths db input opts =
     (if CHR ''/'' \<notin> set input \<and> CHR ''.'' \<notin> set input then Inr None
      else attempt (all_file_paths db) (\<lambda>paths.
        let suffix = filter (path_suffix_matches False input) paths;
            (matched, via) = (if suffix = [] then (filter (path_suffix_matches True input) paths, Casefold) else (suffix, Suffix))
        in if matched = [] then Inr None
           else Inr (Some (new_resolution input File_Target
                             (map (file_candidate via) (take (min (ro_limit opts) MAX_NEAREST) matched)) (length matched) 0))))"

section \<open>The resolver\<close>

text \<open>The arms from the indexed path on; each answers or passes on.\<close>

definition resolve_nearest :: "database \<Rightarrow> string \<Rightarrow> string \<Rightarrow> resolve_options \<Rightarrow> (resolved, string) result" where
  "resolve_nearest db trimmed path_input opts =
     attempt (if ro_nearest opts \<and> allows_symbols opts then nearest_symbols db trimmed opts else Inr None) (\<lambda>near.
       case near of
         Some r \<Rightarrow> Inr r
       | None \<Rightarrow>
           attempt (if ro_nearest opts \<and> allows_paths opts then nearest_paths db path_input opts else Inr None) (\<lambda>near.
             case near of
               Some r \<Rightarrow> Inr (r\<lparr>tr_input := trimmed\<rparr>, [])
             | None \<Rightarrow> Inr (text_resolution trimmed, [])))"

definition resolve_names :: "database \<Rightarrow> string \<Rightarrow> string \<Rightarrow> resolve_options \<Rightarrow> (resolved, string) result" where
  "resolve_names db trimmed path_input opts =
     attempt (if allows_symbols opts then resolve_symbol_name db trimmed opts else Inr None) (\<lambda>named.
       case named of
         Some r \<Rightarrow> Inr r
       | None \<Rightarrow>
           attempt (if allows_features opts then load_feature db trimmed else Inr None) (\<lambda>feature.
             case feature of
               Some f \<Rightarrow> Inr (one trimmed Feature_Target (feature_candidate Exact f), [])
             | None \<Rightarrow> resolve_nearest db trimmed path_input opts))"

definition resolve_paths :: "database \<Rightarrow> string \<Rightarrow> string \<Rightarrow> resolve_options \<Rightarrow> (resolved, string) result" where
  "resolve_paths db trimmed path_input opts =
     (if \<not> allows_paths opts then resolve_names db trimmed path_input opts
      else attempt (file_indexed db path_input) (\<lambda>known.
        if known then Inr (one trimmed File_Target (file_candidate Exact path_input), [])
        else (case split_path_line path_input of
                None \<Rightarrow> resolve_names db trimmed path_input opts
              | Some (path, line) \<Rightarrow>
                  attempt (file_indexed db path) (\<lambda>known.
                    if known then resolve_path_line db trimmed path line opts
                    else resolve_names db trimmed path_input opts))))"

definition resolve_symbols :: "database \<Rightarrow> string \<Rightarrow> resolve_options \<Rightarrow> (resolved, string) result" where
  "resolve_symbols db input opts =
     (let trimmed = str_trim input
      in if trimmed = [] then Inr (text_resolution trimmed, [])
         else (case handle_parse trimmed of
                 Some handle \<Rightarrow> resolve_handle db trimmed handle opts
               | None \<Rightarrow>
                   (case (if allows_features opts then strip_prefix ''route:'' trimmed else None) of
                      Some route \<Rightarrow>
                        attempt (resolve_feature_entry db trimmed (str_trim route) Route_Target opts) (\<lambda>r. Inr (r, []))
                    | None \<Rightarrow>
                        (case (if allows_features opts then strip_prefix ''cmd:'' trimmed else None) of
                           Some command \<Rightarrow>
                             attempt (resolve_feature_entry db trimmed (str_trim command) Command_Target opts) (\<lambda>r. Inr (r, []))
                         | None \<Rightarrow> resolve_paths db trimmed (strip_current_dir trimmed) opts))))"

definition resolve_target :: "database \<Rightarrow> string \<Rightarrow> resolve_options \<Rightarrow> (target_resolution, string) result" where
  "resolve_target db input opts = attempt (resolve_symbols db input opts) (\<lambda>r. Inr (fst r))"

definition matched_symbols :: "target_resolution \<Rightarrow> symbol list \<Rightarrow> symbol list" where
  "matched_symbols r symbols = (if guessed r then [] else symbols)"

section \<open>Answers\<close>

lemma attempt_Inr_iff: "attempt r f = Inr b \<longleftrightarrow> (\<exists>a. r = Inr a \<and> f a = Inr b)"
  by (cases r) (simp_all add: attempt_def)

lemma attemptE:
  assumes "attempt r f = Inr b"
  obtains a where "r = Inr a" and "f a = Inr b"
  using assms by (auto simp: attempt_Inr_iff)

lemma attempt_Inr [simp]: "attempt (Inr a) f = f a"
  by (simp add: attempt_def)

lemma answer_Inr_iff: "answer db q a = Inr b \<longleftrightarrow> db_fails db q = None \<and> b = a"
  by (auto simp: answer_def split: option.split)

lemmas query_defs = file_indexed_def symbols_for_file_def find_symbols_def indexed_files_with_prefix_def all_file_paths_def
  load_feature_def list_features_def callee_definitions_def

section \<open>The shape of a resolution\<close>

text \<open>
  The candidates carry the confidence of their way, all of them matches or all of them leads; they are the first of those that
  exist, and those of a symbol resolution stand for the first of the definitions returned with it.
\<close>

definition resolution_ok :: "nat \<Rightarrow> target_resolution \<Rightarrow> symbol list \<Rightarrow> bool" where
  "resolution_ok limit r ss \<longleftrightarrow>
     tr_ambiguous r = (1 < tr_candidates_total r)
     \<and> length (tr_resolved r) \<le> tr_candidates_total r \<and> length (tr_resolved r) \<le> max 1 limit
     \<and> min (tr_candidates_total r) (min limit MAX_NEAREST) \<le> length (tr_resolved r)
     \<and> list_all (\<lambda>c. rt_confidence c = via_confidence (rt_via c)) (tr_resolved r)
     \<and> (list_all confident (tr_resolved r) \<or> list_all (\<lambda>c. \<not> confident c) (tr_resolved r))
     \<and> (if tr_kind r = Symbol_Target
        then tr_candidates_total r = length ss
             \<and> list_all2 (\<lambda>c s. c = candidate_of (rt_via c) s) (tr_resolved r) (take (length (tr_resolved r)) ss)
        else ss = [])"

lemma candidate_of_fields [simp]:
  "rt_via (candidate_of via s) = via" "rt_confidence (candidate_of via s) = via_confidence via"
  "rt_handle (candidate_of via s) = handle_to_string (symbol_handle s)"
  "rt_via (file_candidate via p) = via" "rt_confidence (file_candidate via p) = via_confidence via"
  "rt_via (feature_candidate via f) = via" "rt_confidence (feature_candidate via f) = via_confidence via"
  by (simp_all add: candidate_of_def file_candidate_def feature_candidate_def)

lemma confident_of [simp]:
  "confident (candidate_of via s) \<longleftrightarrow> via \<notin> {Casefold, Suffix}"
  "confident (file_candidate via p) \<longleftrightarrow> via \<notin> {Casefold, Suffix}"
  "confident (feature_candidate via f) \<longleftrightarrow> via \<notin> {Casefold, Suffix}"
  by (simp_all add: confident_def via_confident del: insert_iff)

lemma new_resolution_fields [simp]:
  "tr_input (new_resolution i k cs n v) = i" "tr_kind (new_resolution i k cs n v) = k"
  "tr_resolved (new_resolution i k cs n v) = cs" "tr_ambiguous (new_resolution i k cs n v) = (1 < n)"
  "tr_candidates_total (new_resolution i k cs n v) = n" "tr_overloads (new_resolution i k cs n v) = v"
  by (simp_all add: new_resolution_def)

lemma one_fields [simp]: "tr_kind (one i k c) = k" "tr_resolved (one i k c) = [c]" "tr_input (one i k c) = i"
  by (simp_all add: one_def)

lemma ok_none: "k \<noteq> Symbol_Target \<Longrightarrow> resolution_ok limit (new_resolution i k [] 0 0) []"
  by (simp add: resolution_ok_def)

lemma ok_one:
  "k \<noteq> Symbol_Target \<Longrightarrow> rt_confidence c = via_confidence (rt_via c) \<Longrightarrow> resolution_ok limit (one i k c) []"
  by (auto simp: resolution_ok_def one_def)

lemma ok_candidates:
  "resolution_ok limit (new_resolution i Symbol_Target (candidates ss via limit) (length ss) v) ss"
  by (auto simp: resolution_ok_def candidates_def list_all_iff list_all2_conv_all_nth)

lemma ok_imported: "resolution_ok limit (one i Symbol_Target (candidate_of via s)) [s]"
  by (auto simp: resolution_ok_def one_def)

lemma ok_listed:
  assumes "k \<noteq> Symbol_Target" and "\<And>x. rt_via (f x) = via \<and> rt_confidence (f x) = via_confidence via"
    and "min limit MAX_NEAREST \<le> m" and "m \<le> limit"
  shows "resolution_ok limit (new_resolution i k (map f (take m xs)) (length xs) 0) []"
proof -
  have "confident (f x) = confident (f y)" for x y using assms(2) by (simp add: confident_def)
  then show ?thesis using assms by (auto simp: resolution_ok_def list_all_iff)
qed

text \<open>Leads are below the floor of confidence, and come from answers of the index.\<close>

definition leads :: "symbol set \<Rightarrow> (symbol \<times> resolve_via) list \<Rightarrow> bool" where
  "leads A found \<longleftrightarrow> set found \<subseteq> A \<times> {Casefold, Suffix}"

lemma leads_Nil [simp]: "leads A []"
  by (simp add: leads_def)

lemma leads_sort [simp]: "leads A (sort_key k found) = leads A found"
  by (simp add: leads_def)

lemma push_leads_leads:
  "leads A found \<Longrightarrow> set ss \<subseteq> A \<Longrightarrow> via \<in> {Casefold, Suffix} \<Longrightarrow> leads A (push_leads via ss found)"
proof (induction ss arbitrary: found)
  case (Cons s ss)
  let ?found = "if identity s \<in> set (map (identity \<circ> fst) found) then found else found @ [(s, via)]"
  have "leads A ?found" using Cons.prems by (simp add: leads_def)
  then show ?case using Cons.IH [of ?found] Cons.prems by simp
qed simp

lemma set_retain: "set (retain opts ss) \<subseteq> set ss"
  by (auto simp: retain_def retain_kind_def retain_definitions_def split: option.split)

definition found_in :: "database \<Rightarrow> symbol set" where
  "found_in db = {s. \<exists>name rows. find_symbols db name = Inr rows \<and> s \<in> set rows}"

lemma push_found: "find_symbols db name = Inr rows \<Longrightarrow> leads (found_in db) found \<Longrightarrow> via \<in> {Casefold, Suffix} \<Longrightarrow>
    leads (found_in db) (push_leads via (retain opts rows) found)"
  using set_retain [of opts rows] by (intro push_leads_leads) (auto simp: found_in_def)

lemma casefold_leads_leads:
  "leads (found_in db) found \<Longrightarrow> casefold_leads db opts vs found = Inr found' \<Longrightarrow> leads (found_in db) found'"
proof (induction vs arbitrary: found)
  case (Cons variant vs)
  obtain rows where rows: "find_symbols db variant = Inr rows"
    and rest: "casefold_leads db opts vs (push_leads Casefold (retain opts rows) found) = Inr found'"
    using Cons.prems(2) by (auto simp: attempt_Inr_iff)
  from push_found [OF rows Cons.prems(1)] have "leads (found_in db) (push_leads Casefold (retain opts rows) found)" by simp
  from Cons.IH [OF this rest] show ?case .
qed simp

text \<open>The resolution built from leads.\<close>

definition leads_resolution :: "string \<Rightarrow> resolve_options \<Rightarrow> (symbol \<times> resolve_via) list \<Rightarrow> resolved" where
  "leads_resolution input opts found =
     (new_resolution input Symbol_Target (map (\<lambda>(s, via). candidate_of via s) (take (min (ro_limit opts) MAX_NEAREST) found))
        (length found) 0, map fst found)"

lemma sort_key_Nil_iff: "sort_key k xs = [] \<longleftrightarrow> xs = []"
  by (cases xs) simp_all

lemma nearest_symbols_cases:
  assumes "nearest_symbols db input opts = Inr near"
  obtains "near = None"
  | found where "found \<noteq> []" "leads (found_in db) found" "near = Some (leads_resolution input opts found)"
proof -
  let ?sort = "sort_key (\<lambda>(s, _). (sym_file_path s, sym_line_start s))"
  let ?tail = "\<lambda>found. case last_segment input of
      Some tail \<Rightarrow>
        if found = []
        then attempt (find_symbols db tail) (\<lambda>symbols. Inr (push_leads Suffix (retain opts symbols) found))
        else Inr found
    | None \<Rightarrow> Inr found"
  from assms obtain found where f: "casefold_leads db opts (case_variants input) [] = Inr found"
    and rest: "attempt (?tail found) (\<lambda>found. if found = [] then Inr None
      else Inr (Some (leads_resolution input opts (?sort found)))) = Inr near"
    unfolding nearest_symbols_def leads_resolution_def Let_def by (rule attemptE) simp
  from rest obtain found' where f': "?tail found = Inr found'"
    and near: "near = (if found' = [] then None else Some (leads_resolution input opts (?sort found')))"
    by (rule attemptE) (rule that, assumption, simp split: if_splits)
  have l: "leads (found_in db) found" by (rule casefold_leads_leads [OF leads_Nil f])
  have "leads (found_in db) found'"
  proof (cases "last_segment input")
    case (Some tail)
    show ?thesis
    proof (cases "found = []")
      case True
      then have "attempt (find_symbols db tail) (\<lambda>symbols. Inr (push_leads Suffix (retain opts symbols) found)) = Inr found'"
        using f' Some by simp
      then obtain rows where "find_symbols db tail = Inr rows" "found' = push_leads Suffix (retain opts rows) found"
        by (rule attemptE) simp
      then show ?thesis using push_found [OF _ l] by simp
    qed (use f' Some l in simp)
  qed (use f' l in simp)
  then have "leads (found_in db) (?sort found')" by simp
  moreover have "found' \<noteq> [] \<Longrightarrow> ?sort found' \<noteq> []" by (simp only: sort_key_Nil_iff not_False_eq_True)
  ultimately show ?thesis using near that by (cases "found' = []") auto
qed

text \<open>What a candidate of each kind stands for in the index.\<close>

fun entity :: "database \<Rightarrow> target_kind \<Rightarrow> resolved_target \<Rightarrow> bool" where
  "entity db File_Target c =
     list_ex (\<lambda>p. rt_path c = Some p \<and> rt_handle c = rt_handle (file_candidate Exact p)) (db_files db)"
| "entity db Chunk_Target c =
     (\<exists>p a b. p \<in> set (db_files db) \<and> valid_path p \<and> a \<le> b \<and> rt_handle c = handle_to_string (Chunk p a b) \<and> rt_path c = Some p)"
| "entity db Feature_Target c = list_ex (\<lambda>f. c = feature_candidate Exact f) (db_features db)"
| "entity db Route_Target c = list_ex (\<lambda>f. c = feature_candidate Exact f) (db_features db)"
| "entity db Command_Target c = list_ex (\<lambda>f. c = feature_candidate Exact f) (db_features db)"
| "entity db Text_Target c = False"
| "entity db _ c = True"

text \<open>The definitions any query of the index answers with.\<close>

definition answered :: "database \<Rightarrow> symbol set" where
  "answered db =
     found_in db \<union> {s. \<exists>path rows. symbols_for_file db path = Inr rows \<and> s \<in> set rows}
     \<union> {s. \<exists>from_file name rows. callee_definitions db from_file name = Inr rows \<and> s \<in> set rows}"

definition arm_ok :: "database \<Rightarrow> resolve_options \<Rightarrow> resolved \<Rightarrow> bool" where
  "arm_ok db opts rs \<longleftrightarrow>
     resolution_ok (ro_limit opts) (fst rs) (snd rs) \<and> set (snd rs) \<subseteq> answered db
     \<and> list_all (entity db (tr_kind (fst rs))) (tr_resolved (fst rs))"

lemma arm_ok_symbols:
  "resolution_ok (ro_limit opts) r ss \<Longrightarrow> tr_kind r = Symbol_Target \<Longrightarrow> set ss \<subseteq> answered db \<Longrightarrow> arm_ok db opts (r, ss)"
  by (simp add: arm_ok_def list_all_iff)

lemma arm_ok_others:
  "resolution_ok (ro_limit opts) r [] \<Longrightarrow> list_all (entity db (tr_kind r)) (tr_resolved r) \<Longrightarrow> arm_ok db opts (r, [])"
  by (simp add: arm_ok_def)

lemma set_sort_definitions [simp]: "set (sort_definitions ss) = set ss" "length (sort_definitions ss) = length ss"
  by (simp_all add: sort_definitions_def)

lemma leads_resolution_ok:
  assumes "leads (found_in db) found"
  shows "arm_ok db opts (leads_resolution input opts found)"
  unfolding leads_resolution_def
proof (rule arm_ok_symbols)
  let ?m = "min (ro_limit opts) MAX_NEAREST"
  let ?cs = "map (\<lambda>(s, via). candidate_of via s) (take ?m found)"
  have "via \<in> {Casefold, Suffix}" if "(s, via) \<in> set (take ?m found)" for s via
    using that assms by (auto simp: leads_def dest!: in_set_takeD)
  then have "list_all (\<lambda>c. \<not> confident c) ?cs" "list_all (\<lambda>c. rt_confidence c = via_confidence (rt_via c)) ?cs"
    by (auto simp: list_all_iff)
  moreover have "list_all2 (\<lambda>c s. c = candidate_of (rt_via c) s) ?cs (take (length ?cs) (map fst found))"
    by (auto simp: list_all2_conv_all_nth case_prod_beta)
  ultimately show "resolution_ok (ro_limit opts) (new_resolution input Symbol_Target ?cs (length found) 0) (map fst found)"
    by (simp add: resolution_ok_def)
  show "set (map fst found) \<subseteq> answered db" using assms by (auto simp: leads_def answered_def)
qed simp

lemma arm_ok_input: "arm_ok db opts (r\<lparr>tr_input := i\<rparr>, ss) = arm_ok db opts (r, ss)"
  by (simp add: arm_ok_def resolution_ok_def)

lemma nearest_symbols_ok: "nearest_symbols db input opts = Inr (Some rs) \<Longrightarrow> arm_ok db opts rs"
  by (erule nearest_symbols_cases) (simp_all add: leads_resolution_ok)

lemma found_answered: "find_symbols db name = Inr rows \<Longrightarrow> set (retain opts rows) \<subseteq> answered db"
  using set_retain [of opts rows] by (auto simp: answered_def found_in_def)

lemma moved_definition_ok:
  assumes "moved_definition db input qualified opts = Inr (Some rs)"
  shows "arm_ok db opts rs"
proof -
  obtain rows where rows: "find_symbols db qualified = Inr rows"
    using assms unfolding moved_definition_def by (rule attemptE)
  show ?thesis
  proof (cases "retain opts rows = []")
    case True
    then have "attempt (nearest_symbols db qualified opts)
        (\<lambda>near. Inr (map_option (\<lambda>(r, ss). (r\<lparr>tr_input := input\<rparr>, ss)) near)) = Inr (Some rs)"
      using assms by (simp add: moved_definition_def rows)
    then obtain r ss where "nearest_symbols db qualified opts = Inr (Some (r, ss))" "rs = (r\<lparr>tr_input := input\<rparr>, ss)"
      by (rule attemptE) (auto simp: map_option_case split: option.splits)
    then show ?thesis using nearest_symbols_ok by (simp add: arm_ok_input)
  next
    case False
    let ?ss = "sort_definitions (retain opts rows)"
    have "rs = (new_resolution input Symbol_Target (candidates ?ss Suffix (ro_limit opts)) (length ?ss) 0, ?ss)"
      using assms False by (simp add: moved_definition_def rows Let_def)
    then show ?thesis using found_answered [OF rows] by (simp add: arm_ok_symbols ok_candidates [of _ _ ?ss, simplified])
  qed
qed

lemma set_retain_kind: "set (retain_kind opts ss) \<subseteq> set ss"
  by (auto simp: retain_kind_def split: option.split)

text \<open>The definitions a symbol handle names.\<close>

definition handle_rows :: "resolve_options \<Rightarrow> string \<Rightarrow> u32 option \<Rightarrow> symbol list \<Rightarrow> symbol list" where
  "handle_rows opts qualified line rows =
     sort_definitions (retain_kind opts (filter (\<lambda>s. case line of None \<Rightarrow> True | Some l \<Rightarrow> sym_line_start s = l)
       (filter (\<lambda>s. names s qualified) rows)))"

lemma set_handle_rows: "set (handle_rows opts qualified line rows) \<subseteq> set rows"
  using set_retain_kind [of opts] by (fastforce simp: handle_rows_def)

lemma resolve_symbol_handle_cases:
  assumes "resolve_symbol_handle db input path qualified line opts = Inr rs"
  obtains rows where "symbols_for_file db path = Inr rows"
    "rs = (new_resolution input Symbol_Target (candidates (handle_rows opts qualified line rows) Exact (ro_limit opts))
        (length (handle_rows opts qualified line rows)) (count_overloads (handle_rows opts qualified line rows)),
      handle_rows opts qualified line rows)"
  | "moved_definition db input qualified opts = Inr (Some rs)"
proof -
  obtain rows where rows: "symbols_for_file db path = Inr rows"
    using assms unfolding resolve_symbol_handle_def by (rule attemptE)
  define ss where "ss = handle_rows opts qualified line rows"
  define r where "r = (new_resolution input Symbol_Target (candidates ss Exact (ro_limit opts)) (length ss) (count_overloads ss), ss)"
  have "attempt (if ss = [] \<and> ro_nearest opts then moved_definition db input qualified opts else Inr None)
      (\<lambda>moved. case moved of Some m \<Rightarrow> Inr m | None \<Rightarrow> Inr r) = Inr rs"
    using assms by (simp only: resolve_symbol_handle_def rows attempt_Inr Let_def ss_def handle_rows_def r_def)
  then obtain moved where m: "(if ss = [] \<and> ro_nearest opts then moved_definition db input qualified opts else Inr None) = Inr moved"
    and rs: "(case moved of Some m \<Rightarrow> Inr m | None \<Rightarrow> Inr r) = (Inr rs :: (resolved, string) result)"
    by (rule attemptE)
  show ?thesis
  proof (cases moved)
    case None
    then show ?thesis using rs that(1) [OF rows] by (simp add: r_def ss_def)
  next
    case (Some m')
    then have "moved_definition db input qualified opts = Inr (Some m')" using m by (simp split: if_splits)
    then show ?thesis using that(2) rs Some by simp
  qed
qed

lemma resolve_symbol_handle_ok:
  assumes "resolve_symbol_handle db input path qualified line opts = Inr rs"
  shows "arm_ok db opts rs"
  using assms
proof (cases rule: resolve_symbol_handle_cases)
  case (1 rows)
  have "set (handle_rows opts qualified line rows) \<subseteq> answered db"
    using 1(1) set_handle_rows by (fastforce simp: answered_def)
  then show ?thesis unfolding 1(2) by (intro arm_ok_symbols ok_candidates) simp_all
qed (rule moved_definition_ok)

lemma file_indexed_iff: "file_indexed db p = Inr b \<longleftrightarrow> db_fails db (File_Id p) = None \<and> b = (p \<in> set (db_files db))"
  by (simp add: file_indexed_def answer_Inr_iff)

lemma file_one_ok:
  "p \<in> set (db_files db) \<Longrightarrow> rt_path c = Some p \<Longrightarrow> rt_handle c = rt_handle (file_candidate Exact p) \<Longrightarrow>
    rt_confidence c = via_confidence (rt_via c) \<Longrightarrow> arm_ok db opts (one i File_Target c, [])"
  by (rule arm_ok_others) (auto simp: ok_one list_ex_iff)

lemma feature_one_ok:
  "f \<in> set (db_features db) \<Longrightarrow> arm_ok db opts (one i Feature_Target (feature_candidate Exact f), [])"
  by (rule arm_ok_others) (auto simp: ok_one list_ex_iff)

lemma load_feature_mem: "load_feature db i = Inr (Some f) \<Longrightarrow> f \<in> set (db_features db) \<and> fe_id f = i"
  by (auto simp: load_feature_def answer_Inr_iff find_Some_iff2)

lemma rt_path_file [simp]: "rt_path (file_candidate via p) = Some p" "rt_path (candidate_of via s) = Some (sym_file_path s)"
  by (simp_all add: file_candidate_def candidate_of_def)

lemma resolve_handle_ok:
  assumes "handle_ok h" and "resolve_handle db input h opts = Inr rs"
  shows "arm_ok db opts rs"
proof (cases h)
  case (Symbol path q line)
  then show ?thesis using assms resolve_symbol_handle_ok by simp
next
  case (File path)
  then obtain known where "file_indexed db path = Inr known"
    and "rs = (if known then one input File_Target (file_candidate Exact path) else new_resolution input File_Target [] 0 0, [])"
    using assms(2) by (auto simp: attempt_Inr_iff)
  then show ?thesis by (cases known) (auto simp: file_indexed_iff intro: file_one_ok arm_ok_others ok_none)
next
  case (Dir path)
  then obtain k c where "rs = (if k then one input Dir_Target c else new_resolution input Dir_Target [] 0 0, [])"
    and "rt_confidence c = via_confidence (rt_via c)"
    using assms(2) by (fastforce simp: attempt_Inr_iff Let_def)
  then show ?thesis by (cases k) (auto intro!: arm_ok_others ok_none ok_one)
next
  case (Chunk path first last)
  then obtain known c where k: "file_indexed db path = Inr known"
    and rs: "rs = (if known then one input Chunk_Target c else new_resolution input Chunk_Target [] 0 0, [])"
    and c: "rt_confidence c = via_confidence (rt_via c)" "rt_handle c = handle_to_string (Chunk path first last)" "rt_path c = Some path"
    using assms(2) by (fastforce simp: attempt_Inr_iff)
  show ?thesis
  proof (cases known)
    case True
    then have "entity db Chunk_Target c" using k c assms(1) Chunk by (auto simp: file_indexed_iff)
    then show ?thesis using rs True c(1) by (auto intro!: arm_ok_others ok_one simp del: entity.simps)
  qed (use rs in \<open>auto intro!: arm_ok_others ok_none\<close>)
next
  case (Feature i)
  then obtain found where f: "load_feature db i = Inr found"
    and rs: "rs = (case found of Some f \<Rightarrow> one input Feature_Target (feature_candidate Exact f)
      | None \<Rightarrow> new_resolution input Feature_Target [] 0 0, [])"
    using assms(2) by (auto simp: attempt_Inr_iff)
  then show ?thesis using load_feature_mem
    by (cases found) (auto intro: feature_one_ok arm_ok_others ok_none)
qed

lemma listed_arm_ok:
  assumes "k \<noteq> Symbol_Target" and "\<And>x. rt_via (f x) = via \<and> rt_confidence (f x) = via_confidence via"
    and "min (ro_limit opts) MAX_NEAREST \<le> m" and "m \<le> ro_limit opts" and "\<And>x. x \<in> set xs \<Longrightarrow> entity db k (f x)"
  shows "arm_ok db opts (new_resolution i k (map f (take m xs)) (length xs) 0, [])"
  using ok_listed [OF assms(1-4)] assms(5) by (intro arm_ok_others) (auto simp: list_all_iff dest: in_set_takeD)

lemma resolve_feature_entry_ok:
  assumes "resolve_feature_entry db input entry k opts = Inr r" and k: "k \<in> {Route_Target, Command_Target}"
  shows "arm_ok db opts (r, [])"
proof -
  let ?fk = "if k = Route_Target then Route else CliCommand"
  let ?P = "\<lambda>f. case (if k = Route_Target then fe_entry_route f else fe_entry_command f) of
      None \<Rightarrow> False | Some stored \<Rightarrow> map ascii_lower stored = map ascii_lower entry"
  obtain fs where fs: "list_features db ?fk = Inr fs"
    using assms(1) unfolding resolve_feature_entry_def by (rule attemptE)
  then have "r = new_resolution input k (map (feature_candidate Exact) (take (ro_limit opts) (filter ?P fs))) (length (filter ?P fs)) 0"
    using assms(1) by (simp add: resolve_feature_entry_def Let_def)
  moreover have "entity db k (feature_candidate Exact f)" if "f \<in> set (filter ?P fs)" for f
  proof -
    have "f \<in> set (db_features db)" using fs that by (auto simp: list_features_def answer_Inr_iff)
    then show ?thesis using k by (auto simp: list_ex_iff)
  qed
  ultimately show ?thesis using k by (auto intro!: listed_arm_ok)
qed

lemma max_by_line_mem: "max_by_line ss = Some s \<Longrightarrow> s \<in> set ss"
  by (induction ss arbitrary: s) (auto split: option.splits if_splits)

lemma resolve_path_line_ok:
  assumes "resolve_path_line db input path line opts = Inr rs" and "path \<in> set (db_files db)"
  shows "arm_ok db opts rs"
proof -
  obtain rows where rows: "symbols_for_file db path = Inr rows"
    using assms(1) unfolding resolve_path_line_def by (rule attemptE)
  let ?in = "filter (\<lambda>s. sym_line_start s \<le> line \<and> line \<le> sym_line_end s) (retain opts rows)"
  show ?thesis
  proof (cases "max_by_line ?in")
    case None
    then have "rs = (one input File_Target ((file_candidate Exact path)\<lparr>rt_line_start := Some line, rt_line_end := Some line\<rparr>), [])"
      using assms(1) by (simp add: resolve_path_line_def rows)
    then show ?thesis using assms(2) by (auto intro: file_one_ok)
  next
    case (Some s)
    have "s \<in> set rows" using max_by_line_mem [OF Some] set_retain by fastforce
    then have "set [s] \<subseteq> answered db" using rows by (auto simp: answered_def)
    moreover have "rs = (new_resolution input Symbol_Target (candidates [s] Exact (ro_limit opts)) (length [s])
        (if sym_overloaded s then 1 else 0), [s])"
      using assms(1) Some by (simp add: resolve_path_line_def rows)
    ultimately show ?thesis by (simp only:) (intro arm_ok_symbols ok_candidates; simp)
  qed
qed

lemma narrow_by_imports_mem:
  assumes "narrow_by_imports db from_file name ss = Inr (Some s)"
  shows "s \<in> answered db"
proof -
  obtain rows where rows: "callee_definitions db from_file name = Inr rows"
    using assms unfolding narrow_by_imports_def by (rule attemptE)
  then have "rows = [s]" using assms by (auto simp: narrow_by_imports_def split: list.splits if_splits)
  then have "\<exists>from_file name rows. callee_definitions db from_file name = Inr rows \<and> s \<in> set rows"
    using rows by (intro exI [of _ from_file] exI [of _ name] exI [of _ rows]) simp
  then show ?thesis by (simp add: answered_def)
qed

lemma resolve_symbol_name_ok:
  assumes "resolve_symbol_name db input opts = Inr (Some rs)"
  shows "arm_ok db opts rs"
proof -
  obtain rows where rows: "find_symbols db input = Inr rows"
    using assms unfolding resolve_symbol_name_def by (rule attemptE)
  define ss where "ss = sort_definitions (retain opts rows)"
  define via where "via = (if is_qualified_symbol_name input then Qualified else Unique)"
  let ?narrow = "case ro_from_file opts of
      Some from_file \<Rightarrow> if 1 < length ss then narrow_by_imports db from_file input ss else Inr None | None \<Rightarrow> Inr None"
  have "retain opts rows \<noteq> []" using assms by (auto simp: resolve_symbol_name_def rows)
  then have "attempt ?narrow (\<lambda>narrowed. case narrowed of
      Some s \<Rightarrow> Inr (Some (one input Symbol_Target (candidate_of Import s), [s]))
    | None \<Rightarrow> Inr (Some (new_resolution input Symbol_Target (candidates ss via (ro_limit opts)) (length ss) (count_overloads ss), ss)))
    = Inr (Some rs)"
    using assms unfolding ss_def via_def by (simp add: resolve_symbol_name_def rows Let_def del: set_sort_definitions)
  then obtain narrowed where n: "?narrow = Inr narrowed"
    and rs: "(case narrowed of
      Some s \<Rightarrow> (one input Symbol_Target (candidate_of Import s), [s])
    | None \<Rightarrow> (new_resolution input Symbol_Target (candidates ss via (ro_limit opts)) (length ss) (count_overloads ss), ss)) = rs"
    by (rule attemptE) (rule that, assumption, simp split: option.splits)
  show ?thesis
  proof (cases narrowed)
    case None
    have "set ss \<subseteq> answered db" using found_answered [OF rows] by (simp add: ss_def)
    then show ?thesis using rs None by (auto intro!: arm_ok_symbols ok_candidates)
  next
    case (Some s)
    have "s \<in> answered db" using n Some narrow_by_imports_mem by (auto split: option.splits if_splits)
    then show ?thesis using rs Some by (auto intro!: arm_ok_symbols ok_imported)
  qed
qed

lemma nearest_paths_ok:
  assumes "nearest_paths db input opts = Inr (Some r)"
  shows "arm_ok db opts (r, [])"
proof -
  obtain paths where paths: "all_file_paths db = Inr paths"
    using assms by (auto simp: nearest_paths_def attempt_Inr_iff split: if_splits)
  define folded where "folded = (filter (path_suffix_matches False input) paths = [])"
  define matched where "matched = filter (path_suffix_matches folded input) paths"
  define via where "via = (if folded then Casefold else Suffix)"
  have m: "set matched \<subseteq> set paths" by (auto simp: matched_def)
  have r: "r = new_resolution input File_Target (map (file_candidate via) (take (min (ro_limit opts) MAX_NEAREST) matched)) (length matched) 0"
    using assms by (cases folded) (auto simp: nearest_paths_def paths Let_def folded_def matched_def via_def split: if_splits)
  have "entity db File_Target (file_candidate via p)" if "p \<in> set matched" for p
    using that m paths by (auto simp: all_file_paths_def answer_Inr_iff list_ex_iff file_candidate_def)
  then show ?thesis unfolding r by (auto intro!: listed_arm_ok)
qed

lemma text_ok: "arm_ok db opts (text_resolution i, [])"
  unfolding text_resolution_def by (intro arm_ok_others ok_none) simp_all

lemma resolve_nearest_ok:
  assumes "resolve_nearest db trimmed path_input opts = Inr rs"
  shows "arm_ok db opts rs"
proof -
  obtain near where near: "(if ro_nearest opts \<and> allows_symbols opts then nearest_symbols db trimmed opts else Inr None) = Inr near"
    using assms unfolding resolve_nearest_def by (rule attemptE)
  show ?thesis
  proof (cases near)
    case (Some r)
    then have "nearest_symbols db trimmed opts = Inr (Some rs)"
      using assms near by (auto simp: resolve_nearest_def split: if_splits)
    then show ?thesis by (rule nearest_symbols_ok)
  next
    case None
    then have "attempt (if ro_nearest opts \<and> allows_paths opts then nearest_paths db path_input opts else Inr None) (\<lambda>near.
        case near of Some r \<Rightarrow> Inr (r\<lparr>tr_input := trimmed\<rparr>, []) | None \<Rightarrow> Inr (text_resolution trimmed, [])) = Inr rs"
      using assms near by (simp add: resolve_nearest_def)
    then obtain found where f: "(if ro_nearest opts \<and> allows_paths opts then nearest_paths db path_input opts else Inr None) = Inr found"
      and rs: "rs = (case found of Some r \<Rightarrow> (r\<lparr>tr_input := trimmed\<rparr>, []) | None \<Rightarrow> (text_resolution trimmed, []))"
      by (rule attemptE) (rule that, assumption, simp split: option.splits)
    show ?thesis
    proof (cases found)
      case (Some r)
      then have "nearest_paths db path_input opts = Inr (Some r)" using f by (simp split: if_splits)
      then show ?thesis using nearest_paths_ok rs Some by (simp add: arm_ok_input)
    qed (simp add: rs text_ok)
  qed
qed

lemma resolve_names_ok:
  assumes "resolve_names db trimmed path_input opts = Inr rs"
  shows "arm_ok db opts rs"
proof -
  obtain named where n: "(if allows_symbols opts then resolve_symbol_name db trimmed opts else Inr None) = Inr named"
    using assms unfolding resolve_names_def by (rule attemptE)
  show ?thesis
  proof (cases named)
    case (Some r)
    then have "resolve_symbol_name db trimmed opts = Inr (Some rs)"
      using assms n by (auto simp: resolve_names_def split: if_splits)
    then show ?thesis by (rule resolve_symbol_name_ok)
  next
    case None
    then have "attempt (if allows_features opts then load_feature db trimmed else Inr None) (\<lambda>feature.
        case feature of Some f \<Rightarrow> Inr (one trimmed Feature_Target (feature_candidate Exact f), [])
          | None \<Rightarrow> resolve_nearest db trimmed path_input opts) = Inr rs"
      using assms n by (simp add: resolve_names_def)
    then obtain found where f: "(if allows_features opts then load_feature db trimmed else Inr None) = Inr found"
      and rs: "(case found of Some f \<Rightarrow> Inr (one trimmed Feature_Target (feature_candidate Exact f), [])
        | None \<Rightarrow> resolve_nearest db trimmed path_input opts) = Inr rs"
      by (rule attemptE)
    show ?thesis
    proof (cases found)
      case (Some x)
      then have "load_feature db trimmed = Inr (Some x)" using f by (simp split: if_splits)
      from load_feature_mem [OF this] show ?thesis using rs Some feature_one_ok by auto
    qed (use rs resolve_nearest_ok in simp)
  qed
qed

lemma resolve_paths_ok:
  assumes "resolve_paths db trimmed path_input opts = Inr rs"
  shows "arm_ok db opts rs"
proof (cases "allows_paths opts")
  case True
  obtain known where k: "file_indexed db path_input = Inr known"
    using assms True unfolding resolve_paths_def by (auto simp: attempt_Inr_iff)
  show ?thesis
  proof (cases known)
    case known: True
    then have "rs = (one trimmed File_Target (file_candidate Exact path_input), [])"
      using assms True k by (simp add: resolve_paths_def)
    then show ?thesis using k known by (auto simp: file_indexed_iff intro: file_one_ok)
  next
    case unknown: False
    show ?thesis
    proof (cases "split_path_line path_input")
      case None
      then show ?thesis using assms True k unknown resolve_names_ok by (simp add: resolve_paths_def)
    next
      case (Some pl)
      obtain path line where pl: "pl = (path, line)" by (cases pl)
      have "attempt (file_indexed db path) (\<lambda>known. if known then resolve_path_line db trimmed path line opts
          else resolve_names db trimmed path_input opts) = Inr rs"
        using assms True k unknown Some pl by (simp add: resolve_paths_def)
      then obtain known' where k': "file_indexed db path = Inr known'"
        and rs: "(if known' then resolve_path_line db trimmed path line opts else resolve_names db trimmed path_input opts) = Inr rs"
        by (rule attemptE)
      show ?thesis using rs k' resolve_path_line_ok resolve_names_ok by (cases known') (auto simp: file_indexed_iff)
    qed
  qed
next
  case False
  then show ?thesis using assms resolve_names_ok by (simp add: resolve_paths_def)
qed

lemma resolve_symbols_ok:
  assumes "resolve_symbols db input opts = Inr rs"
  shows "arm_ok db opts rs"
proof -
  let ?t = "str_trim input"
  have entry: "arm_ok db opts rs"
    if "attempt (resolve_feature_entry db ?t e k opts) (\<lambda>r. Inr (r, [])) = Inr rs" "k \<in> {Route_Target, Command_Target}" for e k
    using that resolve_feature_entry_ok by (auto simp: attempt_Inr_iff)
  consider "?t = []" | h where "?t \<noteq> []" "handle_parse ?t = Some h"
    | "?t \<noteq> []" "handle_parse ?t = None" by (cases "handle_parse ?t") auto
  then show ?thesis
  proof cases
    case 1
    then show ?thesis using assms text_ok by (auto simp: resolve_symbols_def Let_def)
  next
    case (2 h)
    then show ?thesis using assms resolve_handle_ok [OF handle_parse_ok] by (simp add: resolve_symbols_def Let_def)
  next
    case 3
    then show ?thesis using assms entry resolve_paths_ok unfolding resolve_symbols_def Let_def
      by (simp split: option.splits)
  qed
qed

section \<open>Retrying with a handle\<close>

text \<open>
  An index as the indexer fills it: no two definitions with the same file, qualified name and line, a qualified name fixes
  the name, valid paths, distinct feature ids of their form, and callees that are definitions of the index.
\<close>

definition overloaded_row :: "database \<Rightarrow> symbol \<Rightarrow> bool" where
  "overloaded_row db s \<longleftrightarrow> 1 < length (filter (\<lambda>t. overload_key t = overload_key s) (db_symbols db))"

definition marked_row :: "database \<Rightarrow> symbol \<Rightarrow> symbol" where
  "marked_row db s = s\<lparr>sym_overloaded := overloaded_row db s\<rparr>"

definition index_ok :: "database \<Rightarrow> bool" where
  "index_ok db \<longleftrightarrow>
     distinct (map identity (db_symbols db)) \<and> list_all indexable (db_symbols db)
     \<and> list_all (\<lambda>s. list_all (\<lambda>t. overload_key s = overload_key t \<longrightarrow> sym_name s = sym_name t) (db_symbols db)) (db_symbols db)
     \<and> list_all valid_path (db_files db)
     \<and> distinct (map fe_id (db_features db)) \<and> list_all (\<lambda>f. handle_ok (Feature (fe_id f))) (db_features db)
     \<and> (\<forall>from_file name. set (db_callees db from_file name) \<subseteq> marked_row db ` set (db_symbols db))"

lemma mark_overloads_count:
  "mark_overloads ss = map (\<lambda>s. s\<lparr>sym_overloaded := 1 < length (filter (\<lambda>t. overload_key t = overload_key s) ss)\<rparr>) ss"
  by (simp add: mark_overloads_def Let_def count_keys_eq)

lemma length_filter_mset:
  assumes "mset xs = mset ys"
  shows "length (filter Q xs) = length (filter Q ys)"
proof -
  have "mset (filter Q xs) = mset (filter Q ys)" using assms by (simp add: mset_filter)
  then show ?thesis by (rule mset_eq_length)
qed

lemma mark_overloads_rows:
  assumes "mset ss = mset (filter P (db_symbols db))"
    and "\<And>s t. s \<in> set (db_symbols db) \<Longrightarrow> t \<in> set (db_symbols db) \<Longrightarrow> P s \<Longrightarrow> overload_key s = overload_key t \<Longrightarrow> P t"
  shows "mark_overloads ss = map (marked_row db) ss"
  unfolding mark_overloads_count
proof (rule map_cong [OF refl])
  fix s assume "s \<in> set ss"
  then have s: "s \<in> set (db_symbols db)" "P s" using mset_eq_setD [OF assms(1)] by auto
  let ?Q = "\<lambda>t. overload_key t = overload_key s"
  have "length (filter ?Q ss) = length (filter ?Q (filter P (db_symbols db)))"
    by (rule length_filter_mset [OF assms(1)])
  also have "filter ?Q (filter P (db_symbols db)) = filter ?Q (db_symbols db)"
    unfolding filter_filter using assms(2) [OF s(1) _ s(2)] by (intro filter_cong) auto
  finally show "s\<lparr>sym_overloaded := 1 < length (filter ?Q ss)\<rparr> = marked_row db s"
    by (simp add: marked_row_def overloaded_row_def)
qed

lemma symbols_for_file_rows:
  "symbols_for_file db path = Inr rows \<Longrightarrow>
    rows = map (marked_row db) (sort_key sym_line_start (filter (\<lambda>s. sym_file_path s = path) (db_symbols db)))"
  unfolding symbols_for_file_def answer_Inr_iff
  by (elim conjE, simp, rule mark_overloads_rows [where P = "\<lambda>s. sym_file_path s = path"]) (auto simp: overload_key_def)

lemma marked_row_fields [simp]:
  "sym_name (marked_row db s) = sym_name s" "sym_qualified_name (marked_row db s) = sym_qualified_name s"
  "sym_file_path (marked_row db s) = sym_file_path s" "sym_line_start (marked_row db s) = sym_line_start s"
  "sym_overloaded (marked_row db s) = overloaded_row db s"
  by (simp_all add: marked_row_def)

lemma same_name:
  "index_ok db \<Longrightarrow> s \<in> set (db_symbols db) \<Longrightarrow> t \<in> set (db_symbols db) \<Longrightarrow> overload_key s = overload_key t \<Longrightarrow>
    sym_name s = sym_name t"
  unfolding index_ok_def list_all_iff by blast

lemma find_symbols_rows:
  assumes "index_ok db" and "find_symbols db name = Inr rows"
  shows "set rows \<subseteq> marked_row db ` set (db_symbols db)"
proof -
  let ?P = "\<lambda>s. (if is_qualified_symbol_name name then sym_qualified_name s else sym_name s) = name"
  have closed: "?P t" if "s \<in> set (db_symbols db)" "t \<in> set (db_symbols db)" "?P s" "overload_key s = overload_key t" for s t
    using that same_name [OF assms(1) that(1,2,4)] by (cases "is_qualified_symbol_name name") (simp_all add: overload_key_def)
  have "mark_overloads (filter ?P (db_symbols db)) = map (marked_row db) (filter ?P (db_symbols db))"
    by (rule mark_overloads_rows [where P = ?P, OF refl]) (rule closed)
  then show ?thesis using assms(2) unfolding find_symbols_def answer_Inr_iff by auto
qed

lemma answered_rows:
  assumes "index_ok db"
  shows "answered db \<subseteq> marked_row db ` set (db_symbols db)"
proof
  fix s assume "s \<in> answered db"
  then consider name rows where "find_symbols db name = Inr rows" "s \<in> set rows"
    | path rows where "symbols_for_file db path = Inr rows" "s \<in> set rows"
    | from_file name rows where "callee_definitions db from_file name = Inr rows" "s \<in> set rows"
    unfolding answered_def found_in_def by blast
  then show "s \<in> marked_row db ` set (db_symbols db)"
  proof cases
    case 1
    then show ?thesis using find_symbols_rows [OF assms] by blast
  next
    case 2
    then show ?thesis using symbols_for_file_rows by fastforce
  next
    case (3 from_file name rows)
    then have "s \<in> set (db_callees db from_file name)" by (simp add: callee_definitions_def answer_Inr_iff)
    then show ?thesis using assms unfolding index_ok_def by blast
  qed
qed

lemma distinct_one: "distinct xs \<Longrightarrow> set xs = {a} \<Longrightarrow> xs = [a]"
  by (cases xs; cases "tl xs") auto

text \<open>The handle of a definition selects that definition alone.\<close>

lemma same_row:
  assumes ok: "index_ok db" and s: "s \<in> set (db_symbols db)" and t: "t \<in> set (db_symbols db)"
    and key: "overload_key t = overload_key s" and line: "overloaded_row db s \<Longrightarrow> sym_line_start t = sym_line_start s"
  shows "t = s"
proof (cases "overloaded_row db s")
  case True
  then have "identity t = identity s" using line key by (simp add: identity_def overload_key_def)
  moreover have "inj_on identity (set (db_symbols db))" using ok by (simp add: index_ok_def distinct_map)
  ultimately show ?thesis using s t by (auto dest: inj_onD)
next
  case False
  let ?f = "filter (\<lambda>t. overload_key t = overload_key s) (db_symbols db)"
  have "s \<in> set ?f" "t \<in> set ?f" using s t key by auto
  moreover have "length ?f \<le> 1" using False by (simp add: overloaded_row_def)
  ultimately show ?thesis by (cases ?f; cases "tl ?f") auto
qed

lemma handle_rows_single:
  assumes ok: "index_ok db" and s: "s \<in> set (db_symbols db)" and rows: "symbols_for_file db (sym_file_path s) = Inr rows"
    and "ro_kind opts = None" and line: "line = (if overloaded_row db s then Some (sym_line_start s) else None)"
  shows "handle_rows opts (sym_qualified_name s) line rows = [marked_row db s]"
proof -
  let ?R = "sort_key sym_line_start (filter (\<lambda>t. sym_file_path t = sym_file_path s) (db_symbols db))"
  let ?P = "\<lambda>t. case line of None \<Rightarrow> True | Some l \<Rightarrow> sym_line_start t = l"
  have q: "sym_qualified_name t \<noteq> []" if "t \<in> set (db_symbols db)" for t
    using ok that by (simp add: index_ok_def list_all_iff indexable_def)
  have "distinct ?R" using ok by (simp add: index_ok_def distinct_map)
  moreover have "set (filter ?P (filter (\<lambda>t. names t (sym_qualified_name s)) ?R)) = {s}"
  proof
    show "set (filter ?P (filter (\<lambda>t. names t (sym_qualified_name s)) ?R)) \<subseteq> {s}"
    proof
      fix t assume "t \<in> set (filter ?P (filter (\<lambda>t. names t (sym_qualified_name s)) ?R))"
      then have t: "t \<in> set (db_symbols db)" "sym_file_path t = sym_file_path s" "names t (sym_qualified_name s)" "?P t" by auto
      then have "overload_key t = overload_key s" using q [of t] by (simp add: names_def overload_key_def)
      moreover have "sym_line_start t = sym_line_start s" if "overloaded_row db s" using t(4) that line by simp
      ultimately show "t \<in> {s}" using same_row [OF ok s t(1)] by simp
    qed
    show "{s} \<subseteq> set (filter ?P (filter (\<lambda>t. names t (sym_qualified_name s)) ?R))"
      using s line by (simp add: names_def)
  qed
  ultimately have "filter ?P (filter (\<lambda>t. names t (sym_qualified_name s)) ?R) = [s]"
    by (intro distinct_one) auto
  moreover have "filter ?P (filter (\<lambda>t. names t (sym_qualified_name s)) (map (marked_row db) ?R)) =
      map (marked_row db) (filter ?P (filter (\<lambda>t. names t (sym_qualified_name s)) ?R))"
    by (cases line) (simp_all add: filter_map comp_def names_def)
  ultimately show ?thesis
    using assms(4) symbols_for_file_rows [OF rows] by (simp add: handle_rows_def retain_kind_def sort_definitions_def)
qed

lemma no_failure:
  assumes "db_fails db = (\<lambda>_. None)"
  shows "answer db q a = Inr a"
  using assms by (simp add: answer_def)

text \<open>A retry with the text of a handle reaches the arm of that handle.\<close>

lemma retry_handle:
  assumes "handle_ok h" "handle_canonical h = h" "str_trim (handle_to_string h) = handle_to_string h" "handle_to_string h \<noteq> []"
  shows "resolve_symbols db (handle_to_string h) opts = resolve_handle db (handle_to_string h) h opts"
  using assms handle_parse_print [of h] by (simp add: resolve_symbols_def Let_def)

definition retried :: "database \<Rightarrow> resolve_options \<Rightarrow> resolved_target \<Rightarrow> resolved_target \<Rightarrow> bool" where
  "retried db opts c c' \<longleftrightarrow>
     (\<exists>r'. resolve_target db (rt_handle c) opts = Inr r' \<and> sole r' = Some c') \<and> rt_handle c' = rt_handle c
     \<and> rt_path c' = rt_path c \<and> rt_via c' = Exact"

lemma retriedI:
  assumes "resolve_symbols db (rt_handle c) opts = Inr (one i k c', ss)" and "rt_handle c' = rt_handle c" and "rt_path c' = rt_path c"
    and "rt_via c' = Exact" and "rt_confidence c' = via_confidence Exact"
  shows "retried db opts c c'"
  using assms by (simp add: retried_def resolve_target_def sole_Some_iff one_def confident_def CONFIDENT_def)

lemma retry_symbol:
  assumes ok: "index_ok db" "db_fails db = (\<lambda>_. None)" and s: "s \<in> set (db_symbols db)"
    and opts: "ro_kind opts = None" "0 < ro_limit opts"
    and trim: "str_trim (rt_handle (candidate_of via (marked_row db s))) = rt_handle (candidate_of via (marked_row db s))"
  shows "retried db opts (candidate_of via (marked_row db s)) (candidate_of Exact (marked_row db s))"
proof -
  let ?s = "marked_row db s"
  let ?h = "symbol_handle ?s" and ?t = "handle_to_string (symbol_handle (marked_row db s))"
  have ix: "indexable s" using ok(1) s by (simp add: index_ok_def list_all_iff)
  define line where "line = (if overloaded_row db s then Some (sym_line_start s) else None)"
  have h: "?h = Symbol (sym_file_path s) (sym_qualified_name s) line"
    using ix by (simp add: symbol_handle_def line_def indexable_def)
  obtain rows where rows: "symbols_for_file db (sym_file_path s) = Inr rows"
    by (simp add: symbols_for_file_def no_failure [OF ok(2)])
  note one_row = handle_rows_single [OF ok(1) s rows opts(1) line_def]
  have "resolve_symbols db ?t opts = resolve_symbol_handle db ?t (sym_file_path s) (sym_qualified_name s) line opts"
    using retry_handle [of ?h db opts] ix trim by (simp add: h indexable_def)
  also have "\<dots> = Inr (new_resolution ?t Symbol_Target (candidates [?s] Exact (ro_limit opts)) 1 (count_overloads [?s]), [?s])"
    unfolding resolve_symbol_handle_def rows attempt_Inr Let_def one_row [unfolded handle_rows_def] by simp
  finally show ?thesis
    using opts(2) by (simp add: retried_def resolve_target_def sole_Some_iff candidates_def)
qed

lemma retry_file:
  assumes ok: "index_ok db" "db_fails db = (\<lambda>_. None)" and p: "p \<in> set (db_files db)"
    and c: "rt_path c = Some p" "rt_handle c = rt_handle (file_candidate Exact p)" and trim: "str_trim (rt_handle c) = rt_handle c"
  shows "retried db opts c (file_candidate Exact p)"
proof -
  have v: "valid_path p" using ok(1) p by (simp add: index_ok_def list_all_iff)
  then have t: "rt_handle c = handle_to_string (File p)" using c(2) by (simp add: file_candidate_def handle_file_def)
  have "resolve_symbols db (rt_handle c) opts = resolve_handle db (rt_handle c) (File p) opts"
    using retry_handle [of "File p" db opts] v trim by (simp add: t)
  then have "resolve_symbols db (rt_handle c) opts = Inr (one (rt_handle c) File_Target (file_candidate Exact p), [])"
    using p by (simp add: file_indexed_def no_failure [OF ok(2)])
  then show ?thesis by (rule retriedI) (use c in simp_all)
qed

lemma retry_chunk:
  assumes ok: "db_fails db = (\<lambda>_. None)" and p: "p \<in> set (db_files db)" "valid_path p" "a \<le> b"
    and c: "rt_path c = Some p" "rt_handle c = handle_to_string (Chunk p a b)" and trim: "str_trim (rt_handle c) = rt_handle c"
  shows "\<exists>c'. retried db opts c c'"
proof -
  have "resolve_symbols db (rt_handle c) opts = resolve_handle db (rt_handle c) (Chunk p a b) opts"
    using retry_handle [of "Chunk p a b" db opts] p trim by (simp add: c(2))
  then have "resolve_symbols db (rt_handle c) opts = Inr (one (rt_handle c) Chunk_Target
      \<lparr>rt_handle = rt_handle c, rt_kind = ''chunk'', rt_path = Some p, rt_line_start = Some a, rt_line_end = Some b,
       rt_is_test = is_test_path p, rt_confidence = via_confidence Exact, rt_via = Exact\<rparr>, [])"
    using p by (simp add: file_indexed_def no_failure [OF ok] c(2))
  from retriedI [OF this] show ?thesis using c by auto
qed

lemma retry_feature:
  assumes ok: "index_ok db" "db_fails db = (\<lambda>_. None)" and f: "f \<in> set (db_features db)"
    and trim: "str_trim (fe_id f) = fe_id f"
  shows "retried db opts (feature_candidate Exact f) (feature_candidate Exact f)"
proof -
  have h: "handle_ok (Feature (fe_id f))" using ok(1) f by (simp add: index_ok_def list_all_iff del: handle_ok.simps)
  then have "fe_id f \<noteq> []" by (auto simp: FEATURE_PREFIX_def strip_prefix_def starts_with_def)
  then have r: "resolve_symbols db (fe_id f) opts = resolve_handle db (fe_id f) (Feature (fe_id f)) opts"
    using retry_handle [of "Feature (fe_id f)" db opts] h trim by simp
  have "find (\<lambda>g. fe_id g = fe_id f) (db_features db) = Some f"
  proof (cases "find (\<lambda>g. fe_id g = fe_id f) (db_features db)")
    case None
    then show ?thesis using f by (auto simp: find_None_iff)
  next
    case (Some g)
    then have "g \<in> set (db_features db)" "fe_id g = fe_id f" by (auto simp: find_Some_iff)
    then show ?thesis using Some f ok(1) by (auto simp: index_ok_def distinct_map dest: inj_onD)
  qed
  then have "resolve_symbols db (fe_id f) opts = Inr (one (fe_id f) Feature_Target (feature_candidate Exact f), [])"
    unfolding r by (simp add: load_feature_def no_failure [OF ok(2)])
  then have "resolve_symbols db (rt_handle (feature_candidate Exact f)) opts =
      Inr (one (fe_id f) Feature_Target (feature_candidate Exact f), [])" by (simp add: feature_candidate_def)
  from retriedI [OF this] show ?thesis by simp
qed

section \<open>The order of definitions\<close>

lemma sort_definitions_stable:
  assumes "mset xs = mset ys" and "inj_on identity (set xs)"
  shows "sort_definitions xs = sort_definitions ys"
proof -
  let ?k = "\<lambda>s. (sym_file_path s, sym_line_start s, sym_qualified_name s)"
  have same: "filter (\<lambda>x. ?k s = ?k x) zs = replicate (count (mset xs) s) s" if "s \<in> set xs" "mset zs = mset xs" for s zs
  proof -
    have "filter (\<lambda>x. ?k s = ?k x) zs = filter ((=) s) zs"
      using assms(2) that mset_eq_setD [OF that(2)] by (intro filter_cong) (auto simp: inj_on_def identity_def)
    then show ?thesis using replicate_count_mset_eq_filter_eq [of zs s] that(2) by simp
  qed
  have "sort_key ?k xs = sort_key ?k ys"
  proof (rule properties_for_sort_key)
    fix s assume "s \<in> set (sort_key ?k ys)"
    then have "s \<in> set xs" using mset_eq_setD [OF assms(1)] by simp
    then show "filter (\<lambda>x. ?k s = ?k x) (sort_key ?k ys) = filter (\<lambda>x. ?k s = ?k x) xs"
      using same [of s "sort_key ?k ys"] same [of s xs] assms(1) by simp
  qed (use assms(1) in simp_all)
  then show ?thesis by (simp add: sort_definitions_def)
qed

lemma find_symbols_stable:
  assumes "mset (db_symbols db) = mset (db_symbols db')" and "db_fails db = db_fails db'"
    and "find_symbols db name = Inr rows"
  obtains rows' where "find_symbols db' name = Inr rows'" and "mset rows' = mset rows"
proof -
  let ?P = "\<lambda>s. (if is_qualified_symbol_name name then sym_qualified_name s else sym_name s) = name"
  have m: "mset (filter ?P (db_symbols db')) = mset (filter ?P (db_symbols db))" using assms(1) by (simp add: mset_filter)
  have "length (filter Q (filter ?P (db_symbols db'))) = length (filter Q (filter ?P (db_symbols db)))" for Q
    by (rule length_filter_mset [OF m])
  then have "mset (mark_overloads (filter ?P (db_symbols db'))) = mset (mark_overloads (filter ?P (db_symbols db)))"
    unfolding mark_overloads_count mset_map m by simp
  then show ?thesis using assms(2,3) that unfolding find_symbols_def answer_Inr_iff by auto
qed

lemma list_all2_take_mem:
  assumes "list_all2 P xs (take n ys)" and "x \<in> set xs"
  obtains y where "y \<in> set ys" and "P x y"
proof -
  obtain i where i: "i < length xs" "xs ! i = x" using assms(2) by (auto simp: in_set_conv_nth)
  have "take n ys ! i \<in> set ys"
    by (rule in_set_takeD [of _ n], rule nth_mem) (use i(1) list_all2_lengthD [OF assms(1)] in simp)
  then show ?thesis using that list_all2_nthD [OF assms(1) i(1)] i(2) by blast
qed

section \<open>Properties\<close>


text \<open>
  C29. A tool that needs one entity gets one or a refusal that says why, and the check never panics: one candidate exactly when a
  single entity matched and is shown, an ambiguity when several matched, and otherwise a miss whose candidates, if any, are
  leads.
\<close>

theorem require_one_decides:
  assumes "resolve_target db input opts = Inr r" and "2 \<le> ro_limit opts"
  shows "\<exists>answer. require_one r = Some answer
    \<and> (case answer of
         Inr c \<Rightarrow> tr_resolved r = [c] \<and> tr_candidates_total r = 1 \<and> confident c
       | Inl (Ambiguous i cs n k) \<Rightarrow> 2 \<le> length cs \<and> length cs \<le> n \<and> cs = tr_resolved r \<and> list_all confident cs
       | Inl (NotFound i cs) \<Rightarrow> cs = tr_resolved r \<and> list_all (\<lambda>c. \<not> confident c) cs
       | Inl (Unsupported i k t) \<Rightarrow> False)"
proof -
  obtain ss where "resolve_symbols db input opts = Inr (r, ss)"
    using assms(1) by (auto simp: resolve_target_def attempt_Inr_iff)
  from resolve_symbols_ok [OF this] have ok: "resolution_ok (ro_limit opts) r ss" by (simp add: arm_ok_def)
  let ?n = "length (tr_resolved r)"
  have amb: "tr_ambiguous r = (1 < tr_candidates_total r)" and n: "?n \<le> tr_candidates_total r"
    "min (tr_candidates_total r) (min (ro_limit opts) MAX_NEAREST) \<le> ?n"
    and all: "list_all confident (tr_resolved r) \<or> list_all (\<lambda>c. \<not> confident c) (tr_resolved r)"
    using ok by (simp_all add: resolution_ok_def)
  show ?thesis
  proof (cases "guessed r")
    case True
    then show ?thesis by (simp add: require_one_def target_error_of_def guessed_def)
  next
    case matched: False
    then have conf: "list_all confident (tr_resolved r)" using all by (auto simp: guessed_def)
    show ?thesis
    proof (cases "tr_ambiguous r")
      case True
      then have "2 \<le> ?n" using amb n(2) assms(2) by (auto simp: MAX_NEAREST_def)
      then show ?thesis using matched True n(1) conf by (simp add: require_one_def target_error_of_def)
    next
      case False
      then have "?n \<le> 1" using amb n(1) by simp
      then consider "tr_resolved r = []" | c where "tr_resolved r = [c]" by (cases "tr_resolved r") auto
      then show ?thesis
      proof cases
        case 1
        then show ?thesis using matched False by (simp add: require_one_def target_error_of_def sole_def)
      next
        case (2 c)
        then have "sole r = Some c" using False conf by (simp add: sole_def)
        then show ?thesis using matched False amb n(1) 2 conf by (simp add: require_one_def target_error_of_def)
      qed
    qed
  qed
qed



section \<open>Examples\<close>

definition example_symbol :: "string \<Rightarrow> u32 \<Rightarrow> symbol" where
  "example_symbol path line =
     \<lparr>sym_name = ''run'', sym_qualified_name = ''run'', sym_kind = SK_Function, sym_file_path = path, sym_line_start = line,
      sym_line_end = line + 2, sym_col_start = 0, sym_col_end = 0, sym_rationale = [], sym_visibility = None,
      sym_signature = None, sym_is_test = False, sym_overloaded = False\<rparr>"

definition example_db :: database where
  "example_db =
     \<lparr>db_symbols = [example_symbol ''b.rs'' 3, example_symbol ''a.rs'' 1], db_files = [''a.rs'', ''b.rs''], db_features = [],
      db_callees = (\<lambda>_ _. []), db_fails = (\<lambda>_. None)\<rparr>"

lemma example_name:
  "str_trim ''run'' = ''run''" "handle_parse ''run'' = None" "strip_prefix ''route:'' ''run'' = None"
  "strip_prefix ''cmd:'' ''run'' = None" "strip_current_dir ''run'' = ''run''" "split_path_line ''run'' = None"
  "is_qualified_symbol_name ''run'' = False"
  by code_simp+

lemma example_found:
  "find_symbols example_db ''run'' = Inr [example_symbol ''b.rs'' 3, example_symbol ''a.rs'' 1]"
  by (simp add: find_symbols_def answer_def example_db_def example_name mark_overloads_count example_symbol_def overload_key_def)

lemma example_order:
  "sort_definitions [example_symbol ''b.rs'' 3, example_symbol ''a.rs'' 1] = [example_symbol ''a.rs'' 1, example_symbol ''b.rs'' 3]"
  by code_simp

lemma example_resolved:
  "resolve_symbols example_db ''run'' default_options =
     Inr (new_resolution ''run'' Symbol_Target [candidate_of Unique (example_symbol ''a.rs'' 1), candidate_of Unique (example_symbol ''b.rs'' 3)] 2 0,
          [example_symbol ''a.rs'' 1, example_symbol ''b.rs'' 3])"
proof -
  have "resolve_symbol_name example_db ''run'' default_options =
      Inr (Some (new_resolution ''run'' Symbol_Target [candidate_of Unique (example_symbol ''a.rs'' 1), candidate_of Unique (example_symbol ''b.rs'' 3)] 2 0,
        [example_symbol ''a.rs'' 1, example_symbol ''b.rs'' 3]))"
    by (simp add: resolve_symbol_name_def example_found default_options_def retain_def retain_kind_def retain_definitions_def
        is_module_declaration_def example_symbol_def [of _ 1, THEN arg_cong [of _ _ sym_kind]]
        example_symbol_def [of _ 3, THEN arg_cong [of _ _ sym_kind]] example_order example_name candidates_def
        DEFAULT_CANDIDATE_LIMIT_def count_overloads_def example_symbol_def [THEN arg_cong [of _ _ sym_overloaded]])
  moreover have "allows_paths default_options" "allows_symbols default_options"
    by (simp_all add: allows_paths_def allows_symbols_def default_options_def)
  moreover have "file_indexed example_db ''run'' = Inr False" by (simp add: file_indexed_def answer_def example_db_def)
  ultimately show ?thesis by (simp add: resolve_symbols_def example_name resolve_paths_def resolve_names_def Let_def)
qed

lemma example_index: "index_ok example_db" "db_fails example_db = (\<lambda>_. None)"
proof -
  have "valid_path ''a.rs''" "valid_path ''b.rs''" by code_simp+
  then show "index_ok example_db"
    by (simp add: index_ok_def example_db_def example_symbol_def identity_def indexable_def overload_key_def)
qed (simp add: example_db_def)

definition example_resolution :: target_resolution where
  "example_resolution =
     new_resolution ''run'' Symbol_Target [candidate_of Unique (example_symbol ''a.rs'' 1), candidate_of Unique (example_symbol ''b.rs'' 3)] 2 0"

lemma example_target: "resolve_target example_db ''run'' default_options = Inr example_resolution"
  by (simp add: resolve_target_def example_resolved example_resolution_def)


theorem require_one_decides_witness:
  "\<exists>answer. require_one example_resolution = Some answer
    \<and> (case answer of
         Inr c \<Rightarrow> tr_resolved example_resolution = [c]
       | Inl (Ambiguous i cs n k) \<Rightarrow> 2 \<le> length cs
       | Inl (NotFound i cs) \<Rightarrow> cs = tr_resolved example_resolution
       | Inl (Unsupported i k t) \<Rightarrow> False)"
proof -
  have "2 \<le> ro_limit default_options" by (simp add: default_options_def DEFAULT_CANDIDATE_LIMIT_def)
  from require_one_decides [OF example_target this] show ?thesis
    by (elim exE conjE) (rule exI, rule conjI, assumption, auto split: sum.splits target_error.splits)
qed



text \<open>The last segment of a path with an extension is the extension.\<close>

lemma last_segment_of_path: "last_segment ''pkg/mod.py'' = Some ''py''"
  by code_simp

text \<open>The input is trimmed before it is read, so the handle of a file whose name ends in a space names another file.\<close>

lemma trimmed_handle_names_other:
  "valid_path ''a '' \<and> handle_parse (handle_to_string (File ''a '')) = Some (File ''a '')
   \<and> handle_parse (str_trim (handle_to_string (File ''a ''))) = Some (File ''a'')"
  by code_simp

end
