(* ===== verification/Spec2Isabelle.thy ===== *)
theory Spec2Isabelle
  imports Symbol_Wire Coordinator Framing Chunk Preproc_Arms Call_Path Scc Overview_Cache Watcher Test_Commands Call_Ledger Brief_Gate Resolver
begin

text \<open>
  A verification library for CodeSage, an indexer of source code that answers questions of coding agents over a
  daemon. The repository is a workspace of seven crates: \<open>protocol\<close> (the values that cross the wire),
  \<open>parser\<close> (discovery, C preprocessing, tree-sitter extraction), \<open>storage\<close> (SQLite), \<open>embed\<close> (chunks and models),
  \<open>graph\<close> (queries over the index), \<open>features\<close> (framework mappers) and \<open>cli\<close> (commands, daemon, file watcher).

  \<^bold>\<open>How the parts interact.\<close> A client's request enters the daemon through the frame reader, is admitted by the work
  coordinator under limits per project and lane, and runs under a work control that the client, a deadline or a
  shutdown may stop; long rankings are computed once per project by the risk cache. The file watcher
  keeps the index current. Sources are prepared for the parser by the export-macro, conditional-arm and
  dead-region passes, split by the chunker for embedding, and named by handles in every answer; the resolver reads what an agent names; the graph crate
  answers call chains and import cycles, and recommends the test commands of a change; every answered call
  is entered in the ledger of its session. Edit hooks receive briefs through a gate that bounds what a session is served.

  \<^bold>\<open>Theories and the sources they model.\<close>
  \<^item> \<open>Rust_Prelude\<close>: strings as UTF-8 bytes, \<open>split\<close>, \<open>strip_prefix\<close>, decimal printing, ordered and hashed maps as
    association lists, checked arithmetic, and the locales \<open>codec\<close> and \<open>transition_system\<close> that the components interpret.
  \<^item> \<open>Protocol_Types\<close>: the string-keyed enumerations, \<open>Symbol\<close> and \<open>Reference\<close> of \<open>protocol/src/lib.rs\<close>.
  \<^item> \<open>Handle\<close>: \<open>protocol/src/handle.rs\<close>, parser, printer, constructors, overload marking. Reading inverts printing (up to one
    slash), parsed paths stay inside the repository, marked overloads are told apart.
  \<^item> \<open>Symbol_Wire\<close>: which fields of a symbol and a reference are written and how they are read back.
  \<^item> \<open>Work\<close>: \<open>protocol/src/work.rs\<close> and \<open>embed/src/run_control.rs\<close>: the cancellation control, sequentially and with registrations and
    cancellations interleaved at every access to the shared byte and the lock.
  \<^item> \<open>Coordinator\<close>: \<open>cli/src/mcp/work.rs\<close>: requests, attachment, queueing, admission and shutdown as one step relation; limits, exact
    project records, fairness, absence of panics.
  \<^item> \<open>Framing\<close>: \<open>cli/src/mcp/framing.rs\<close>: the bounded reader refines an acceptor of whole frames, for every chunking of the input.
  \<^item> \<open>Overview_Cache\<close>: \<open>cli/src/mcp/overview_cache.rs\<close>: each critical section of the cache and all interleavings of requests, producers and
    cancellations; bounds, single flight, no underflow, and that a published ranking is served.
  \<^item> \<open>Watch_Index\<close> and \<open>Watcher\<close>: \<open>cli/src/statewatcher.rs\<close> with \<open>parser/src/detect.rs\<close>: the outcomes of indexing work, and the loop with its
    queues, retries, parking, backoff, cooldown and bounded event queue. No saved file is dropped, removals are exact, the
    watcher leaves only when it owes nothing.
  \<^item> \<open>Chunk\<close>: \<open>embed/src/chunk.rs\<close>: the splitter on bytes, with panicking slices as failures.
  \<^item> \<open>C_Lexer\<close>, \<open>Export_Macro\<close>: \<open>parser/src/export_macro.rs\<close>; \<open>Preproc_Arms\<close>: \<open>parser/src/preproc_arms.rs\<close>; \<open>Dead_Regions\<close>:
    \<open>parser/src/preproc.rs\<close>. The passes keep every offset and line, never panic, stop when told to, and mask only code that is
    provably dead.
  \<^item> \<open>Call_Path\<close>: \<open>graph/src/call_path.rs\<close>: chains are real, shortest, and an unbounded report of none is exhaustive.
  \<^item> \<open>Rust_Text\<close>: paths, Unicode white space, UTF-8, and grouping in ordered maps, for the watcher and the test commands.
  \<^item> \<open>Shell_Words\<close>, \<open>Test_Base\<close>, \<open>Js_Runner\<close>, \<open>Test_Commands\<close>: \<open>graph/src/git_history/test_commands.rs\<close> and its \<open>js_runner.rs\<close>: quoting
    against a reference reader of POSIX shell text, manifest and package memos (the locale \<open>memo_table\<close>), crates and targets, the
    evidence for a JavaScript runner, the commands and their merge. Every command is read back as one command line of its
    runner, no test file is lost, and merging is exact.
  \<^item> \<open>Line_Log\<close>, \<open>Session_Ledger\<close>, \<open>Call_Ledger\<close>: \<open>graph/src/session_ledger.rs\<close>, \<open>cli/src/mcp/ledger.rs\<close> and the append of
    \<open>graph/src/state_file.rs\<close>: logs of lines that survive torn writes (the locale \<open>line_log\<close>), the ledgers of sessions and
    connections with append, reset, prune and read, the handles recorded for a response, and the attribution of calls.
  \<^item> \<open>Brief_Gate\<close>: \<open>cli/src/brief_gate.rs\<close> with the bounded read of \<open>cli/src/fsguard.rs\<close> and the replacement of
    \<open>graph/src/state_file.rs\<close>: budget, repeats and cooldown of a session over all runs, failing closed, the log of fires.
  \<^item> \<open>Target\<close>, \<open>Resolver\<close>: \<open>protocol/src/target.rs\<close> and \<open>graph/src/resolver.rs\<close>: what the text of a target names in an index of
    rows, with failing queries; the shape of every answer, the refusals, an order of candidates that the database cannot
    change, and that the handle of a candidate names that candidate alone.
  \<^item> \<open>Scc\<close>: \<open>graph/src/scc.rs\<close>: the explicit-stack Tarjan search returns exactly the strongly connected components.

  \<^bold>\<open>Conventions.\<close> State is a record, an operation a function on it, an error or panic a branch of a sum or option
  type. Concurrency is a step relation whose steps are the critical sections of the code; its invariants are
  proved through the locale \<open>transition_system\<close>. What lies outside the modelled code (the index's rows, the file
  system, clocks, models) is an argument: a function, a record of answers, or a world that a turn reads.
  Word sizes are kept where a value may wrap (identifiers, reason codes, line numbers); byte offsets, counters and
  milliseconds are natural numbers, with a checked subtraction where the code could underflow.

  \<^bold>\<open>Termination.\<close> Loops are recursive functions with a measure: remaining bytes for the lexer and the passes, unvisited
  symbols for the call walk, unexplored edges for Tarjan, stored rankings for the cache's eviction. No fuel is
  used; where the code may stop early, the model has the same check.

  \<^bold>\<open>Not modelled.\<close> SQL and schema migrations (executed by SQLite), tree-sitter grammars and extraction over their trees,
  ONNX models and vector search, rankings in floating point, framework mappers (tables of patterns), the commands,
  installers and hooks (input and output around the above), and the rendering of JSON. The JSON encoding is serde's; the
  asynchronous runtime appears only as the interleaving of steps.
\<close>

end
